(* ===== verification/Prelude.thy ===== *)
theory Prelude
  imports
    Main
    "HOL-Library.Word"
    "HOL-Library.List_Lexorder"
    "HOL-Library.Sublist"
    "HOL-Library.Monad_Syntax"
begin

text \<open>
  Shared vocabulary of the development: the machine types of the crate, the parts of the Rust
  standard library on slices that the engines use (\<open>partition_point\<close>, checked indexing and
  slicing, \<open>Vec::insert\<close> and \<open>Vec::remove\<close>), the little-endian encoding of integers, and the
  generic lemmas on lists that the component theories share.

  A Rust call that panics (an index out of range, a failed \<open>assert!\<close>, an \<open>unreachable!\<close>) or
  does not return is the value \<^const>\<open>None\<close> of the option monad; a theorem that an operation
  returns therefore also excludes every panic in it.
\<close>

section \<open>Machine types\<close>

type_synonym u8 = "8 word"
type_synonym u32 = "32 word"
type_synonym u64 = "64 word"

text \<open>\<open>i64\<close> in two's complement: the same 64 bits, read by \<^const>\<open>sint\<close>; \<open>wrapping_add\<close> is \<open>+\<close>.\<close>
type_synonym i64 = "64 word"

text \<open>\<open>Vec<u8>\<close>, ordered lexicographically (the order of \<open>HOL-Library.List_Lexorder\<close>).\<close>
type_synonym key = "u8 list"
type_synonym val = "u8 list"

text \<open>Arena indices. The source stores them as \<open>u64\<close> and converts with \<open>as usize\<close>; an arena
  never holds \<open>2 ^ 64\<close> nodes, so the index is a natural number here.\<close>
type_synonym node_id = nat

named_theorems bound_simps \<open>membership of a key in a half-open range\<close>
named_theorems arena_simps \<open>how the arena primitives act on the fields of an engine\<close>

section \<open>Slices and vectors\<close>

text \<open>\<open>slice::partition_point\<close>: the index of the first element that fails the predicate.\<close>
definition partition_point :: "('a \<Rightarrow> bool) \<Rightarrow> 'a list \<Rightarrow> nat" where
  "partition_point P xs = length (takeWhile P xs)"

text \<open>\<open>xs[i]\<close>, which panics out of range.\<close>
definition index :: "'a list \<Rightarrow> nat \<Rightarrow> 'a option" where
  "index xs i = (if i < length xs then Some (xs ! i) else None)"

text \<open>\<open>xs[a..b]\<close>, which panics unless \<open>a <= b <= len\<close>.\<close>
definition slice :: "'a list \<Rightarrow> nat \<Rightarrow> nat \<Rightarrow> 'a list option" where
  "slice xs a b = (if a \<le> b \<and> b \<le> length xs then Some (take (b - a) (drop a xs)) else None)"

text \<open>\<open>Vec::insert\<close> and \<open>Vec::remove\<close>, which panic out of range.\<close>
definition vec_insert :: "nat \<Rightarrow> 'a \<Rightarrow> 'a list \<Rightarrow> 'a list option" where
  "vec_insert i x xs = (if i \<le> length xs then Some (take i xs @ x # drop i xs) else None)"

definition vec_remove :: "nat \<Rightarrow> 'a list \<Rightarrow> 'a list option" where
  "vec_remove i xs = (if i < length xs then Some (take i xs @ drop (Suc i) xs) else None)"

text \<open>\<open>usize\<close> subtraction, which panics on underflow (debug) or yields an index that the next
  slicing panics on (release); either way the call has no result.\<close>
definition checked_sub :: "nat \<Rightarrow> nat \<Rightarrow> nat option" where
  "checked_sub a b = (if b \<le> a then Some (a - b) else None)"

text \<open>\<open>iter().position(..)\<close>: the index of the first element equal to the given one.\<close>
fun position :: "'a \<Rightarrow> 'a list \<Rightarrow> nat option" where
  "position x [] = None"
| "position x (y # ys) = (if x = y then Some 0 else map_option Suc (position x ys))"

lemma partition_point_le: "partition_point P xs \<le> length xs"
  by (simp add: partition_point_def length_takeWhile_le)

lemma partition_point_split:
  "(\<forall>x\<in>set xs. P x) \<Longrightarrow> (ys = [] \<or> \<not> P (hd ys)) \<Longrightarrow> partition_point P (xs @ ys) = length xs"
  by (cases ys) (auto simp: partition_point_def takeWhile_append takeWhile_eq_all_conv [THEN iffD2])

lemma partition_point_Cons:
  "partition_point P (x # xs) = (if P x then Suc (partition_point P xs) else 0)"
  by (simp add: partition_point_def)

lemma partition_point_Nil [simp]: "partition_point P [] = 0"
  by (simp add: partition_point_def)

lemma index_Some [simp]: "i < length xs \<Longrightarrow> index xs i = Some (xs ! i)"
  by (simp add: index_def)

lemma index_None [simp]: "length xs \<le> i \<Longrightarrow> index xs i = None"
  by (simp add: index_def)

lemma index_eq_Some: "index xs i = Some x \<longleftrightarrow> i < length xs \<and> xs ! i = x"
  by (auto simp: index_def)

lemma index_Cons [simp]: "index (x # xs) 0 = Some x" "index (x # xs) (Suc i) = index xs i"
  by (simp_all add: index_def)

lemma index_append_length [simp]: "index (xs @ x # ys) (length xs) = Some x"
  by (simp add: index_def)

lemma vec_insert_append [simp]: "vec_insert (length xs) x (xs @ ys) = Some (xs @ x # ys)"
  by (simp add: vec_insert_def)

lemma vec_remove_append [simp]: "vec_remove (length xs) (xs @ x # ys) = Some (xs @ ys)"
  by (simp add: vec_remove_def)

lemma position_append:
  "x \<notin> set xs \<Longrightarrow> position x (xs @ x # ys) = Some (length xs)"
  by (induction xs) auto

lemma position_Some_split:
  "position x xs = Some i \<Longrightarrow> \<exists>as bs. xs = as @ x # bs \<and> length as = i \<and> x \<notin> set as"
proof (induction xs arbitrary: i)
  case (Cons y ys)
  show ?case
  proof (cases "x = y")
    case True
    with Cons.prems show ?thesis by (intro exI [of _ "[]"] exI [of _ ys]) auto
  next
    case False
    with Cons.prems obtain j where "position x ys = Some j" and i: "i = Suc j" by auto
    with Cons.IH obtain as bs where "ys = as @ x # bs" "length as = j" "x \<notin> set as" by blast
    with False i show ?thesis by (intro exI [of _ "y # as"] exI [of _ bs]) auto
  qed
qed simp

section \<open>Little-endian integers\<close>

text \<open>\<open>to_le_bytes\<close> and \<open>from_le_bytes\<close> for a word of \<open>n\<close> bytes.\<close>
primrec to_le :: "nat \<Rightarrow> 'a::len word \<Rightarrow> u8 list" where
  "to_le 0 w = []"
| "to_le (Suc n) w = ucast w # to_le n (drop_bit 8 w)"

primrec from_le :: "u8 list \<Rightarrow> 'a::len word" where
  "from_le [] = 0"
| "from_le (b # bs) = or (ucast b) (push_bit 8 (from_le bs))"

lemma length_to_le [simp]: "length (to_le n w) = n"
  by (induction n arbitrary: w) auto

lemma from_to_le_take_bit:
  fixes w :: "'a::len word"
  shows "from_le (to_le n w) = take_bit (8 * n) w"
proof (induction n arbitrary: w)
  case (Suc n)
  show ?case
    by (rule bit_word_eqI)
      (auto simp: Suc bit_simps not_less le_Suc_ex algebra_simps)
qed simp

lemma from_to_le:
  fixes w :: "'a::len word"
  shows "LENGTH('a) \<le> 8 * n \<Longrightarrow> from_le (to_le n w) = w"
  by (simp add: from_to_le_take_bit take_bit_word_eq_self)

lemma from_le_drop_ucast:
  fixes bs :: "u8 list"
  assumes "8 * Suc (length bs) \<le> LENGTH('a)"
  shows "ucast (from_le (b # bs) :: 'a::len word) = b"
    and "drop_bit 8 (from_le (b # bs) :: 'a::len word) = take_bit (LENGTH('a) - 8) (from_le bs)"
proof -
  have "8 \<le> LENGTH('a)" using assms by simp
  then show "ucast (from_le (b # bs) :: 'a word) = b"
    by (intro bit_word_eqI) (auto simp: bit_simps)
  show "drop_bit 8 (from_le (b # bs) :: 'a word) = take_bit (LENGTH('a) - 8) (from_le bs)"
    using \<open>8 \<le> LENGTH('a)\<close> by (intro bit_word_eqI) (auto simp: bit_simps dest: bit_imp_le_length)
qed

lemma those_map_Some: "(\<And>x. x \<in> set xs \<Longrightarrow> f x = Some (g x)) \<Longrightarrow> those (map f xs) = Some (map g xs)"
  by (induction xs) auto

end
