(* ===== verification/Ordered_Map.thy ===== *)
theory Ordered_Map
  imports Prelude
begin

text \<open>
  The part of \<open>std::collections::BTreeMap\<close> and \<open>std::ops::Bound\<close> that the crate uses. A map is
  the list of its entries in iteration order, so \<open>len\<close> is the length of the list and iterating
  is walking it; \<open>bt_ok\<close> says that the keys are strictly ascending, which every operation keeps.

  Two interfaces are stated as locales. \<open>ordered_map\<close> is what a lookup returns after an insert
  or a removal. \<open>keyed_update\<close> is any update of a map that only touches the key it is given:
  the effect of running it over a whole batch is proved once there, and used for the delivery of
  a batch to a leaf, to an internal buffer, and to the accumulator of a range scan.
\<close>

section \<open>Entries in key order\<close>

type_synonym ('k, 'v) btmap = "('k \<times> 'v) list"

definition bt_ok :: "('k::linorder, 'v) btmap \<Rightarrow> bool" where
  "bt_ok m \<longleftrightarrow> sorted_wrt (<) (map fst m)"

abbreviation bt_get :: "('k, 'v) btmap \<Rightarrow> 'k \<Rightarrow> 'v option" where
  "bt_get \<equiv> map_of"

abbreviation bt_keys :: "('k, 'v) btmap \<Rightarrow> 'k set" where
  "bt_keys m \<equiv> fst ` set m"

fun bt_insert :: "'k::linorder \<Rightarrow> 'v \<Rightarrow> ('k, 'v) btmap \<Rightarrow> ('k, 'v) btmap" where
  "bt_insert k v [] = [(k, v)]"
| "bt_insert k v ((k', v') # m) =
     (if k < k' then (k, v) # (k', v') # m
      else if k = k' then (k, v) # m
      else (k', v') # bt_insert k v m)"

fun bt_remove :: "'k::linorder \<Rightarrow> ('k, 'v) btmap \<Rightarrow> ('k, 'v) btmap" where
  "bt_remove k [] = []"
| "bt_remove k ((k', v') # m) = (if k = k' then m else (k', v') # bt_remove k m)"

text \<open>\<open>split_off(k)\<close> leaves the keys below \<open>k\<close> in place and returns the others.\<close>
definition bt_split_off :: "'k::linorder \<Rightarrow> ('k, 'v) btmap \<Rightarrow> ('k, 'v) btmap \<times> ('k, 'v) btmap" where
  "bt_split_off k m = (filter (\<lambda>e. fst e < k) m, filter (\<lambda>e. \<not> fst e < k) m)"

text \<open>\<open>append\<close> moves every entry of the second map into the first, overwriting.\<close>
definition bt_append :: "('k::linorder, 'v) btmap \<Rightarrow> ('k, 'v) btmap \<Rightarrow> ('k, 'v) btmap" where
  "bt_append m other = fold (\<lambda>(k, v). bt_insert k v) other m"

text \<open>\<open>collect::<BTreeMap<_, _>>()\<close> on an iterator of entries.\<close>
definition bt_collect :: "('k::linorder \<times> 'v) list \<Rightarrow> ('k, 'v) btmap" where
  "bt_collect es = fold (\<lambda>(k, v). bt_insert k v) es []"

lemma bt_ok_Nil [simp]: "bt_ok []"
  by (simp add: bt_ok_def)

lemma bt_ok_Cons: "bt_ok (e # m) \<longleftrightarrow> (\<forall>k\<in>bt_keys m. fst e < k) \<and> bt_ok m"
  by (auto simp: bt_ok_def)

lemma bt_ok_append:
  "bt_ok (m @ m') \<longleftrightarrow> bt_ok m \<and> bt_ok m' \<and> (\<forall>k\<in>bt_keys m. \<forall>k'\<in>bt_keys m'. k < k')"
  by (auto simp: bt_ok_def sorted_wrt_append)

lemma bt_ok_filter: "bt_ok m \<Longrightarrow> bt_ok (filter P m)"
  by (induction m) (auto simp: bt_ok_Cons)

lemma bt_ok_distinct: "bt_ok m \<Longrightarrow> distinct (map fst m)"
  by (simp add: bt_ok_def strict_sorted_iff)

lemma bt_get_None_iff: "bt_get m k = None \<longleftrightarrow> k \<notin> bt_keys m"
  by (simp add: map_of_eq_None_iff)

lemma bt_get_Some_in: "bt_get m k = Some v \<Longrightarrow> (k, v) \<in> set m"
  by (rule map_of_SomeD)

lemma bt_get_in: "bt_ok m \<Longrightarrow> (k, v) \<in> set m \<Longrightarrow> bt_get m k = Some v"
  by (simp add: bt_ok_distinct)

lemma bt_keys_dom: "bt_keys m = dom (bt_get m)"
  by (simp add: dom_map_of_conv_image_fst)

section \<open>Insertion and removal\<close>

lemma bt_keys_insert [simp]: "bt_keys (bt_insert k v m) = insert k (bt_keys m)"
  by (induction k v m rule: bt_insert.induct) (simp_all add: insert_commute)

lemma bt_ok_insert: "bt_ok m \<Longrightarrow> bt_ok (bt_insert k v m)"
  by (induction k v m rule: bt_insert.induct) (auto simp: bt_ok_Cons)

lemma bt_get_insert: "bt_get (bt_insert k v m) = (bt_get m)(k \<mapsto> v)"
  by (induction m) (auto simp: fun_eq_iff)

lemma bt_keys_remove_sub: "bt_keys (bt_remove k m) \<subseteq> bt_keys m"
  by (induction k m rule: bt_remove.induct) (simp_all add: subset_insertI subset_insertI2 insert_mono)

lemma bt_ok_remove: "bt_ok m \<Longrightarrow> bt_ok (bt_remove k m)"
  using bt_keys_remove_sub by (induction m) (fastforce simp: bt_ok_Cons)+

lemma bt_get_remove: "bt_ok m \<Longrightarrow> bt_get (bt_remove k m) = (bt_get m)(k := None)"
proof (induction m)
  case (Cons e m)
  obtain k' v where e: "e = (k', v)" by fastforce
  show ?case
  proof (cases "k = k'")
    case True
    then have "k \<notin> bt_keys m" using Cons.prems by (auto simp: e bt_ok_Cons)
    then show ?thesis using True by (auto simp: e fun_eq_iff bt_get_None_iff [symmetric])
  next
    case False
    with Cons show ?thesis by (auto simp: e bt_ok_Cons fun_eq_iff)
  qed
qed simp

lemma bt_insert_snoc: "\<forall>k'\<in>bt_keys m. k' < k \<Longrightarrow> bt_insert k v m = m @ [(k, v)]"
  by (induction m) auto

lemma fold_bt_insert_append:
  "bt_ok (m @ es) \<Longrightarrow> fold (\<lambda>(k, v). bt_insert k v) es m = m @ es"
proof (induction es arbitrary: m)
  case (Cons e es)
  obtain k v where e: "e = (k, v)" by fastforce
  have "\<forall>k'\<in>bt_keys m. k' < k" using Cons.prems by (auto simp: e bt_ok_append)
  then have "bt_insert k v m = m @ [e]" by (simp add: bt_insert_snoc e)
  moreover have "fold (\<lambda>(k, v). bt_insert k v) es (m @ [e]) = (m @ [e]) @ es"
    by (rule Cons.IH) (use Cons.prems in simp)
  ultimately show ?case by (simp add: e)
qed simp

lemma bt_append_eq: "bt_ok (m @ other) \<Longrightarrow> bt_append m other = m @ other"
  unfolding bt_append_def by (rule fold_bt_insert_append)

lemma bt_collect_eq: "bt_ok es \<Longrightarrow> bt_collect es = es"
  unfolding bt_collect_def using fold_bt_insert_append [of "[]" es] by simp

section \<open>The map interface\<close>

locale ordered_map =
  fixes get :: "'m \<Rightarrow> 'k \<Rightarrow> 'v option"
    and ins :: "'k \<Rightarrow> 'v \<Rightarrow> 'm \<Rightarrow> 'm"
    and del :: "'k \<Rightarrow> 'm \<Rightarrow> 'm"
    and ok :: "'m \<Rightarrow> bool"
  assumes get_ins: "ok m \<Longrightarrow> get (ins k v m) = (get m)(k \<mapsto> v)"
    and get_del: "ok m \<Longrightarrow> get (del k m) = (get m)(k := None)"
    and ok_ins: "ok m \<Longrightarrow> ok (ins k v m)"
    and ok_del: "ok m \<Longrightarrow> ok (del k m)"
begin

text \<open>Setting a key to an optional value, the common shape of every message application.\<close>

lemma get_alter:
  "ok m \<Longrightarrow> get (case x of None \<Rightarrow> del k m | Some v \<Rightarrow> ins k v m) = (get m)(k := x)"
  by (cases x) (simp_all add: get_ins get_del)

lemma ok_alter: "ok m \<Longrightarrow> ok (case x of None \<Rightarrow> del k m | Some v \<Rightarrow> ins k v m)"
  by (cases x) (simp_all add: ok_ins ok_del)

end

interpretation btm: ordered_map bt_get bt_insert bt_remove bt_ok
  by unfold_locales (simp_all add: bt_get_insert bt_get_remove bt_ok_insert bt_ok_remove)

locale keyed_update =
  fixes get :: "'m \<Rightarrow> 'k \<Rightarrow> 'v option"
    and ok :: "'m \<Rightarrow> bool"
    and upd :: "'k \<Rightarrow> 'x \<Rightarrow> 'm \<Rightarrow> 'm"
    and f :: "'x \<Rightarrow> 'v option \<Rightarrow> 'v option"
  assumes get_upd: "ok m \<Longrightarrow> get (upd k x m) = (get m)(k := f x (get m k))"
    and ok_upd: "ok m \<Longrightarrow> ok (upd k x m)"
begin

lemma ok_batch: "ok m \<Longrightarrow> ok (fold (\<lambda>(k, x). upd k x) batch m)"
  by (induction batch arbitrary: m) (auto simp: ok_upd)

lemma get_batch_other:
  "ok m \<Longrightarrow> k \<notin> fst ` set batch \<Longrightarrow> get (fold (\<lambda>(k, x). upd k x) batch m) k = get m k"
  by (induction batch arbitrary: m) (auto simp: ok_upd get_upd)

lemma get_batch:
  assumes "ok m" and "distinct (map fst batch)"
  shows "get (fold (\<lambda>(k, x). upd k x) batch m) k =
    (case map_of batch k of None \<Rightarrow> get m k | Some x \<Rightarrow> f x (get m k))"
  using assms
proof (induction batch arbitrary: m)
  case (Cons e batch)
  obtain k' x where e: "e = (k', x)" by fastforce
  have ok': "ok (upd k' x m)" using Cons.prems(1) by (rule ok_upd)
  show ?case
  proof (cases "k = k'")
    case True
    then have "k \<notin> fst ` set batch" using Cons.prems(2) e by auto
    with True ok' Cons.prems(1) show ?thesis by (simp add: e get_batch_other get_upd)
  next
    case False
    with Cons.IH [OF ok'] Cons.prems show ?thesis by (simp add: e get_upd split: option.split)
  qed
qed simp

end

text \<open>A map is determined by its lookups.\<close>

lemma bt_ok_unique:
  assumes "bt_ok m" "bt_ok m'" "\<And>k. bt_get m k = bt_get m' k"
  shows "m = m'"
proof -
  have "set m = set m'" using assms bt_get_in bt_get_Some_in by (metis subrelI subset_antisym)
  moreover have "sorted (map fst m)" "sorted (map fst m')" "distinct (map fst m)" "distinct (map fst m')"
    using assms(1,2) by (simp_all add: bt_ok_def strict_sorted_iff)
  moreover have "inj_on fst (set m \<union> set m')" using calculation(1,4) by (simp add: distinct_map)
  ultimately show ?thesis using map_sorted_distinct_set_unique [of fst m m'] by blast
qed

section \<open>Splitting\<close>

lemma bt_get_filter: "bt_ok m \<Longrightarrow> bt_get (filter (\<lambda>e. P (fst e)) m) k = (if P k then bt_get m k else None)"
  by (induction m) (auto simp: bt_ok_Cons map_of_eq_None_iff)

lemma bt_split_off_concat: "bt_ok m \<Longrightarrow> fst (bt_split_off k m) @ snd (bt_split_off k m) = m"
proof (induction m)
  case (Cons e m)
  show ?case
  proof (cases "fst e < k")
    case True
    with Cons show ?thesis by (auto simp: bt_ok_Cons bt_split_off_def)
  next
    case False
    with Cons.prems have "\<forall>e'\<in>set m. \<not> fst e' < k" by (fastforce simp: bt_ok_Cons)
    with False show ?thesis by (simp add: bt_split_off_def)
  qed
qed (simp add: bt_split_off_def)

lemma bt_split_off_append:
  assumes "\<forall>k'\<in>bt_keys m. k' < k" and "\<forall>k'\<in>bt_keys m'. k \<le> k'"
  shows "bt_split_off k (m @ m') = (m, m')"
proof -
  have "filter (\<lambda>e. fst e < k) m = m" "filter (\<lambda>e. \<not> fst e < k) m' = m'"
    using assms by (auto simp: filter_id_conv)
  moreover have "filter (\<lambda>e. fst e < k) m' = []" "filter (\<lambda>e. \<not> fst e < k) m = []"
    using assms by (auto simp: filter_empty_conv)
  ultimately show ?thesis by (simp add: bt_split_off_def)
qed

section \<open>Bounds and ranges\<close>

datatype 'k bound = Included 'k | is_Excluded: Excluded 'k | Unbounded

text \<open>The key of a bound, matched by the pattern \<open>Included(a) | Excluded(a)\<close>.\<close>
fun bound_key :: "'k bound \<Rightarrow> 'k option" where
  "bound_key (Included a) = Some a"
| "bound_key (Excluded a) = Some a"
| "bound_key Unbounded = None"

fun above_lower :: "'k::linorder bound \<Rightarrow> 'k \<Rightarrow> bool" where
  "above_lower (Included a) k = (a \<le> k)"
| "above_lower (Excluded a) k = (a < k)"
| "above_lower Unbounded k = True"

fun below_upper :: "'k::linorder bound \<Rightarrow> 'k \<Rightarrow> bool" where
  "below_upper (Included b) k = (k \<le> b)"
| "below_upper (Excluded b) k = (k < b)"
| "below_upper Unbounded k = True"

definition in_bounds :: "'k::linorder bound \<Rightarrow> 'k bound \<Rightarrow> 'k \<Rightarrow> bool" where
  "in_bounds lo hi k \<longleftrightarrow> above_lower lo k \<and> below_upper hi k"

text \<open>\<open>BTreeMap::range\<close> panics when the start is above the end, and when they are equal and both
  excluded.\<close>
fun range_panics :: "'k::linorder bound \<Rightarrow> 'k bound \<Rightarrow> bool" where
  "range_panics Unbounded hi = False"
| "range_panics lo Unbounded = False"
| "range_panics (Excluded a) (Excluded b) = (b \<le> a)"
| "range_panics (Included a) (Included b) = (b < a)"
| "range_panics (Included a) (Excluded b) = (b < a)"
| "range_panics (Excluded a) (Included b) = (b < a)"

definition bt_range :: "'k::linorder bound \<Rightarrow> 'k bound \<Rightarrow> ('k, 'v) btmap \<Rightarrow> ('k, 'v) btmap option" where
  "bt_range lo hi m =
     (if range_panics lo hi then None else Some (filter (\<lambda>e. in_bounds lo hi (fst e)) m))"

end
