(* ===== verification/Types.thy ===== *)
theory Types
  imports Ordered_Map
begin

text \<open>
  \<open>src/types.rs\<close>: blind updates, messages and their coalescing table, the structure parameters,
  and the vocabulary of invariant violations. The meaning of a message as a transformer of the
  value below it (\<open>msg_effect\<close>) is the specification that the coalescing table, the leaves and
  the reads are proved against.
\<close>

section \<open>Upserts\<close>

datatype upsert_op = Add i64

text \<open>\<open>UpsertOp::apply\<close>: the base is the little-endian reading of an existing value of exactly
  8 bytes, and 0 otherwise; the sum wraps.\<close>
fun upsert_apply :: "upsert_op \<Rightarrow> val option \<Rightarrow> val" where
  "upsert_apply (Add delta) existing =
     (let base = (case existing of
                    Some bytes \<Rightarrow> if length bytes = 8 then from_le bytes else 0
                  | None \<Rightarrow> 0)
      in to_le 8 (base + delta))"

lemma length_upsert_apply [simp]: "length (upsert_apply op v) = 8"
  by (cases op) (simp add: Let_def)

lemma from_le_upsert_apply:
  "from_le (upsert_apply (Add d) v) =
     (case v of Some bytes \<Rightarrow> if length bytes = 8 then from_le bytes else 0 | None \<Rightarrow> 0) + (d :: 64 word)"
  by (simp add: Let_def from_to_le del: to_le.simps)

lemma upsert_apply_twice:
  "upsert_apply (Add d) (Some (upsert_apply (Add d') v)) = upsert_apply (Add (d' + d)) v"
proof -
  have "upsert_apply (Add d) (Some (upsert_apply (Add d') v)) =
      to_le 8 (from_le (upsert_apply (Add d') v) + d)"
    by (subst upsert_apply.simps) (simp add: Let_def del: upsert_apply.simps)
  then show ?thesis
    by (simp only: from_le_upsert_apply) (simp add: Let_def add.assoc del: to_le.simps)
qed

declare upsert_apply.simps [simp del]

section \<open>Messages\<close>

datatype message =
    Put u64 val
  | Delete u64
  | Upsert u64 upsert_op

fun msg_seq :: "message \<Rightarrow> u64" where
  "msg_seq (Put seq v) = seq"
| "msg_seq (Delete seq) = seq"
| "msg_seq (Upsert seq op) = seq"

text \<open>\<open>Message::coalesce\<close>: the first argument is the newer message.\<close>
fun coalesce :: "message \<Rightarrow> message \<Rightarrow> message" where
  "coalesce (Upsert seq op) (Put _ v) = Put seq (upsert_apply op (Some v))"
| "coalesce (Upsert seq op) (Delete _) = Put seq (upsert_apply op None)"
| "coalesce (Upsert seq (Add d)) (Upsert _ (Add d_old)) = Upsert seq (Add (d_old + d))"
| "coalesce newer older = newer"

text \<open>What a message does to the value below it.\<close>
fun msg_effect :: "message \<Rightarrow> val option \<Rightarrow> val option" where
  "msg_effect (Put _ v) below = Some v"
| "msg_effect (Delete _) below = None"
| "msg_effect (Upsert _ op) below = Some (upsert_apply op below)"

lemma coalesce_seq [simp]: "msg_seq (coalesce newer older) = msg_seq newer"
  by (induction newer older rule: coalesce.induct) simp_all

lemma msg_effect_coalesce:
  "msg_effect (coalesce newer older) v = msg_effect newer (msg_effect older v)"
  by (induction newer older rule: coalesce.induct) (simp_all add: upsert_apply_twice)

lemma message_cases [case_names Put Delete Upsert]:
  obtains seq v where "m = Put seq v" | seq where "m = Delete seq" | seq d where "m = Upsert seq (Add d)"
  by (cases m) (metis upsert_op.exhaust)+

text \<open>Which of two adjacent pairs coalesces first does not matter.\<close>

lemma coalesce_assoc: "coalesce (coalesce a b) c = coalesce a (coalesce b c)"
  by (cases a rule: message_cases; cases b rule: message_cases; cases c rule: message_cases)
    (simp_all add: upsert_apply_twice add.assoc)

section \<open>Structure parameters\<close>

record params =
  fanout :: nat
  buffer_capacity :: nat
  leaf_capacity :: nat

definition default_params :: params where
  "default_params = \<lparr>fanout = 4, buffer_capacity = 8, leaf_capacity = 8\<rparr>"

text \<open>The legal ranges, asserted by every constructor.\<close>
definition params_legal :: "params \<Rightarrow> bool" where
  "params_legal p \<longleftrightarrow> fanout p \<ge> 2 \<and> buffer_capacity p \<ge> 1 \<and> leaf_capacity p \<ge> 1"

lemma params_legal_default [simp]: "params_legal default_params"
  by (simp add: params_legal_def default_params_def)

section \<open>Errors\<close>

text \<open>\<open>io::Error\<close>, by the kinds the crate distinguishes.\<close>
datatype io_error = UnexpectedEof | IoOther string

section \<open>Invariant violations\<close>

datatype capacity_kind = BufferKind | LeafKind | FanoutKind

fun capacity_kind_display :: "capacity_kind \<Rightarrow> string" where
  "capacity_kind_display BufferKind = ''buffer (B)''"
| "capacity_kind_display LeafKind = ''leaf (L)''"
| "capacity_kind_display FanoutKind = ''fanout (F)''"

datatype invariant_violation =
    KeyOutsideOwnedRange node_id key
  | PivotsOutOfOrder node_id nat
  | PivotChildMismatch node_id nat nat
  | StaleAncestor key u64 u64
  | UncoalescedBuffer node_id key
  | OverCapacity node_id capacity_kind nat nat
  | UnevenLeafDepth nat nat
  | EmptyNonRootLeaf node_id

end
