(* ===== verification/Node.thy ===== *)
theory Node
  imports Types
begin

text \<open>
  \<open>src/node.rs\<close>: nodes, routing, message application at leaves and in buffers, the read chain,
  range clipping and the sizes a split produces.
\<close>

section \<open>Nodes\<close>

record leaf_entry =
  entry_seq :: u64
  entry_value :: val

type_synonym buffer = "(key, message) btmap"
type_synonym entries = "(key, leaf_entry) btmap"

datatype node =
    Internal "key list" "node_id list" buffer
  | Leaf entries

text \<open>A key equal to a pivot routes to the child on the pivot's right.\<close>
definition route :: "key list \<Rightarrow> key \<Rightarrow> nat" where
  "route pivots k = partition_point (\<lambda>p. p \<le> k) pivots"

datatype delivery =
    DeliveredLeaf bool      \<comment> \<open>\<open>Delivery::Leaf { emptied }\<close>\<close>
  | DeliveredInternal bool  \<comment> \<open>\<open>Delivery::Internal { overflowed }\<close>\<close>

datatype outcome =
    Splits "(key \<times> node_id) list"
  | Removed

lemma route_le: "route ps k \<le> length ps"
  by (simp add: route_def partition_point_le)

lemma route_Nil [simp]: "route [] k = 0"
  by (simp add: route_def)

lemma route_Cons: "route (p # ps) k = (if p \<le> k then Suc (route ps k) else 0)"
  by (simp add: route_def partition_point_Cons)

section \<open>Applying messages\<close>

fun apply_to_leaf :: "key \<Rightarrow> message \<Rightarrow> entries \<Rightarrow> entries" where
  "apply_to_leaf k (Put seq v) es = bt_insert k \<lparr>entry_seq = seq, entry_value = v\<rparr> es"
| "apply_to_leaf k (Delete seq) es = bt_remove k es"
| "apply_to_leaf k (Upsert seq op) es =
     (let existing = bt_get es k;
          v = upsert_apply op (map_option entry_value existing)
      in bt_insert k \<lparr>entry_seq = seq, entry_value = v\<rparr> es)"

definition coalesce_into :: "key \<Rightarrow> message \<Rightarrow> buffer \<Rightarrow> buffer" where
  "coalesce_into k m b =
     (case bt_get b k of
        Some old \<Rightarrow> bt_insert k (coalesce m old) b
      | None \<Rightarrow> bt_insert k m b)"

text \<open>Their effect on the one entry they touch.\<close>
fun leaf_effect :: "message \<Rightarrow> leaf_entry option \<Rightarrow> leaf_entry option" where
  "leaf_effect (Put seq v) e = Some \<lparr>entry_seq = seq, entry_value = v\<rparr>"
| "leaf_effect (Delete seq) e = None"
| "leaf_effect (Upsert seq op) e =
     Some \<lparr>entry_seq = seq, entry_value = upsert_apply op (map_option entry_value e)\<rparr>"

fun buffer_effect :: "message \<Rightarrow> message option \<Rightarrow> message option" where
  "buffer_effect m None = Some m"
| "buffer_effect m (Some old) = Some (coalesce m old)"

lemma apply_to_leaf_alter:
  "apply_to_leaf k m es =
     (case leaf_effect m (bt_get es k) of None \<Rightarrow> bt_remove k es | Some e \<Rightarrow> bt_insert k e es)"
  by (cases m) (simp_all add: Let_def)

lemma coalesce_into_alter:
  "coalesce_into k m b =
     (case buffer_effect m (bt_get b k) of None \<Rightarrow> bt_remove k b | Some x \<Rightarrow> bt_insert k x b)"
  by (simp add: coalesce_into_def split: option.split)

interpretation leaf_upd: keyed_update bt_get bt_ok apply_to_leaf leaf_effect
  by unfold_locales (simp_all add: apply_to_leaf_alter btm.get_alter btm.ok_alter)

interpretation buffer_upd: keyed_update bt_get bt_ok coalesce_into buffer_effect
  by unfold_locales (simp_all add: coalesce_into_alter btm.get_alter btm.ok_alter)

lemma leaf_effect_value:
  "map_option entry_value (leaf_effect m e) = msg_effect m (map_option entry_value e)"
  by (cases m) simp_all

lemma buffer_effect_neq_None [simp]: "buffer_effect m x \<noteq> None"
  by (cases x) simp_all

section \<open>Reads\<close>

definition apply_chain :: "i64 option \<Rightarrow> val option \<Rightarrow> val option" where
  "apply_chain chain existing =
     (case chain of None \<Rightarrow> existing | Some c \<Rightarrow> Some (upsert_apply (Add c) existing))"

lemma apply_chain_None [simp]: "apply_chain None v = v"
  by (simp add: apply_chain_def)

text \<open>Meeting a deeper upsert extends the chain: the running sum stands for the whole stack.\<close>

lemma apply_chain_extend:
  "apply_chain (Some ((case chain of None \<Rightarrow> 0 | Some c \<Rightarrow> c) + d)) v =
     apply_chain chain (Some (upsert_apply (Add d) v))"
  by (cases chain) (simp_all add: apply_chain_def upsert_apply_twice add.commute)

section \<open>Ranges\<close>

definition range_is_empty :: "key bound \<Rightarrow> key bound \<Rightarrow> bool" where
  "range_is_empty lo hi =
     (case (bound_key lo, bound_key hi) of
        (Some a, Some b) \<Rightarrow> a > b \<or> (a = b \<and> (is_Excluded lo \<or> is_Excluded hi))
      | _ \<Rightarrow> False)"

fun clip_lower :: "key bound \<Rightarrow> key \<Rightarrow> key bound" where
  "clip_lower (Included a) pivot = (if a \<ge> pivot then Included a else Included pivot)"
| "clip_lower (Excluded a) pivot = (if a \<ge> pivot then Excluded a else Included pivot)"
| "clip_lower Unbounded pivot = Included pivot"

fun clip_upper :: "key bound \<Rightarrow> key \<Rightarrow> key bound" where
  "clip_upper (Included b) pivot = (if b < pivot then Included b else Excluded pivot)"
| "clip_upper (Excluded b) pivot = (if b < pivot then Excluded b else Excluded pivot)"
| "clip_upper Unbounded pivot = Excluded pivot"

text \<open>Borrowing a bound's key as a slice changes nothing in the model.\<close>
fun bound_as_slice :: "key bound \<Rightarrow> key bound" where
  "bound_as_slice Unbounded = Unbounded"
| "bound_as_slice (Included k) = Included k"
| "bound_as_slice (Excluded k) = Excluded k"

lemma bound_as_slice_id [simp]: "bound_as_slice b = b"
  by (cases b) simp_all

lemma range_is_empty_iff_panics:
  "\<not> range_is_empty lo hi \<Longrightarrow> \<not> range_panics lo hi"
  by (cases lo; cases hi) (auto simp: range_is_empty_def)

lemma range_is_empty_sound: "range_is_empty lo hi \<Longrightarrow> \<not> in_bounds lo hi k"
  by (cases lo; cases hi) (auto simp: in_bounds_def range_is_empty_def)

lemma above_clip_lower: "above_lower (clip_lower lo p) k \<longleftrightarrow> above_lower lo k \<and> p \<le> k"
  by (cases lo) auto

lemma below_clip_upper: "below_upper (clip_upper hi p) k \<longleftrightarrow> below_upper hi k \<and> k < p"
  by (cases hi) auto

section \<open>Split sizes\<close>

text \<open>\<open>partition_sizes\<close> recurses forever on a capacity of 0, which no legal parameters allow.\<close>
partial_function (option) partition_sizes :: "nat \<Rightarrow> nat \<Rightarrow> nat list option" where
  "partition_sizes n cap =
     (if n \<le> cap then Some [n]
      else do {
        let left = n div 2;
        sizes \<leftarrow> partition_sizes left cap;
        rest \<leftarrow> partition_sizes (n - left) cap;
        Some (sizes @ rest)
      })"

declare partition_sizes.simps [code]

lemma sum_list_ge_length: "\<forall>x\<in>set xs. 1 \<le> x \<Longrightarrow> length xs \<le> sum_list xs" for xs :: "nat list"
  by (induction xs) auto

lemma partition_sizes_total:
  assumes "1 \<le> cap"
  shows "\<exists>sz. partition_sizes n cap = Some sz \<and> sum_list sz = n \<and> (\<forall>x\<in>set sz. x \<le> cap) \<and>
    sz \<noteq> [] \<and> (1 \<le> n \<longrightarrow> (\<forall>x\<in>set sz. 1 \<le> x)) \<and> (cap < n \<longrightarrow> 2 \<le> length sz) \<and>
    (2 \<le> cap \<longrightarrow> 2 \<le> n \<longrightarrow> length sz < n)"
  using assms
proof (induction n rule: less_induct)
  case (less n)
  show ?case
  proof (cases "n \<le> cap")
    case True
    then show ?thesis by (simp add: partition_sizes.simps [of n cap])
  next
    case False
    define l where "l = n div 2"
    have n2: "2 \<le> n" using False less.prems by simp
    have l: "1 \<le> l" "l < n" "n - l < n" "1 \<le> n - l" "l \<le> n - l"
      using n2 by (auto simp: l_def)
    obtain a where a: "partition_sizes l cap = Some a" "sum_list a = l" "\<forall>x\<in>set a. x \<le> cap"
      "a \<noteq> []" "\<forall>x\<in>set a. 1 \<le> x"
      using less.IH [OF l(2) less.prems] l(1) by blast
    obtain b where b: "partition_sizes (n - l) cap = Some b" "sum_list b = n - l"
      "\<forall>x\<in>set b. x \<le> cap" "b \<noteq> []" "\<forall>x\<in>set b. 1 \<le> x" "2 \<le> cap \<longrightarrow> 2 \<le> n - l \<longrightarrow> length b < n - l"
      using less.IH [OF l(3) less.prems] l(4) by blast
    have eq: "partition_sizes n cap = Some (a @ b)"
      using False a(1) b(1) by (simp add: partition_sizes.simps [of n cap] l_def)
    have "length a \<le> l" using sum_list_ge_length [OF a(5)] a(2) by simp
    moreover have "2 \<le> cap \<longrightarrow> length b < n - l" using b(6) False by (auto simp: l_def)
    ultimately have "2 \<le> cap \<longrightarrow> length (a @ b) < n" using l by auto
    moreover have "2 \<le> length (a @ b)" using a(4) b(4) by (cases a; cases b) auto
    ultimately show ?thesis using eq a b l by auto
  qed
qed

end
