(* ===== verification/Trace.thy ===== *)
theory Trace
  imports Node
begin

text \<open>
  \<open>src/trace.rs\<close>: the two trace vocabularies, the recorder that feeds both, and the JSON-lines
  form. \<open>serde_json\<close> is a parameter (an encoder and a decoder of one event); only the line
  framing is the crate's own. Replay is in theory \<open>Engine\<close>, since it drives an engine.
\<close>

section \<open>Events\<close>

datatype op_kind = Insert key val

datatype trace_event =
    Op u64 op_kind
  | Get key
  | FlushDecision node_id "nat list" nat

datatype op_kind2 =
    Insert2 key val
  | Delete2 key
  | Upsert2 key upsert_op

datatype trace_event2 =
    Op2 u64 op_kind2
  | Get2 key
  | Scan2 "key bound" "key bound"
  | FlushDecision2 node_id "nat list" nat

section \<open>The recorder\<close>

record recorder =
  v1 :: "trace_event list"
  v2 :: "trace_event2 list"

definition recorder_default :: recorder where
  "recorder_default = \<lparr>v1 = [], v2 = []\<rparr>"

definition rec_op :: "u64 \<Rightarrow> op_kind2 \<Rightarrow> recorder \<Rightarrow> recorder" where
  "rec_op seq op r =
     (let r = (case op of
                 Insert2 k v \<Rightarrow> r\<lparr>v1 := v1 r @ [Op seq (Insert k v)]\<rparr>
               | _ \<Rightarrow> r)
      in r\<lparr>v2 := v2 r @ [Op2 seq op]\<rparr>)"

definition rec_get :: "key \<Rightarrow> recorder \<Rightarrow> recorder" where
  "rec_get k r = r\<lparr>v1 := v1 r @ [Get k], v2 := v2 r @ [Get2 k]\<rparr>"

definition rec_scan :: "key bound \<Rightarrow> key bound \<Rightarrow> recorder \<Rightarrow> recorder" where
  "rec_scan lo hi r = r\<lparr>v2 := v2 r @ [Scan2 lo hi]\<rparr>"

definition rec_flush_decision :: "node_id \<Rightarrow> nat list \<Rightarrow> nat \<Rightarrow> recorder \<Rightarrow> recorder" where
  "rec_flush_decision node child_occupancies chosen r =
     r\<lparr>v1 := v1 r @ [FlushDecision node child_occupancies chosen],
       v2 := v2 r @ [FlushDecision2 node child_occupancies chosen]\<rparr>"

text \<open>The public mutating operations of a complete trace, in order.\<close>
fun event_op :: "trace_event2 \<Rightarrow> op_kind2 option" where
  "event_op (Op2 seq op) = Some op"
| "event_op _ = None"

definition trace_ops :: "trace_event2 list \<Rightarrow> op_kind2 list" where
  "trace_ops es = List.map_filter event_op es"

lemma trace_ops_simps [simp]:
  "trace_ops [] = []"
  "trace_ops (es @ es') = trace_ops es @ trace_ops es'"
  "trace_ops (e # es) = (case event_op e of None \<Rightarrow> [] | Some op \<Rightarrow> [op]) @ trace_ops es"
  by (simp_all add: trace_ops_def List.map_filter_def split: option.split)

text \<open>The part of an event that the closed v1 vocabulary can express.\<close>
fun project_v1 :: "trace_event2 \<Rightarrow> trace_event option" where
  "project_v1 (Op2 seq (Insert2 k v)) = Some (Op seq (Insert k v))"
| "project_v1 (Op2 seq _) = None"
| "project_v1 (Get2 k) = Some (Get k)"
| "project_v1 (Scan2 lo hi) = None"
| "project_v1 (FlushDecision2 n occ c) = Some (FlushDecision n occ c)"

definition v1_view :: "recorder \<Rightarrow> bool" where
  "v1_view r \<longleftrightarrow> v1 r = List.map_filter project_v1 (v2 r)"

lemma v1_view_default: "v1_view recorder_default"
  by (simp add: v1_view_def recorder_default_def List.map_filter_def)

lemma v1_view_op: "v1_view r \<Longrightarrow> v1_view (rec_op seq op r)"
  by (cases op) (simp_all add: v1_view_def rec_op_def List.map_filter_def)

lemma v1_view_get: "v1_view r \<Longrightarrow> v1_view (rec_get k r)"
  by (simp add: v1_view_def rec_get_def List.map_filter_def)

lemma v1_view_scan: "v1_view r \<Longrightarrow> v1_view (rec_scan lo hi r)"
  by (simp add: v1_view_def rec_scan_def List.map_filter_def)

lemma v1_view_flush_decision: "v1_view r \<Longrightarrow> v1_view (rec_flush_decision n occ c r)"
  by (simp add: v1_view_def rec_flush_decision_def List.map_filter_def)

lemmas v1_view_intros = v1_view_default v1_view_op v1_view_get v1_view_scan v1_view_flush_decision

lemma trace_ops_rec [simp]:
  "trace_ops (v2 (rec_op seq op r)) = trace_ops (v2 r) @ [op]"
  "trace_ops (v2 (rec_get k r)) = trace_ops (v2 r)"
  "trace_ops (v2 (rec_scan lo hi r)) = trace_ops (v2 r)"
  "trace_ops (v2 (rec_flush_decision n occ c r)) = trace_ops (v2 r)"
  by (cases op; simp add: rec_op_def rec_get_def rec_scan_def rec_flush_decision_def)
    (simp_all add: rec_get_def rec_scan_def rec_flush_decision_def)

section \<open>JSON lines\<close>

definition newline :: char where
  "newline = CHR 0x0A"

text \<open>\<open>to_jsonl\<close>: one encoded event per line; the encoder may fail.\<close>
fun to_jsonl :: "(trace_event \<Rightarrow> string option) \<Rightarrow> trace_event list \<Rightarrow> string option" where
  "to_jsonl enc [] = Some ''''"
| "to_jsonl enc (e # es) =
     do { line \<leftarrow> enc e; rest \<leftarrow> to_jsonl enc es; Some (line @ newline # rest) }"

text \<open>\<open>str::lines\<close>: split at line feeds, drop a carriage return before them; a final line feed
  does not start another line.\<close>
definition strip_cr :: "string \<Rightarrow> string" where
  "strip_cr line = (if line \<noteq> [] \<and> last line = CHR 0x0D then butlast line else line)"

fun lines_from :: "string \<Rightarrow> string \<Rightarrow> string list" where
  "lines_from acc [] = (if acc = [] then [] else [acc])"
| "lines_from acc (c # cs) =
     (if c = newline then strip_cr acc # lines_from [] cs else lines_from (acc @ [c]) cs)"

text \<open>\<open>str::trim\<close> on ASCII; JSON lines hold no other white space outside strings.\<close>
definition is_space :: "char \<Rightarrow> bool" where
  "is_space c \<longleftrightarrow> c \<in> {CHR 0x09, CHR 0x0A, CHR 0x0B, CHR 0x0C, CHR 0x0D, CHR '' ''}"

text \<open>\<open>collect\<close> into a \<open>Result\<close>: the first failing line fails the whole parse.\<close>
fun collect_lines :: "(string \<Rightarrow> trace_event option) \<Rightarrow> string list \<Rightarrow> trace_event list option" where
  "collect_lines dec [] = Some []"
| "collect_lines dec (l # ls) =
     do { e \<leftarrow> dec l; es \<leftarrow> collect_lines dec ls; Some (e # es) }"

definition from_jsonl :: "(string \<Rightarrow> trace_event option) \<Rightarrow> string \<Rightarrow> trace_event list option" where
  "from_jsonl dec input =
     collect_lines dec (filter (\<lambda>line. \<not> list_all is_space line) (lines_from [] input))"

text \<open>What the framing needs of \<open>serde_json\<close> on the events written: an event is encoded on one
  line that is not blank and does not end in a carriage return, and decodes to itself.\<close>
definition json_faithful :: "(trace_event \<Rightarrow> string option) \<Rightarrow> (string \<Rightarrow> trace_event option) \<Rightarrow>
    trace_event \<Rightarrow> bool" where
  "json_faithful enc dec e \<longleftrightarrow>
     (case enc e of
        None \<Rightarrow> False
      | Some line \<Rightarrow> newline \<notin> set line \<and> \<not> list_all is_space line \<and> last line \<noteq> CHR 0x0D \<and>
          dec line = Some e)"

lemma lines_from_line:
  "newline \<notin> set line \<Longrightarrow>
     lines_from acc (line @ newline # rest) = strip_cr (acc @ line) # lines_from [] rest"
  by (induction line arbitrary: acc) auto

lemma jsonl_round_trip_aux:
  "\<forall>e\<in>set es. json_faithful enc dec e \<Longrightarrow>
     \<exists>text. to_jsonl enc es = Some text \<and> from_jsonl dec text = Some es"
proof (induction es)
  case Nil
  then show ?case by (simp add: from_jsonl_def)
next
  case (Cons e es)
  then obtain rest where rest: "to_jsonl enc es = Some rest" "from_jsonl dec rest = Some es"
    by auto
  from Cons.prems obtain line where line: "enc e = Some line" "newline \<notin> set line"
    "\<not> list_all is_space line" "last line \<noteq> CHR 0x0D" "dec line = Some e"
    by (auto simp: json_faithful_def split: option.splits)
  then have "strip_cr line = line" by (simp add: strip_cr_def)
  with line rest show ?case by (simp add: from_jsonl_def lines_from_line)
qed

end
