(* ===== verification/Engine.thy ===== *)
theory Engine
  imports Trace
begin

text \<open>
  \<open>src/engine.rs\<close> and the replay functions of \<open>src/trace.rs\<close>. The trait \<open>KvEngine\<close> is a record
  of its methods; a method that panics or does not return yields \<^const>\<open>None\<close>. What the trait
  promises (\<open>docs/SPEC.md\<close>, "Semantics", "Reads", "Range scans") is the locale \<open>kv_engine\<close>: an
  invariant, an abstract map, and the effect of every method on both. Runs of operations and the
  two replays are proved there once, for every engine that implements the trait.
\<close>

section \<open>Errors\<close>

text \<open>\<open>DiskError\<close> of \<open>src/disk.rs\<close>; the reason of a corrupt record is the check that failed.\<close>

datatype corrupt_reason =
    HeaderOutsideData nat
  | PayloadPastWatermark nat nat
  | ChecksumMismatch u32 u32
  | Undecodable string
  | ArityMismatch nat nat
  | ChildOffsetOutside nat nat

datatype disk_error =
    Io io_error
  | CorruptNode nat corrupt_reason
  | NoValidSuperblock
  | UnsupportedVersion u32
  | NotEmpty nat
  | NodeTooLarge nat
  | Poisoned

datatype engine_error = Storage disk_error

section \<open>The trait\<close>

record 'e kv_ops =
  kv_new :: "params \<Rightarrow> 'e option"
  kv_insert :: "key \<Rightarrow> val \<Rightarrow> 'e \<Rightarrow> 'e option"
  kv_delete :: "key \<Rightarrow> 'e \<Rightarrow> 'e option"
  kv_upsert :: "key \<Rightarrow> upsert_op \<Rightarrow> 'e \<Rightarrow> 'e option"
  kv_scan :: "key bound \<Rightarrow> key bound \<Rightarrow> 'e \<Rightarrow> ((engine_error + (key \<times> val) list) \<times> 'e) option"
  kv_get :: "key \<Rightarrow> 'e \<Rightarrow> (val option \<times> 'e) option"
  kv_check_invariants :: "'e \<Rightarrow> (invariant_violation + unit) option"
  kv_trace :: "'e \<Rightarrow> trace_event list"
  kv_trace2 :: "'e \<Rightarrow> trace_event2 list"

text \<open>One recorded mutating operation, applied to an engine and to the abstract map.\<close>

fun kv_apply :: "'e kv_ops \<Rightarrow> op_kind2 \<Rightarrow> 'e \<Rightarrow> 'e option" where
  "kv_apply E (Insert2 k v) e = kv_insert E k v e"
| "kv_apply E (Delete2 k) e = kv_delete E k e"
| "kv_apply E (Upsert2 k op) e = kv_upsert E k op e"

fun op_effect :: "op_kind2 \<Rightarrow> (key \<rightharpoonup> val) \<Rightarrow> (key \<rightharpoonup> val)" where
  "op_effect (Insert2 k v) m = m(k \<mapsto> v)"
| "op_effect (Delete2 k) m = m(k := None)"
| "op_effect (Upsert2 k op) m = m(k \<mapsto> upsert_apply op (m k))"

definition ops_effect :: "op_kind2 list \<Rightarrow> (key \<rightharpoonup> val) \<Rightarrow> (key \<rightharpoonup> val)" where
  "ops_effect ops m = fold op_effect ops m"

lemma ops_effect_simps [simp]:
  "ops_effect [] m = m"
  "ops_effect (op # ops) m = ops_effect ops (op_effect op m)"
  "ops_effect (ops @ ops') m = ops_effect ops' (ops_effect ops m)"
  by (simp_all add: ops_effect_def)

text \<open>\<open>replay\<close> and \<open>replay2\<close>: a fresh engine, then the \<open>Op\<close> events in order.\<close>

fun replay_event :: "'e kv_ops \<Rightarrow> trace_event \<Rightarrow> 'e \<Rightarrow> 'e option" where
  "replay_event E (Op seq (Insert k v)) e = kv_insert E k v e"
| "replay_event E (Get k) e = Some e"
| "replay_event E (FlushDecision n occ c) e = Some e"

fun replay2_event :: "'e kv_ops \<Rightarrow> trace_event2 \<Rightarrow> 'e \<Rightarrow> 'e option" where
  "replay2_event E (Op2 seq op) e = kv_apply E op e"
| "replay2_event E (Get2 k) e = Some e"
| "replay2_event E (Scan2 lo hi) e = Some e"
| "replay2_event E (FlushDecision2 n occ c) e = Some e"

fun run_events :: "('x \<Rightarrow> 'e \<Rightarrow> 'e option) \<Rightarrow> 'x list \<Rightarrow> 'e \<Rightarrow> 'e option" where
  "run_events f [] e = Some e"
| "run_events f (x # xs) e = do { e \<leftarrow> f x e; run_events f xs e }"

definition replay :: "'e kv_ops \<Rightarrow> params \<Rightarrow> trace_event list \<Rightarrow> 'e option" where
  "replay E p events = do { e \<leftarrow> kv_new E p; run_events (replay_event E) events e }"

definition replay2 :: "'e kv_ops \<Rightarrow> params \<Rightarrow> trace_event2 list \<Rightarrow> 'e option" where
  "replay2 E p events = do { e \<leftarrow> kv_new E p; run_events (replay2_event E) events e }"

text \<open>A call of a client, reads included; the values read are dropped.\<close>

datatype kv_call = Mutate op_kind2 | Read key | Range "key bound" "key bound"

fun kv_step :: "'e kv_ops \<Rightarrow> kv_call \<Rightarrow> 'e \<Rightarrow> 'e option" where
  "kv_step E (Mutate op) e = kv_apply E op e"
| "kv_step E (Read k) e = do { (v, e) \<leftarrow> kv_get E k e; Some e }"
| "kv_step E (Range lo hi) e = do { (r, e) \<leftarrow> kv_scan E lo hi e; Some e }"

section \<open>What the trait promises\<close>

locale kv_engine =
  fixes E :: "'e kv_ops"
    and inv :: "'e \<Rightarrow> bool"
    and abs :: "'e \<Rightarrow> (key \<rightharpoonup> val)"
  assumes new_ok: "params_legal p \<Longrightarrow>
      \<exists>e. kv_new E p = Some e \<and> inv e \<and> abs e = Map.empty \<and> kv_trace2 E e = []"
    and apply_ok: "inv e \<Longrightarrow>
      \<exists>e'. kv_apply E op e = Some e' \<and> inv e' \<and> abs e' = op_effect op (abs e) \<and>
        trace_ops (kv_trace2 E e') = trace_ops (kv_trace2 E e) @ [op]"
    and get_ok: "inv e \<Longrightarrow>
      \<exists>e'. kv_get E k e = Some (abs e k, e') \<and> inv e' \<and> abs e' = abs e \<and>
        trace_ops (kv_trace2 E e') = trace_ops (kv_trace2 E e)"
    and scan_ok: "inv e \<Longrightarrow>
      \<exists>r e'. kv_scan E lo hi e = Some (Inr r, e') \<and> inv e' \<and> abs e' = abs e \<and> bt_ok r \<and>
        (\<forall>k. map_of r k = (if in_bounds lo hi k then abs e k else None)) \<and>
        trace_ops (kv_trace2 E e') = trace_ops (kv_trace2 E e)"
begin

lemma run_ops_ok:
  "inv e \<Longrightarrow> \<exists>e'. run_events (kv_apply E) ops e = Some e' \<and> inv e' \<and>
     abs e' = ops_effect ops (abs e) \<and>
     trace_ops (kv_trace2 E e') = trace_ops (kv_trace2 E e) @ ops"
proof (induction ops arbitrary: e)
  case (Cons op ops)
  obtain e1 where e1: "kv_apply E op e = Some e1" "inv e1" "abs e1 = op_effect op (abs e)"
    "trace_ops (kv_trace2 E e1) = trace_ops (kv_trace2 E e) @ [op]"
    using apply_ok [OF Cons.prems] by blast
  with Cons.IH [OF e1(2)] show ?case by auto
qed simp

text \<open>Replay only sees the mutating operations.\<close>

lemma replay2_events_eq:
  "run_events (replay2_event E) events e = run_events (kv_apply E) (trace_ops events) e"
proof (induction events arbitrary: e)
  case (Cons ev events)
  then show ?case by (cases ev) (simp_all add: bind_eq_Some_conv split: Option.bind_splits)
qed simp

text \<open>The contents of an engine are what the mutations in its trace spell out, and every call keeps it so.\<close>

lemma step_explained:
  assumes "inv e" "abs e = ops_effect (trace_ops (kv_trace2 E e)) Map.empty"
  shows "\<exists>e'. kv_step E call e = Some e' \<and> inv e' \<and> abs e' = ops_effect (trace_ops (kv_trace2 E e')) Map.empty"
proof (cases call)
  case (Mutate op)
  show ?thesis using apply_ok [OF assms(1), of op] assms(2) by (auto simp: Mutate)
next
  case (Read k)
  show ?thesis using get_ok [OF assms(1), of k] assms(2) by (auto simp: Read)
next
  case (Range lo hi)
  show ?thesis using scan_ok [OF assms(1), of lo hi] assms(2) by (auto simp: Range)
qed

text \<open>A trace, whatever reads and flush decisions it holds, replays to the map of its mutations.\<close>

lemma replay2_ok:
  assumes "params_legal p"
  shows "\<exists>e. replay2 E p events = Some e \<and> inv e \<and> abs e = ops_effect (trace_ops events) Map.empty"
proof -
  obtain e0 where e0: "kv_new E p = Some e0" "inv e0" "abs e0 = Map.empty" using new_ok [OF assms] by blast
  from run_ops_ok [OF e0(2), of "trace_ops events"] e0 show ?thesis by (auto simp: replay2_def replay2_events_eq)
qed

end

end
