(* ===== verification/Naive.thy ===== *)
theory Naive
  imports Engine
begin

text \<open>
  \<open>src/naive.rs\<close>: the reference engine, a shell around an ordered map. It is the oracle of the
  test harnesses; here it is the first implementation of the interface of theory \<open>Engine\<close>.
\<close>

record naive_engine =
  n_map :: "(key, val) btmap"
  n_next_seq :: u64
  n_trace :: recorder

definition naive_new :: "params \<Rightarrow> naive_engine option" where
  "naive_new p = Some \<lparr>n_map = [], n_next_seq = 0, n_trace = recorder_default\<rparr>"

definition naive_insert :: "key \<Rightarrow> val \<Rightarrow> naive_engine \<Rightarrow> naive_engine option" where
  "naive_insert k v e =
     (let e = e\<lparr>n_next_seq := n_next_seq e + 1\<rparr>;
          e = e\<lparr>n_trace := rec_op (n_next_seq e) (Insert2 k v) (n_trace e)\<rparr>
      in Some (e\<lparr>n_map := bt_insert k v (n_map e)\<rparr>))"

definition naive_delete :: "key \<Rightarrow> naive_engine \<Rightarrow> naive_engine option" where
  "naive_delete k e =
     (let e = e\<lparr>n_next_seq := n_next_seq e + 1\<rparr>;
          e = e\<lparr>n_trace := rec_op (n_next_seq e) (Delete2 k) (n_trace e)\<rparr>
      in Some (e\<lparr>n_map := bt_remove k (n_map e)\<rparr>))"

definition naive_upsert :: "key \<Rightarrow> upsert_op \<Rightarrow> naive_engine \<Rightarrow> naive_engine option" where
  "naive_upsert k op e =
     (let e = e\<lparr>n_next_seq := n_next_seq e + 1\<rparr>;
          e = e\<lparr>n_trace := rec_op (n_next_seq e) (Upsert2 k op) (n_trace e)\<rparr>;
          v = upsert_apply op (bt_get (n_map e) k)
      in Some (e\<lparr>n_map := bt_insert k v (n_map e)\<rparr>))"

definition naive_scan :: "key bound \<Rightarrow> key bound \<Rightarrow> naive_engine \<Rightarrow>
    ((engine_error + (key \<times> val) list) \<times> naive_engine) option" where
  "naive_scan lo hi e =
     (let e = e\<lparr>n_trace := rec_scan lo hi (n_trace e)\<rparr>
      in if range_is_empty lo hi then Some (Inr [], e)
         else do { r \<leftarrow> bt_range lo hi (n_map e); Some (Inr r, e) })"

definition naive_get :: "key \<Rightarrow> naive_engine \<Rightarrow> (val option \<times> naive_engine) option" where
  "naive_get k e =
     (let e = e\<lparr>n_trace := rec_get k (n_trace e)\<rparr> in Some (bt_get (n_map e) k, e))"

definition naive_check_invariants :: "naive_engine \<Rightarrow> (invariant_violation + unit) option" where
  "naive_check_invariants e = Some (Inr ())"

definition NaiveEngine :: "naive_engine kv_ops" where
  "NaiveEngine = \<lparr>kv_new = naive_new, kv_insert = naive_insert, kv_delete = naive_delete,
     kv_upsert = naive_upsert, kv_scan = naive_scan, kv_get = naive_get,
     kv_check_invariants = naive_check_invariants,
     kv_trace = (\<lambda>e. v1 (n_trace e)), kv_trace2 = (\<lambda>e. v2 (n_trace e))\<rparr>"

definition naive_inv :: "naive_engine \<Rightarrow> bool" where
  "naive_inv e \<longleftrightarrow> bt_ok (n_map e)"

definition naive_abs :: "naive_engine \<Rightarrow> (key \<rightharpoonup> val)" where
  "naive_abs e = bt_get (n_map e)"

lemmas naive_defs = naive_new_def naive_insert_def naive_delete_def naive_upsert_def
  naive_scan_def naive_get_def NaiveEngine_def naive_inv_def naive_abs_def

lemma naive_apply_ok:
  assumes "naive_inv e"
  shows "\<exists>e'. kv_apply NaiveEngine op e = Some e' \<and> naive_inv e' \<and>
    naive_abs e' = op_effect op (naive_abs e) \<and>
    trace_ops (kv_trace2 NaiveEngine e') = trace_ops (kv_trace2 NaiveEngine e) @ [op]"
  using assms
  by (cases op) (simp_all add: naive_defs Let_def bt_ok_insert bt_ok_remove bt_get_insert bt_get_remove)

lemma naive_scan_ok:
  assumes "naive_inv e"
  shows "\<exists>r e'. kv_scan NaiveEngine lo hi e = Some (Inr r, e') \<and> naive_inv e' \<and>
    naive_abs e' = naive_abs e \<and> bt_ok r \<and>
    (\<forall>k. map_of r k = (if in_bounds lo hi k then naive_abs e k else None)) \<and>
    trace_ops (kv_trace2 NaiveEngine e') = trace_ops (kv_trace2 NaiveEngine e)"
proof (cases "range_is_empty lo hi")
  case True
  with assms show ?thesis by (simp add: naive_defs Let_def range_is_empty_sound)
next
  case False
  with assms show ?thesis
    by (simp add: naive_defs Let_def bt_range_def range_is_empty_iff_panics bt_ok_filter bt_get_filter)
qed

interpretation naive: kv_engine NaiveEngine naive_inv naive_abs
proof unfold_locales
  show "\<exists>e. kv_new NaiveEngine p = Some e \<and> naive_inv e \<and> naive_abs e = Map.empty \<and>
      kv_trace2 NaiveEngine e = []" for p
    by (simp add: naive_defs recorder_default_def)
  show "\<exists>e'. kv_get NaiveEngine k e = Some (naive_abs e k, e') \<and> naive_inv e' \<and>
      naive_abs e' = naive_abs e \<and>
      trace_ops (kv_trace2 NaiveEngine e') = trace_ops (kv_trace2 NaiveEngine e)"
    if "naive_inv e" for e k
    using that by (simp add: naive_defs Let_def)
qed (simp_all add: naive_apply_ok naive_scan_ok)

end
