(* ===== verification/Policy.thy ===== *)
theory Policy
  imports Node
begin

text \<open>
  \<open>src/policy.rs\<close>: the context of a flush decision, the policy interface and its baseline
  \<open>GreedyFullest\<close>. A policy object is its state together with its \<open>choose\<close> method, which may
  change the state. The contract of the trait is the locale \<open>flush_policy\<close>.
\<close>

record flush_ctx =
  ctx_node :: node_id
  ctx_depth :: nat
  child_pending :: "nat list"
  child_pending_bytes :: "nat list"
  child_dirty :: "bool list"
  buffer_total :: nat
  ctx_ops_since_commit :: u64

record 'p policy =
  policy_state :: 'p
  policy_choose :: "'p \<Rightarrow> flush_ctx \<Rightarrow> nat \<times> 'p"

text \<open>\<open>GreedyFullest::pick\<close>: a strictly-greater scan, so the lowest index wins ties.\<close>
definition pick :: "nat list \<Rightarrow> nat" where
  "pick pending =
     fold (\<lambda>(i, count) chosen. if count > pending ! chosen then i else chosen)
       (enumerate 0 pending) 0"

definition greedy_choose :: "unit \<Rightarrow> flush_ctx \<Rightarrow> nat \<times> unit" where
  "greedy_choose st ctx = (pick (child_pending ctx), ())"

definition GreedyFullest :: "unit policy" where
  "GreedyFullest = \<lparr>policy_state = (), policy_choose = greedy_choose\<rparr>"

text \<open>The bytes one buffered entry takes in a node record.\<close>
fun message_bytes :: "message \<Rightarrow> nat" where
  "message_bytes (Put seq v) = 4 + 8 + 8 + length v"
| "message_bytes (Delete seq) = 4 + 8"
| "message_bytes (Upsert seq op) = 4 + 8 + 4 + 8"

definition entry_bytes :: "key \<Rightarrow> message \<Rightarrow> nat" where
  "entry_bytes k m = (let key_bytes = 8 + length k in key_bytes + message_bytes m)"

section \<open>The baseline picks the fullest child\<close>

lemma pick_scan:
  fixes xs :: "nat list"
  assumes "c < length xs" "\<forall>j<n. xs ! j \<le> xs ! c" "\<forall>j<c. xs ! j < xs ! c" "c < Suc n"
    and "zs = drop n xs" "n \<le> length xs"
  shows "let r = fold (\<lambda>(i, x) c. if x > xs ! c then i else c) (enumerate n zs) c in
    r < length xs \<and> (\<forall>j<length xs. xs ! j \<le> xs ! r) \<and> (\<forall>j<r. xs ! j < xs ! r)"
  using assms
proof (induction zs arbitrary: n c)
  case Nil
  then show ?case by simp
next
  case (Cons z zs)
  have n: "n < length xs" using Cons.prems(5) by (cases "n < length xs") auto
  have z: "z = xs ! n" and zs: "zs = drop (Suc n) xs"
    using Cons.prems(5) by (simp_all add: Cons_nth_drop_Suc [OF n, symmetric])
  define c' where "c' = (if z > xs ! c then n else c)"
  have "let r = fold (\<lambda>(i, x) c. if x > xs ! c then i else c) (enumerate (Suc n) zs) c' in
    r < length xs \<and> (\<forall>j<length xs. xs ! j \<le> xs ! r) \<and> (\<forall>j<r. xs ! j < xs ! r)"
  proof (rule Cons.IH)
    show "c' < length xs" using n Cons.prems(1) by (simp add: c'_def)
    show "\<forall>j<Suc n. xs ! j \<le> xs ! c'"
    proof (intro allI impI)
      fix j assume "j < Suc n"
      then have "xs ! j \<le> xs ! c \<or> j = n" using Cons.prems(2) by (simp add: less_Suc_eq) blast
      then show "xs ! j \<le> xs ! c'" using z by (auto simp: c'_def)
    qed
    show "\<forall>j<c'. xs ! j < xs ! c'"
    proof (intro allI impI)
      fix j assume "j < c'"
      then have "j < c \<and> c' = c \<or> xs ! j \<le> xs ! c \<and> c' = n \<and> xs ! c < xs ! n"
        using Cons.prems(2) z by (auto simp: c'_def split: if_splits)
      then show "xs ! j < xs ! c'" using Cons.prems(3) by auto
    qed
    show "c' < Suc (Suc n)" using Cons.prems(4) by (simp add: c'_def)
  qed (use zs n in auto)
  then show ?case by (simp add: c'_def Let_def)
qed

lemma pick_fullest:
  assumes "xs \<noteq> []"
  shows "pick xs < length xs" "\<forall>j<length xs. xs ! j \<le> xs ! pick xs" "\<forall>j<pick xs. xs ! j < xs ! pick xs"
  using pick_scan [of 0 xs 0 xs] assms by (simp_all add: pick_def Let_def)

section \<open>The contract of the trait\<close>

definition has_pending :: "nat list \<Rightarrow> bool" where
  "has_pending occ \<longleftrightarrow> (\<exists>x\<in>set occ. 0 < x)"

definition legal_target :: "nat list \<Rightarrow> nat \<Rightarrow> bool" where
  "legal_target occ c \<longleftrightarrow> c < length occ \<and> 0 < occ ! c"

locale flush_policy =
  fixes pol :: "'p \<Rightarrow> flush_ctx \<Rightarrow> nat \<times> 'p"
  assumes choose_legal:
    "has_pending (child_pending ctx) \<Longrightarrow> legal_target (child_pending ctx) (fst (pol p ctx))"
begin

lemma choose_in_range:
  "has_pending (child_pending ctx) \<Longrightarrow> fst (pol p ctx) < length (child_pending ctx)"
  using choose_legal by (simp add: legal_target_def)

end

lemma pick_legal: "has_pending occ \<Longrightarrow> legal_target occ (pick occ)"
proof -
  assume "has_pending occ"
  then obtain j where j: "j < length occ" "0 < occ ! j" by (auto simp: has_pending_def in_set_conv_nth)
  then have "occ \<noteq> []" by auto
  from pick_fullest [OF this] j show ?thesis by (fastforce simp: legal_target_def)
qed

interpretation greedy: flush_policy greedy_choose
  by unfold_locales (simp add: greedy_choose_def pick_legal)

text \<open>A policy object honours the contract when its \<open>choose\<close> does, in every state it can reach.\<close>
definition policy_legal :: "'p policy \<Rightarrow> bool" where
  "policy_legal pol \<longleftrightarrow>
     (\<forall>p ctx. has_pending (child_pending ctx) \<longrightarrow>
        legal_target (child_pending ctx) (fst (policy_choose pol p ctx)))"

lemma policy_legal_iff: "policy_legal pol \<longleftrightarrow> flush_policy (policy_choose pol)"
  by (auto simp: policy_legal_def flush_policy_def)

lemma policy_legal_greedy [simp]: "policy_legal GreedyFullest"
  using greedy.flush_policy_axioms by (simp add: policy_legal_iff GreedyFullest_def)

end
