(* ===== verification/Format.thy ===== *)
theory Format
  imports Node
begin

text \<open>
  \<open>src/format.rs\<close>: the layout of the file, superblock slots and node records. The serialiser
  (\<open>bincode\<close>) and the checksum (\<open>crc32fast\<close>) are not part of the crate: they are the fields of a
  \<open>codec\<close> that every definition takes as an argument, and what the crate relies on is stated by
  \<open>superblock_codec_ok\<close> and \<open>node_codec_ok\<close>: what was encoded is decoded again, from the front of
  whatever bytes follow.
\<close>

type_synonym bytes = "u8 list"

section \<open>Constants\<close>

definition SUPERBLOCK_SLOT_SIZE :: nat where
  "SUPERBLOCK_SLOT_SIZE = 4096"

definition SUPERBLOCK_SLOTS :: "nat list" where
  "SUPERBLOCK_SLOTS = [0, SUPERBLOCK_SLOT_SIZE]"

definition DATA_START :: nat where
  "DATA_START = 2 * SUPERBLOCK_SLOT_SIZE"

definition RECORD_HEADER_SIZE :: nat where
  "RECORD_HEADER_SIZE = 8"

text \<open>\<open>b"BEET"\<close>.\<close>
definition MAGIC :: bytes where
  "MAGIC = [66, 69, 69, 84]"

definition FORMAT_VERSION :: u32 where
  "FORMAT_VERSION = 2"

section \<open>Data\<close>

record superblock =
  sb_magic :: bytes
  sb_format_version :: u32
  sb_params :: params
  sb_last_seq :: u64
  sb_generation :: u64
  sb_root_offset :: u64
  sb_watermark :: u64

text \<open>What \<open>decode_slot\<close> made of a slot image.\<close>
datatype slot_status = Valid superblock | WrongVersion u32 | Invalid

text \<open>A node as it lies in a record: children are file offsets.\<close>
datatype disk_node =
    DiskInternal "key list" "nat list" buffer
  | DiskLeaf entries

text \<open>\<open>bincode::serde\<close> for the two serialised types (an encoder gives the bytes or fails, a decoder
  the value and the number of bytes read or a reason), and \<open>crc32fast::hash\<close>.\<close>
record codec =
  enc_superblock :: "superblock \<Rightarrow> bytes option"
  dec_superblock :: "bytes \<Rightarrow> (superblock \<times> nat) option"
  enc_node :: "disk_node \<Rightarrow> bytes option"
  dec_node :: "bytes \<Rightarrow> string + disk_node \<times> nat"
  crc32 :: "bytes \<Rightarrow> u32"

section \<open>Superblock slots\<close>

text \<open>\<open>encode_into_slice\<close> fails when the payload does not fit.\<close>
definition encode_slot :: "codec \<Rightarrow> superblock \<Rightarrow> io_error + bytes" where
  "encode_slot cd sb =
     (let crc_at = SUPERBLOCK_SLOT_SIZE - 4 in
      case enc_superblock cd sb of
        None \<Rightarrow> Inl (IoOther ''encode'')
      | Some payload \<Rightarrow>
          if length payload > crc_at then Inl (IoOther ''encode'')
          else (let body = payload @ replicate (crc_at - length payload) 0
                in Inr (body @ to_le 4 (crc32 cd body))))"

definition geometry_ok :: "superblock \<Rightarrow> bool" where
  "geometry_ok sb \<longleftrightarrow>
     sb_watermark sb \<ge> of_nat DATA_START \<and> sb_root_offset sb \<ge> of_nat DATA_START \<and>
     sb_root_offset sb \<le> sb_watermark sb - of_nat RECORD_HEADER_SIZE"

definition decode_slot :: "codec \<Rightarrow> bytes \<Rightarrow> slot_status" where
  "decode_slot cd slot =
     (if length slot \<noteq> SUPERBLOCK_SLOT_SIZE then Invalid
      else (let crc_at = length slot - 4; stored = from_le (drop crc_at slot) in
        if crc32 cd (take crc_at slot) \<noteq> stored then Invalid
        else (case dec_superblock cd (take crc_at slot) of
                None \<Rightarrow> Invalid
              | Some (sb, _) \<Rightarrow>
                  if sb_magic sb \<noteq> MAGIC then Invalid
                  else if sb_format_version sb \<noteq> FORMAT_VERSION then WrongVersion (sb_format_version sb)
                  else if geometry_ok sb \<and> params_legal (sb_params sb) then Valid sb
                  else Invalid)))"

section \<open>Node records\<close>

definition encode_node :: "codec \<Rightarrow> disk_node \<Rightarrow> io_error + bytes" where
  "encode_node cd n = (case enc_node cd n of None \<Rightarrow> Inl (IoOther ''encode'') | Some bs \<Rightarrow> Inr bs)"

text \<open>A record that decodes in fewer bytes than it carries is corrupt.\<close>
definition decode_node :: "codec \<Rightarrow> bytes \<Rightarrow> string + disk_node" where
  "decode_node cd payload =
     (case dec_node cd payload of
        Inl e \<Rightarrow> Inl e
      | Inr (n, r) \<Rightarrow> if r \<noteq> length payload then Inl ''trailing bytes'' else Inr n)"

section \<open>What the crate relies on\<close>

definition superblock_codec_ok :: "codec \<Rightarrow> superblock \<Rightarrow> bool" where
  "superblock_codec_ok cd sb \<longleftrightarrow>
     (\<exists>bs. enc_superblock cd sb = Some bs \<and> length bs \<le> SUPERBLOCK_SLOT_SIZE - 4 \<and>
       (\<forall>rest. dec_superblock cd (bs @ rest) = Some (sb, length bs)))"

definition node_codec_ok :: "codec \<Rightarrow> disk_node \<Rightarrow> bool" where
  "node_codec_ok cd n \<longleftrightarrow> (\<forall>bs. enc_node cd n = Some bs \<longrightarrow> dec_node cd bs = Inr (n, length bs))"

text \<open>A superblock that this build would write: legal in every field.\<close>
definition superblock_ok :: "superblock \<Rightarrow> bool" where
  "superblock_ok sb \<longleftrightarrow> sb_magic sb = MAGIC \<and> sb_format_version sb = FORMAT_VERSION \<and>
     geometry_ok sb \<and> params_legal (sb_params sb)"

lemma from_to_le_32 [simp]: "from_le (to_le 4 (w :: 32 word)) = w"
  by (rule from_to_le) simp

lemma encode_slot_ok:
  assumes "superblock_codec_ok cd sb"
  shows "\<exists>slot. encode_slot cd sb = Inr slot \<and> length slot = SUPERBLOCK_SLOT_SIZE \<and>
    decode_slot cd slot =
      (if sb_magic sb \<noteq> MAGIC then Invalid
       else if sb_format_version sb \<noteq> FORMAT_VERSION then WrongVersion (sb_format_version sb)
       else if geometry_ok sb \<and> params_legal (sb_params sb) then Valid sb else Invalid)"
proof -
  obtain bs where bs: "enc_superblock cd sb = Some bs" "length bs \<le> 4092"
    "\<And>rest. dec_superblock cd (bs @ rest) = Some (sb, length bs)"
    using assms by (auto simp: superblock_codec_ok_def SUPERBLOCK_SLOT_SIZE_def)
  define body where "body = bs @ replicate (4092 - length bs) 0"
  have "length body = 4092" using bs(2) by (simp add: body_def)
  moreover have "dec_superblock cd body = Some (sb, length bs)" by (simp add: body_def bs(3))
  moreover have "encode_slot cd sb = Inr (body @ to_le 4 (crc32 cd body))"
    using bs(1,2) by (simp add: encode_slot_def SUPERBLOCK_SLOT_SIZE_def body_def)
  ultimately show ?thesis by (auto simp: decode_slot_def SUPERBLOCK_SLOT_SIZE_def)
qed

lemma decode_slot_valid:
  "decode_slot cd slot = Valid sb \<Longrightarrow> superblock_ok sb \<and> length slot = SUPERBLOCK_SLOT_SIZE"
  by (auto simp: decode_slot_def superblock_ok_def Let_def split: if_splits option.splits)

text \<open>Nothing wraps in the geometry check: in natural numbers the root record's header lies between
  the start of the data region and the watermark.\<close>

lemma geometry_ok_nat:
  assumes "geometry_ok sb"
  shows "DATA_START \<le> unat (sb_root_offset sb)"
    "unat (sb_root_offset sb) + RECORD_HEADER_SIZE \<le> unat (sb_watermark sb)"
proof -
  have w: "8192 \<le> sb_watermark sb" and r: "8192 \<le> sb_root_offset sb" "sb_root_offset sb \<le> sb_watermark sb - 8"
    using assms by (auto simp: geometry_ok_def DATA_START_def SUPERBLOCK_SLOT_SIZE_def RECORD_HEADER_SIZE_def)
  have "unat (8192 :: u64) \<le> unat (sb_watermark sb)" using w by (simp add: word_le_nat_alt)
  then have le: "8192 \<le> unat (sb_watermark sb)" by simp
  then have "(8 :: u64) \<le> sb_watermark sb" by (simp add: word_le_nat_alt)
  then have "unat (sb_watermark sb - 8) = unat (sb_watermark sb) - 8" by (simp add: unat_sub)
  moreover have "unat (sb_root_offset sb) \<le> unat (sb_watermark sb - 8)" using r(2) by (simp add: word_le_nat_alt)
  ultimately show "unat (sb_root_offset sb) + RECORD_HEADER_SIZE \<le> unat (sb_watermark sb)"
    using le by (simp add: RECORD_HEADER_SIZE_def)
  show "DATA_START \<le> unat (sb_root_offset sb)"
    using r(1) by (simp add: word_le_nat_alt DATA_START_def SUPERBLOCK_SLOT_SIZE_def)
qed

lemma geometry_ok_of_nat:
  assumes "DATA_START \<le> r" "r + RECORD_HEADER_SIZE \<le> w" "w < 2 ^ 64"
    and "sb_root_offset sb = of_nat r" "sb_watermark sb = of_nat w"
  shows "geometry_ok sb"
proof -
  have r: "8192 \<le> r" "r + 8 \<le> w" "w < 2 ^ 64"
    using assms(1-3) by (simp_all add: DATA_START_def SUPERBLOCK_SLOT_SIZE_def RECORD_HEADER_SIZE_def)
  have uw: "unat (of_nat w :: u64) = w" "unat (of_nat r :: u64) = r"
    using r by (simp_all add: unat_of_nat take_bit_nat_eq_self)
  have "(8 :: u64) \<le> of_nat w" using r uw by (simp add: word_le_nat_alt)
  then have "unat (of_nat w - 8 :: u64) = w - 8" using uw by (simp add: unat_sub)
  then show ?thesis using r uw assms(4,5)
    by (simp add: geometry_ok_def word_le_nat_alt DATA_START_def SUPERBLOCK_SLOT_SIZE_def RECORD_HEADER_SIZE_def)
qed

lemma decode_encode_node:
  assumes "node_codec_ok cd n" "encode_node cd n = Inr bs"
  shows "decode_node cd bs = Inr n"
  using assms by (auto simp: node_codec_ok_def encode_node_def decode_node_def split: option.splits)

end
