(* ===== verification/Check.thy ===== *)
theory Check
  imports Node
begin

text \<open>
  \<open>src/check.rs\<close>: the invariant checker that every tree engine shares. The walk keeps an explicit
  stack of frames: \<open>Enter\<close> visits a node and queues its children, \<open>Undo\<close> restores the map of the
  newest sequence numbers seen above (I3) when a subtree is done. A node that cannot be resolved,
  a panicking range and a walk that does not end are \<^const>\<open>None\<close>; a violation is \<open>Inl\<close>.
\<close>

section \<open>What is checked\<close>

record node_source =
  src_root :: node_id
  src_params :: params
  src_node :: "node_id \<Rightarrow> node option"

record leaf_depths =
  shallowest :: nat
  deepest :: nat

definition usize_max :: nat where
  "usize_max = 2 ^ 64 - 1"

text \<open>\<open>in_range\<close>: no bound is an infinite one.\<close>
definition in_range :: "key \<Rightarrow> key option \<Rightarrow> key option \<Rightarrow> bool" where
  "in_range k lower upper \<longleftrightarrow>
     (case lower of None \<Rightarrow> True | Some lo \<Rightarrow> lo \<le> k) \<and> (case upper of None \<Rightarrow> True | Some hi \<Rightarrow> k < hi)"

type_synonym seq_map = "(key, u64) btmap"

datatype check_frame =
    Enter node_id "key option" "key option" nat "(key \<times> u64) list"
  | Undo "(key \<times> u64 option) list"

text \<open>Overlaying the parent's messages on the map, remembering what they replace.\<close>
fun overlay_seqs :: "(key \<times> u64) list \<Rightarrow> seq_map \<Rightarrow> (key \<times> u64 option) list \<times> seq_map" where
  "overlay_seqs [] newest = ([], newest)"
| "overlay_seqs ((k, seq) # ov) newest =
     (let (undo, newest') = overlay_seqs ov (bt_insert k seq newest) in ((k, bt_get newest k) # undo, newest'))"

fun undo_seqs :: "(key \<times> u64 option) list \<Rightarrow> seq_map \<Rightarrow> seq_map" where
  "undo_seqs [] newest = newest"
| "undo_seqs ((k, previous) # undo) newest =
     undo_seqs undo (case previous of Some seq \<Rightarrow> bt_insert k seq newest | None \<Rightarrow> bt_remove k newest)"

text \<open>I1 and I3 for the keys of a node, in order; the first violation is reported.\<close>
fun check_keys :: "node_id \<Rightarrow> key option \<Rightarrow> key option \<Rightarrow> seq_map \<Rightarrow> (key \<times> u64) list \<Rightarrow>
    invariant_violation option" where
  "check_keys nid lower upper newest [] = None"
| "check_keys nid lower upper newest ((k, seq) # ks) =
     (if \<not> in_range k lower upper then Some (KeyOutsideOwnedRange nid k)
      else (case bt_get newest k of
              Some newer \<Rightarrow> if seq \<ge> newer then Some (StaleAncestor k newer seq)
                            else check_keys nid lower upper newest ks
            | None \<Rightarrow> check_keys nid lower upper newest ks))"

definition check_leaf :: "node_source \<Rightarrow> node_id \<Rightarrow> key option \<Rightarrow> key option \<Rightarrow> seq_map \<Rightarrow> entries \<Rightarrow>
    invariant_violation option" where
  "check_leaf src nid lower upper newest es =
     (if length es > leaf_capacity (src_params src)
      then Some (OverCapacity nid LeafKind (length es) (leaf_capacity (src_params src)))
      else if es = [] \<and> nid \<noteq> src_root src then Some (EmptyNonRootLeaf nid)
      else check_keys nid lower upper newest (map (\<lambda>(k, e). (k, entry_seq e)) es))"

text \<open>The first index at which the pivots do not increase.\<close>
fun pivots_disorder :: "nat \<Rightarrow> key list \<Rightarrow> nat option" where
  "pivots_disorder i (p # q # ps) = (if p \<ge> q then Some i else pivots_disorder (i + 1) (q # ps))"
| "pivots_disorder i _ = None"

definition check_internal :: "node_source \<Rightarrow> node_id \<Rightarrow> key option \<Rightarrow> key option \<Rightarrow> seq_map \<Rightarrow>
    key list \<Rightarrow> node_id list \<Rightarrow> buffer \<Rightarrow> invariant_violation option" where
  "check_internal src nid lower upper newest ps cs b =
     (case pivots_disorder 1 ps of
        Some i \<Rightarrow> Some (PivotsOutOfOrder nid i)
      | None \<Rightarrow>
          if length cs \<noteq> length ps + 1 then Some (PivotChildMismatch nid (length ps) (length cs))
          else if length cs > fanout (src_params src)
          then Some (OverCapacity nid FanoutKind (length cs) (fanout (src_params src)))
          else if length b > buffer_capacity (src_params src)
          then Some (OverCapacity nid BufferKind (length b) (buffer_capacity (src_params src)))
          else (case find (\<lambda>p. \<not> in_range p lower upper) ps of
                  Some p \<Rightarrow> Some (KeyOutsideOwnedRange nid p)
                | None \<Rightarrow> check_keys nid lower upper newest (map (\<lambda>(k, m). (k, msg_seq m)) b)))"

definition lower_bound :: "key option \<Rightarrow> key bound" where
  "lower_bound lo = (case lo of None \<Rightarrow> Unbounded | Some k \<Rightarrow> Included k)"

definition upper_bound :: "key option \<Rightarrow> key bound" where
  "upper_bound hi = (case hi of None \<Rightarrow> Unbounded | Some k \<Rightarrow> Excluded k)"

text \<open>The frame of child \<open>i\<close>: its bounds, and its slice of the buffer as the overlay.\<close>
definition child_frame :: "key option \<Rightarrow> key option \<Rightarrow> nat \<Rightarrow> buffer \<Rightarrow> key list \<Rightarrow> nat \<times> node_id \<Rightarrow>
    check_frame option" where
  "child_frame lower upper depth b ps = (\<lambda>(i, child). do {
     child_lower \<leftarrow> (if i = 0 then Some lower else map_option Some (index ps (i - 1)));
     let child_upper = (case index ps i of Some p \<Rightarrow> Some p | None \<Rightarrow> upper);
     ms \<leftarrow> bt_range (lower_bound child_lower) (upper_bound child_upper) b;
     Some (Enter child child_lower child_upper depth (map (\<lambda>(k, m). (k, msg_seq m)) ms))
   })"

text \<open>The frames of all children, first child first.\<close>
definition child_frames :: "key option \<Rightarrow> key option \<Rightarrow> nat \<Rightarrow> buffer \<Rightarrow> key list \<Rightarrow> node_id list \<Rightarrow>
    check_frame list option" where
  "child_frames lower upper depth b ps cs = those (map (child_frame lower upper depth b ps) (enumerate 0 cs))"

section \<open>The walk\<close>

partial_function (option) check_loop :: "node_source \<Rightarrow> check_frame list \<Rightarrow> seq_map \<Rightarrow> leaf_depths \<Rightarrow>
    (invariant_violation + leaf_depths) option" where
  "check_loop src stack newest depths =
     (case stack of
        [] \<Rightarrow> Some (Inr depths)
      | Undo undo # stack \<Rightarrow> check_loop src stack (undo_seqs (rev undo) newest) depths
      | Enter nid lower upper depth overlay # stack \<Rightarrow>
          (let (undo, newest) = overlay_seqs overlay newest; stack = Undo undo # stack in
           do {
             n \<leftarrow> src_node src nid;
             case n of
               Leaf es \<Rightarrow>
                 (case check_leaf src nid lower upper newest es of
                    Some v \<Rightarrow> Some (Inl v)
                  | None \<Rightarrow> check_loop src stack newest
                      (depths\<lparr>shallowest := min (shallowest depths) depth, deepest := max (deepest depths) depth\<rparr>))
             | Internal ps cs b \<Rightarrow>
                 (case check_internal src nid lower upper newest ps cs b of
                    Some v \<Rightarrow> Some (Inl v)
                  | None \<Rightarrow> do {
                      frames \<leftarrow> child_frames lower upper (depth + 1) b ps cs;
                      check_loop src (rev frames @ stack) newest depths
                    })
           }))"

definition check_tree :: "node_source \<Rightarrow> (invariant_violation + leaf_depths) option" where
  "check_tree src =
     check_loop src [Enter (src_root src) None None 1 []] [] \<lparr>shallowest = usize_max, deepest = 0\<rparr>"

definition check_invariants :: "node_source \<Rightarrow> (invariant_violation + unit) option" where
  "check_invariants src = do {
     r \<leftarrow> check_tree src;
     Some (case r of
             Inl v \<Rightarrow> Inl v
           | Inr d \<Rightarrow> if shallowest d \<noteq> deepest d then Inl (UnevenLeafDepth (shallowest d) (deepest d))
                      else Inr ())
   }"

end
