(* ===== verification/BeTree.thy ===== *)
theory BeTree
  imports Engine Policy Format Check
begin

text \<open>
  \<open>src/betree.rs\<close>: the in-memory engine. Nodes live in an append-only arena and refer to each
  other by index; every loop of the source, explicit stacks included, is a
  \<^theory_text>\<open>partial_function (option)\<close> over the engine state, so that not returning is \<^const>\<open>None\<close>.
  A stack is kept with its top first.
\<close>

section \<open>State\<close>

record 'p betree =
  t_params :: params
  t_nodes :: "node list"
  t_dirty :: "bool list"
  t_root :: node_id
  t_next_seq :: u64
  t_ops_since_commit :: u64
  t_policy :: "'p policy"
  t_trace :: recorder

definition node_at :: "'p betree \<Rightarrow> node_id \<Rightarrow> node option" where
  "node_at s nid = index (t_nodes s) nid"

definition set_node :: "node_id \<Rightarrow> node \<Rightarrow> 'p betree \<Rightarrow> 'p betree" where
  "set_node nid n s = s\<lparr>t_nodes := (t_nodes s)[nid := n]\<rparr>"

definition node_count :: "'p betree \<Rightarrow> nat" where
  "node_count s = length (t_nodes s)"

definition alloc :: "node \<Rightarrow> 'p betree \<Rightarrow> node_id \<times> 'p betree" where
  "alloc n s = (length (t_nodes s), s\<lparr>t_nodes := t_nodes s @ [n], t_dirty := t_dirty s @ [True]\<rparr>)"

definition mark_dirty :: "node_id \<Rightarrow> 'p betree \<Rightarrow> 'p betree option" where
  "mark_dirty nid s =
     (if nid < length (t_dirty s) then Some (s\<lparr>t_dirty := (t_dirty s)[nid := True]\<rparr>) else None)"

text \<open>\<open>BeTree::height\<close>: the length of the leftmost spine.\<close>
partial_function (option) height_from :: "'p betree \<Rightarrow> nat \<Rightarrow> node_id \<Rightarrow> nat option" where
  "height_from s height nid = do {
     n \<leftarrow> node_at s nid;
     case n of
       Internal ps cs b \<Rightarrow> do { c \<leftarrow> index cs 0; height_from s (height + 1) c }
     | Leaf es \<Rightarrow> Some height
   }"

definition height :: "'p betree \<Rightarrow> nat option" where
  "height s = height_from s 1 (t_root s)"

section \<open>Splitting\<close>

text \<open>Taking the items of each piece from one iterator.\<close>
fun take_pieces :: "nat list \<Rightarrow> 'a list \<Rightarrow> 'a list list" where
  "take_pieces [] items = []"
| "take_pieces (sz # sizes) items = take sz items # take_pieces sizes (drop sz items)"

fun alloc_leaves :: "entries list \<Rightarrow> 'p betree \<Rightarrow> ((key \<times> node_id) list \<times> 'p betree) option" where
  "alloc_leaves [] s = Some ([], s)"
| "alloc_leaves (piece # pieces) s =
     (case piece of
        [] \<Rightarrow> None
      | (pivot, _) # _ \<Rightarrow>
          (let (new_id, s) = alloc (Leaf piece) s in
           do { (promoted, s) \<leftarrow> alloc_leaves pieces s; Some ((pivot, new_id) # promoted, s) }))"

definition split_leaf :: "node_id \<Rightarrow> 'p betree \<Rightarrow> ((key \<times> node_id) list \<times> 'p betree) option" where
  "split_leaf nid s = do {
     s \<leftarrow> mark_dirty nid s;
     n \<leftarrow> node_at s nid;
     case n of
       Leaf items \<Rightarrow> do {
         sizes \<leftarrow> partition_sizes (length items) (leaf_capacity (t_params s));
         case map bt_collect (take_pieces sizes items) of
           [] \<Rightarrow> None
         | first # pieces \<Rightarrow> alloc_leaves pieces (set_node nid (Leaf first) s)
       }
     | Internal _ _ _ \<Rightarrow> None
   }"

fun starts_from :: "nat \<Rightarrow> nat list \<Rightarrow> nat list" where
  "starts_from acc [] = []"
| "starts_from acc (sz # sizes) = acc # starts_from (acc + sz) sizes"

text \<open>The pieces after the first, right to left: each takes its children, its pivots, and the
  part of the remaining buffer at or above the promoted pivot.\<close>
fun peel :: "key list \<Rightarrow> node_id list \<Rightarrow> (nat \<times> nat) list \<Rightarrow> buffer \<Rightarrow>
    ((key \<times> key list \<times> node_id list \<times> buffer) list \<times> buffer) option" where
  "peel pivots children [] buf = Some ([], buf)"
| "peel pivots children ((start, sz) # rest) buf = do {
     stop \<leftarrow> checked_sub (start + sz) 1;
     piece_pivots \<leftarrow> slice pivots start stop;
     piece_children \<leftarrow> slice children start (start + sz);
     i \<leftarrow> checked_sub start 1;
     pivot \<leftarrow> index pivots i;
     let (buf, piece_buffer) = bt_split_off pivot buf;
     (pieces_rev, buf) \<leftarrow> peel pivots children rest buf;
     Some ((pivot, piece_pivots, piece_children, piece_buffer) # pieces_rev, buf)
   }"

fun alloc_internals :: "(key \<times> key list \<times> node_id list \<times> buffer) list \<Rightarrow> 'p betree \<Rightarrow>
    (key \<times> node_id) list \<times> 'p betree" where
  "alloc_internals [] s = ([], s)"
| "alloc_internals ((pivot, piece_pivots, piece_children, piece_buffer) # pieces) s =
     (let (new_id, s) = alloc (Internal piece_pivots piece_children piece_buffer) s;
          (promoted, s) = alloc_internals pieces s
      in ((pivot, new_id) # promoted, s))"

definition split_internal :: "node_id \<Rightarrow> 'p betree \<Rightarrow> ((key \<times> node_id) list \<times> 'p betree) option" where
  "split_internal nid s = do {
     s \<leftarrow> mark_dirty nid s;
     n \<leftarrow> node_at s nid;
     case n of
       Internal pivots children buf \<Rightarrow> do {
         sizes \<leftarrow> partition_sizes (length children) (fanout (t_params s));
         let starts = starts_from 0 sizes;
         (pieces_rev, buf) \<leftarrow> peel pivots children (rev (tl (zip starts sizes))) buf;
         sz0 \<leftarrow> index sizes 0;
         stop \<leftarrow> checked_sub sz0 1;
         first_pivots \<leftarrow> slice pivots 0 stop;
         first_children \<leftarrow> slice children 0 sz0;
         Some (alloc_internals (rev pieces_rev) (set_node nid (Internal first_pivots first_children buf) s))
       }
     | Leaf _ \<Rightarrow> None
   }"

definition split_if_needed :: "node_id \<Rightarrow> 'p betree \<Rightarrow> ((key \<times> node_id) list \<times> 'p betree) option" where
  "split_if_needed nid s = do {
     n \<leftarrow> node_at s nid;
     case n of
       Leaf es \<Rightarrow> if length es > leaf_capacity (t_params s) then split_leaf nid s else Some ([], s)
     | Internal ps cs b \<Rightarrow> if length cs > fanout (t_params s) then split_internal nid s else Some ([], s)
   }"

fun insert_splits :: "(key \<times> node_id) list \<Rightarrow> key list \<Rightarrow> node_id list \<Rightarrow>
    (key list \<times> node_id list) option" where
  "insert_splits [] pivots children = Some (pivots, children)"
| "insert_splits ((pivot, new_child) # promoted) pivots children = do {
     let pos = partition_point (\<lambda>p. p < pivot) pivots;
     pivots \<leftarrow> vec_insert pos pivot pivots;
     children \<leftarrow> vec_insert (pos + 1) new_child children;
     insert_splits promoted pivots children
   }"

definition integrate_splits :: "node_id \<Rightarrow> (key \<times> node_id) list \<Rightarrow> 'p betree \<Rightarrow> 'p betree option" where
  "integrate_splits nid promoted s =
     (if promoted = [] then Some s
      else do {
        s \<leftarrow> mark_dirty nid s;
        n \<leftarrow> node_at s nid;
        case n of
          Internal ps cs b \<Rightarrow> do {
            (ps, cs) \<leftarrow> insert_splits promoted ps cs;
            Some (set_node nid (Internal ps cs b) s)
          }
        | Leaf _ \<Rightarrow> None
      })"

definition settle :: "node_id \<Rightarrow> 'p betree \<Rightarrow> (outcome \<times> 'p betree) option" where
  "settle nid s = do {
     n \<leftarrow> node_at s nid;
     if (case n of Internal ps cs b \<Rightarrow> cs = [] | Leaf _ \<Rightarrow> False)
     then Some (Removed, s)
     else do { (promoted, s) \<leftarrow> split_if_needed nid s; Some (Splits promoted, s) }
   }"

definition remove_child :: "node_id \<Rightarrow> node_id \<Rightarrow> 'p betree \<Rightarrow> 'p betree option" where
  "remove_child parent child s = do {
     s \<leftarrow> mark_dirty parent s;
     n \<leftarrow> node_at s parent;
     case n of
       Internal ps cs b \<Rightarrow> do {
         at \<leftarrow> position child cs;
         cs \<leftarrow> vec_remove at cs;
         ps \<leftarrow> (if at > 0 then vec_remove (at - 1) ps
               else if ps \<noteq> [] then vec_remove 0 ps
               else Some ps);
         Some (set_node parent (Internal ps cs b) s)
       }
     | Leaf _ \<Rightarrow> None
   }"

section \<open>Flushing\<close>

definition buffer_len :: "'p betree \<Rightarrow> node_id \<Rightarrow> nat option" where
  "buffer_len s nid = do {
     n \<leftarrow> node_at s nid;
     case n of Internal ps cs b \<Rightarrow> Some (length b) | Leaf _ \<Rightarrow> None
   }"

text \<open>Pending messages and their bytes per child, in one pass over the buffer.\<close>
fun tally :: "key list \<Rightarrow> buffer \<Rightarrow> nat list \<Rightarrow> nat list \<Rightarrow> (nat list \<times> nat list) option" where
  "tally pivots [] occ bytes = Some (occ, bytes)"
| "tally pivots ((k, m) # b) occ bytes =
     (let child = route pivots k in
      do {
        n \<leftarrow> index occ child;
        w \<leftarrow> index bytes child;
        tally pivots b (occ[child := n + 1]) (bytes[child := w + entry_bytes k m])
      })"

text \<open>Removing from the buffer everything the chosen child owns.\<close>
definition extract_batch :: "key list \<Rightarrow> nat \<Rightarrow> buffer \<Rightarrow> (buffer \<times> buffer) option" where
  "extract_batch pivots chosen buf = do {
     (buf, batch) \<leftarrow> (if chosen = 0 then Some ([], buf)
                     else do { p \<leftarrow> index pivots (chosen - 1); Some (bt_split_off p buf) });
     (if chosen < length pivots
      then (let (batch, tail) = bt_split_off (pivots ! chosen) batch in Some (bt_append buf tail, batch))
      else Some (buf, batch))
   }"

definition choose_child :: "node_id \<Rightarrow> nat \<Rightarrow> bool \<Rightarrow> node_id list \<Rightarrow> buffer \<Rightarrow> nat list \<Rightarrow> nat list \<Rightarrow>
    'p betree \<Rightarrow> (nat \<times> 'p betree) option" where
  "choose_child nid depth policy_mode children buf occ bytes s =
     (if policy_mode
      then do {
        dirty \<leftarrow> those (map (index (t_dirty s)) children);
        let ctx = \<lparr>ctx_node = nid, ctx_depth = depth, child_pending = occ, child_pending_bytes = bytes,
                   child_dirty = dirty, buffer_total = length buf,
                   ctx_ops_since_commit = t_ops_since_commit s\<rparr>;
        let (chosen, st) = policy_choose (t_policy s) (policy_state (t_policy s)) ctx;
        Some (chosen, s\<lparr>t_policy := (t_policy s)\<lparr>policy_state := st\<rparr>\<rparr>)
      }
      else Some (pick occ, s))"

definition pick_and_extract :: "node_id \<Rightarrow> nat \<Rightarrow> bool \<Rightarrow> 'p betree \<Rightarrow>
    (nat \<times> node_id \<times> nat list \<times> buffer \<times> 'p betree) option" where
  "pick_and_extract nid depth policy_mode s = do {
     n \<leftarrow> node_at s nid;
     case n of
       Internal pivots children buf \<Rightarrow> do {
         (occ, bytes) \<leftarrow> tally pivots buf (replicate (length children) 0) (replicate (length children) 0);
         (chosen, s) \<leftarrow> choose_child nid depth policy_mode children buf occ bytes s;
         _ \<leftarrow> (if chosen < length occ \<and> occ ! chosen > 0 then Some () else None);
         s \<leftarrow> mark_dirty nid s;
         (buf, batch) \<leftarrow> extract_batch pivots chosen buf;
         child \<leftarrow> index children chosen;
         Some (chosen, child, occ, batch, set_node nid (Internal pivots children buf) s)
       }
     | Leaf _ \<Rightarrow> None
   }"

definition apply_batch :: "node_id \<Rightarrow> buffer \<Rightarrow> nat \<Rightarrow> 'p betree \<Rightarrow> (delivery \<times> 'p betree) option" where
  "apply_batch child batch threshold s = do {
     s \<leftarrow> mark_dirty child s;
     n \<leftarrow> node_at s child;
     case n of
       Leaf es \<Rightarrow>
         (let es = fold (\<lambda>(k, m). apply_to_leaf k m) batch es
          in Some (DeliveredLeaf (es = []), set_node child (Leaf es) s))
     | Internal ps cs b \<Rightarrow>
         (let b = fold (\<lambda>(k, m). coalesce_into k m) batch b
          in Some (DeliveredInternal (length b > threshold), set_node child (Internal ps cs b) s))
   }"

text \<open>The drain-mode probe, with its own stack.\<close>
partial_function (option) has_messages_from :: "'p betree \<Rightarrow> node_id list \<Rightarrow> bool option" where
  "has_messages_from s stack =
     (case stack of
        [] \<Rightarrow> Some False
      | n # stack \<Rightarrow> do {
          node \<leftarrow> node_at s n;
          case node of
            Internal ps cs b \<Rightarrow> if b \<noteq> [] then Some True else has_messages_from s (rev cs @ stack)
          | Leaf _ \<Rightarrow> has_messages_from s stack
        })"

definition subtree_has_messages :: "'p betree \<Rightarrow> node_id \<Rightarrow> bool option" where
  "subtree_has_messages s nid = has_messages_from s [nid]"

fun find_buffered :: "'p betree \<Rightarrow> node_id list \<Rightarrow> node_id option option" where
  "find_buffered s [] = Some None"
| "find_buffered s (c # cs) = do {
     b \<leftarrow> subtree_has_messages s c;
     if b then Some (Some c) else find_buffered s cs
   }"

definition buffered_child :: "'p betree \<Rightarrow> node_id \<Rightarrow> node_id option option" where
  "buffered_child s tp = do {
     n \<leftarrow> node_at s tp;
     case n of Internal ps cs b \<Rightarrow> find_buffered s cs | Leaf _ \<Rightarrow> Some None
   }"

definition record_flush :: "bool \<Rightarrow> node_id \<Rightarrow> nat list \<Rightarrow> nat \<Rightarrow> 'p betree \<Rightarrow> 'p betree" where
  "record_flush trace_flushes tp occ chosen s =
     (if trace_flushes then s\<lparr>t_trace := rec_flush_decision tp occ chosen (t_trace s)\<rparr> else s)"

text \<open>The loop of \<open>flush_with\<close> over the stack of flushing nodes.\<close>
partial_function (option) flush_loop :: "nat \<Rightarrow> bool \<Rightarrow> node_id list \<Rightarrow> 'p betree \<Rightarrow>
    (outcome \<times> 'p betree) option" where
  "flush_loop threshold trace_flushes flushing s =
     (case flushing of
        [] \<Rightarrow> None
      | tp # below \<Rightarrow> do {
          len \<leftarrow> buffer_len s tp;
          if len \<le> threshold then do {
            descend \<leftarrow> (if threshold = 0 then buffered_child s tp else Some None);
            case descend of
              Some child \<Rightarrow> flush_loop threshold trace_flushes (child # flushing) s
            | None \<Rightarrow> do {
                (outcome, s) \<leftarrow> settle tp s;
                case below of
                  [] \<Rightarrow> Some (outcome, s)
                | parent # _ \<Rightarrow> do {
                    s \<leftarrow> (case outcome of
                            Splits promoted \<Rightarrow> integrate_splits parent promoted s
                          | Removed \<Rightarrow> remove_child parent tp s);
                    flush_loop threshold trace_flushes below s
                  }
              }
          }
          else do {
            (chosen, child, occ, batch, s) \<leftarrow> pick_and_extract tp (length flushing - 1) trace_flushes s;
            let s = record_flush trace_flushes tp occ chosen s;
            (d, s) \<leftarrow> apply_batch child batch threshold s;
            if d = DeliveredInternal True
            then flush_loop threshold trace_flushes (child # flushing) s
            else if d = DeliveredLeaf True
            then do { s \<leftarrow> remove_child tp child s; flush_loop threshold trace_flushes flushing s }
            else do {
              (promoted, s) \<leftarrow> split_if_needed child s;
              s \<leftarrow> integrate_splits tp promoted s;
              flush_loop threshold trace_flushes flushing s
            }
          }
        })"

definition flush_with :: "node_id \<Rightarrow> nat \<Rightarrow> bool \<Rightarrow> 'p betree \<Rightarrow> (outcome \<times> 'p betree) option" where
  "flush_with nid threshold trace_flushes s = flush_loop threshold trace_flushes [nid] s"

section \<open>Settling the root\<close>

partial_function (option) restore_loop :: "nat \<Rightarrow> bool \<Rightarrow> 'p betree \<Rightarrow> 'p betree option" where
  "restore_loop threshold trace_flushes s = do {
     n \<leftarrow> node_at s (t_root s);
     (outcome, s) \<leftarrow> (case n of
         Internal _ _ _ \<Rightarrow> flush_with (t_root s) threshold trace_flushes s
       | Leaf _ \<Rightarrow> do { (promoted, s) \<leftarrow> split_if_needed (t_root s) s; Some (Splits promoted, s) });
     case outcome of
       Removed \<Rightarrow> (let (new_root, s) = alloc (Leaf []) s in Some (s\<lparr>t_root := new_root\<rparr>))
     | Splits promoted \<Rightarrow>
         if promoted = [] then Some s
         else (let (new_root, s) = alloc (Internal (map fst promoted) (t_root s # map snd promoted) []) s
               in restore_loop threshold trace_flushes (s\<lparr>t_root := new_root\<rparr>))
   }"

partial_function (option) collapse_root :: "'p betree \<Rightarrow> 'p betree option" where
  "collapse_root s = do {
     n \<leftarrow> node_at s (t_root s);
     case n of
       Internal ps cs b \<Rightarrow>
         if length cs = 1 \<and> b = [] then collapse_root (s\<lparr>t_root := hd cs\<rparr>) else Some s
     | Leaf _ \<Rightarrow> Some s
   }"

definition restore_root_with :: "nat \<Rightarrow> bool \<Rightarrow> 'p betree \<Rightarrow> 'p betree option" where
  "restore_root_with threshold trace_flushes s = do {
     s \<leftarrow> restore_loop threshold trace_flushes s;
     collapse_root s
   }"

definition restore_root :: "'p betree \<Rightarrow> 'p betree option" where
  "restore_root s = restore_root_with (buffer_capacity (t_params s)) True s"

definition drain :: "'p betree \<Rightarrow> 'p betree option" where
  "drain s = restore_root_with 0 False s"

definition apply_root :: "key \<Rightarrow> message \<Rightarrow> 'p betree \<Rightarrow> 'p betree option" where
  "apply_root k m s = do {
     s \<leftarrow> mark_dirty (t_root s) s;
     n \<leftarrow> node_at s (t_root s);
     let s = (case n of
                Leaf es \<Rightarrow> set_node (t_root s) (Leaf (apply_to_leaf k m es)) s
              | Internal ps cs b \<Rightarrow> set_node (t_root s) (Internal ps cs (coalesce_into k m b)) s);
     restore_root s
   }"

section \<open>The engine surface\<close>

definition with_policy :: "params \<Rightarrow> 'p policy \<Rightarrow> 'p betree option" where
  "with_policy p pol =
     (if fanout p \<ge> 2 \<and> buffer_capacity p \<ge> 1 \<and> leaf_capacity p \<ge> 1
      then Some \<lparr>t_params = p, t_nodes = [Leaf []], t_dirty = [True], t_root = 0, t_next_seq = 0,
                 t_ops_since_commit = 0, t_policy = pol, t_trace = recorder_default\<rparr>
      else None)"

definition betree_new :: "params \<Rightarrow> unit betree option" where
  "betree_new p = with_policy p GreedyFullest"

definition betree_insert :: "key \<Rightarrow> val \<Rightarrow> 'p betree \<Rightarrow> 'p betree option" where
  "betree_insert k v s =
     (let s = s\<lparr>t_next_seq := t_next_seq s + 1, t_ops_since_commit := t_ops_since_commit s + 1\<rparr>;
          seq = t_next_seq s;
          s = s\<lparr>t_trace := rec_op seq (Insert2 k v) (t_trace s)\<rparr>
      in apply_root k (Put seq v) s)"

definition betree_delete :: "key \<Rightarrow> 'p betree \<Rightarrow> 'p betree option" where
  "betree_delete k s =
     (let s = s\<lparr>t_next_seq := t_next_seq s + 1, t_ops_since_commit := t_ops_since_commit s + 1\<rparr>;
          seq = t_next_seq s;
          s = s\<lparr>t_trace := rec_op seq (Delete2 k) (t_trace s)\<rparr>
      in apply_root k (Delete seq) s)"

definition betree_upsert :: "key \<Rightarrow> upsert_op \<Rightarrow> 'p betree \<Rightarrow> 'p betree option" where
  "betree_upsert k op s =
     (let s = s\<lparr>t_next_seq := t_next_seq s + 1, t_ops_since_commit := t_ops_since_commit s + 1\<rparr>;
          seq = t_next_seq s;
          s = s\<lparr>t_trace := rec_op seq (Upsert2 k op) (t_trace s)\<rparr>
      in apply_root k (Upsert seq op) s)"

text \<open>The walk of \<open>get\<close>, carrying the sum of the pending upserts.\<close>
partial_function (option) get_from :: "'p betree \<Rightarrow> key \<Rightarrow> i64 option \<Rightarrow> node_id \<Rightarrow> val option option" where
  "get_from s k chain nid = do {
     n \<leftarrow> node_at s nid;
     case n of
       Internal ps cs b \<Rightarrow>
         (case bt_get b k of
            Some (Put seq v) \<Rightarrow> Some (apply_chain chain (Some v))
          | Some (Delete seq) \<Rightarrow> Some (apply_chain chain None)
          | Some (Upsert seq op) \<Rightarrow>
              (case op of Add delta \<Rightarrow> do {
                 c \<leftarrow> index cs (route ps k);
                 get_from s k (Some ((case chain of None \<Rightarrow> 0 | Some c \<Rightarrow> c) + delta)) c
               })
          | None \<Rightarrow> do { c \<leftarrow> index cs (route ps k); get_from s k chain c })
     | Leaf es \<Rightarrow> Some (apply_chain chain (map_option entry_value (bt_get es k)))
   }"

definition betree_get :: "key \<Rightarrow> 'p betree \<Rightarrow> (val option \<times> 'p betree) option" where
  "betree_get k s =
     (let s = s\<lparr>t_trace := rec_get k (t_trace s)\<rparr>
      in do { v \<leftarrow> get_from s k None (t_root s); Some (v, s) })"

section \<open>Range scans\<close>

text \<open>One frame of the explicit stack of \<open>scan\<close>.\<close>
record scan_frame =
  f_id :: node_id
  f_lo :: "key bound"
  f_hi :: "key bound"
  f_next_child :: nat
  f_acc :: "(key, val) btmap"

text \<open>Folding one buffered message onto the results from below.\<close>
fun fold_message :: "key \<Rightarrow> message \<Rightarrow> (key, val) btmap \<Rightarrow> (key, val) btmap" where
  "fold_message k (Put seq v) acc = bt_insert k v acc"
| "fold_message k (Delete seq) acc = bt_remove k acc"
| "fold_message k (Upsert seq op) acc = bt_insert k (upsert_apply op (bt_get acc k)) acc"

definition fold_entries :: "entries \<Rightarrow> (key, val) btmap \<Rightarrow> (key, val) btmap" where
  "fold_entries es acc = fold (\<lambda>(k, e). bt_insert k (entry_value e)) es acc"

text \<open>The bounds of child \<open>i\<close>: the frame's, clipped by the pivots around the child.\<close>
definition child_lo :: "key bound \<Rightarrow> key list \<Rightarrow> nat \<Rightarrow> key bound option" where
  "child_lo lo ps i = (if i = 0 then Some lo else do { p \<leftarrow> index ps (i - 1); Some (clip_lower lo p) })"

definition child_hi :: "key bound \<Rightarrow> key list \<Rightarrow> nat \<Rightarrow> key bound option" where
  "child_hi hi ps i = (if i = length ps then Some hi else do { p \<leftarrow> index ps i; Some (clip_upper hi p) })"

partial_function (option) scan_loop :: "'p betree \<Rightarrow> scan_frame list \<Rightarrow> (key, val) btmap option" where
  "scan_loop s stack =
     (case stack of
        [] \<Rightarrow> None
      | fr # rest \<Rightarrow> do {
          n \<leftarrow> node_at s (f_id fr);
          case n of
            Leaf _ \<Rightarrow> None
          | Internal ps cs b \<Rightarrow>
              (let i = f_next_child fr in
               if i < length cs then do {
                 let fr = fr\<lparr>f_next_child := i + 1\<rparr>;
                 c_lo \<leftarrow> child_lo (f_lo fr) ps i;
                 c_hi \<leftarrow> child_hi (f_hi fr) ps i;
                 if range_is_empty c_lo c_hi then scan_loop s (fr # rest)
                 else do {
                   child \<leftarrow> index cs i;
                   cn \<leftarrow> node_at s child;
                   case cn of
                     Leaf es \<Rightarrow> do {
                       es \<leftarrow> bt_range (bound_as_slice c_lo) (bound_as_slice c_hi) es;
                       scan_loop s (fr\<lparr>f_acc := fold_entries es (f_acc fr)\<rparr> # rest)
                     }
                   | Internal _ _ _ \<Rightarrow>
                       scan_loop s (\<lparr>f_id = child, f_lo = c_lo, f_hi = c_hi, f_next_child = 0, f_acc = []\<rparr> # fr # rest)
                 }
               }
               else do {
                 ms \<leftarrow> bt_range (bound_as_slice (f_lo fr)) (bound_as_slice (f_hi fr)) b;
                 let acc = fold (\<lambda>(k, m). fold_message k m) ms (f_acc fr);
                 case rest of
                   [] \<Rightarrow> Some acc
                 | parent # rest \<Rightarrow> scan_loop s (parent\<lparr>f_acc := bt_append (f_acc parent) acc\<rparr> # rest)
               })
        })"

definition betree_scan :: "key bound \<Rightarrow> key bound \<Rightarrow> 'p betree \<Rightarrow>
    ((engine_error + (key \<times> val) list) \<times> 'p betree) option" where
  "betree_scan lo hi s =
     (let s = s\<lparr>t_trace := rec_scan lo hi (t_trace s)\<rparr> in
      if range_is_empty lo hi then Some (Inr [], s)
      else do {
        n \<leftarrow> node_at s (t_root s);
        case n of
          Leaf es \<Rightarrow> do {
            es \<leftarrow> bt_range (bound_as_slice lo) (bound_as_slice hi) es;
            Some (Inr (map (\<lambda>(k, e). (k, entry_value e)) es), s)
          }
        | Internal _ _ _ \<Rightarrow> do {
            acc \<leftarrow> scan_loop s [\<lparr>f_id = t_root s, f_lo = lo, f_hi = hi, f_next_child = 0, f_acc = []\<rparr>];
            Some (Inr acc, s)
          }
      })"

section \<open>The simulated commit\<close>

text \<open>The dirty nodes reachable from the root over dirty edges only, in the order visited. The
  walk pops the last pushed node.\<close>
partial_function (option) dirty_walk :: "'p betree \<Rightarrow> node_id list \<Rightarrow> node_id list option" where
  "dirty_walk s visit =
     (case visit of
        [] \<Rightarrow> Some []
      | nid # visit \<Rightarrow> do {
          n \<leftarrow> node_at s nid;
          more \<leftarrow> (case n of
                     Internal ps cs b \<Rightarrow> do {
                       flags \<leftarrow> those (map (index (t_dirty s)) cs);
                       Some (map fst (filter snd (zip cs flags)))
                     }
                   | Leaf _ \<Rightarrow> Some []);
          pre \<leftarrow> dirty_walk s (rev more @ visit);
          Some (nid # pre)
        })"

text \<open>The node as a record; child arena ids stand in for the offsets.\<close>
fun node_as_record :: "node \<Rightarrow> disk_node" where
  "node_as_record (Leaf es) = DiskLeaf es"
| "node_as_record (Internal ps cs b) = DiskInternal ps cs b"

text \<open>The length of the node's record payload; the encoder is a parameter.\<close>
definition record_payload_len :: "(disk_node \<Rightarrow> u8 list option) \<Rightarrow> 'p betree \<Rightarrow> node_id \<Rightarrow> nat option" where
  "record_payload_len encode s nid = do {
     n \<leftarrow> node_at s nid;
     payload \<leftarrow> encode (node_as_record n);
     Some (length payload)
   }"

fun charge :: "(disk_node \<Rightarrow> u8 list option) \<Rightarrow> node_id list \<Rightarrow> 'p betree \<Rightarrow> (nat \<times> 'p betree) option" where
  "charge encode [] s = Some (0, s)"
| "charge encode (nid # pre) s = do {
     len \<leftarrow> record_payload_len encode s nid;
     s \<leftarrow> (if nid < length (t_dirty s) then Some (s\<lparr>t_dirty := (t_dirty s)[nid := False]\<rparr>) else None);
     (bytes, s) \<leftarrow> charge encode pre s;
     Some (RECORD_HEADER_SIZE + len + bytes, s)
   }"

definition simulate_commit :: "(disk_node \<Rightarrow> u8 list option) \<Rightarrow> 'p betree \<Rightarrow> (nat \<times> 'p betree) option" where
  "simulate_commit encode s = do {
     d \<leftarrow> index (t_dirty s) (t_root s);
     pre \<leftarrow> (if d then dirty_walk s [t_root s] else Some []);
     (bytes, s) \<leftarrow> charge encode pre s;
     Some (bytes + SUPERBLOCK_SLOT_SIZE, s\<lparr>t_ops_since_commit := 0\<rparr>)
   }"

section \<open>Forking\<close>

text \<open>The live nodes in the order popped from the stack.\<close>
partial_function (option) live_order :: "'p betree \<Rightarrow> node_id list \<Rightarrow> node_id list option" where
  "live_order s stack =
     (case stack of
        [] \<Rightarrow> Some []
      | nid # stack \<Rightarrow> do {
          n \<leftarrow> node_at s nid;
          order \<leftarrow> live_order s (rev (case n of Internal ps cs b \<Rightarrow> cs | Leaf _ \<Rightarrow> []) @ stack);
          Some (nid # order)
        })"

text \<open>The renumbering: a node met twice keeps its last position, as \<open>map.insert\<close> overwrites.\<close>
definition renumber :: "node_id list \<Rightarrow> (node_id, node_id) btmap" where
  "renumber order = fold (\<lambda>(i, nid). bt_insert nid i) (enumerate 0 order) []"

fun rename_children :: "(node_id, node_id) btmap \<Rightarrow> node \<Rightarrow> node option" where
  "rename_children mp (Leaf es) = Some (Leaf es)"
| "rename_children mp (Internal ps cs b) = do {
     cs \<leftarrow> those (map (bt_get mp) cs);
     Some (Internal ps cs b)
   }"

definition fork_for_sim :: "'q policy \<Rightarrow> 'p betree \<Rightarrow> 'q betree option" where
  "fork_for_sim pol s = do {
     order \<leftarrow> live_order s [t_root s];
     let mp = renumber order;
     nodes \<leftarrow> those (map (\<lambda>nid. do { n \<leftarrow> node_at s nid; rename_children mp n }) order);
     dirty \<leftarrow> those (map (index (t_dirty s)) order);
     root \<leftarrow> bt_get mp (t_root s);
     Some \<lparr>t_params = t_params s, t_nodes = nodes, t_dirty = dirty, t_root = root,
           t_next_seq = t_next_seq s, t_ops_since_commit = t_ops_since_commit s,
           t_policy = pol, t_trace = recorder_default\<rparr>
   }"

section \<open>The trait\<close>

definition betree_source :: "'p betree \<Rightarrow> node_source" where
  "betree_source s = \<lparr>src_root = t_root s, src_params = t_params s, src_node = node_at s\<rparr>"

definition betree_check_invariants :: "'p betree \<Rightarrow> (invariant_violation + unit) option" where
  "betree_check_invariants s = check_invariants (betree_source s)"

text \<open>\<open>impl KvEngine for BeTree\<close>; the policy is the one given to \<open>with_policy\<close>.\<close>
definition BeTree :: "'p policy \<Rightarrow> 'p betree kv_ops" where
  "BeTree pol = \<lparr>kv_new = (\<lambda>p. with_policy p pol), kv_insert = betree_insert, kv_delete = betree_delete,
     kv_upsert = betree_upsert, kv_scan = betree_scan, kv_get = betree_get,
     kv_check_invariants = betree_check_invariants,
     kv_trace = (\<lambda>s. v1 (t_trace s)), kv_trace2 = (\<lambda>s. v2 (t_trace s))\<rparr>"

end
