(* ===== verification/Arena.thy ===== *)
theory Arena
  imports BeTree
begin

text \<open>
  The shape of the tree inside an arena. \<open>tree P N h lo hi c\<close> says that node \<open>c\<close> of arena \<open>N\<close> is
  the root of a subtree at rest: all leaves \<open>h\<close> levels below (I6), every key, message and pivot
  in the owned range \<open>[lo, hi)\<close> (I1), pivots strictly increasing and one child more than pivots
  (I2), one buffered message per key (I4), capacities respected (I5) and no leaf empty (I7).
  \<open>reach\<close> lists the nodes of a subtree, so that \<open>distinct\<close> says that no node has two parents.

  The meaning of a subtree for one key is what lies on the key's path: the buffered messages from
  the top down and the leaf entry. The step lemmas relate the paths before and after a step by
  \<open>occ_le\<close>: the value read is the same, and the sequence numbers are a subsequence, so a path that
  was strictly decreasing (I3) stays so.
\<close>

section \<open>Key ranges\<close>

definition strictly_in :: "key option \<Rightarrow> key option \<Rightarrow> key \<Rightarrow> bool" where
  "strictly_in lower upper p \<longleftrightarrow>
     (case lower of None \<Rightarrow> True | Some lo \<Rightarrow> lo < p) \<and> (case upper of None \<Rightarrow> True | Some hi \<Rightarrow> p < hi)"

definition lower_le :: "key option \<Rightarrow> key option \<Rightarrow> bool" where
  "lower_le a b \<longleftrightarrow> (case a of None \<Rightarrow> True | Some x \<Rightarrow> (case b of None \<Rightarrow> False | Some y \<Rightarrow> x \<le> y))"

definition upper_le :: "key option \<Rightarrow> key option \<Rightarrow> bool" where
  "upper_le a b \<longleftrightarrow> (case b of None \<Rightarrow> True | Some y \<Rightarrow> (case a of None \<Rightarrow> False | Some x \<Rightarrow> x \<le> y))"

definition last_lo :: "key option \<Rightarrow> key list \<Rightarrow> key option" where
  "last_lo lo ps = (if ps = [] then lo else Some (last ps))"

definition first_hi :: "key option \<Rightarrow> key list \<Rightarrow> key option" where
  "first_hi hi ps = (case ps of [] \<Rightarrow> hi | p # _ \<Rightarrow> Some p)"

fun pivots_ok :: "key option \<Rightarrow> key option \<Rightarrow> key list \<Rightarrow> bool" where
  "pivots_ok lo hi [] = True"
| "pivots_ok lo hi (p # ps) = (strictly_in lo hi p \<and> pivots_ok (Some p) hi ps)"

lemma last_lo_simps [simp]:
  "last_lo lo [] = lo" "last_lo lo (p # ps) = last_lo (Some p) ps" "last_lo lo (ps @ [p]) = Some p"
  by (auto simp: last_lo_def)

lemma first_hi_simps [simp]: "first_hi hi [] = hi" "first_hi hi (p # ps) = Some p"
  by (simp_all add: first_hi_def)

lemma first_hi_append: "first_hi hi (ps @ qs) = first_hi (first_hi hi qs) ps"
  by (cases ps) simp_all

lemma last_lo_append: "last_lo lo (ps @ qs) = last_lo (last_lo lo ps) qs"
  by (simp add: last_lo_def)

lemma lower_le_refl [simp]: "lower_le a a" "lower_le None a"
  by (auto simp: lower_le_def split: option.split)

lemma upper_le_refl [simp]: "upper_le a a" "upper_le a None"
  by (auto simp: upper_le_def split: option.split)

lemma in_range_widen: "in_range k lo hi \<Longrightarrow> lower_le lo' lo \<Longrightarrow> upper_le hi hi' \<Longrightarrow> in_range k lo' hi'"
  by (fastforce simp: in_range_def lower_le_def upper_le_def split: option.splits)

lemma strictly_in_widen:
  "strictly_in lo hi p \<Longrightarrow> lower_le lo' lo \<Longrightarrow> upper_le hi hi' \<Longrightarrow> strictly_in lo' hi' p"
  by (fastforce simp: strictly_in_def lower_le_def upper_le_def split: option.splits)

lemma pivots_ok_widen:
  "pivots_ok lo hi ps \<Longrightarrow> lower_le lo' lo \<Longrightarrow> upper_le hi hi' \<Longrightarrow> pivots_ok lo' hi' ps"
  by (induction lo hi ps arbitrary: lo' rule: pivots_ok.induct) (auto intro: strictly_in_widen)

lemma pivots_ok_append:
  "pivots_ok lo hi (ps @ qs) \<longleftrightarrow>
     pivots_ok lo (first_hi hi qs) ps \<and> pivots_ok (last_lo lo ps) hi qs"
proof (induction ps arbitrary: lo)
  case Nil
  show ?case by simp
next
  case (Cons p ps)
  have "strictly_in lo hi p" if "pivots_ok (last_lo (Some p) ps) hi qs" "strictly_in lo (first_hi hi qs) p"
    using that by (cases qs) (auto simp: strictly_in_def last_lo_def split: option.splits if_splits)
  moreover have "strictly_in lo (first_hi hi qs) p"
    if "pivots_ok (last_lo (Some p) ps) hi qs" "pivots_ok (Some p) (first_hi hi qs) ps" "strictly_in lo hi p"
    using that
  proof (cases qs)
    case qs: (Cons q qs')
    have "p < q" using that(1,2) qs
    proof (induction ps arbitrary: p)
      case (Cons p' ps)
      then have "p' < q" by simp
      moreover have "p < p'" using Cons.prems by (simp add: strictly_in_def)
      ultimately show ?case by simp
    qed (simp add: strictly_in_def)
    then show ?thesis using that(3) qs by (simp add: strictly_in_def)
  qed simp
  ultimately show ?case using Cons.IH by auto
qed

lemma pivots_ok_bounds: "pivots_ok lo hi ps \<Longrightarrow> p \<in> set ps \<Longrightarrow> strictly_in lo hi p"
proof (induction lo hi ps rule: pivots_ok.induct)
  case (2 lo hi q ps)
  then show ?case by (force simp: strictly_in_def split: option.splits)
qed simp

lemma pivots_ok_sorted: "pivots_ok lo hi ps \<Longrightarrow> sorted_wrt (<) ps"
proof (induction lo hi ps rule: pivots_ok.induct)
  case (2 lo hi p ps)
  then have "\<forall>q\<in>set ps. p < q" using pivots_ok_bounds by (fastforce simp: strictly_in_def)
  with 2 show ?case by simp
qed simp

lemma strictly_in_in_range: "strictly_in lo hi p \<Longrightarrow> in_range p lo hi"
  by (auto simp: strictly_in_def in_range_def split: option.splits)

lemma in_range_None [simp]: "in_range k None None"
  by (simp add: in_range_def)

lemma sorted_le_last: "sorted_wrt (<) xs \<Longrightarrow> x \<in> set xs \<Longrightarrow> x \<le> last xs" for xs :: "key list"
proof (induction xs)
  case (Cons y ys)
  show ?case
  proof (cases "ys = []")
    case False
    then have "y < last ys" using Cons.prems(1) by simp
    then show ?thesis using Cons False by (auto intro: less_imp_le)
  qed (use Cons in simp)
qed simp

lemma in_range_lower: "pivots_ok lo hi ps \<Longrightarrow> in_range k (last_lo lo ps) hi' \<Longrightarrow> p \<in> set ps \<Longrightarrow> p \<le> k"
  using sorted_le_last [OF pivots_ok_sorted, of lo hi ps p]
  by (auto simp: in_range_def last_lo_def split: if_splits)

lemma in_range_last_lo:
  "pivots_ok lo hi ps \<Longrightarrow> in_range k (last_lo lo ps) hi' \<Longrightarrow> in_range k lo hi'"
proof -
  assume ps: "pivots_ok lo hi ps" and k: "in_range k (last_lo lo ps) hi'"
  show ?thesis
  proof (cases "ps = []")
    case True
    with k show ?thesis by simp
  next
    case False
    then have "strictly_in lo hi (last ps)" using pivots_ok_bounds [OF ps] by simp
    with k False show ?thesis by (auto simp: in_range_def strictly_in_def last_lo_def split: option.splits)
  qed
qed

lemma in_range_first_hi:
  "pivots_ok lo hi ps \<Longrightarrow> in_range k lo' (first_hi hi ps) \<Longrightarrow> in_range k lo' hi"
  by (cases ps) (auto simp: in_range_def strictly_in_def split: option.splits)

section \<open>Subtrees\<close>

text \<open>The children of a node with the ranges they own.\<close>
fun segs :: "key option \<Rightarrow> key option \<Rightarrow> key list \<Rightarrow> node_id list \<Rightarrow>
    (key option \<times> node_id \<times> key option) list" where
  "segs lo hi ps [] = []"
| "segs lo hi [] (c # cs) = [(lo, c, hi)]"
| "segs lo hi (p # ps) (c # cs) = (lo, c, Some p) # segs (Some p) hi ps cs"

definition leaf_ok :: "key option \<Rightarrow> key option \<Rightarrow> entries \<Rightarrow> bool" where
  "leaf_ok lo hi es \<longleftrightarrow> bt_ok es \<and> (\<forall>k\<in>bt_keys es. in_range k lo hi)"

definition buffer_ok :: "key option \<Rightarrow> key option \<Rightarrow> buffer \<Rightarrow> bool" where
  "buffer_ok lo hi b \<longleftrightarrow> bt_ok b \<and> (\<forall>k\<in>bt_keys b. in_range k lo hi)"

fun tree :: "params \<Rightarrow> node list \<Rightarrow> nat \<Rightarrow> key option \<Rightarrow> key option \<Rightarrow> node_id \<Rightarrow> bool" where
  "tree P N 0 lo hi c =
     (case index N c of
        Some (Leaf es) \<Rightarrow> leaf_ok lo hi es \<and> es \<noteq> [] \<and> length es \<le> leaf_capacity P
      | _ \<Rightarrow> False)"
| "tree P N (Suc h) lo hi c =
     (case index N c of
        Some (Internal ps cs b) \<Rightarrow>
          length cs = Suc (length ps) \<and> pivots_ok lo hi ps \<and> buffer_ok lo hi b \<and>
          length cs \<le> fanout P \<and> length b \<le> buffer_capacity P \<and>
          (\<forall>(l, c', u) \<in> set (segs lo hi ps cs). tree P N h l u c')
      | _ \<Rightarrow> False)"

text \<open>Adjacent subtrees that share out a range along their separating pivots.\<close>
definition forest :: "params \<Rightarrow> node list \<Rightarrow> nat \<Rightarrow> key option \<Rightarrow> key option \<Rightarrow> key list \<Rightarrow>
    node_id list \<Rightarrow> bool" where
  "forest P N h lo hi ps cs \<longleftrightarrow>
     length cs = Suc (length ps) \<and> pivots_ok lo hi ps \<and>
     (\<forall>(l, c, u) \<in> set (segs lo hi ps cs). tree P N h l u c)"

text \<open>The nodes of a subtree.\<close>
fun reach :: "node list \<Rightarrow> nat \<Rightarrow> node_id \<Rightarrow> node_id list" where
  "reach N 0 c = [c]"
| "reach N (Suc h) c =
     c # (case index N c of
            Some (Internal ps cs b) \<Rightarrow> concat (map (reach N h) cs)
          | _ \<Rightarrow> [])"

abbreviation reach_all :: "node list \<Rightarrow> nat \<Rightarrow> node_id list \<Rightarrow> node_id list" where
  "reach_all N h cs \<equiv> concat (map (reach N h) cs)"

text \<open>Messages weighted by their height above the leaves.\<close>
fun weight :: "node list \<Rightarrow> nat \<Rightarrow> node_id \<Rightarrow> nat" where
  "weight N 0 c = 0"
| "weight N (Suc h) c =
     (case index N c of
        Some (Internal ps cs b) \<Rightarrow> Suc h * length b + sum_list (map (weight N h) cs)
      | _ \<Rightarrow> 0)"

abbreviation weight_all :: "node list \<Rightarrow> nat \<Rightarrow> node_id list \<Rightarrow> nat" where
  "weight_all N h cs \<equiv> sum_list (map (weight N h) cs)"

text \<open>What lies on the path of a key.\<close>
type_synonym occurrences = "message list \<times> leaf_entry option"

fun add_msg :: "message option \<Rightarrow> occurrences \<Rightarrow> occurrences" where
  "add_msg None path = path"
| "add_msg (Some m) (ms, e) = (m # ms, e)"

fun occ :: "node list \<Rightarrow> nat \<Rightarrow> node_id \<Rightarrow> key \<Rightarrow> occurrences" where
  "occ N 0 c k = (case index N c of Some (Leaf es) \<Rightarrow> ([], bt_get es k) | _ \<Rightarrow> ([], None))"
| "occ N (Suc h) c k =
     (case index N c of
        Some (Internal ps cs b) \<Rightarrow>
          add_msg (bt_get b k)
            (case index cs (route ps k) of Some c' \<Rightarrow> occ N h c' k | None \<Rightarrow> ([], None))
      | _ \<Rightarrow> ([], None))"

definition occF :: "node list \<Rightarrow> nat \<Rightarrow> key list \<Rightarrow> node_id list \<Rightarrow> key \<Rightarrow> occurrences" where
  "occF N h ps cs k = (case index cs (route ps k) of Some c \<Rightarrow> occ N h c k | None \<Rightarrow> ([], None))"

fun path_value :: "occurrences \<Rightarrow> val option" where
  "path_value (ms, e) = foldr msg_effect ms (map_option entry_value e)"

fun path_seqs :: "occurrences \<Rightarrow> u64 list" where
  "path_seqs (ms, e) = map msg_seq ms @ (case e of None \<Rightarrow> [] | Some e \<Rightarrow> [entry_seq e])"

definition occ_le :: "occurrences \<Rightarrow> occurrences \<Rightarrow> bool" where
  "occ_le o' o1 \<longleftrightarrow> path_value o' = path_value o1 \<and> subseq (path_seqs o') (path_seqs o1)"

lemma occ_le_refl [simp]: "occ_le o1 o1"
  by (simp add: occ_le_def)

lemma occ_le_trans: "occ_le o3 o2 \<Longrightarrow> occ_le o2 o1 \<Longrightarrow> occ_le o3 o1"
  by (auto simp: occ_le_def intro: subseq_order.trans)

lemma occ_le_add: "occ_le o2 o1 \<Longrightarrow> occ_le (add_msg m o2) (add_msg m o1)"
  by (cases m; cases o1; cases o2) (auto simp: occ_le_def)

text \<open>Delivering a message to a leaf entry, and to a buffer.\<close>

lemma occ_le_leaf: "occ_le ([], leaf_effect m e) ([m], e)"
  by (cases m; cases e) (simp_all add: occ_le_def leaf_effect_value)

lemma occ_le_buffer: "occ_le (add_msg (buffer_effect m old) o1) (add_msg (Some m) (add_msg old o1))"
  by (cases old; cases o1) (auto simp: occ_le_def msg_effect_coalesce)

lemma occ_Suc: "index N c = Some (Internal ps cs b) \<Longrightarrow> occ N (Suc h) c k = add_msg (bt_get b k) (occF N h ps cs k)"
  by (simp add: occF_def)

lemma tree_Suc:
  "index N c = Some (Internal ps cs b) \<Longrightarrow>
     tree P N (Suc h) lo hi c \<longleftrightarrow> forest P N h lo hi ps cs \<and> buffer_ok lo hi b \<and>
       length cs \<le> fanout P \<and> length b \<le> buffer_capacity P"
  by (auto simp: forest_def)

lemma tree_SucE:
  assumes "tree P N (Suc h) lo hi c"
  obtains ps cs b where "index N c = Some (Internal ps cs b)" "forest P N h lo hi ps cs"
    "buffer_ok lo hi b" "length cs \<le> fanout P" "length b \<le> buffer_capacity P"
  using assms by (auto simp: forest_def split: option.splits node.splits)

lemma tree_0E:
  assumes "tree P N 0 lo hi c"
  obtains es where "index N c = Some (Leaf es)" "leaf_ok lo hi es" "es \<noteq> []" "length es \<le> leaf_capacity P"
  using assms by (auto split: option.splits node.splits)

lemma segs_children: "length cs = Suc (length ps) \<Longrightarrow> map (\<lambda>(l, c, u). c) (segs lo hi ps cs) = cs"
  by (induction lo hi ps cs rule: segs.induct) auto

lemma segs_child: "length cs = Suc (length ps) \<Longrightarrow> c \<in> set cs \<Longrightarrow> \<exists>l u. (l, c, u) \<in> set (segs lo hi ps cs)"
proof -
  assume "length cs = Suc (length ps)" "c \<in> set cs"
  then have "c \<in> set (map (\<lambda>(l, c, u). c) (segs lo hi ps cs))" by (simp add: segs_children)
  then show ?thesis by auto
qed

lemma segs_in: "length cs = Suc (length ps) \<Longrightarrow> (l, c, u) \<in> set (segs lo hi ps cs) \<Longrightarrow> c \<in> set cs"
  using segs_children [of cs ps lo hi] by (metis (no_types, lifting) case_prod_conv image_eqI list.set_map)

lemma forest_child: "forest P N h lo hi ps cs \<Longrightarrow> c \<in> set cs \<Longrightarrow> \<exists>l u. tree P N h l u c"
  unfolding forest_def using segs_child [of cs ps c lo hi] by fastforce

section \<open>Locality\<close>

lemma reach_self: "c \<in> set (reach N h c)"
  by (cases h) simp_all

lemma tree_reach_bound: "tree P N h lo hi c \<Longrightarrow> i \<in> set (reach N h c) \<Longrightarrow> i < length N"
proof (induction h arbitrary: lo hi c)
  case 0
  from 0(1) obtain es where "index N c = Some (Leaf es)" by (rule tree_0E)
  with 0(2) show ?case by (simp add: index_eq_Some)
next
  case (Suc h)
  from Suc.prems(1) obtain ps cs b where n: "index N c = Some (Internal ps cs b)"
    and f: "forest P N h lo hi ps cs" by (rule tree_SucE)
  from Suc.prems(2) n consider "i = c" | c' where "c' \<in> set cs" "i \<in> set (reach N h c')" by auto
  then show ?case
  proof cases
    case 1
    with n show ?thesis by (simp add: index_eq_Some)
  next
    case 2
    with Suc.IH forest_child [OF f 2(1)] show ?thesis by blast
  qed
qed

definition agree :: "node_id set \<Rightarrow> node list \<Rightarrow> node list \<Rightarrow> bool" where
  "agree S N N' \<longleftrightarrow> (\<forall>i\<in>S. index N' i = index N i)"

lemma agree_mono: "agree S N N' \<Longrightarrow> T \<subseteq> S \<Longrightarrow> agree T N N'"
  by (auto simp: agree_def)

lemma agree_local:
  assumes "agree (set (reach N h c)) N N'"
  shows "reach N' h c = reach N h c" "tree P N' h lo hi c = tree P N h lo hi c"
    "occ N' h c k = occ N h c k" "weight N' h c = weight N h c"
  using assms
proof (induction h arbitrary: c lo hi k)
  case 0
  { case 1 show ?case by simp
  next case 2 then show ?case by (simp add: agree_def)
  next case 3 then show ?case by (simp add: agree_def)
  next case 4 show ?case by simp }
next
  case (Suc h)
  have eq: "index N' c = index N c" if "agree (set (reach N (Suc h) c)) N N'" for c
    using that by (simp add: agree_def)
  have sub: "agree (set (reach N h c')) N N'"
    if "agree (set (reach N (Suc h) c)) N N'" "index N c = Some (Internal ps cs b)" "c' \<in> set cs" for c ps cs b c'
    using that by (auto simp: agree_def)
  { case 1
    then show ?case
      using eq [OF 1] sub [OF 1] Suc(1) by (auto split: option.split node.split intro!: arg_cong [of _ _ concat])
  next
    case 2
    have "(\<forall>(l, c', u)\<in>set (segs lo hi ps cs). tree P N' h l u c') =
        (\<forall>(l, c', u)\<in>set (segs lo hi ps cs). tree P N h l u c')"
      if "index N c = Some (Internal ps cs b)" "length cs = Suc (length ps)" for ps cs b
      using sub [OF 2 that(1)] Suc(2) segs_in [OF that(2)] by (intro ball_cong) auto
    then show ?case using eq [OF 2] by (auto split: option.split node.split)
  next
    case 3
    have "(case index cs (route ps k) of Some c' \<Rightarrow> occ N' h c' k | None \<Rightarrow> ([], None)) =
        (case index cs (route ps k) of Some c' \<Rightarrow> occ N h c' k | None \<Rightarrow> ([], None))"
      if "index N c = Some (Internal ps cs b)" for ps cs b
      using sub [OF 3 that] Suc(3) by (auto simp: index_eq_Some split: option.split)
    then show ?case using eq [OF 3] by (auto split: option.split node.split)
  next
    case 4
    then show ?case
      using eq [OF 4] sub [OF 4] Suc(4) by (auto split: option.split node.split intro!: arg_cong [of _ _ sum_list])
  }
qed

section \<open>Widening a range\<close>

lemma segs_widen:
  assumes "(l', c, u') \<in> set (segs lo' hi' ps cs)" "lower_le lo' lo" "upper_le hi hi'"
  shows "\<exists>l u. (l, c, u) \<in> set (segs lo hi ps cs) \<and> lower_le l' l \<and> upper_le u u'"
  using assms
proof (induction lo hi ps cs arbitrary: lo' rule: segs.induct)
  case (3 lo hi p ps c' cs)
  then consider "(l', c, u') = (lo', c', Some p)" | "(l', c, u') \<in> set (segs (Some p) hi' ps cs)" by auto
  then show ?case
  proof cases
    case 1
    then show ?thesis using "3.prems"(2,3) by (intro exI [of _ lo] exI [of _ "Some p"]) auto
  next
    case 2
    with "3.IH" [of "Some p"] "3.prems"(3) show ?thesis by auto
  qed
qed auto

lemma tree_widen:
  "tree P N h lo hi c \<Longrightarrow> lower_le lo' lo \<Longrightarrow> upper_le hi hi' \<Longrightarrow> tree P N h lo' hi' c"
proof (induction h arbitrary: lo hi lo' hi' c)
  case 0
  from 0(1) obtain es where "index N c = Some (Leaf es)" "leaf_ok lo hi es" "es \<noteq> []"
    "length es \<le> leaf_capacity P" by (rule tree_0E)
  with 0(2,3) show ?case by (auto simp: leaf_ok_def intro: in_range_widen)
next
  case (Suc h)
  from Suc.prems(1) obtain ps cs b where n: "index N c = Some (Internal ps cs b)"
    and f: "forest P N h lo hi ps cs" and b: "buffer_ok lo hi b"
    and cap: "length cs \<le> fanout P" "length b \<le> buffer_capacity P" by (rule tree_SucE)
  have "forest P N h lo' hi' ps cs"
    unfolding forest_def
  proof (intro conjI)
    show "length cs = Suc (length ps)" "pivots_ok lo' hi' ps"
      using f Suc.prems(2,3) by (auto simp: forest_def intro: pivots_ok_widen)
    show "\<forall>(l, c, u)\<in>set (segs lo' hi' ps cs). tree P N h l u c"
    proof clarify
      fix l' c u' assume "(l', c, u') \<in> set (segs lo' hi' ps cs)"
      from segs_widen [OF this Suc.prems(2,3)] obtain l u
        where lu: "(l, c, u) \<in> set (segs lo hi ps cs)" "lower_le l' l" "upper_le u u'" by blast
      then have "tree P N h l u c" using f by (auto simp: forest_def)
      then show "tree P N h l' u' c" using lu(2,3) by (rule Suc.IH)
    qed
  qed
  moreover have "buffer_ok lo' hi' b"
    using b Suc.prems(2,3) by (auto simp: buffer_ok_def intro: in_range_widen)
  ultimately show ?case using n cap by (simp add: tree_Suc del: tree.simps)
qed

lemma forest_widen:
  assumes "forest P N h lo hi ps cs" "lower_le lo' lo" "upper_le hi hi'"
  shows "forest P N h lo' hi' ps cs"
  unfolding forest_def
proof (intro conjI)
  show "length cs = Suc (length ps)" "pivots_ok lo' hi' ps"
    using assms by (auto simp: forest_def intro: pivots_ok_widen)
  show "\<forall>(l, c, u)\<in>set (segs lo' hi' ps cs). tree P N h l u c"
    using assms segs_widen [of _ _ _ lo' hi' ps cs lo hi] tree_widen
    unfolding forest_def by fast
qed

section \<open>Routing between the children\<close>

text \<open>A node's children around one of them: the ranges to its left and to its right.\<close>

fun lsegs :: "key option \<Rightarrow> key list \<Rightarrow> node_id list \<Rightarrow> (key option \<times> node_id \<times> key option) list" where
  "lsegs lo (p # ps) (c # cs) = (lo, c, Some p) # lsegs (Some p) ps cs"
| "lsegs lo _ _ = []"

fun rsegs :: "key option \<Rightarrow> key list \<Rightarrow> node_id list \<Rightarrow> (key option \<times> node_id \<times> key option) list" where
  "rsegs hi (p # ps) (c # cs) = (Some p, c, first_hi hi ps) # rsegs hi ps cs"
| "rsegs hi _ _ = []"

lemma segs_Cons:
  "length cs = length ps \<Longrightarrow> segs lo hi ps (c # cs) = (lo, c, first_hi hi ps) # rsegs hi ps cs"
proof (induction ps arbitrary: lo c cs)
  case (Cons p ps)
  then obtain c' cs' where "cs = c' # cs'" by (cases cs) auto
  with Cons show ?case by simp
qed simp

lemma rsegs_append:
  "length cs = length ps \<Longrightarrow> rsegs hi (ps @ ps') (cs @ cs') = rsegs (first_hi hi ps') ps cs @ rsegs hi ps' cs'"
  by (induction ps cs rule: list_induct2') (auto simp: first_hi_append)

lemma segs_mid:
  assumes "length cs1 = length ps1" "length ds = length qs" "length cs2 = length ps2"
  shows "segs lo hi (ps1 @ qs @ ps2) (cs1 @ c # ds @ cs2) =
    lsegs lo ps1 cs1 @ segs (last_lo lo ps1) (first_hi hi ps2) qs (c # ds) @ rsegs hi ps2 cs2"
  using assms(1)
proof (induction ps1 cs1 arbitrary: lo rule: list_induct2')
  case 1
  then show ?case using assms(2,3) by (simp add: segs_Cons rsegs_append first_hi_append)
qed (use assms(2,3) in auto)

lemma route_append:
  "route (ps @ qs) k = (if \<forall>p\<in>set ps. p \<le> k then length ps + route qs k else route ps k)"
  by (induction ps) (auto simp: route_Cons)

lemma route_mid_in:
  assumes "pivots_ok lo hi (ps1 @ qs @ ps2)" "in_range k (last_lo lo ps1) (first_hi hi ps2)"
  shows "route (ps1 @ qs @ ps2) k = length ps1 + route qs k" "route qs k \<le> length qs"
proof -
  have "\<forall>p\<in>set ps1. p \<le> k" using assms in_range_lower by (auto simp: pivots_ok_append)
  moreover have "route ps2 k = 0"
    using assms(2) by (cases ps2) (auto simp: in_range_def route_Cons)
  moreover have "route qs k = length qs" if "\<forall>p\<in>set qs. p \<le> k"
    using that by (simp add: route_def partition_point_def takeWhile_eq_all_conv [THEN iffD2])
  ultimately show "route (ps1 @ qs @ ps2) k = length ps1 + route qs k" by (simp add: route_append)
  show "route qs k \<le> length qs" by (rule route_le)
qed

lemma route_less: "\<not> (\<forall>p\<in>set ps. p \<le> k) \<Longrightarrow> route ps k < length ps"
  by (induction ps) (auto simp: route_Cons)

lemma route_mid_out:
  assumes "pivots_ok lo hi (ps1 @ qs @ ps2)" "in_range k lo hi"
    "\<not> in_range k (last_lo lo ps1) (first_hi hi ps2)"
  shows "route ps1 k < length ps1 \<and> route (ps1 @ qs @ ps2) k = route ps1 k \<or>
    (\<exists>j. route ps2 k = Suc j \<and> j < length ps2 \<and> route (ps1 @ qs @ ps2) k = length ps1 + length qs + Suc j)"
proof (cases "\<forall>p\<in>set ps1. p \<le> k")
  case False
  then show ?thesis using route_less [OF False] by (auto simp: route_append)
next
  case True
  then have "in_range k (last_lo lo ps1) hi"
    using assms(2) by (auto simp: in_range_def last_lo_def)
  then obtain p ps where ps2: "ps2 = p # ps" "p \<le> k"
    using assms(3) by (cases ps2) (auto simp: in_range_def split: option.splits)
  have "\<forall>q\<in>set qs. q \<le> k"
  proof
    fix q assume "q \<in> set qs"
    then have "q < p" using assms(1) ps2 pivots_ok_bounds [of _ "Some p" qs q]
      by (auto simp: pivots_ok_append strictly_in_def split: option.splits)
    with ps2 show "q \<le> k" by simp
  qed
  then have "route (ps1 @ qs @ ps2) k = length ps1 + length qs + Suc (route ps k)"
    using True ps2 by (auto simp: route_append route_Cons)
  then show ?thesis using ps2 route_le [of ps k] by (auto simp: route_Cons)
qed

lemma occF_mid_in:
  assumes "pivots_ok lo hi (ps1 @ qs @ ps2)" "in_range k (last_lo lo ps1) (first_hi hi ps2)"
    and "length cs1 = length ps1" "length ds = length qs"
  shows "occF N h (ps1 @ qs @ ps2) (cs1 @ c # ds @ cs2) k = occF N h qs (c # ds) k"
proof -
  have "index (cs1 @ c # ds @ cs2) (length ps1 + route qs k) = index (c # ds) (route qs k)"
    using route_le [of qs k] assms(3,4) by (auto simp: index_def nth_append nth_Cons split: nat.split)
  then show ?thesis using route_mid_in [OF assms(1,2)] by (simp add: occF_def)
qed

lemma occF_mid_out:
  assumes "pivots_ok lo hi (ps1 @ qs @ ps2)" "pivots_ok lo hi (ps1 @ ps2)" "in_range k lo hi"
    "\<not> in_range k (last_lo lo ps1) (first_hi hi ps2)"
    and "length cs1 = length ps1" "length ds = length qs" "length cs2 = length ps2"
    and "\<forall>c\<in>set cs1 \<union> set cs2. occ N' h c k = occ N h c k"
  shows "occF N' h (ps1 @ qs @ ps2) (cs1 @ c # ds @ cs2) k = occF N h (ps1 @ ps2) (cs1 @ c' # cs2) k"
proof -
  from route_mid_out [OF assms(1,3,4)] show ?thesis
  proof
    assume r: "route ps1 k < length ps1 \<and> route (ps1 @ qs @ ps2) k = route ps1 k"
    then have "\<not> (\<forall>p\<in>set ps1. p \<le> k)" by (auto simp: route_append split: if_splits)
    then have "route (ps1 @ ps2) k = route ps1 k" by (simp only: route_append if_not_P if_False)
    with r assms(5,8) show ?thesis by (auto simp: occF_def index_def nth_append)
  next
    assume "\<exists>j. route ps2 k = Suc j \<and> j < length ps2 \<and> route (ps1 @ qs @ ps2) k = length ps1 + length qs + Suc j"
    then obtain j where j: "route ps2 k = Suc j" "j < length ps2"
      "route (ps1 @ qs @ ps2) k = length ps1 + length qs + Suc j" by blast
    have "\<forall>p\<in>set ps1. p \<le> k"
    proof (rule ccontr)
      assume "\<not> (\<forall>p\<in>set ps1. p \<le> k)"
      with j(3) route_less [OF this] show False by (auto simp: route_append split: if_splits)
    qed
    then have "route (ps1 @ ps2) k = length ps1 + Suc j" using j by (auto simp: route_append)
    with j assms(5-8) show ?thesis by (auto simp: occF_def index_def nth_append)
  qed
qed

end
