(* ===== verification/Arena_Step.thy ===== *)
theory Arena_Step
  imports Arena
begin

text \<open>
  Replacing one child of a node. \<open>loose\<close> is a flushing node: its children are at rest, its own
  buffer and fanout may exceed their capacities, and it may have lost every child. \<open>hole\<close> is
  such a node with one child singled out, about which nothing is said; the step lemmas change
  the child's subtree, then plug the pieces it became (\<open>hole_plug\<close>) or close the gap it left
  (\<open>hole_close\<close>).
\<close>

section \<open>The child a key routes to\<close>

lemma route_seg:
  assumes "length cs = Suc (length ps)" "pivots_ok lo hi ps"
  shows "\<exists>l c u. index cs (route ps k) = Some c \<and> (l, c, u) \<in> set (segs lo hi ps cs) \<and>
    (in_range k l u \<longleftrightarrow> in_range k lo hi)"
  using assms
proof (induction lo hi ps cs rule: segs.induct)
  case (2 lo hi c cs)
  then show ?case by auto
next
  case (3 lo hi p ps c cs)
  show ?case
  proof (cases "p \<le> k")
    case True
    from 3 obtain l c' u where "index cs (route ps k) = Some c'" "(l, c', u) \<in> set (segs (Some p) hi ps cs)"
      "in_range k l u \<longleftrightarrow> in_range k (Some p) hi" by auto
    moreover have "in_range k (Some p) hi \<longleftrightarrow> in_range k lo hi"
      using True "3.prems"(2) by (auto simp: in_range_def strictly_in_def split: option.splits)
    ultimately show ?thesis using True
      by (intro exI [of _ l] exI [of _ c'] exI [of _ u]) (simp add: route_Cons)
  next
    case False
    then have "in_range k lo (Some p) \<longleftrightarrow> in_range k lo hi"
      using "3.prems"(2) by (auto simp: in_range_def strictly_in_def split: option.splits)
    with False show ?thesis
      by (intro exI [of _ lo] exI [of _ c] exI [of _ "Some p"]) (simp add: route_Cons)
  qed
qed simp

lemma occ_out_of_range: "tree P N h lo hi c \<Longrightarrow> \<not> in_range k lo hi \<Longrightarrow> occ N h c k = ([], None)"
proof (induction h arbitrary: lo hi c)
  case 0
  from 0(1) obtain es where "index N c = Some (Leaf es)" "leaf_ok lo hi es" by (rule tree_0E)
  with 0(2) show ?case by (auto simp: leaf_ok_def bt_get_None_iff)
next
  case (Suc h)
  from Suc.prems(1) obtain ps cs b where n: "index N c = Some (Internal ps cs b)"
    and f: "forest P N h lo hi ps cs" and b: "buffer_ok lo hi b" by (rule tree_SucE)
  from f route_seg [of cs ps lo hi k] obtain l c' u
    where c': "index cs (route ps k) = Some c'" "(l, c', u) \<in> set (segs lo hi ps cs)" "\<not> in_range k l u"
    using Suc.prems(2) by (auto simp: forest_def)
  then have "occ N h c' k = ([], None)" using f Suc.IH by (auto simp: forest_def)
  moreover have "bt_get b k = None" using b Suc.prems(2) by (auto simp: buffer_ok_def bt_get_None_iff)
  ultimately show ?case using n c'(1) by simp
qed

lemma occF_out_of_range: "forest P N h lo hi ps cs \<Longrightarrow> \<not> in_range k lo hi \<Longrightarrow> occF N h ps cs k = ([], None)"
  using route_seg [of cs ps lo hi k] occ_out_of_range by (fastforce simp: forest_def occF_def)

lemma occF_cong: "\<forall>c\<in>set cs. occ N' h c k = occ N h c k \<Longrightarrow> occF N' h ps cs k = occF N h ps cs k"
  by (auto simp: occF_def index_def)

section \<open>Inserting pivots\<close>

lemma pivots_ok_iff: "pivots_ok lo hi ps \<longleftrightarrow> sorted_wrt (<) ps \<and> (\<forall>p\<in>set ps. strictly_in lo hi p)"
proof
  show "pivots_ok lo hi ps \<Longrightarrow> sorted_wrt (<) ps \<and> (\<forall>p\<in>set ps. strictly_in lo hi p)"
    using pivots_ok_sorted pivots_ok_bounds by blast
next
  show "sorted_wrt (<) ps \<and> (\<forall>p\<in>set ps. strictly_in lo hi p) \<Longrightarrow> pivots_ok lo hi ps"
    by (induction lo hi ps rule: pivots_ok.induct) (auto simp: strictly_in_def)
qed

lemma strictly_in_last_lo: "pivots_ok lo hi ps \<Longrightarrow> strictly_in (last_lo lo ps) u q \<Longrightarrow> p \<in> set ps \<Longrightarrow> p < q"
  using sorted_le_last [OF pivots_ok_sorted, of lo hi ps p]
  by (auto simp: strictly_in_def last_lo_def split: if_splits)

lemma strictly_in_first_hi: "pivots_ok lo hi ps \<Longrightarrow> strictly_in l (first_hi hi ps) q \<Longrightarrow> p \<in> set ps \<Longrightarrow> q < p"
  by (cases ps) (auto simp: strictly_in_def pivots_ok_iff)

lemma strictly_in_outer:
  assumes "pivots_ok lo hi (ps1 @ ps2)" "strictly_in (last_lo lo ps1) (first_hi hi ps2) q"
  shows "strictly_in lo hi q"
proof -
  have "strictly_in lo (first_hi hi ps2) q"
  proof (cases "ps1 = []")
    case False
    then have "strictly_in lo hi (last ps1)" using assms(1) by (simp add: pivots_ok_iff)
    with False assms(2) show ?thesis by (auto simp: strictly_in_def last_lo_def split: option.splits)
  qed (use assms in simp)
  then show ?thesis
    using assms(1) by (cases ps2) (auto simp: strictly_in_def pivots_ok_iff split: option.splits)
qed

lemma pivots_ok_mid:
  assumes "pivots_ok lo hi (ps1 @ ps2)" "pivots_ok (last_lo lo ps1) (first_hi hi ps2) qs"
  shows "pivots_ok lo hi (ps1 @ qs @ ps2)"
proof -
  have 1: "p < q" if "p \<in> set ps1" "q \<in> set qs" for p q
    using assms that strictly_in_last_lo [of lo "first_hi hi ps2" ps1]
    by (auto simp: pivots_ok_append pivots_ok_iff [of _ _ qs])
  have 2: "q < p" if "q \<in> set qs" "p \<in> set ps2" for p q
    using assms that strictly_in_first_hi [of "last_lo lo ps1" hi ps2]
    by (auto simp: pivots_ok_append pivots_ok_iff [of _ _ qs])
  have "strictly_in lo hi q" if "q \<in> set qs" for q
    using strictly_in_outer [OF assms(1)] assms(2) that by (auto simp: pivots_ok_iff [of _ _ qs])
  with 1 2 assms show ?thesis by (auto simp: pivots_ok_iff sorted_wrt_append)
qed

section \<open>Nodes mid-flush\<close>

definition loose :: "params \<Rightarrow> node list \<Rightarrow> nat \<Rightarrow> key option \<Rightarrow> key option \<Rightarrow> node_id \<Rightarrow> bool" where
  "loose P N h lo hi tp \<longleftrightarrow>
     (case index N tp of
        Some (Internal ps cs b) \<Rightarrow>
          buffer_ok lo hi b \<and> (ps = [] \<and> cs = [] \<and> b = [] \<or> forest P N h lo hi ps cs)
      | _ \<Rightarrow> False) \<and>
     distinct (reach N (Suc h) tp)"

definition hole :: "params \<Rightarrow> node list \<Rightarrow> nat \<Rightarrow> key option \<Rightarrow> key option \<Rightarrow> node_id \<Rightarrow>
    key list \<Rightarrow> node_id list \<Rightarrow> node_id \<Rightarrow> key list \<Rightarrow> node_id list \<Rightarrow> buffer \<Rightarrow> bool" where
  "hole P N h lo hi tp ps1 cs1 c ps2 cs2 b \<longleftrightarrow>
     index N tp = Some (Internal (ps1 @ ps2) (cs1 @ c # cs2) b) \<and> buffer_ok lo hi b \<and>
     pivots_ok lo hi (ps1 @ ps2) \<and> length cs1 = length ps1 \<and> length cs2 = length ps2 \<and>
     (\<forall>(l, c, u) \<in> set (lsegs lo ps1 cs1 @ rsegs hi ps2 cs2). tree P N h l u c) \<and>
     distinct (tp # reach_all N h (cs1 @ cs2))"

definition hole_ids :: "node list \<Rightarrow> nat \<Rightarrow> node_id \<Rightarrow> node_id list \<Rightarrow> node_id list \<Rightarrow> node_id set" where
  "hole_ids N h tp cs1 cs2 = insert tp (set (reach_all N h (cs1 @ cs2)))"

lemma lsegs_in: "length cs = length ps \<Longrightarrow> c \<in> set cs \<Longrightarrow> \<exists>l u. (l, c, u) \<in> set (lsegs lo ps cs)"
  by (induction lo ps cs rule: lsegs.induct) auto

lemma rsegs_in: "length cs = length ps \<Longrightarrow> c \<in> set cs \<Longrightarrow> \<exists>l u. (l, c, u) \<in> set (rsegs hi ps cs)"
  by (induction hi ps cs rule: rsegs.induct) auto

lemma lsegs_sub: "(l, c, u) \<in> set (lsegs lo ps cs) \<Longrightarrow> c \<in> set cs"
  by (induction lo ps cs rule: lsegs.induct) auto

lemma rsegs_sub: "(l, c, u) \<in> set (rsegs hi ps cs) \<Longrightarrow> c \<in> set cs"
  by (induction hi ps cs rule: rsegs.induct) auto

lemma hole_sibling_tree:
  assumes "hole P N h lo hi tp ps1 cs1 c ps2 cs2 b" "d \<in> set (cs1 @ cs2)"
  shows "\<exists>l u. tree P N h l u d"
proof -
  from assms have "\<exists>l u. (l, d, u) \<in> set (lsegs lo ps1 cs1 @ rsegs hi ps2 cs2)"
    using lsegs_in [of cs1 ps1 d lo] rsegs_in [of cs2 ps2 d hi] by (auto simp: hole_def)
  with assms(1) show ?thesis by (fastforce simp: hole_def)
qed

lemma hole_ids_bound:
  assumes "hole P N h lo hi tp ps1 cs1 c ps2 cs2 b" "i \<in> hole_ids N h tp cs1 cs2"
  shows "i < length N"
  using assms hole_sibling_tree [OF assms(1)] tree_reach_bound
  by (fastforce simp: hole_ids_def hole_def index_eq_Some)

text \<open>A hole only depends on the flushing node and on the siblings' subtrees.\<close>

lemma hole_agree:
  assumes "hole P N h lo hi tp ps1 cs1 c ps2 cs2 b" "agree (hole_ids N h tp cs1 cs2) N N'"
  shows "hole P N' h lo hi tp ps1 cs1 c ps2 cs2 b" "hole_ids N' h tp cs1 cs2 = hole_ids N h tp cs1 cs2"
    "\<forall>d\<in>set cs1 \<union> set cs2. occ N' h d k = occ N h d k"
    "weight_all N' h (cs1 @ cs2) = weight_all N h (cs1 @ cs2)"
proof -
  have ag: "agree (set (reach N h d)) N N'" if "d \<in> set (cs1 @ cs2)" for d
    by (rule agree_mono [OF assms(2)]) (use that in \<open>auto simp: hole_ids_def\<close>)
  have r: "reach N' h d = reach N h d" if "d \<in> set (cs1 @ cs2)" for d
    by (rule agree_local(1) [OF ag [OF that]])
  then have ra: "reach_all N' h (cs1 @ cs2) = reach_all N h (cs1 @ cs2)"
    by (intro arg_cong [of _ _ concat] map_cong) auto
  show "hole_ids N' h tp cs1 cs2 = hole_ids N h tp cs1 cs2"
    unfolding hole_ids_def by (simp only: ra)
  show "\<forall>d\<in>set cs1 \<union> set cs2. occ N' h d k = occ N h d k"
    using agree_local(3) [OF ag] by auto
  show "weight_all N' h (cs1 @ cs2) = weight_all N h (cs1 @ cs2)"
    using agree_local(4) [OF ag] by (intro arg_cong [of _ _ sum_list] map_cong) auto
  have "\<forall>(l, d, u) \<in> set (lsegs lo ps1 cs1 @ rsegs hi ps2 cs2). tree P N' h l u d"
  proof clarify
    fix l d u assume *: "(l, d, u) \<in> set (lsegs lo ps1 cs1 @ rsegs hi ps2 cs2)"
    then have "d \<in> set (cs1 @ cs2)" using lsegs_sub rsegs_sub by fastforce
    from agree_local(2) [OF ag [OF this]] * assms(1) show "tree P N' h l u d"
      by (fastforce simp: hole_def)
  qed
  moreover have "index N' tp = index N tp" using assms(2) by (simp add: agree_def hole_ids_def)
  ultimately show "hole P N' h lo hi tp ps1 cs1 c ps2 cs2 b"
    using assms(1) ra unfolding hole_def by (simp only: ra)
qed

lemma hole_forest:
  assumes "hole P N h lo hi tp ps1 cs1 c ps2 cs2 b"
    and "forest P N h (last_lo lo ps1) (first_hi hi ps2) qs (c # ds)"
  shows "forest P N h lo hi (ps1 @ qs @ ps2) (cs1 @ c # ds @ cs2)"
proof -
  have len: "length cs1 = length ps1" "length ds = length qs" "length cs2 = length ps2"
    using assms by (auto simp: hole_def forest_def)
  have "pivots_ok lo hi (ps1 @ qs @ ps2)"
    using assms by (intro pivots_ok_mid) (auto simp: hole_def forest_def)
  with assms len show ?thesis by (simp add: forest_def segs_mid hole_def ball_Un)
qed

text \<open>Singling out a child.\<close>

lemma loose_hole:
  assumes "loose P N h lo hi tp" "index N tp = Some (Internal ps cs b)" "j < length cs"
  obtains ps1 cs1 ps2 cs2 where "ps = ps1 @ ps2" "cs = cs1 @ cs ! j # cs2" "length cs1 = j"
    "hole P N h lo hi tp ps1 cs1 (cs ! j) ps2 cs2 b"
    "tree P N h (last_lo lo ps1) (first_hi hi ps2) (cs ! j)"
    "distinct (reach N h (cs ! j))"
    "set (reach N h (cs ! j)) \<inter> hole_ids N h tp cs1 cs2 = {}"
proof
  have f: "forest P N h lo hi ps cs" and b: "buffer_ok lo hi b"
    and d: "distinct (tp # reach_all N h cs)"
    using assms by (auto simp: loose_def)
  define ps1 cs1 ps2 cs2 where "ps1 = take j ps" "cs1 = take j cs" "ps2 = drop j ps" "cs2 = drop (Suc j) cs"
  show ps: "ps = ps1 @ ps2" and cs: "cs = cs1 @ cs ! j # cs2"
    using assms(3) by (simp_all add: ps1_cs1_ps2_cs2_def id_take_nth_drop)
  show "length cs1 = j" using assms(3) by (simp add: ps1_cs1_ps2_cs2_def)
  have len: "length cs1 = length ps1" "length cs2 = length ps2"
    using f assms(3) by (auto simp: ps1_cs1_ps2_cs2_def forest_def)
  have segs: "segs lo hi ps cs = lsegs lo ps1 cs1 @ (last_lo lo ps1, cs ! j, first_hi hi ps2) # rsegs hi ps2 cs2"
    using segs_mid [OF len(1) _ len(2), of "[]" "[]" lo hi "cs ! j"] by (simp add: ps [symmetric] cs [symmetric])
  have rc: "reach_all N h cs = reach_all N h cs1 @ reach N h (cs ! j) @ reach_all N h cs2"
    by (subst cs) simp
  show "hole P N h lo hi tp ps1 cs1 (cs ! j) ps2 cs2 b"
    unfolding hole_def using f b d len segs assms(2) ps cs rc by (auto simp: forest_def)
  show "tree P N h (last_lo lo ps1) (first_hi hi ps2) (cs ! j)"
    using f segs by (auto simp: forest_def)
  show "distinct (reach N h (cs ! j))" using d rc by simp
  show "set (reach N h (cs ! j)) \<inter> hole_ids N h tp cs1 cs2 = {}"
    using d rc by (auto simp: hole_ids_def)
qed

section \<open>The rest of the engine state\<close>

definition arena_ok :: "'p betree \<Rightarrow> bool" where
  "arena_ok s \<longleftrightarrow> length (t_dirty s) = length (t_nodes s) \<and> params_legal (t_params s) \<and>
     policy_legal (t_policy s) \<and> v1_view (t_trace s)"

text \<open>What a flush leaves alone: everything but nodes, dirty flags, policy state and trace, and of
  the trace the recorded operations.\<close>
definition same_env :: "'p betree \<Rightarrow> 'p betree \<Rightarrow> bool" where
  "same_env s s' \<longleftrightarrow> t_params s' = t_params s \<and> t_root s' = t_root s \<and> t_next_seq s' = t_next_seq s \<and>
     t_ops_since_commit s' = t_ops_since_commit s \<and>
     trace_ops (v2 (t_trace s')) = trace_ops (v2 (t_trace s))"

lemma same_env_refl [simp]: "same_env s s"
  by (simp add: same_env_def)

lemma same_env_trans: "same_env s1 s2 \<Longrightarrow> same_env s2 s3 \<Longrightarrow> same_env s1 s3"
  by (simp add: same_env_def)

lemma same_env_params: "same_env s s' \<Longrightarrow> t_params s' = t_params s"
  by (simp add: same_env_def)

definition dirtied :: "node_id \<Rightarrow> 'p betree \<Rightarrow> 'p betree" where
  "dirtied c s = s\<lparr>t_dirty := (t_dirty s)[c := True]\<rparr>"

lemma mark_dirty_ok: "arena_ok s \<Longrightarrow> c < length (t_nodes s) \<Longrightarrow> mark_dirty c s = Some (dirtied c s)"
  by (simp add: mark_dirty_def dirtied_def arena_ok_def)

lemma dirtied_simps [arena_simps]:
  "t_nodes (dirtied c s) = t_nodes s" "t_params (dirtied c s) = t_params s"
  "t_root (dirtied c s) = t_root s" "node_at (dirtied c s) d = node_at s d"
  "arena_ok (dirtied c s) = arena_ok s" "same_env s (dirtied c s)"
  by (simp_all add: dirtied_def node_at_def arena_ok_def same_env_def)

lemma set_node_simps [arena_simps]:
  "t_nodes (set_node c n s) = (t_nodes s)[c := n]" "t_params (set_node c n s) = t_params s"
  "t_root (set_node c n s) = t_root s" "arena_ok (set_node c n s) = arena_ok s" "same_env s (set_node c n s)"
  by (simp_all add: set_node_def arena_ok_def same_env_def)

lemma same_env_set_dirtied [arena_simps]: "same_env s (set_node c n (dirtied d s))"
  by (simp add: same_env_def set_node_def dirtied_def)

lemma alloc_simps [arena_simps]:
  "fst (alloc n s) = length (t_nodes s)" "t_nodes (snd (alloc n s)) = t_nodes s @ [n]"
  "t_params (snd (alloc n s)) = t_params s" "t_root (snd (alloc n s)) = t_root s"
  "arena_ok (snd (alloc n s)) = arena_ok s" "same_env s (snd (alloc n s))"
  by (simp_all add: alloc_def arena_ok_def same_env_def)

lemma node_at_index: "node_at s c = index (t_nodes s) c"
  by (simp add: node_at_def)

lemma index_update: "index (N[c := n]) d = (if d = c \<and> c < length N then Some n else index N d)"
  by (auto simp: index_def)

lemma index_append: "index (N @ M) d = (if d < length N then index N d else index M (d - length N))"
  by (auto simp: index_def nth_append)

lemma agree_update: "c \<notin> S \<Longrightarrow> agree S N (N[c := n])"
  by (auto simp: agree_def index_update)

lemma agree_trans: "agree S N1 N2 \<Longrightarrow> agree S N2 N3 \<Longrightarrow> agree S N1 N3"
  by (simp add: agree_def)

lemma agree_append: "\<forall>i\<in>S. i < length N \<Longrightarrow> agree S N (N @ M)"
  by (auto simp: agree_def index_append)

text \<open>Nodes outside a set are kept, and the arena only grows.\<close>
definition within :: "node_id set \<Rightarrow> node list \<Rightarrow> node list \<Rightarrow> bool" where
  "within S N N' \<longleftrightarrow> length N \<le> length N' \<and> agree {i. i < length N \<and> i \<notin> S} N N'"

lemma within_refl [simp]: "within S N N"
  by (simp add: within_def agree_def)

lemma within_trans:
  assumes "within S N1 N2" "within T N2 N3" "T \<subseteq> S \<union> {i. length N1 \<le> i}"
  shows "within S N1 N3"
  unfolding within_def agree_def
proof (intro conjI ballI)
  show "length N1 \<le> length N3" using assms(1,2) by (simp add: within_def)
  fix i assume i: "i \<in> {i. i < length N1 \<and> i \<notin> S}"
  then have "i \<notin> T" "i < length N2" using assms by (auto simp: within_def)
  then have "index N3 i = index N2 i" using assms(2) by (simp add: within_def agree_def del: index_Some)
  also have "index N2 i = index N1 i" using assms(1) i by (simp add: within_def agree_def del: index_Some)
  finally show "index N3 i = index N1 i" .
qed

lemma within_mono: "within S N N' \<Longrightarrow> S \<subseteq> T \<Longrightarrow> within T N N'"
  by (auto simp: within_def agree_def)

lemma within_agree: "within S N N' \<Longrightarrow> T \<inter> S = {} \<Longrightarrow> \<forall>i\<in>T. i < length N \<Longrightarrow> agree T N N'"
  by (auto simp: within_def agree_def)

lemma within_update: "c \<in> S \<Longrightarrow> within S N (N[c := n])"
  by (auto simp: within_def agree_def index_update)

lemma within_append: "within S N (N @ M)"
  by (auto simp: within_def agree_def index_append)

section \<open>Plugging and closing\<close>

lemma insert_splits_mid:
  assumes "pivots_ok lo hi (ps1 @ ps2)" "pivots_ok (last_lo lo ps1) (first_hi hi ps2) qs"
    and "length cs1 = length ps1" "length ds = length qs"
  shows "insert_splits (zip qs ds) (ps1 @ ps2) (cs1 @ c # cs2) = Some (ps1 @ qs @ ps2, cs1 @ c # ds @ cs2)"
  using assms(4,1-3)
proof (induction qs ds arbitrary: ps1 cs1 c rule: list_induct2')
  case (4 q qs d ds)
  have q: "strictly_in (last_lo lo ps1) (first_hi hi ps2) q" using "4.prems"(3) by simp
  have pos: "partition_point (\<lambda>p. p < q) (ps1 @ ps2) = length ps1"
  proof (rule partition_point_split)
    show "\<forall>p\<in>set ps1. p < q"
      using strictly_in_last_lo [OF _ q] "4.prems"(2) by (auto simp: pivots_ok_append)
    show "ps2 = [] \<or> \<not> hd ps2 < q"
      using q by (cases ps2) (auto simp: strictly_in_def split: option.splits)
  qed
  have "vec_insert (length ps1 + 1) d (cs1 @ c # cs2) = Some ((cs1 @ [c]) @ d # cs2)"
    using "4.prems"(4) vec_insert_append [of "cs1 @ [c]" d cs2] by simp
  moreover have "vec_insert (length ps1) q (ps1 @ ps2) = Some ((ps1 @ [q]) @ ps2)" by simp
  moreover have "insert_splits (zip qs ds) ((ps1 @ [q]) @ ps2) ((cs1 @ [c]) @ d # cs2) =
      Some ((ps1 @ [q]) @ qs @ ps2, (cs1 @ [c]) @ d # ds @ cs2)"
  proof (rule "4.IH")
    show "length ds = length qs" using "4.prems"(1) by simp
    show "pivots_ok lo hi ((ps1 @ [q]) @ ps2)"
      using pivots_ok_mid [OF "4.prems"(2), of "[q]"] q by simp
    show "pivots_ok (last_lo lo (ps1 @ [q])) (first_hi hi ps2) qs" using "4.prems"(3) by simp
    show "length (cs1 @ [c]) = length (ps1 @ [q])" using "4.prems"(4) by simp
  qed
  ultimately show ?case by (simp add: pos Let_def)
qed auto

text \<open>The pieces that a child became take its place in the flushing node.\<close>

lemma hole_plug:
  assumes ok: "arena_ok s" and N: "N = t_nodes s" and P: "P = t_params s"
    and hole: "hole P N h lo hi tp ps1 cs1 c ps2 cs2 b"
    and f: "forest P N h (last_lo lo ps1) (first_hi hi ps2) qs (c # ds)"
    and d: "distinct (reach_all N h (c # ds))" "set (reach_all N h (c # ds)) \<inter> hole_ids N h tp cs1 cs2 = {}"
  shows "\<exists>s'. integrate_splits tp (zip qs ds) s = Some s' \<and> arena_ok s' \<and> same_env s s' \<and>
    t_nodes s' = N[tp := Internal (ps1 @ qs @ ps2) (cs1 @ c # ds @ cs2) b] \<and>
    loose P (t_nodes s') h lo hi tp \<and>
    reach (t_nodes s') (Suc h) tp = tp # reach_all N h cs1 @ reach_all N h (c # ds) @ reach_all N h cs2 \<and>
    weight (t_nodes s') (Suc h) tp = Suc h * length b + weight_all N h (cs1 @ cs2) + weight_all N h (c # ds) \<and>
    (\<forall>k. occ (t_nodes s') (Suc h) tp k = add_msg (bt_get b k) (occF N h (ps1 @ qs @ ps2) (cs1 @ c # ds @ cs2) k))"
proof -
  let ?n = "Internal (ps1 @ qs @ ps2) (cs1 @ c # ds @ cs2) b"
  let ?N' = "N[tp := ?n]"
  have tp: "index N tp = Some (Internal (ps1 @ ps2) (cs1 @ c # cs2) b)" "tp < length N"
    using hole by (auto simp: hole_def index_eq_Some)
  have len: "length ds = length qs" using f by (simp add: forest_def)
  have "\<exists>s'. integrate_splits tp (zip qs ds) s = Some s' \<and> arena_ok s' \<and> same_env s s' \<and> t_nodes s' = ?N'"
  proof (cases "zip qs ds = []")
    case True
    then have "qs = []" "ds = []" using len by (auto simp: zip_eq_Nil_iff)
    moreover have "?N' = N" using tp \<open>qs = []\<close> \<open>ds = []\<close> by (metis append_Nil index_eq_Some list_update_id)
    ultimately show ?thesis using ok N by (simp add: integrate_splits_def)
  next
    case False
    have "insert_splits (zip qs ds) (ps1 @ ps2) (cs1 @ c # cs2) = Some (ps1 @ qs @ ps2, cs1 @ c # ds @ cs2)"
      using hole f len by (intro insert_splits_mid [of lo hi]) (auto simp: hole_def forest_def)
    with False tp ok N show ?thesis
      by (simp add: integrate_splits_def mark_dirty_ok node_at_index arena_simps)
  qed
  then obtain s' where s': "integrate_splits tp (zip qs ds) s = Some s'" "arena_ok s'" "same_env s s'" "t_nodes s' = ?N'"
    by blast
  have ag: "agree (set (reach N h d)) N ?N'" if "d \<in> set (cs1 @ c # ds @ cs2)" for d
    by (rule agree_update) (use that d(2) hole in \<open>auto simp: hole_ids_def hole_def\<close>)
  have ra: "reach_all ?N' h xs = reach_all N h xs" if "set xs \<subseteq> set (cs1 @ c # ds @ cs2)" for xs
    using agree_local(1) [OF ag] that by (intro arg_cong [of _ _ concat] map_cong) auto
  have tp': "index ?N' tp = Some ?n" using tp by (simp add: index_update)
  have r: "reach ?N' (Suc h) tp = tp # reach_all N h cs1 @ reach_all N h (c # ds) @ reach_all N h cs2"
    using tp' ra [of "cs1 @ c # ds @ cs2"] by simp
  have f': "forest P ?N' h lo hi (ps1 @ qs @ ps2) (cs1 @ c # ds @ cs2)"
  proof -
    have "forest P N h lo hi (ps1 @ qs @ ps2) (cs1 @ c # ds @ cs2)" by (rule hole_forest [OF hole f])
    moreover have "tree P ?N' h l u d = tree P N h l u d" if "(l, d, u) \<in> set (segs lo hi (ps1 @ qs @ ps2) (cs1 @ c # ds @ cs2))" for l d u
      using segs_in [OF _ that] len hole by (intro agree_local(2) ag) (auto simp: hole_def)
    ultimately show ?thesis by (auto simp: forest_def)
  qed
  have "distinct (reach ?N' (Suc h) tp)"
    unfolding r using d hole by (auto simp: hole_def hole_ids_def)
  then have "loose P ?N' h lo hi tp"
    using f' tp' hole by (simp add: loose_def hole_def del: reach.simps)
  moreover have "weight_all ?N' h (cs1 @ c # ds @ cs2) = weight_all N h (cs1 @ c # ds @ cs2)"
    using agree_local(4) [OF ag] by (intro arg_cong [of _ _ sum_list] map_cong) auto
  then have "weight ?N' (Suc h) tp = Suc h * length b + weight_all N h (cs1 @ cs2) + weight_all N h (c # ds)"
    using tp' by simp
  moreover have "occ ?N' (Suc h) tp k = add_msg (bt_get b k) (occF N h (ps1 @ qs @ ps2) (cs1 @ c # ds @ cs2) k)" for k
  proof -
    have "occF ?N' h (ps1 @ qs @ ps2) (cs1 @ c # ds @ cs2) k = occF N h (ps1 @ qs @ ps2) (cs1 @ c # ds @ cs2) k"
      by (rule occF_cong) (simp add: agree_local(3) [OF ag])
    then show ?thesis using occ_Suc [OF tp'] by simp
  qed
  ultimately show ?thesis using s' r by metis
qed

lemma segs_inside:
  "(l, c, u) \<in> set (segs lo hi ps cs) \<Longrightarrow> pivots_ok lo hi ps \<Longrightarrow> in_range k l u \<Longrightarrow> in_range k lo hi"
proof (induction lo hi ps cs rule: segs.induct)
  case (3 lo hi p ps c' cs)
  then show ?case by (auto simp: in_range_def strictly_in_def split: option.splits)
qed auto

lemma seg_route:
  "(l, c, u) \<in> set (segs lo hi ps cs) \<Longrightarrow> pivots_ok lo hi ps \<Longrightarrow> in_range k l u \<Longrightarrow>
     index cs (route ps k) = Some c"
proof (induction lo hi ps cs rule: segs.induct)
  case (3 lo hi p ps c' cs)
  show ?case
  proof (cases "(l, c, u) = (lo, c', Some p)")
    case True
    then have "\<not> p \<le> k" using "3.prems"(3) by (auto simp: in_range_def)
    with True show ?thesis by (simp add: route_Cons)
  next
    case False
    then have *: "(l, c, u) \<in> set (segs (Some p) hi ps cs)" using "3.prems"(1) by auto
    then have "in_range k (Some p) hi" by (rule segs_inside) (use "3.prems" in auto)
    then have "p \<le> k" by (simp add: in_range_def)
    with "3.IH" [OF *] "3.prems" show ?thesis by (simp add: route_Cons)
  qed
qed auto

lemma lsegs_snoc:
  "length cs = length ps \<Longrightarrow> lsegs lo (ps @ [p]) (cs @ [c]) = lsegs lo ps cs @ [(last_lo lo ps, c, Some p)]"
  by (induction ps cs arbitrary: lo rule: list_induct2') auto

lemma widened_forth:
  assumes "(a, d, b) \<in> set (X @ (l, e, u) # Y)" "lower_le l l'" "upper_le u' u"
  shows "\<exists>a' b'. (a', d, b') \<in> set (X @ (l', e, u') # Y) \<and> lower_le a a' \<and> upper_le b' b"
proof (cases "(a, d, b) = (l, e, u)")
  case True
  with assms(2,3) show ?thesis by (intro exI [of _ l'] exI [of _ u']) auto
next
  case False
  with assms(1) show ?thesis by (intro exI [of _ a] exI [of _ b]) auto
qed

lemma widened_back:
  assumes "(a', d, b') \<in> set (X @ (l', e, u') # Y)" "lower_le l l'" "upper_le u' u"
  shows "\<exists>a b. (a, d, b) \<in> set (X @ (l, e, u) # Y) \<and> lower_le a a' \<and> upper_le b' b"
proof (cases "(a', d, b') = (l', e, u')")
  case True
  with assms(2,3) show ?thesis by (intro exI [of _ l] exI [of _ u]) auto
next
  case False
  with assms(1) show ?thesis by (intro exI [of _ a'] exI [of _ b']) auto
qed

text \<open>Dropping a child and its adjacent pivot: the ranges of the others only widen.\<close>

lemma close_segs:
  assumes pok: "pivots_ok lo hi (ps1 @ ps2)" and len: "length cs1 = length ps1" "length cs2 = length ps2"
    and ne: "cs1 @ cs2 \<noteq> []"
  obtains ps' where
    "(if cs1 \<noteq> [] then vec_remove (length cs1 - 1) (ps1 @ ps2)
      else if ps1 @ ps2 \<noteq> [] then vec_remove 0 (ps1 @ ps2) else Some (ps1 @ ps2)) = Some ps'"
    "length (cs1 @ cs2) = Suc (length ps')" "pivots_ok lo hi ps'"
    "\<And>l d u. (l, d, u) \<in> set (segs lo hi ps' (cs1 @ cs2)) \<Longrightarrow>
       \<exists>l' u'. (l', d, u') \<in> set (lsegs lo ps1 cs1 @ rsegs hi ps2 cs2) \<and> lower_le l l' \<and> upper_le u' u"
    "\<And>l' d u'. (l', d, u') \<in> set (lsegs lo ps1 cs1 @ rsegs hi ps2 cs2) \<Longrightarrow>
       \<exists>l u. (l, d, u) \<in> set (segs lo hi ps' (cs1 @ cs2)) \<and> lower_le l l' \<and> upper_le u' u"
proof (cases cs1 rule: rev_cases)
  case Nil
  then obtain p ps d cs where *: "ps1 = []" "ps2 = p # ps" "cs2 = d # cs" "length cs = length ps"
    using len ne by (cases ps2; cases cs2) auto
  have "lower_le lo (Some p)" using pok * by (auto simp: lower_le_def strictly_in_def split: option.splits)
  then have lo: "lower_le lo (Some p)" .
  have new: "segs lo hi ps (cs1 @ cs2) = [] @ (lo, d, first_hi hi ps) # rsegs hi ps cs"
    and old: "lsegs lo ps1 cs1 @ rsegs hi ps2 cs2 = [] @ (Some p, d, first_hi hi ps) # rsegs hi ps cs"
    using * Nil by (simp_all add: segs_Cons)
  show thesis
  proof (rule that [of ps])
    show "(if cs1 \<noteq> [] then vec_remove (length cs1 - 1) (ps1 @ ps2)
      else if ps1 @ ps2 \<noteq> [] then vec_remove 0 (ps1 @ ps2) else Some (ps1 @ ps2)) = Some ps"
      "length (cs1 @ cs2) = Suc (length ps)"
      using * Nil by (simp_all add: vec_remove_def)
    show "pivots_ok lo hi ps" using pok * lo by (auto intro: pivots_ok_widen)
  qed (unfold new old, (rule widened_forth widened_back, assumption, rule lo, simp)+)
next
  case (snoc cs d)
  then obtain ps p where *: "ps1 = ps @ [p]" "length ps = length cs" using len by (cases ps1 rule: rev_cases) auto
  have p: "upper_le (Some p) (first_hi hi ps2)"
    using pok * by (cases ps2) (auto simp: upper_le_def pivots_ok_append strictly_in_def split: option.splits)
  have new: "segs lo hi (ps @ ps2) (cs1 @ cs2) =
      lsegs lo ps cs @ (last_lo lo ps, d, first_hi hi ps2) # rsegs hi ps2 cs2"
    using segs_mid [of cs ps "[]" "[]" cs2 ps2 lo hi d] * snoc len by simp
  have old: "lsegs lo ps1 cs1 = lsegs lo ps cs @ [(last_lo lo ps, d, Some p)]"
    using * snoc by (simp add: lsegs_snoc)
  have old': "lsegs lo ps1 cs1 @ rsegs hi ps2 cs2 = lsegs lo ps cs @ (last_lo lo ps, d, Some p) # rsegs hi ps2 cs2"
    using old by simp
  show thesis
  proof (rule that [of "ps @ ps2"])
    show "(if cs1 \<noteq> [] then vec_remove (length cs1 - 1) (ps1 @ ps2)
      else if ps1 @ ps2 \<noteq> [] then vec_remove 0 (ps1 @ ps2) else Some (ps1 @ ps2)) = Some (ps @ ps2)"
      "length (cs1 @ cs2) = Suc (length (ps @ ps2))"
      using * snoc len by (simp_all add: vec_remove_def)
    show "pivots_ok lo hi (ps @ ps2)" using pok * by (auto simp: pivots_ok_iff sorted_wrt_append)
  qed (unfold new old', (rule widened_forth widened_back, assumption, simp, rule p)+)
qed

lemma hole_close:
  assumes ok: "arena_ok s" and N: "N = t_nodes s" and P: "P = t_params s"
    and hole: "hole P N h lo hi tp ps1 cs1 c ps2 cs2 b"
    and c: "c \<notin> hole_ids N h tp cs1 cs2"
    and b: "\<forall>k\<in>bt_keys b. \<not> in_range k (last_lo lo ps1) (first_hi hi ps2)"
  shows "\<exists>s' ps'. remove_child tp c s = Some s' \<and> arena_ok s' \<and> same_env s s' \<and>
    t_nodes s' = N[tp := Internal ps' (cs1 @ cs2) b] \<and>
    loose P (t_nodes s') h lo hi tp \<and>
    reach (t_nodes s') (Suc h) tp = tp # reach_all N h cs1 @ reach_all N h cs2 \<and>
    weight (t_nodes s') (Suc h) tp = Suc h * length b + weight_all N h (cs1 @ cs2) \<and>
    (\<forall>k. in_range k lo hi \<longrightarrow> occ (t_nodes s') (Suc h) tp k = add_msg (bt_get b k)
       (if in_range k (last_lo lo ps1) (first_hi hi ps2) then ([], None)
        else occF N h (ps1 @ ps2) (cs1 @ c # cs2) k))"
proof -
  have tp: "index N tp = Some (Internal (ps1 @ ps2) (cs1 @ c # cs2) b)" "tp < length N"
    and len: "length cs1 = length ps1" "length cs2 = length ps2" and pok: "pivots_ok lo hi (ps1 @ ps2)"
    using hole by (auto simp: hole_def index_eq_Some)
  have "c \<notin> set cs1" using c reach_self by (fastforce simp: hole_ids_def)
  then have pos: "position c (cs1 @ c # cs2) = Some (length cs1)" by (rule position_append)
  let ?drop = "if cs1 \<noteq> [] then vec_remove (length cs1 - 1) (ps1 @ ps2)
      else if ps1 @ ps2 \<noteq> [] then vec_remove 0 (ps1 @ ps2) else Some (ps1 @ ps2)"
  have rm: "remove_child tp c s = Some (set_node tp (Internal ps' (cs1 @ cs2) b) (dirtied tp s))"
    if "?drop = Some ps'" for ps'
    using that tp ok N pos by (auto simp: remove_child_def mark_dirty_ok node_at_index arena_simps split: if_splits)
  have main: ?thesis if drop: "?drop = Some ps'"
    and f: "ps' = [] \<and> cs1 @ cs2 = [] \<and> b = [] \<or> forest P N h lo hi ps' (cs1 @ cs2)"
    and occ: "\<And>k. in_range k lo hi \<Longrightarrow> occF N h ps' (cs1 @ cs2) k =
      (if in_range k (last_lo lo ps1) (first_hi hi ps2) then ([], None) else occF N h (ps1 @ ps2) (cs1 @ c # cs2) k)" for ps'
  proof -
    let ?N' = "N[tp := Internal ps' (cs1 @ cs2) b]"
    have ag: "agree (set (reach N h d)) N ?N'" if "d \<in> set (cs1 @ cs2)" for d
      by (rule agree_update) (use that hole in \<open>auto simp: hole_def\<close>)
    have ra: "reach_all ?N' h (cs1 @ cs2) = reach_all N h (cs1 @ cs2)"
      using agree_local(1) [OF ag] by (intro arg_cong [of _ _ concat] map_cong) auto
    have tp': "index ?N' tp = Some (Internal ps' (cs1 @ cs2) b)" using tp by (simp add: index_update)
    have r: "reach ?N' (Suc h) tp = tp # reach_all N h (cs1 @ cs2)" using tp' ra by simp
    have "forest P ?N' h lo hi ps' (cs1 @ cs2)" if "forest P N h lo hi ps' (cs1 @ cs2)"
    proof -
      have "tree P ?N' h l u d = tree P N h l u d" if "(l, d, u) \<in> set (segs lo hi ps' (cs1 @ cs2))" for l d u
        using segs_in [OF _ that] \<open>forest P N h lo hi ps' (cs1 @ cs2)\<close>
        by (intro agree_local(2) ag) (auto simp: forest_def)
      with that show ?thesis by (auto simp: forest_def)
    qed
    moreover have "distinct (reach ?N' (Suc h) tp)" unfolding r using hole by (simp add: hole_def)
    ultimately have "loose P ?N' h lo hi tp"
      using f tp' hole by (auto simp: loose_def hole_def simp del: reach.simps)
    moreover have "weight_all ?N' h (cs1 @ cs2) = weight_all N h (cs1 @ cs2)"
      using agree_local(4) [OF ag] by (intro arg_cong [of _ _ sum_list] map_cong) auto
    then have "weight ?N' (Suc h) tp = Suc h * length b + weight_all N h (cs1 @ cs2)" using tp' by simp
    moreover have "occ ?N' (Suc h) tp k = add_msg (bt_get b k) (occF N h ps' (cs1 @ cs2) k)" for k
      using occ_Suc [OF tp'] occF_cong [of "cs1 @ cs2" ?N' h k N ps'] agree_local(3) [OF ag] by simp
    ultimately show ?thesis
      using rm [OF drop] ok N r occ
      by (intro exI [of _ "set_node tp (Internal ps' (cs1 @ cs2) b) (dirtied tp s)"] exI [of _ ps'])
        (simp add: arena_simps del: occ.simps weight.simps reach.simps)
  qed
  show ?thesis
  proof (cases "cs1 @ cs2 = []")
    case True
    then have e: "ps1 = []" "ps2 = []" "cs1 = []" "cs2 = []" using len by auto
    have "b = []"
    proof (rule ccontr)
      assume "b \<noteq> []"
      then obtain k where "k \<in> bt_keys b" by (cases b) auto
      then show False using b hole e by (auto simp: hole_def buffer_ok_def)
    qed
    then show ?thesis using e by (intro main [of "[]"]) (auto simp: occF_def)
  next
    case False
    from close_segs [OF pok len False] obtain ps' where drop: "?drop = Some ps'"
      and len': "length (cs1 @ cs2) = Suc (length ps')" and pok': "pivots_ok lo hi ps'"
      and new: "\<And>l d u. (l, d, u) \<in> set (segs lo hi ps' (cs1 @ cs2)) \<Longrightarrow>
        \<exists>l' u'. (l', d, u') \<in> set (lsegs lo ps1 cs1 @ rsegs hi ps2 cs2) \<and> lower_le l l' \<and> upper_le u' u"
      and old: "\<And>l' d u'. (l', d, u') \<in> set (lsegs lo ps1 cs1 @ rsegs hi ps2 cs2) \<Longrightarrow>
        \<exists>l u. (l, d, u) \<in> set (segs lo hi ps' (cs1 @ cs2)) \<and> lower_le l l' \<and> upper_le u' u"
      by metis
    have trees: "tree P N h l u d" if "(l, d, u) \<in> set (lsegs lo ps1 cs1 @ rsegs hi ps2 cs2)" for l d u
      using hole that by (fastforce simp: hole_def)
    have f: "forest P N h lo hi ps' (cs1 @ cs2)"
      unfolding forest_def using len' pok' new trees tree_widen by fast
    have segs: "segs lo hi (ps1 @ ps2) (cs1 @ c # cs2) =
        lsegs lo ps1 cs1 @ (last_lo lo ps1, c, first_hi hi ps2) # rsegs hi ps2 cs2"
      using segs_mid [OF len(1) _ len(2), of "[]" "[]" lo hi c] by simp
    show ?thesis
    proof (rule main [OF drop disjI2 [OF f]])
      fix k assume k: "in_range k lo hi"
      from route_seg [OF len' pok', of k] k obtain l d u where d: "index (cs1 @ cs2) (route ps' k) = Some d"
        "(l, d, u) \<in> set (segs lo hi ps' (cs1 @ cs2))" "in_range k l u" by auto
      show "occF N h ps' (cs1 @ cs2) k =
        (if in_range k (last_lo lo ps1) (first_hi hi ps2) then ([], None) else occF N h (ps1 @ ps2) (cs1 @ c # cs2) k)"
      proof (cases "in_range k (last_lo lo ps1) (first_hi hi ps2)")
        case True
        from new [OF d(2)] obtain l' u' where d': "(l', d, u') \<in> set (lsegs lo ps1 cs1 @ rsegs hi ps2 cs2)" by blast
        have "\<not> in_range k l' u'"
        proof
          assume "in_range k l' u'"
          then have "index (cs1 @ c # cs2) (route (ps1 @ ps2) k) = Some d"
            using seg_route [of l' d u' lo hi "ps1 @ ps2" "cs1 @ c # cs2" k] d' pok segs by auto
          moreover have "index (cs1 @ c # cs2) (route (ps1 @ ps2) k) = Some c"
            using seg_route [of "last_lo lo ps1" c "first_hi hi ps2" lo hi "ps1 @ ps2" "cs1 @ c # cs2" k] pok segs True by auto
          ultimately have "d = c" by simp
          then have "c \<in> set (cs1 @ cs2)" using d(1) by (auto simp: index_eq_Some simp del: set_append)
          then show False using c reach_self by (fastforce simp: hole_ids_def)
        qed
        then have "occ N h d k = ([], None)" using occ_out_of_range trees [OF d'] by blast
        with True d(1) show ?thesis by (simp add: occF_def)
      next
        case False
        from route_seg [of "cs1 @ c # cs2" "ps1 @ ps2" lo hi k] len pok k obtain l2 d2 u2
          where d2: "index (cs1 @ c # cs2) (route (ps1 @ ps2) k) = Some d2"
          "(l2, d2, u2) \<in> set (segs lo hi (ps1 @ ps2) (cs1 @ c # cs2))" "in_range k l2 u2" by auto
        then have "(l2, d2, u2) \<in> set (lsegs lo ps1 cs1 @ rsegs hi ps2 cs2)" using False segs by auto
        from old [OF this] obtain l3 u3 where "(l3, d2, u3) \<in> set (segs lo hi ps' (cs1 @ cs2))"
          "lower_le l3 l2" "upper_le u2 u3" by blast
        then have "index (cs1 @ cs2) (route ps' k) = Some d2"
          using seg_route pok' in_range_widen d2(3) by blast
        with False d2(1) show ?thesis by (simp add: occF_def)
      qed
    qed
  qed
qed

end
