(* ===== verification/Arena_Split.thy ===== *)
theory Arena_Split
  imports Arena_Step "HOL-Library.Multiset"
begin

text \<open>
  Splitting an overfull node. \<open>split_post\<close> is what a split hands to the parent: the pieces share
  out the node's range along the promoted pivots, each within its capacities, the paths of all
  keys are as before, and only the node itself and fresh arena slots were written. It holds for
  leaves (\<open>split_leaf_post\<close>) and for internal nodes (\<open>split_internal_post\<close>), and also when nothing
  had to be split.
\<close>

definition split_post :: "'p betree \<Rightarrow> 'p betree \<Rightarrow> nat \<Rightarrow> key option \<Rightarrow> key option \<Rightarrow> node_id \<Rightarrow>
    key list \<Rightarrow> node_id list \<Rightarrow> bool" where
  "split_post s s' h lo hi c qs ds \<longleftrightarrow>
     arena_ok s' \<and> same_env s s' \<and> within {c} (t_nodes s) (t_nodes s') \<and>
     forest (t_params s) (t_nodes s') h lo hi qs (c # ds) \<and>
     distinct (reach_all (t_nodes s') h (c # ds)) \<and>
     set (reach_all (t_nodes s') h (c # ds)) \<subseteq> set (reach (t_nodes s) h c) \<union> {i. length (t_nodes s) \<le> i} \<and>
     (\<forall>k. in_range k lo hi \<longrightarrow> occF (t_nodes s') h qs (c # ds) k = occ (t_nodes s) h c k) \<and>
     weight_all (t_nodes s') h (c # ds) = weight (t_nodes s) h c"

lemma split_post_refl:
  assumes "arena_ok s" "tree (t_params s) (t_nodes s) h lo hi c" "distinct (reach (t_nodes s) h c)"
  shows "split_post s s h lo hi c [] []"
  using assms by (simp add: split_post_def forest_def occF_def)

section \<open>Leaves\<close>

lemma concat_take_pieces: "sum_list sizes = length xs \<Longrightarrow> concat (take_pieces sizes xs) = xs"
  by (induction sizes arbitrary: xs) auto

lemma length_take_pieces [simp]: "length (take_pieces sizes xs) = length sizes"
  by (induction sizes arbitrary: xs) auto

lemma lengths_take_pieces: "sum_list sizes = length xs \<Longrightarrow> map length (take_pieces sizes xs) = sizes"
  by (induction sizes arbitrary: xs) auto

lemma bt_ok_concat: "bt_ok (concat ms) \<Longrightarrow> m \<in> set ms \<Longrightarrow> bt_ok m"
  by (induction ms) (auto simp: bt_ok_append)

definition piece_key :: "entries \<Rightarrow> key" where
  "piece_key piece = fst (hd piece)"

lemma alloc_leaves_eq:
  assumes "\<forall>p\<in>set pieces. p \<noteq> []"
  shows "\<exists>s'. alloc_leaves pieces s =
      Some (zip (map piece_key pieces) [length (t_nodes s)..<length (t_nodes s) + length pieces], s') \<and>
    t_nodes s' = t_nodes s @ map Leaf pieces \<and> (arena_ok s \<longrightarrow> arena_ok s') \<and> same_env s s'"
  using assms
proof (induction pieces arbitrary: s)
  case (Cons p pieces)
  let ?s1 = "snd (alloc (Leaf p) s)"
  from Cons obtain s' where s': "alloc_leaves pieces ?s1 =
      Some (zip (map piece_key pieces) [length (t_nodes ?s1)..<length (t_nodes ?s1) + length pieces], s')"
    "t_nodes s' = t_nodes ?s1 @ map Leaf pieces" "arena_ok ?s1 \<longrightarrow> arena_ok s'" "same_env ?s1 s'"
    by (metis list.set_intros(2))
  obtain kv rest where p: "p = kv # rest" using Cons.prems by (cases p) auto
  have upt: "[length (t_nodes s)..<length (t_nodes s) + length (p # pieces)] =
      length (t_nodes s) # [length (t_nodes ?s1)..<length (t_nodes ?s1) + length pieces]"
    by (simp add: arena_simps upt_conv_Cons del: upt_Suc)
  have "alloc_leaves (p # pieces) s =
      Some (zip (map piece_key (p # pieces)) [length (t_nodes s)..<length (t_nodes s) + length (p # pieces)], s')"
    unfolding upt using s'(1) by (cases kv) (simp add: p piece_key_def split_beta alloc_simps(1))
  moreover have "same_env s s'" by (rule same_env_trans [OF alloc_simps(6) s'(4)])
  ultimately show ?case using s' by (auto simp: arena_simps)
qed simp

lemma leaf_forest:
  assumes "bt_ok (concat (first # pieces))" "\<forall>p\<in>set (first # pieces). p \<noteq> [] \<and> length p \<le> leaf_capacity P"
    and "\<forall>k\<in>bt_keys (concat (first # pieces)). in_range k lo hi"
    and "list_all2 (\<lambda>d p. index N d = Some (Leaf p)) (c # ds) (first # pieces)"
  shows "forest P N 0 lo hi (map piece_key pieces) (c # ds) \<and>
    occF N 0 (map piece_key pieces) (c # ds) k = ([], bt_get (concat (first # pieces)) k)"
  using assms
proof (induction pieces arbitrary: first lo c ds)
  case Nil
  then show ?case by (simp add: forest_def leaf_ok_def occF_def)
next
  case (Cons p pieces)
  from Cons.prems(4) obtain d ds' where ds: "ds = d # ds'" and c: "index N c = Some (Leaf first)"
    by (auto simp: list_all2_Cons2)
  let ?q = "piece_key p"
  have p: "p \<noteq> []" "first \<noteq> []" using Cons.prems(2) by auto
  have q: "?q \<in> bt_keys p" using p by (auto simp: piece_key_def)
  have okc: "bt_ok (concat (p # pieces))" and lt: "\<forall>a\<in>bt_keys first. \<forall>b\<in>bt_keys (concat (p # pieces)). a < b"
    using Cons.prems(1) by (simp_all add: bt_ok_append)
  have ge: "\<forall>b\<in>bt_keys (concat (p # pieces)). ?q \<le> b"
    using okc p by (cases p) (auto simp: piece_key_def bt_ok_Cons intro: less_imp_le)
  have qin: "?q \<in> bt_keys (concat (p # pieces))" using q by auto
  obtain a where a: "a \<in> bt_keys first" using p(2) by (cases first) auto
  have aq: "a < ?q" using lt a qin by blast
  have rng: "in_range a lo hi" "in_range ?q lo hi" using Cons.prems(3) a qin by (auto simp: image_Un)
  have strict: "strictly_in lo hi ?q"
    using rng aq by (auto simp: strictly_in_def in_range_def split: option.splits)
  have IH: "forest P N 0 (Some ?q) hi (map piece_key pieces) (d # ds') \<and>
      occF N 0 (map piece_key pieces) (d # ds') k = ([], bt_get (concat (p # pieces)) k)"
  proof (rule Cons.IH)
    show "\<forall>k\<in>bt_keys (concat (p # pieces)). in_range k (Some ?q) hi"
    proof
      fix k assume k: "k \<in> bt_keys (concat (p # pieces))"
      then have "in_range k lo hi" using Cons.prems(3) by (auto simp: image_Un)
      with bspec [OF ge k] show "in_range k (Some ?q) hi" by (simp add: in_range_def)
    qed
  qed (use okc Cons.prems(2,4) ds in auto)
  have "tree P N 0 lo (Some ?q) c"
  proof -
    have "\<forall>k\<in>bt_keys first. in_range k lo (Some ?q)"
      using Cons.prems(3) lt qin by (auto simp: in_range_def image_Un split: option.splits)
    then show ?thesis using c Cons.prems(1,2) by (simp add: leaf_ok_def bt_ok_append)
  qed
  then have "forest P N 0 lo hi (map piece_key (p # pieces)) (c # ds)"
    using IH strict ds by (simp add: forest_def)
  moreover have "occF N 0 (map piece_key (p # pieces)) (c # ds) k = ([], bt_get (concat (first # p # pieces)) k)"
  proof (cases "?q \<le> k")
    case True
    have "k \<notin> bt_keys first"
    proof
      assume "k \<in> bt_keys first"
      then have "k < ?q" using lt qin by blast
      with True show False by (simp add: not_le)
    qed
    then have "bt_get first k = None" by (simp only: bt_get_None_iff not_False_eq_True)
    then have "bt_get (first @ concat (p # pieces)) k = bt_get (concat (p # pieces)) k"
      by (simp add: map_add_def split: option.split)
    with True IH ds show ?thesis by (simp add: occF_def route_Cons)
  next
    case False
    then have "k \<notin> bt_keys (concat (p # pieces))" using ge by blast
    then have "bt_get (concat (p # pieces)) k = None" by (simp only: bt_get_None_iff not_False_eq_True)
    then have "bt_get (first @ concat (p # pieces)) k = bt_get first k"
      unfolding map_of_append map_add_def by (auto simp only: split: option.split)
    with False c show ?thesis by (simp add: occF_def route_Cons del: map_of_append)
  qed
  ultimately show ?case by simp
qed

lemma reach_all_0 [simp]: "reach_all N 0 cs = cs" "weight_all N 0 cs = 0"
  by (induction cs) auto

lemma appended_nodes:
  "list_all2 (\<lambda>d n. index (N @ ns) d = Some n) [length N..<length N + length ns] ns"
  by (auto simp: list_all2_conv_all_nth index_append)

lemma list_all2_Leaf: "list_all2 (\<lambda>d n. Q d n) ds (map Leaf ps) = list_all2 (\<lambda>d p. Q d (Leaf p)) ds ps"
  by (simp add: list_all2_map2)

lemma split_leaf_post:
  assumes ok: "arena_ok s" and c: "index (t_nodes s) c = Some (Leaf es)"
    and es: "leaf_ok lo hi es" "es \<noteq> []"
  shows "\<exists>qs ds s'. split_if_needed c s = Some (zip qs ds, s') \<and> split_post s s' 0 lo hi c qs ds"
proof (cases "length es > leaf_capacity (t_params s)")
  case False
  then have "split_if_needed c s = Some (zip [] [], s)" using c by (simp add: split_if_needed_def node_at_index)
  moreover have "split_post s s 0 lo hi c [] []" using False c ok es by (intro split_post_refl) auto
  ultimately show ?thesis by blast
next
  case True
  have cap: "1 \<le> leaf_capacity (t_params s)" using ok by (simp add: arena_ok_def params_legal_def)
  obtain sizes where sz: "partition_sizes (length es) (leaf_capacity (t_params s)) = Some sizes"
    "sum_list sizes = length es" "\<forall>x\<in>set sizes. x \<le> leaf_capacity (t_params s)" "sizes \<noteq> []" "\<forall>x\<in>set sizes. 1 \<le> x"
    using partition_sizes_total [OF cap, of "length es"] True by fastforce
  obtain first rest where pcs: "take_pieces sizes es = first # rest"
    using sz(4) by (cases sizes) auto
  have cat: "concat (first # rest) = es" using concat_take_pieces [OF sz(2)] by (simp add: pcs)
  have "length p \<in> set sizes" if "p \<in> set (first # rest)" for p
  proof -
    have "length p \<in> set (map length (take_pieces sizes es))" using that by (auto simp: pcs)
    then show ?thesis by (simp add: lengths_take_pieces [OF sz(2)])
  qed
  then have len: "\<forall>p\<in>set (first # rest). p \<noteq> [] \<and> length p \<le> leaf_capacity (t_params s)"
    using sz(3,5) by fastforce
  have bt: "bt_ok (concat (first # rest))" using es by (simp add: cat leaf_ok_def del: concat.simps)
  have coll: "map bt_collect (take_pieces sizes es) = first # rest"
    unfolding pcs using bt_ok_concat [OF bt] bt_collect_eq by (intro map_idI) blast
  let ?s1 = "set_node c (Leaf first) (dirtied c s)"
  let ?n = "length (t_nodes s)"
  let ?ds = "[?n..<?n + length rest]"
  have c': "c < ?n" using c by (simp add: index_eq_Some)
  obtain s' where s': "alloc_leaves rest ?s1 = Some (zip (map piece_key rest) ?ds, s')"
    "t_nodes s' = (t_nodes s)[c := Leaf first] @ map Leaf rest" "arena_ok s'" "same_env ?s1 s'"
    using alloc_leaves_eq [of rest ?s1] len ok by (auto simp: arena_simps)
  have call: "split_if_needed c s = Some (zip (map piece_key rest) ?ds, s')"
    using True c c' ok sz(1) coll s'(1)
    by (simp add: split_if_needed_def split_leaf_def node_at_index mark_dirty_ok arena_simps)
  have nodes: "list_all2 (\<lambda>d p. index (t_nodes s') d = Some (Leaf p)) (c # ?ds) (first # rest)"
    using appended_nodes [of "(t_nodes s)[c := Leaf first]" "map Leaf rest"] c'
    by (simp add: s'(2) list_all2_Leaf index_append index_update)
  have rng: "\<forall>k\<in>bt_keys (concat (first # rest)). in_range k lo hi"
    using es(1) unfolding cat by (simp add: leaf_ok_def)
  have lf: "forest (t_params s) (t_nodes s') 0 lo hi (map piece_key rest) (c # ?ds) \<and>
      occF (t_nodes s') 0 (map piece_key rest) (c # ?ds) k = ([], bt_get es k)" for k
    using leaf_forest [OF bt len rng nodes] by (simp add: cat del: concat.simps)
  have "within {c} (t_nodes s) (t_nodes s')"
    unfolding s'(2) by (rule within_trans [OF within_update within_append]) auto
  moreover have "same_env s s'" by (rule same_env_trans [OF same_env_set_dirtied s'(4)])
  ultimately have "split_post s s' 0 lo hi c (map piece_key rest) ?ds"
    using s'(3) lf c c' by (auto simp: split_post_def)
  with call show ?thesis by blast
qed

section \<open>Internal nodes\<close>

text \<open>A piece of a split: the promoted pivot, the pivots, the children and the buffer.\<close>
type_synonym piece = "key \<times> key list \<times> node_id list \<times> buffer"

fun piece_sep :: "piece \<Rightarrow> key" where "piece_sep (q, pp, pc, pb) = q"
fun piece_pivots :: "piece \<Rightarrow> key list" where "piece_pivots (q, pp, pc, pb) = pp"
fun piece_children :: "piece \<Rightarrow> node_id list" where "piece_children (q, pp, pc, pb) = pc"
fun piece_buffer :: "piece \<Rightarrow> buffer" where "piece_buffer (q, pp, pc, pb) = pb"
fun piece_node :: "piece \<Rightarrow> node" where "piece_node (q, pp, pc, pb) = Internal pp pc pb"

definition all_pivots :: "key list \<Rightarrow> piece list \<Rightarrow> key list" where
  "all_pivots fp pcs = fp @ concat (map (\<lambda>p. piece_sep p # piece_pivots p) pcs)"

definition all_children :: "node_id list \<Rightarrow> piece list \<Rightarrow> node_id list" where
  "all_children fc pcs = fc @ concat (map piece_children pcs)"

definition all_buffer :: "buffer \<Rightarrow> piece list \<Rightarrow> buffer" where
  "all_buffer fb pcs = fb @ concat (map piece_buffer pcs)"

text \<open>Every buffer lies between the separators around its piece.\<close>
fun separated :: "buffer \<Rightarrow> piece list \<Rightarrow> bool" where
  "separated fb [] = True"
| "separated fb (p # pcs) =
     ((\<forall>k\<in>bt_keys fb. k < piece_sep p) \<and> (\<forall>k\<in>bt_keys (all_buffer (piece_buffer p) pcs). piece_sep p \<le> k) \<and>
      separated (piece_buffer p) pcs)"

lemma all_simps [simp]:
  "all_pivots fp [] = fp" "all_pivots fp (p # pcs) = fp @ piece_sep p # all_pivots (piece_pivots p) pcs"
  "all_children fc [] = fc" "all_children fc (p # pcs) = fc @ all_children (piece_children p) pcs"
  "all_buffer fb [] = fb" "all_buffer fb (p # pcs) = fb @ all_buffer (piece_buffer p) pcs"
  by (simp_all add: all_pivots_def all_children_def all_buffer_def)

lemma all_snoc:
  "all_pivots fp (pcs @ [p]) = all_pivots fp pcs @ piece_sep p # piece_pivots p"
  "all_children fc (pcs @ [p]) = all_children fc pcs @ piece_children p"
  "all_buffer fb (pcs @ [p]) = all_buffer fb pcs @ piece_buffer p"
  by (simp_all add: all_pivots_def all_children_def all_buffer_def)

lemma separated_snoc:
  assumes "separated fb pcs" "\<forall>k\<in>bt_keys (all_buffer fb pcs). k < piece_sep p"
    "\<forall>k\<in>bt_keys (piece_buffer p). piece_sep p \<le> k" "\<forall>q\<in>set pcs. piece_sep q \<le> piece_sep p"
  shows "separated fb (pcs @ [p])"
  using assms
proof (induction pcs arbitrary: fb)
  case (Cons q pcs)
  have "separated (piece_buffer q) (pcs @ [p])" by (rule Cons.IH) (use Cons.prems in \<open>auto simp: image_Un\<close>)
  moreover have "\<forall>k\<in>bt_keys (all_buffer (piece_buffer q) (pcs @ [p])). piece_sep q \<le> k"
    using Cons.prems(1,3,4) unfolding all_snoc by (auto intro: order.trans)
  ultimately show ?case using Cons.prems(1) by simp
qed auto

lemma segs_append:
  "length fc = Suc (length fp) \<Longrightarrow>
     segs lo hi (fp @ q # ps) (fc @ cs) = segs lo (Some q) fp fc @ segs (Some q) hi ps cs"
proof (induction fp arbitrary: fc lo)
  case Nil
  then show ?case by (cases fc) auto
next
  case (Cons p fp)
  then show ?case by (cases fc) auto
qed

lemma forest_append:
  assumes "length fc = Suc (length fp)"
  shows "forest P N h lo hi (fp @ q # ps) (fc @ cs) \<longleftrightarrow>
    strictly_in lo hi q \<and> forest P N h lo (Some q) fp fc \<and> forest P N h (Some q) hi ps cs"
proof -
  have "pivots_ok lo hi (fp @ q # ps) \<longleftrightarrow> strictly_in lo hi q \<and> pivots_ok lo (Some q) fp \<and> pivots_ok (Some q) hi ps"
    using pivots_ok_append [of lo hi fp "q # ps"] pivots_ok_bounds [of lo hi "fp @ q # ps" q]
    by (cases fp rule: rev_cases) (auto simp: pivots_ok_append strictly_in_def split: option.splits)
  then show ?thesis using assms by (auto simp: forest_def segs_append ball_Un)
qed

lemma occF_append:
  assumes "length fc = Suc (length fp)" "pivots_ok lo hi (fp @ q # ps)"
  shows "occF N h (fp @ q # ps) (fc @ cs) k = (if q \<le> k then occF N h ps cs k else occF N h fp fc k)"
proof (cases "q \<le> k")
  case True
  then have "\<forall>p\<in>set fp. p \<le> k" using assms(2) by (force simp: pivots_ok_iff sorted_wrt_append)
  with True assms(1) show ?thesis by (simp add: occF_def route_append route_Cons index_append)
next
  case False
  have "route (fp @ q # ps) k = route fp k"
    using False route_append [of fp "[]" k] by (auto simp: route_append route_Cons)
  with False assms(1) route_le [of fp k] show ?thesis by (simp add: occF_def index_append)
qed

text \<open>Nodes \<open>ds\<close> of the new arena stand for a node with the given pivots, children and buffer.\<close>

definition replaced :: "params \<Rightarrow> node list \<Rightarrow> node list \<Rightarrow> nat \<Rightarrow> key option \<Rightarrow> key option \<Rightarrow>
    key list \<Rightarrow> node_id list \<Rightarrow> buffer \<Rightarrow> key list \<Rightarrow> node_id list \<Rightarrow> bool" where
  "replaced P N N' h lo hi ps cs b qs ds \<longleftrightarrow>
     forest P N' (Suc h) lo hi qs ds \<and>
     (\<forall>k. in_range k lo hi \<longrightarrow> occF N' (Suc h) qs ds k = add_msg (bt_get b k) (occF N h ps cs k)) \<and>
     mset (reach_all N' (Suc h) ds) = mset ds + mset (reach_all N h cs) \<and>
     weight_all N' (Suc h) ds = Suc h * length b + weight_all N h cs"

lemma replaced_single:
  assumes f: "forest P N h lo hi fp fc" and b: "buffer_ok lo hi fb" "length fb \<le> buffer_capacity P"
    and fc: "length fc \<le> fanout P" and c: "index N' c = Some (Internal fp fc fb)"
    and agree: "agree (set (reach_all N h fc)) N N'"
  shows "replaced P N N' h lo hi fp fc fb [] [c]"
proof -
  have ag: "agree (set (reach N h d)) N N'" if "d \<in> set fc" for d
    by (rule agree_mono [OF agree]) (use that in auto)
  have "forest P N' h lo hi fp fc"
    using f segs_in [of fc fp] agree_local(2) [OF ag] by (fastforce simp: forest_def)
  then have "tree P N' (Suc h) lo hi c" using b fc c by (simp add: tree_Suc del: tree.simps)
  moreover have "occF N' h fp fc k = occF N h fp fc k" for k
    by (rule occF_cong) (use agree_local(3) [OF ag] in auto)
  then have "occ N' (Suc h) c k = add_msg (bt_get fb k) (occF N h fp fc k)" for k
    using occ_Suc [OF c] by simp
  moreover have "map (reach N' h) fc = map (reach N h) fc" "map (weight N' h) fc = map (weight N h) fc"
    using agree_local(1,4) [OF ag] by auto
  then have "reach N' (Suc h) c = c # reach_all N h fc" "weight N' (Suc h) c = Suc h * length fb + weight_all N h fc"
    using c by (simp_all del: map_eq_conv)
  ultimately show ?thesis
    by (simp add: replaced_def forest_def occF_def del: tree.simps occ.simps reach.simps weight.simps)
qed

lemma bt_get_append: "bt_get (b @ b') k = (case bt_get b k of None \<Rightarrow> bt_get b' k | Some m \<Rightarrow> Some m)"
  by (simp add: map_add_def)

lemma replaced_append:
  assumes one: "replaced P N N' h lo (Some q) fp fc fb [] [c]"
    and rest: "replaced P N N' h (Some q) hi ps cs b qs ds"
    and len: "length fc = Suc (length fp)" and piv: "pivots_ok lo hi (fp @ q # ps)"
    and fb: "\<forall>k\<in>bt_keys fb. k < q" and b: "\<forall>k\<in>bt_keys b. q \<le> k"
  shows "replaced P N N' h lo hi (fp @ q # ps) (fc @ cs) (fb @ b) (q # qs) (c # ds)"
proof -
  have q: "strictly_in lo hi q" using pivots_ok_bounds [OF piv] by simp
  have f: "forest P N' (Suc h) lo hi (q # qs) (c # ds)"
    using one rest q by (auto simp: replaced_def forest_def)
  moreover have "occF N' (Suc h) (q # qs) (c # ds) k =
      add_msg (bt_get (fb @ b) k) (occF N h (fp @ q # ps) (fc @ cs) k)" if k: "in_range k lo hi" for k
  proof -
    have occ: "occF N' (Suc h) (q # qs) (c # ds) k = (if q \<le> k then occF N' (Suc h) qs ds k else occF N' (Suc h) [] [c] k)"
      by (simp add: occF_def route_Cons)
    show ?thesis
    proof (cases "q \<le> k")
      case True
      then have "in_range k (Some q) hi" using k by (simp add: in_range_def)
      moreover have "bt_get fb k = None" using fb True by (meson bt_get_None_iff not_less)
      then have "bt_get (fb @ b) k = bt_get b k" unfolding bt_get_append by (auto split: option.split)
      ultimately show ?thesis using True rest occ occF_append [OF len piv, of N h cs k]
        by (simp add: replaced_def del: map_of_append)
    next
      case False
      then have "in_range k lo (Some q)" using k by (simp add: in_range_def)
      moreover have "bt_get b k = None" using b False by (meson bt_get_None_iff)
      then have "bt_get (fb @ b) k = bt_get fb k" unfolding bt_get_append by (auto split: option.split)
      ultimately show ?thesis using False one occ occF_append [OF len piv, of N h cs k]
        by (simp add: replaced_def del: map_of_append)
    qed
  qed
  moreover have "mset (reach_all N' (Suc h) (c # ds)) = mset (c # ds) + mset (reach_all N h (fc @ cs))"
    using one rest by (simp add: replaced_def del: reach.simps)
  moreover have "weight_all N' (Suc h) (c # ds) = Suc h * length (fb @ b) + weight_all N h (fc @ cs)"
    using one rest by (simp add: replaced_def algebra_simps del: weight.simps)
  ultimately show ?thesis by (simp add: replaced_def del: reach.simps weight.simps)
qed

lemma pieces_replace:
  assumes "forest P N h lo hi (all_pivots fp pcs) (all_children fc pcs)" "buffer_ok lo hi (all_buffer fb pcs)"
    and "length (all_buffer fb pcs) \<le> buffer_capacity P" "separated fb pcs"
    and "length fc = Suc (length fp)" "length fc \<le> fanout P"
    and "\<forall>p\<in>set pcs. length (piece_children p) = Suc (length (piece_pivots p)) \<and> length (piece_children p) \<le> fanout P"
    and "list_all2 (\<lambda>d n. index N' d = Some n) (c # ds) (Internal fp fc fb # map piece_node pcs)"
    and "agree (set (reach_all N h (all_children fc pcs))) N N'"
  shows "replaced P N N' h lo hi (all_pivots fp pcs) (all_children fc pcs) (all_buffer fb pcs) (map piece_sep pcs) (c # ds)"
  using assms
proof (induction pcs arbitrary: fp fc fb lo c ds)
  case Nil
  then show ?case by (auto intro: replaced_single)
next
  case (Cons p pcs)
  let ?q = "piece_sep p"
  obtain d ds' where ds: "ds = d # ds'" and c: "index N' c = Some (Internal fp fc fb)"
    and rest: "list_all2 (\<lambda>d n. index N' d = Some n) (d # ds') (piece_node p # map piece_node pcs)"
    using Cons.prems(8) by (auto simp: list_all2_Cons2)
  have node: "piece_node p = Internal (piece_pivots p) (piece_children p) (piece_buffer p)"
    by (cases p) simp
  have f: "strictly_in lo hi ?q" "forest P N h lo (Some ?q) fp fc"
    "forest P N h (Some ?q) hi (all_pivots (piece_pivots p) pcs) (all_children (piece_children p) pcs)"
    using Cons.prems(1) forest_append [OF Cons.prems(5)] by auto
  have b: "buffer_ok lo (Some ?q) fb" "buffer_ok (Some ?q) hi (all_buffer (piece_buffer p) pcs)"
    using Cons.prems(2,4) by (auto simp: buffer_ok_def bt_ok_append in_range_def)
  have ag: "agree (set (reach_all N h fc)) N N'" "agree (set (reach_all N h (all_children (piece_children p) pcs))) N N'"
    using agree_mono [OF Cons.prems(9)] by auto
  have one: "replaced P N N' h lo (Some ?q) fp fc fb [] [c]"
    using Cons.prems(3,6) by (intro replaced_single f(2) b(1) c ag(1)) auto
  have more: "replaced P N N' h (Some ?q) hi (all_pivots (piece_pivots p) pcs) (all_children (piece_children p) pcs)
      (all_buffer (piece_buffer p) pcs) (map piece_sep pcs) (d # ds')"
    using Cons.prems(3,4,7) rest node by (intro Cons.IH f(3) b(2) ag(2)) auto
  have "pivots_ok lo hi (fp @ ?q # all_pivots (piece_pivots p) pcs)"
    using Cons.prems(1) by (simp add: forest_def)
  from replaced_append [OF one more Cons.prems(5) this] Cons.prems(4) ds show ?case by simp
qed

lemma starts_from_snoc:
  "starts_from acc (szs @ [sz]) = starts_from acc szs @ [acc + sum_list szs]" "length (starts_from acc szs) = length szs"
  by (induction szs arbitrary: acc) (auto simp: add.assoc)

lemma piece_sep_in: "p \<in> set pcs \<Longrightarrow> piece_sep p \<in> set (all_pivots fp pcs)"
  by (auto simp: all_pivots_def)

lemma take_middle: "m \<le> n \<Longrightarrow> n \<le> length xs \<Longrightarrow> take m xs @ take (n - m) (drop m xs) = take n xs"
  by (metis le_add_diff_inverse take_add)

lemma take_pivot: "m < n \<Longrightarrow> n \<le> length xs \<Longrightarrow> take m xs @ xs ! m # take (n - Suc m) (drop (Suc m) xs) = take n xs"
  using take_middle [of "Suc m" n xs] by (simp add: take_Suc_conv_app_nth)

lemma peel_pieces:
  assumes "\<forall>x\<in>set (sz0 # rest). 1 \<le> x" "sum_list (sz0 # rest) \<le> length cs" "length cs = Suc (length ps)"
    and "sorted_wrt (<) ps" "bt_ok b"
  shows "\<exists>pcs fb. peel ps cs (rev (zip (starts_from sz0 rest) rest)) b = Some (rev pcs, fb) \<and>
    all_pivots (take (sz0 - 1) ps) pcs = take (sum_list (sz0 # rest) - 1) ps \<and>
    all_children (take sz0 cs) pcs = take (sum_list (sz0 # rest)) cs \<and>
    all_buffer fb pcs = b \<and> separated fb pcs \<and> map (\<lambda>p. length (piece_children p)) pcs = rest \<and>
    (\<forall>p\<in>set pcs. length (piece_children p) = Suc (length (piece_pivots p)))"
  using assms
proof (induction rest arbitrary: b rule: rev_induct)
  case Nil
  then show ?case by (intro exI [of _ "[]"] exI [of _ b]) simp
next
  case (snoc sz rest)
  define m where "m = sz0 + sum_list rest"
  have m: "1 \<le> m" "1 \<le> sz" "m + sz \<le> length cs" "m + sz - 1 \<le> length ps" "m - 1 < length ps"
    using snoc.prems by (auto simp: m_def)
  let ?q = "ps ! (m - 1)"
  let ?pp = "take (sz - 1) (drop m ps)"
  let ?pc = "take sz (drop m cs)"
  let ?bl = "fst (bt_split_off ?q b)"
  let ?br = "snd (bt_split_off ?q b)"
  have bl: "bt_ok ?bl" using snoc.prems(5) by (simp add: bt_split_off_def bt_ok_filter)
  obtain pcs fb where IH: "peel ps cs (rev (zip (starts_from sz0 rest) rest)) ?bl = Some (rev pcs, fb)"
    "all_pivots (take (sz0 - 1) ps) pcs = take (m - 1) ps" "all_children (take sz0 cs) pcs = take m cs"
    "all_buffer fb pcs = ?bl" "separated fb pcs" "map (\<lambda>p. length (piece_children p)) pcs = rest"
    "\<forall>p\<in>set pcs. length (piece_children p) = Suc (length (piece_pivots p))"
    using snoc.IH [OF _ _ snoc.prems(3,4) bl] snoc.prems(1,2) unfolding m_def by auto
  let ?p = "(?q, ?pp, ?pc, ?br)"
  have "peel ps cs (rev (zip (starts_from sz0 (rest @ [sz])) (rest @ [sz]))) b = Some (rev (pcs @ [?p]), fb)"
    using IH(1) m by (simp add: starts_from_snoc m_def [symmetric] checked_sub_def slice_def split_beta)
  moreover have "all_pivots (take (sz0 - 1) ps) (pcs @ [?p]) = take (m + sz - 1) ps"
    unfolding all_snoc IH(2) using take_pivot [of "m - 1" "m + sz - 1" ps] m by simp
  moreover have "all_children (take sz0 cs) (pcs @ [?p]) = take (m + sz) cs"
    using take_middle [of m "m + sz" cs] m by (simp add: all_snoc IH(3))
  moreover have "all_buffer fb (pcs @ [?p]) = b"
    using bt_split_off_concat [OF snoc.prems(5)] by (simp add: all_snoc IH(4))
  moreover have "piece_sep p \<le> ?q" if "p \<in> set pcs" for p
  proof -
    have "piece_sep p \<in> set (take (m - 1) ps)" using piece_sep_in [OF that] IH(2) by metis
    then obtain i where "i < m - 1" "piece_sep p = ps ! i" by (auto simp: in_set_conv_nth)
    then show ?thesis using sorted_wrt_nth_less [OF snoc.prems(4), of i "m - 1"] m by (simp add: less_imp_le)
  qed
  then have "separated fb (pcs @ [?p])"
    by (intro separated_snoc IH(5)) (auto simp: IH(4) bt_split_off_def)
  moreover have "length ?pc = Suc (length ?pp)" "length ?pc = sz" using m snoc.prems(3) by auto
  ultimately show ?case
    using IH(6,7) by (intro exI [of _ "pcs @ [?p]"] exI [of _ fb]) (simp add: m_def add.assoc)
qed

lemma alloc_internals_eq:
  "\<exists>s'. alloc_internals pcs s =
      (zip (map piece_sep pcs) [length (t_nodes s)..<length (t_nodes s) + length pcs], s') \<and>
    t_nodes s' = t_nodes s @ map piece_node pcs \<and> (arena_ok s \<longrightarrow> arena_ok s') \<and> same_env s s'"
proof (induction pcs arbitrary: s)
  case (Cons p pcs)
  let ?s1 = "snd (alloc (piece_node p) s)"
  obtain s' where s': "alloc_internals pcs ?s1 =
      (zip (map piece_sep pcs) [length (t_nodes ?s1)..<length (t_nodes ?s1) + length pcs], s')"
    "t_nodes s' = t_nodes ?s1 @ map piece_node pcs" "arena_ok ?s1 \<longrightarrow> arena_ok s'" "same_env ?s1 s'"
    using Cons.IH by blast
  have upt: "[length (t_nodes s)..<length (t_nodes s) + length (p # pcs)] =
      length (t_nodes s) # [length (t_nodes ?s1)..<length (t_nodes ?s1) + length pcs]"
    by (simp add: arena_simps upt_conv_Cons del: upt_Suc)
  have "alloc_internals (p # pcs) s =
      (zip (map piece_sep (p # pcs)) [length (t_nodes s)..<length (t_nodes s) + length (p # pcs)], s')"
    unfolding upt using s'(1) by (cases p) (simp add: split_beta alloc_simps(1) Let_def)
  moreover have "same_env s s'" by (rule same_env_trans [OF alloc_simps(6) s'(4)])
  ultimately show ?case using s' by (auto simp: arena_simps)
qed simp

lemma split_internal_post:
  assumes ok: "arena_ok s" and c: "index (t_nodes s) c = Some (Internal ps cs b)"
    and f: "forest (t_params s) (t_nodes s) h lo hi ps cs"
    and b: "buffer_ok lo hi b" "length b \<le> buffer_capacity (t_params s)"
    and dist: "distinct (reach (t_nodes s) (Suc h) c)"
  shows "\<exists>qs ds s'. split_if_needed c s = Some (zip qs ds, s') \<and> split_post s s' (Suc h) lo hi c qs ds"
proof (cases "length cs > fanout (t_params s)")
  case False
  then have "split_if_needed c s = Some (zip [] [], s)" using c by (simp add: split_if_needed_def node_at_index)
  moreover have "split_post s s (Suc h) lo hi c [] []"
    using False c ok f b dist by (intro split_post_refl) (simp_all add: tree_Suc del: tree.simps reach.simps)
  ultimately show ?thesis by blast
next
  case True
  let ?N = "t_nodes s" and ?F = "fanout (t_params s)"
  have cap: "1 \<le> ?F" using ok by (simp add: arena_ok_def params_legal_def)
  have len: "length cs = Suc (length ps)" using f by (simp add: forest_def)
  obtain sizes where sz: "partition_sizes (length cs) ?F = Some sizes"
    "sum_list sizes = length cs" "\<forall>x\<in>set sizes. x \<le> ?F" "sizes \<noteq> []" "\<forall>x\<in>set sizes. 1 \<le> x"
    using partition_sizes_total [OF cap, of "length cs"] True by fastforce
  then obtain sz0 rest where sizes: "sizes = sz0 # rest" by (cases sizes) auto
  have sum: "sz0 + sum_list rest = length cs" using sz(2) sizes by simp
  obtain pcs fb where peel: "peel ps cs (rev (zip (starts_from sz0 rest) rest)) b = Some (rev pcs, fb)"
    and all: "all_pivots (take (sz0 - 1) ps) pcs = ps" "all_children (take sz0 cs) pcs = cs" "all_buffer fb pcs = b"
    and pcs: "separated fb pcs" "map (\<lambda>p. length (piece_children p)) pcs = rest"
      "\<forall>p\<in>set pcs. length (piece_children p) = Suc (length (piece_pivots p))"
    using peel_pieces [of sz0 rest cs ps b] sz(2,5) sizes f b(1) len sum
    by (auto simp: forest_def buffer_ok_def pivots_ok_iff)
  let ?fp = "take (sz0 - 1) ps" and ?fc = "take sz0 cs"
  let ?s1 = "set_node c (Internal ?fp ?fc fb) (dirtied c s)"
  let ?n = "length ?N"
  let ?ds = "[?n..<?n + length pcs]"
  have c': "c < ?n" using c by (simp add: index_eq_Some)
  obtain s' where s': "alloc_internals pcs ?s1 = (zip (map piece_sep pcs) ?ds, s')"
    "t_nodes s' = ?N[c := Internal ?fp ?fc fb] @ map piece_node pcs" "arena_ok s'" "same_env ?s1 s'"
    using alloc_internals_eq [of pcs ?s1] ok by (auto simp: arena_simps)
  have sz0: "1 \<le> sz0" "sz0 \<le> length cs" "sz0 \<le> ?F" using sz(3,5) sizes sum by auto
  have call: "split_if_needed c s = Some (zip (map piece_sep pcs) ?ds, s')"
    using True c c' ok sz(1) peel s'(1) sz0 len
    by (simp add: split_if_needed_def split_internal_def node_at_index mark_dirty_ok arena_simps sizes
        checked_sub_def slice_def)
  have nodes: "list_all2 (\<lambda>d n. index (t_nodes s') d = Some n) (c # ?ds) (Internal ?fp ?fc fb # map piece_node pcs)"
    using appended_nodes [of "?N[c := Internal ?fp ?fc fb]" "map piece_node pcs"] c'
    by (simp add: s'(2) index_append index_update)
  have reach: "reach ?N (Suc h) c = c # reach_all ?N h cs" using c by simp
  have below: "i < ?n" if "i \<in> set (reach_all ?N h cs)" for i
    using that tree_reach_bound forest_child [OF f] by fastforce
  have w: "within {c} ?N (t_nodes s')"
    unfolding s'(2) by (rule within_trans [OF within_update within_append]) auto
  have dist': "distinct (c # reach_all ?N h cs)" using dist unfolding reach .
  then have "agree (set (reach_all ?N h cs)) ?N (t_nodes s')"
    using below by (intro within_agree [OF w]) auto
  then have rep: "replaced (t_params s) ?N (t_nodes s') h lo hi ps cs b (map piece_sep pcs) (c # ?ds)"
    using pieces_replace [of "t_params s" ?N h lo hi ?fp pcs ?fc fb "t_nodes s'" c ?ds] nodes f b pcs sz0 sz(3) sizes len
    unfolding all by auto
  have ms: "mset (reach_all (t_nodes s') (Suc h) (c # ?ds)) = mset (c # ?ds @ reach_all ?N h cs)"
    using rep by (simp add: replaced_def del: reach.simps)
  have "distinct (c # ?ds @ reach_all ?N h cs)" using dist' below c' by fastforce
  then have "distinct (reach_all (t_nodes s') (Suc h) (c # ?ds))"
    using mset_eq_imp_distinct_iff [OF ms] by blast
  moreover have "set (reach_all (t_nodes s') (Suc h) (c # ?ds)) = set (c # ?ds @ reach_all ?N h cs)"
    using mset_eq_setD [OF ms] .
  moreover have "same_env s s'" by (rule same_env_trans [OF same_env_set_dirtied s'(4)])
  ultimately have "split_post s s' (Suc h) lo hi c (map piece_sep pcs) ?ds"
    unfolding split_post_def using rep s'(3) w occ_Suc [OF c] reach c
    by (auto simp: replaced_def simp del: reach.simps occ.simps)
  with call show ?thesis by blast
qed

end
