(* ===== verification/Arena_Flush.thy ===== *)
theory Arena_Flush
  imports Arena_Split
begin

text \<open>
  The pieces of one round of \<open>flush_with\<close>: counting what each child would receive, choosing a
  child, extracting its messages, delivering them, and probing a subtree for messages.
\<close>

section \<open>Counting\<close>

text \<open>How many of the buffered messages route to child \<open>j\<close>.\<close>
definition routed :: "key list \<Rightarrow> buffer \<Rightarrow> nat \<Rightarrow> nat" where
  "routed ps b j = length (filter (\<lambda>e. route ps (fst e) = j) b)"

lemma tally_routed:
  assumes "length ps < length occ0" "length bytes = length occ0"
  shows "\<exists>bytes'. tally ps b occ0 bytes = Some (map (\<lambda>j. occ0 ! j + routed ps b j) [0..<length occ0], bytes')"
  using assms
proof (induction b arbitrary: occ0 bytes)
  case Nil
  then show ?case by (auto simp: routed_def map_nth)
next
  case (Cons e b)
  obtain k m where e: "e = (k, m)" by fastforce
  let ?r = "route ps k"
  have r: "?r < length occ0" using route_le [of ps k] Cons.prems(1) by simp
  from Cons.IH [of "occ0[?r := occ0 ! ?r + 1]" "bytes[?r := bytes ! ?r + entry_bytes k m]"] Cons.prems
  obtain bytes' where "tally ps b (occ0[?r := occ0 ! ?r + 1]) (bytes[?r := bytes ! ?r + entry_bytes k m]) =
      Some (map (\<lambda>j. occ0[?r := occ0 ! ?r + 1] ! j + routed ps b j) [0..<length occ0], bytes')" by auto
  moreover have "map (\<lambda>j. occ0[?r := occ0 ! ?r + 1] ! j + routed ps b j) [0..<length occ0] =
      map (\<lambda>j. occ0 ! j + routed ps (e # b) j) [0..<length occ0]"
    using r by (intro map_cong) (auto simp: routed_def e nth_list_update)
  ultimately show ?case using r Cons.prems by (simp add: e Let_def)
qed

lemma tally_zero:
  assumes "length cs = Suc (length ps)"
  shows "\<exists>bytes. tally ps b (replicate (length cs) 0) (replicate (length cs) 0) =
    Some (map (routed ps b) [0..<length cs], bytes)"
proof -
  obtain bytes where "tally ps b (replicate (length cs) 0) (replicate (length cs) 0) =
      Some (map (\<lambda>j. replicate (length cs) 0 ! j + routed ps b j) [0..<length cs], bytes)"
    using tally_routed [of ps "replicate (length cs) 0" "replicate (length cs) 0" b] assms by auto
  moreover have "map (\<lambda>j. replicate (length cs) 0 ! j + routed ps b j) [0..<length cs] =
      map (routed ps b) [0..<length cs]"
    by (intro map_cong) auto
  ultimately show ?thesis by auto
qed

lemma routed_pos: "0 < routed ps b j \<longleftrightarrow> (\<exists>k\<in>bt_keys b. route ps k = j)"
  by (auto simp: routed_def filter_empty_conv)

lemma routed_has_pending:
  assumes "b \<noteq> []" "length cs = Suc (length ps)"
  shows "has_pending (map (routed ps b) [0..<length cs])"
proof -
  obtain k where k: "k \<in> bt_keys b" using assms(1) by (cases b) auto
  have "route ps k < length cs" using route_le [of ps k] assms(2) by simp
  then show ?thesis using k routed_pos [of ps b "route ps k"] by (auto simp: has_pending_def)
qed

section \<open>Choosing\<close>

lemma index_map_Some: "\<forall>c\<in>set cs. c < length xs \<Longrightarrow> \<exists>ys. those (map (index xs) cs) = Some ys"
  by (induction cs) auto

lemma choose_child_legal:
  assumes "arena_ok s" "has_pending pend" "\<forall>c\<in>set cs. c < length (t_nodes s)"
  shows "\<exists>j s'. choose_child tp depth mode cs b pend bytes s = Some (j, s') \<and> legal_target pend j \<and>
    arena_ok s' \<and> same_env s s' \<and> t_nodes s' = t_nodes s"
proof (cases mode)
  case True
  obtain dirty where dirty: "those (map (index (t_dirty s)) cs) = Some dirty"
    using index_map_Some [of cs "t_dirty s"] assms by (auto simp: arena_ok_def)
  let ?ctx = "\<lparr>ctx_node = tp, ctx_depth = depth, child_pending = pend, child_pending_bytes = bytes,
      child_dirty = dirty, buffer_total = length b, ctx_ops_since_commit = t_ops_since_commit s\<rparr>"
  obtain j st where ch: "policy_choose (t_policy s) (policy_state (t_policy s)) ?ctx = (j, st)" by fastforce
  have "flush_policy (policy_choose (t_policy s))"
    using assms(1) by (simp add: arena_ok_def policy_legal_iff)
  from flush_policy.choose_legal [OF this, of ?ctx "policy_state (t_policy s)"] assms(2) ch
  have "legal_target pend j" by simp
  with True dirty ch assms(1) show ?thesis
    by (auto simp: choose_child_def Let_def arena_ok_def same_env_def policy_legal_def)
next
  case False
  with assms pick_legal show ?thesis by (simp add: choose_child_def)
qed

section \<open>Extracting\<close>

lemma filter_none: "(\<And>x. x \<in> set xs \<Longrightarrow> \<not> P x) \<Longrightarrow> filter P xs = []"
  by (simp add: filter_empty_conv)

lemma filter_split_lt:
  "bt_ok b \<Longrightarrow> filter (\<lambda>e. fst e < l \<or> \<not> fst e < u) b = filter (\<lambda>e. fst e < l) b @ filter (\<lambda>e. \<not> fst e < u) b"
  if "l \<le> u" for b :: "(key, 'v) btmap"
proof (induction b)
  case (Cons e b)
  show ?case
  proof (cases "fst e < u")
    case True
    with Cons show ?thesis by (auto simp: bt_ok_Cons)
  next
    case False
    then have "\<forall>e'\<in>set b. u \<le> fst e'" using Cons.prems by (fastforce simp: bt_ok_Cons)
    then have "filter (\<lambda>e. fst e < l) b = []" "\<not> fst e < l"
      using that False by (auto simp: filter_empty_conv)
    with Cons False show ?thesis by (auto simp: bt_ok_Cons)
  qed
qed simp

lemma extract_batch_range:
  assumes b: "buffer_ok lo hi b" and piv: "pivots_ok lo hi (ps1 @ ps2)"
  shows "extract_batch (ps1 @ ps2) (length ps1) b =
    Some (filter (\<lambda>e. \<not> in_range (fst e) (last_lo lo ps1) (first_hi hi ps2)) b,
          filter (\<lambda>e. in_range (fst e) (last_lo lo ps1) (first_hi hi ps2)) b)"
proof -
  have ok: "bt_ok b" and rng: "\<And>e. e \<in> set b \<Longrightarrow> in_range (fst e) lo hi" using b by (auto simp: buffer_ok_def)
  have low: "in_range (fst e) lo u \<longleftrightarrow> in_range (fst e) None u"
    and up: "in_range (fst e) l hi \<longleftrightarrow> in_range (fst e) l None" if "e \<in> set b" for e l u
    using rng [OF that] by (auto simp: in_range_def split: option.splits)
  show ?thesis
  proof (cases ps1 rule: rev_cases)
    case Nil
    show ?thesis
    proof (cases ps2)
      case Nil
      with \<open>ps1 = []\<close> rng show ?thesis by (simp add: extract_batch_def filter_empty_conv filter_id_conv)
    next
      case (Cons q qs)
      have "bt_append [] (filter (\<lambda>e. \<not> fst e < q) b) = filter (\<lambda>e. \<not> fst e < q) b"
        using ok by (intro bt_append_eq [of "[]", simplified]) (simp add: bt_ok_filter)
      moreover have "in_range (fst e) lo (Some q) \<longleftrightarrow> fst e < q" if "e \<in> set b" for e
        using low [OF that, of "Some q"] by (simp add: in_range_def)
      ultimately show ?thesis using Cons \<open>ps1 = []\<close>
        by (simp add: extract_batch_def bt_split_off_def cong: filter_cong)
    qed
  next
    case (snoc ps p)
    show ?thesis
    proof (cases ps2)
      case Nil
      moreover have "in_range (fst e) (Some p) hi \<longleftrightarrow> \<not> fst e < p" if "e \<in> set b" for e
        using up [OF that, of "Some p"] by (simp add: in_range_def not_less)
      ultimately show ?thesis using snoc
        by (simp add: extract_batch_def bt_split_off_def nth_append cong: filter_cong)
    next
      case (Cons q qs)
      have pq: "p < q" using piv snoc Cons by (auto simp: pivots_ok_iff sorted_wrt_append)
      have eq: "filter (\<lambda>e. \<not> in_range (fst e) (Some p) (Some q)) b = filter (\<lambda>e. fst e < p) b @ filter (\<lambda>e. \<not> fst e < q) b"
        using filter_split_lt [OF less_imp_le [OF pq] ok] by (simp add: in_range_def not_le)
      have tail: "filter (\<lambda>e. \<not> fst e < q) (filter (\<lambda>e. \<not> fst e < p) b) = filter (\<lambda>e. \<not> fst e < q) b"
        using pq by (auto simp: not_less intro!: filter_cong)
      have "bt_append (filter (\<lambda>e. fst e < p) b) (filter (\<lambda>e. \<not> fst e < q) b) =
          filter (\<lambda>e. \<not> in_range (fst e) (Some p) (Some q)) b"
        unfolding eq by (rule bt_append_eq) (use bt_ok_filter [OF ok] eq in metis)
      moreover have "filter (\<lambda>e. fst e < q) (filter (\<lambda>e. \<not> fst e < p) b) = filter (\<lambda>e. in_range (fst e) (Some p) (Some q)) b"
        by (auto simp: in_range_def not_less intro!: filter_cong)
      ultimately show ?thesis using snoc Cons tail
        by (simp add: extract_batch_def bt_split_off_def nth_append Let_def del: filter_filter)
    qed
  qed
qed

text \<open>Changing only the buffer of the flushing node.\<close>

lemma hole_rebuffer:
  assumes hole: "hole P N h lo hi tp ps1 cs1 c ps2 cs2 b" and b': "buffer_ok lo hi b'"
    and c: "tp \<notin> set (reach N h c)"
  defines "N' \<equiv> N[tp := Internal (ps1 @ ps2) (cs1 @ c # cs2) b']"
  shows "hole P N' h lo hi tp ps1 cs1 c ps2 cs2 b'" "hole_ids N' h tp cs1 cs2 = hole_ids N h tp cs1 cs2"
    "\<And>d. d \<in> set (cs1 @ c # cs2) \<Longrightarrow> agree (set (reach N h d)) N N'"
proof -
  have tp: "index N tp = Some (Internal (ps1 @ ps2) (cs1 @ c # cs2) b)" "tp < length N"
    using hole by (auto simp: hole_def index_eq_Some)
  show ag: "agree (set (reach N h d)) N N'" if "d \<in> set (cs1 @ c # cs2)" for d
    unfolding N'_def by (rule agree_update) (use that hole c in \<open>auto simp: hole_def\<close>)
  have ra: "reach_all N' h (cs1 @ cs2) = reach_all N h (cs1 @ cs2)"
    using agree_local(1) [OF ag] by (intro arg_cong [of _ _ concat] map_cong) auto
  then show "hole_ids N' h tp cs1 cs2 = hole_ids N h tp cs1 cs2" unfolding hole_ids_def by (simp only: ra)
  have tr: "\<forall>(l, d, u) \<in> set (lsegs lo ps1 cs1 @ rsegs hi ps2 cs2). tree P N' h l u d"
  proof clarify
    fix l d u assume *: "(l, d, u) \<in> set (lsegs lo ps1 cs1 @ rsegs hi ps2 cs2)"
    then have "d \<in> set (cs1 @ c # cs2)" using lsegs_sub rsegs_sub by fastforce
    from agree_local(2) [OF ag [OF this]] * hole show "tree P N' h l u d" by (fastforce simp: hole_def)
  qed
  have "index N' tp = Some (Internal (ps1 @ ps2) (cs1 @ c # cs2) b')" using tp by (simp add: N'_def index_update)
  then show "hole P N' h lo hi tp ps1 cs1 c ps2 cs2 b'"
    unfolding hole_def ra using hole b' tr by (simp add: hole_def)
qed

lemma loose_children_bound:
  assumes "loose P N h lo hi tp" "index N tp = Some (Internal ps cs b)" "c \<in> set cs"
  shows "c < length N"
proof -
  have "forest P N h lo hi ps cs" using assms by (auto simp: loose_def)
  from forest_child [OF this assms(3)] tree_reach_bound reach_self show ?thesis by blast
qed

lemma pick_and_extract_ok:
  assumes ok: "arena_ok s" and l: "loose (t_params s) (t_nodes s) h lo hi tp"
    and tp: "index (t_nodes s) tp = Some (Internal ps cs b)" and b: "b \<noteq> []"
  obtains j ps1 cs1 c ps2 cs2 batch b' s1 where
    "pick_and_extract tp depth mode s = Some (j, c, map (routed ps b) [0..<length cs], batch, s1)"
    "arena_ok s1" "same_env s s1" "ps = ps1 @ ps2" "cs = cs1 @ c # cs2"
    "t_nodes s1 = (t_nodes s)[tp := Internal ps cs b']"
    "batch = filter (\<lambda>e. in_range (fst e) (last_lo lo ps1) (first_hi hi ps2)) b"
    "b' = filter (\<lambda>e. \<not> in_range (fst e) (last_lo lo ps1) (first_hi hi ps2)) b" "batch \<noteq> []"
    "hole (t_params s) (t_nodes s) h lo hi tp ps1 cs1 c ps2 cs2 b"
    "tree (t_params s) (t_nodes s) h (last_lo lo ps1) (first_hi hi ps2) c" "distinct (reach (t_nodes s) h c)"
    "set (reach (t_nodes s) h c) \<inter> hole_ids (t_nodes s) h tp cs1 cs2 = {}"
proof -
  have f: "forest (t_params s) (t_nodes s) h lo hi ps cs" and bok: "buffer_ok lo hi b"
    using l tp b by (auto simp: loose_def)
  have len: "length cs = Suc (length ps)" and piv: "pivots_ok lo hi ps" using f by (auto simp: forest_def)
  let ?pend = "map (routed ps b) [0..<length cs]"
  obtain bytes where tally: "tally ps b (replicate (length cs) 0) (replicate (length cs) 0) = Some (?pend, bytes)"
    using tally_zero [OF len] by blast
  obtain j s0 where ch: "choose_child tp depth mode cs b ?pend bytes s = Some (j, s0)" "legal_target ?pend j"
    "arena_ok s0" "same_env s s0" "t_nodes s0 = t_nodes s"
    using choose_child_legal [OF ok routed_has_pending [OF b len]] loose_children_bound [OF l tp] by blast
  then have j: "j < length cs" "0 < ?pend ! j" by (auto simp: legal_target_def)
  obtain ps1 cs1 ps2 cs2 where h: "ps = ps1 @ ps2" "cs = cs1 @ cs ! j # cs2" "length cs1 = j"
    "hole (t_params s) (t_nodes s) h lo hi tp ps1 cs1 (cs ! j) ps2 cs2 b"
    "tree (t_params s) (t_nodes s) h (last_lo lo ps1) (first_hi hi ps2) (cs ! j)"
    "distinct (reach (t_nodes s) h (cs ! j))"
    "set (reach (t_nodes s) h (cs ! j)) \<inter> hole_ids (t_nodes s) h tp cs1 cs2 = {}"
    by (rule loose_hole [OF l tp j(1)])
  let ?in = "\<lambda>e. in_range (fst e) (last_lo lo ps1) (first_hi hi ps2)"
  have j1: "j = length ps1" using h(3,4) by (simp add: hole_def)
  have ex: "extract_batch ps j b = Some (filter (\<lambda>e. \<not> ?in e) b, filter ?in b)"
    using extract_batch_range [OF bok, of ps1 ps2] piv h(1) j1 by simp
  have "filter ?in b \<noteq> []"
  proof -
    have "0 < routed ps b j" using j by simp
    then obtain k where k: "k \<in> bt_keys b" "route ps k = j" unfolding routed_pos by blast
    have kr: "in_range k lo hi" using bok k(1) by (simp only: buffer_ok_def)
    have "in_range k (last_lo lo ps1) (first_hi hi ps2)"
    proof (rule ccontr)
      assume "\<not> ?thesis"
      from route_mid_out [of lo hi ps1 "[]" ps2 k, OF _ kr this] piv h(1) k(2) j1 show False by auto
    qed
    then show ?thesis using k(1) by (auto simp: filter_empty_conv)
  qed
  note batch = this
  let ?s1 = "set_node tp (Internal ps cs (filter (\<lambda>e. \<not> ?in e) b)) (dirtied tp s0)"
  have "tp < length (t_nodes s)" using tp by (simp add: index_eq_Some)
  then have pick: "pick_and_extract tp depth mode s = Some (j, cs ! j, ?pend, filter ?in b, ?s1)"
    using tp tally ch ex j by (simp add: pick_and_extract_def node_at_index mark_dirty_ok)
  have "arena_ok ?s1" "t_nodes ?s1 = (t_nodes s)[tp := Internal ps cs (filter (\<lambda>e. \<not> ?in e) b)]"
    using ch(3,5) by (simp_all add: arena_simps)
  from that [OF pick this(1) same_env_trans [OF ch(4) same_env_set_dirtied] h(1,2) this(2) refl refl batch h(4-7)]
  show thesis .
qed

section \<open>Delivering\<close>

lemma length_bt_insert: "length (bt_insert k v m) \<le> Suc (length m)"
  by (induction k v m rule: bt_insert.induct) auto

lemma length_coalesce_batch: "length (fold (\<lambda>(k, m). coalesce_into k m) batch b) \<le> length b + length batch"
proof (induction batch arbitrary: b)
  case (Cons e batch)
  have "length (coalesce_into (fst e) (snd e) b) \<le> Suc (length b)"
    by (simp add: coalesce_into_def length_bt_insert split: option.split)
  with Cons [of "coalesce_into (fst e) (snd e) b"] show ?case by (simp add: split_beta)
qed simp

text \<open>What a batch leaves at each key keeps within the range of the batch and of the target.\<close>

lemma keys_in_range:
  assumes "\<forall>k\<in>bt_keys m. in_range k l u" "\<forall>k\<in>bt_keys batch. in_range k l u"
    and "\<And>k. bt_get m' k = (case bt_get batch k of None \<Rightarrow> bt_get m k | Some x \<Rightarrow> f x (bt_get m k))"
  shows "\<forall>k\<in>bt_keys m'. in_range k l u"
proof
  fix k assume "k \<in> bt_keys m'"
  then have "bt_get m' k \<noteq> None" by (metis bt_get_None_iff)
  then have "bt_get batch k \<noteq> None \<or> bt_get m k \<noteq> None" using assms(3) [of k] by (metis option.case_eq_if)
  then show "in_range k l u" using assms(1,2) by (meson bt_get_None_iff)
qed

lemma apply_batch_leaf:
  assumes "arena_ok s" "index (t_nodes s) c = Some (Leaf es)" "leaf_ok l u es" "buffer_ok l u batch"
  obtains es' where "apply_batch c batch thr s = Some (DeliveredLeaf (es' = []), set_node c (Leaf es') (dirtied c s))"
    "leaf_ok l u es'"
    "\<And>k. bt_get es' k = (case bt_get batch k of None \<Rightarrow> bt_get es k | Some m \<Rightarrow> leaf_effect m (bt_get es k))"
proof
  let ?es' = "fold (\<lambda>(k, m). apply_to_leaf k m) batch es"
  have "c < length (t_nodes s)" using assms(2) by (simp add: index_eq_Some)
  then show "apply_batch c batch thr s = Some (DeliveredLeaf (?es' = []), set_node c (Leaf ?es') (dirtied c s))"
    using assms(1,2) by (simp add: apply_batch_def mark_dirty_ok node_at_index arena_simps Let_def)
  have ok: "bt_ok es" "bt_ok batch" using assms(3,4) by (auto simp: leaf_ok_def buffer_ok_def)
  show get: "bt_get ?es' k = (case bt_get batch k of None \<Rightarrow> bt_get es k | Some m \<Rightarrow> leaf_effect m (bt_get es k))" for k
    using leaf_upd.get_batch [OF ok(1) bt_ok_distinct [OF ok(2)]] .
  have "\<forall>k\<in>bt_keys ?es'. in_range k l u"
    by (rule keys_in_range [OF _ _ get]) (use assms(3,4) in \<open>auto simp: leaf_ok_def buffer_ok_def\<close>)
  then show "leaf_ok l u ?es'" using leaf_upd.ok_batch [OF ok(1)] by (simp only: leaf_ok_def)
qed

lemma apply_batch_internal:
  assumes "arena_ok s" "index (t_nodes s) c = Some (Internal ps cs b)" "buffer_ok l u b" "buffer_ok l u batch"
  obtains b' where
    "apply_batch c batch thr s = Some (DeliveredInternal (length b' > thr), set_node c (Internal ps cs b') (dirtied c s))"
    "buffer_ok l u b'" "length b' \<le> length b + length batch"
    "\<And>k. bt_get b' k = (case bt_get batch k of None \<Rightarrow> bt_get b k | Some m \<Rightarrow> buffer_effect m (bt_get b k))"
proof
  let ?b' = "fold (\<lambda>(k, m). coalesce_into k m) batch b"
  have "c < length (t_nodes s)" using assms(2) by (simp add: index_eq_Some)
  then show "apply_batch c batch thr s =
      Some (DeliveredInternal (length ?b' > thr), set_node c (Internal ps cs ?b') (dirtied c s))"
    using assms(1,2) by (simp add: apply_batch_def mark_dirty_ok node_at_index arena_simps Let_def)
  have ok: "bt_ok b" "bt_ok batch" using assms(3,4) by (auto simp: buffer_ok_def)
  show get: "bt_get ?b' k = (case bt_get batch k of None \<Rightarrow> bt_get b k | Some m \<Rightarrow> buffer_effect m (bt_get b k))" for k
    using buffer_upd.get_batch [OF ok(1) bt_ok_distinct [OF ok(2)]] .
  have "\<forall>k\<in>bt_keys ?b'. in_range k l u"
    by (rule keys_in_range [OF _ _ get]) (use assms(3,4) in \<open>auto simp: buffer_ok_def\<close>)
  then show "buffer_ok l u ?b'" using buffer_upd.ok_batch [OF ok(1)] by (simp only: buffer_ok_def)
  show "length ?b' \<le> length b + length batch" by (rule length_coalesce_batch)
qed

text \<open>The child after a delivery.\<close>
definition delivered :: "nat \<Rightarrow> params \<Rightarrow> node list \<Rightarrow> nat \<Rightarrow> key option \<Rightarrow> key option \<Rightarrow> node_id \<Rightarrow>
    delivery \<Rightarrow> bool" where
  "delivered thr P N h l u c d \<longleftrightarrow>
     (case h of
        0 \<Rightarrow> \<exists>es. index N c = Some (Leaf es) \<and> leaf_ok l u es \<and> d = DeliveredLeaf (es = [])
      | Suc h' \<Rightarrow> \<exists>ps cs b. index N c = Some (Internal ps cs b) \<and> loose P N h' l u c \<and>
          forest P N h' l u ps cs \<and> buffer_ok l u b \<and> d = DeliveredInternal (length b > thr))"

definition deliver_post :: "nat \<Rightarrow> buffer \<Rightarrow> 'p betree \<Rightarrow> 'p betree \<Rightarrow> nat \<Rightarrow> key option \<Rightarrow> key option \<Rightarrow>
    node_id \<Rightarrow> delivery \<Rightarrow> bool" where
  "deliver_post thr batch s s' h l u c d \<longleftrightarrow>
     arena_ok s' \<and> same_env s s' \<and> within {c} (t_nodes s) (t_nodes s') \<and>
     length (t_nodes s') = length (t_nodes s) \<and>
     reach (t_nodes s') h c = reach (t_nodes s) h c \<and>
     (\<forall>k. occ_le (occ (t_nodes s') h c k) (add_msg (bt_get batch k) (occ (t_nodes s) h c k))) \<and>
     weight (t_nodes s') h c \<le> weight (t_nodes s) h c + h * length batch \<and>
     delivered thr (t_params s) (t_nodes s') h l u c d"

lemma deliver_ok:
  assumes ok: "arena_ok s" and t: "tree (t_params s) (t_nodes s) h l u c"
    and d: "distinct (reach (t_nodes s) h c)" and batch: "buffer_ok l u batch"
  shows "\<exists>d s'. apply_batch c batch thr s = Some (d, s') \<and> deliver_post thr batch s s' h l u c d"
proof (cases h)
  case 0
  obtain es where c: "index (t_nodes s) c = Some (Leaf es)" "leaf_ok l u es" using t unfolding 0 by (rule tree_0E)
  obtain es' where app: "apply_batch c batch thr s = Some (DeliveredLeaf (es' = []), set_node c (Leaf es') (dirtied c s))"
    and es': "leaf_ok l u es'"
    and get: "\<And>k. bt_get es' k = (case bt_get batch k of None \<Rightarrow> bt_get es k | Some m \<Rightarrow> leaf_effect m (bt_get es k))"
    using apply_batch_leaf [OF ok c batch] by blast
  have c': "c < length (t_nodes s)" using c by (simp add: index_eq_Some)
  let ?N' = "(t_nodes s)[c := Leaf es']"
  have "occ_le (occ ?N' 0 c k) (add_msg (bt_get batch k) (occ (t_nodes s) 0 c k))" for k
    using c(1) c' occ_le_leaf get [of k] by (cases "bt_get batch k") (simp_all add: index_update del: index_Some)
  then have "deliver_post thr batch s (set_node c (Leaf es') (dirtied c s)) h l u c (DeliveredLeaf (es' = []))"
    using 0 ok c' es' by (simp add: deliver_post_def delivered_def arena_simps within_update del: occ.simps)
  with app show ?thesis by blast
next
  case (Suc h')
  obtain ps cs b where c: "index (t_nodes s) c = Some (Internal ps cs b)" "forest (t_params s) (t_nodes s) h' l u ps cs"
    "buffer_ok l u b" using t unfolding Suc by (rule tree_SucE)
  obtain b' where app: "apply_batch c batch thr s =
      Some (DeliveredInternal (length b' > thr), set_node c (Internal ps cs b') (dirtied c s))"
    and b': "buffer_ok l u b'" "length b' \<le> length b + length batch"
    and get: "\<And>k. bt_get b' k = (case bt_get batch k of None \<Rightarrow> bt_get b k | Some m \<Rightarrow> buffer_effect m (bt_get b k))"
    using apply_batch_internal [OF ok c(1,3) batch] by blast
  let ?N = "t_nodes s"
  let ?N' = "?N[c := Internal ps cs b']"
  have c': "c < length ?N" using c by (simp add: index_eq_Some)
  have reach: "reach ?N (Suc h') c = c # reach_all ?N h' cs" using c(1) by simp
  have dd: "distinct (c # reach_all ?N h' cs)" using d unfolding Suc reach .
  have ag: "agree (set (reach ?N h' d)) ?N ?N'" if "d \<in> set cs" for d
    by (rule agree_update) (use that dd in auto)
  have N'c: "index ?N' c = Some (Internal ps cs b')" using c' by (simp add: index_update)
  have maps: "map (reach ?N' h') cs = map (reach ?N h') cs" "map (weight ?N' h') cs = map (weight ?N h') cs"
    using agree_local(1,4) [OF ag] by auto
  have reach': "reach ?N' (Suc h') c = reach ?N (Suc h') c" using N'c c(1) maps(1) by (simp del: map_eq_conv)
  have f': "forest (t_params s) ?N' h' l u ps cs"
    using c(2) segs_in [of cs ps] agree_local(2) [OF ag] by (fastforce simp: forest_def)
  have "loose (t_params s) ?N' h' l u c"
    using N'c f' b'(1) d Suc reach' by (simp add: loose_def del: reach.simps)
  then have del: "delivered thr (t_params s) ?N' (Suc h') l u c (DeliveredInternal (length b' > thr))"
    using N'c f' b'(1) by (simp add: delivered_def del: reach.simps)
  have "weight ?N' (Suc h') c = Suc h' * length b' + weight_all ?N h' cs" using N'c maps(2) by (simp del: map_eq_conv)
  also have "\<dots> \<le> Suc h' * (length b + length batch) + weight_all ?N h' cs"
    using mult_le_mono2 [OF b'(2), of "Suc h'"] by (rule add_right_mono)
  also have "\<dots> = weight ?N (Suc h') c + Suc h' * length batch" using c(1) by (simp add: algebra_simps)
  finally have w: "weight ?N' (Suc h') c \<le> weight ?N (Suc h') c + Suc h' * length batch" .
  have "occ_le (occ ?N' (Suc h') c k) (add_msg (bt_get batch k) (occ ?N (Suc h') c k))" for k
  proof -
    have "occF ?N' h' ps cs k = occF ?N h' ps cs k" by (rule occF_cong) (use agree_local(3) [OF ag] in auto)
    then show ?thesis using occ_Suc [OF N'c] occ_Suc [OF c(1)] get [of k] occ_le_buffer
      by (cases "bt_get batch k") (simp_all del: occ.simps)
  qed
  then have "deliver_post thr batch s (set_node c (Internal ps cs b') (dirtied c s)) h l u c
      (DeliveredInternal (length b' > thr))"
    using Suc ok del w reach' by (simp add: deliver_post_def arena_simps within_update del: occ.simps reach.simps weight.simps)
  with app show ?thesis by blast
qed

section \<open>Probing for messages\<close>

text \<open>The probe's stack holds roots of subtrees of different heights.\<close>

definition all_trees :: "params \<Rightarrow> node list \<Rightarrow> (nat \<times> node_id) list \<Rightarrow> bool" where
  "all_trees P N L \<longleftrightarrow> (\<forall>(h, c)\<in>set L. \<exists>lo hi. tree P N h lo hi c)"

definition stack_weight :: "node list \<Rightarrow> (nat \<times> node_id) list \<Rightarrow> nat" where
  "stack_weight N L = sum_list (map (\<lambda>(h, c). weight N h c) L)"

lemma has_messages_from_weight:
  assumes "all_trees (t_params s) (t_nodes s) L"
  shows "has_messages_from s (map snd L) = Some (0 < stack_weight (t_nodes s) L)"
  using assms
proof (induction L rule: measure_induct_rule [of "\<lambda>L. sum_list (map (\<lambda>(h, c). length (reach (t_nodes s) h c)) L)"])
  case (less L)
  let ?N = "t_nodes s"
  show ?case
  proof (cases L)
    case Nil
    then show ?thesis by (simp add: has_messages_from.simps stack_weight_def)
  next
    case (Cons e L')
    obtain h c where e: "e = (h, c)" by fastforce
    obtain lo hi where t: "tree (t_params s) ?N h lo hi c" using less.prems by (auto simp: Cons e all_trees_def)
    have L': "all_trees (t_params s) ?N L'" using less.prems by (simp add: Cons all_trees_def)
    show ?thesis
    proof (cases h)
      case 0
      obtain es where "index ?N c = Some (Leaf es)" using t unfolding 0 by (rule tree_0E)
      then have "has_messages_from s (map snd L) = has_messages_from s (map snd L')"
        by (simp add: Cons e has_messages_from.simps [of s "c # map snd L'"] node_at_index)
      moreover have "has_messages_from s (map snd L') = Some (0 < stack_weight ?N L')"
        by (rule less.IH) (use L' in \<open>auto simp: Cons e 0\<close>)
      ultimately show ?thesis by (simp add: Cons e 0 stack_weight_def)
    next
      case (Suc h')
      obtain ps cs b where c: "index ?N c = Some (Internal ps cs b)" and f: "forest (t_params s) ?N h' lo hi ps cs"
        using t unfolding Suc by (rule tree_SucE)
      show ?thesis
      proof (cases "b = []")
        case False
        then show ?thesis
          using c by (simp add: Cons e Suc has_messages_from.simps [of s "c # map snd L'"] node_at_index stack_weight_def)
      next
        case True
        let ?L = "map (Pair h') (rev cs) @ L'"
        have "has_messages_from s (map snd L) = has_messages_from s (map snd ?L)"
          using c True by (simp add: Cons e has_messages_from.simps [of s "c # map snd L'"] node_at_index comp_def)
        moreover have "has_messages_from s (map snd ?L) = Some (0 < stack_weight ?N ?L)"
        proof (rule less.IH)
          have "sum_list (map (\<lambda>(h, c). length (reach ?N h c)) (map (Pair h') (rev cs))) = length (reach_all ?N h' cs)"
            by (simp add: comp_def length_concat rev_map [symmetric] sum_list_rev)
          then show "sum_list (map (\<lambda>(h, c). length (reach ?N h c)) ?L) <
              sum_list (map (\<lambda>(h, c). length (reach ?N h c)) L)"
            using c by (simp add: Cons e Suc)
          show "all_trees (t_params s) ?N ?L"
            using L' forest_child [OF f] by (auto simp: all_trees_def)
        qed
        moreover have "stack_weight ?N ?L = stack_weight ?N L"
          using c True by (simp add: Cons e Suc stack_weight_def comp_def rev_map [symmetric] sum_list_rev)
        ultimately show ?thesis by simp
      qed
    qed
  qed
qed

lemma subtree_has_messages_weight:
  "tree (t_params s) (t_nodes s) h lo hi c \<Longrightarrow> subtree_has_messages s c = Some (0 < weight (t_nodes s) h c)"
  using has_messages_from_weight [of s "[(h, c)]"]
  by (auto simp: subtree_has_messages_def all_trees_def stack_weight_def)

lemma find_buffered_weight:
  assumes "\<forall>c\<in>set cs. \<exists>lo hi. tree (t_params s) (t_nodes s) h lo hi c"
  shows "(weight_all (t_nodes s) h cs = 0 \<longrightarrow> find_buffered s cs = Some None) \<and>
    (weight_all (t_nodes s) h cs \<noteq> 0 \<longrightarrow>
      (\<exists>j. j < length cs \<and> find_buffered s cs = Some (Some (cs ! j)) \<and> 0 < weight (t_nodes s) h (cs ! j)))"
  using assms
proof (induction cs)
  case (Cons c cs)
  then obtain lo hi where "tree (t_params s) (t_nodes s) h lo hi c" by auto
  note p = subtree_has_messages_weight [OF this]
  show ?case
  proof (cases "0 < weight (t_nodes s) h c")
    case True
    with p show ?thesis by (auto intro!: exI [of _ 0])
  next
    case False
    with p have "find_buffered s (c # cs) = find_buffered s cs" by simp
    with False Cons show ?thesis by (auto intro: exI [of _ "Suc _"])
  qed
qed simp

end
