(* ===== verification/Arena_Run.thy ===== *)
theory Arena_Run
  imports Arena_Flush
begin

text \<open>
  Running a flush. \<open>flush_step\<close> relates the engine before and after some rounds at a flushing
  node: only its subtree and fresh slots were written, it is still a node mid-flush, and every
  key of its range reads as before along a path whose sequence numbers are a subsequence.
  \<open>mid_flush\<close> is the same relation while one child is being worked on. \<open>flush_run\<close> puts the
  rounds together: from any flushing node the loop reaches the state in which the node is done,
  whatever the rest of the stack, and it does so because the weight of the pending messages
  (each counted with its height above the leaves) decreases with every round.
\<close>

declare reach.simps(2) [simp del] occ.simps(2) [simp del] weight.simps(2) [simp del] tree.simps(2) [simp del]

section \<open>Rounds\<close>

definition flush_step :: "'p betree \<Rightarrow> 'p betree \<Rightarrow> nat \<Rightarrow> key option \<Rightarrow> key option \<Rightarrow> node_id \<Rightarrow> bool" where
  "flush_step s s' h lo hi tp \<longleftrightarrow>
     arena_ok s' \<and> same_env s s' \<and> within (set (reach (t_nodes s) (Suc h) tp)) (t_nodes s) (t_nodes s') \<and>
     loose (t_params s) (t_nodes s') h lo hi tp \<and>
     set (reach (t_nodes s') (Suc h) tp) \<subseteq> set (reach (t_nodes s) (Suc h) tp) \<union> {i. length (t_nodes s) \<le> i} \<and>
     (\<forall>k. in_range k lo hi \<longrightarrow> occ_le (occ (t_nodes s') (Suc h) tp k) (occ (t_nodes s) (Suc h) tp k))"

lemma flush_step_refl: "arena_ok s \<Longrightarrow> loose (t_params s) (t_nodes s) h lo hi tp \<Longrightarrow> flush_step s s h lo hi tp"
  by (simp add: flush_step_def)

lemma within_length: "within S N N' \<Longrightarrow> length N \<le> length N'"
  by (simp add: within_def)

lemma flush_step_trans:
  assumes "flush_step s1 s2 h lo hi tp" "flush_step s2 s3 h lo hi tp"
  shows "flush_step s1 s3 h lo hi tp"
proof -
  note s12 = assms(1) [unfolded flush_step_def] and s23 = assms(2) [unfolded flush_step_def]
  have "within (set (reach (t_nodes s1) (Suc h) tp)) (t_nodes s1) (t_nodes s3)"
    by (rule within_trans) (use s12 s23 in auto)
  moreover have "length (t_nodes s1) \<le> length (t_nodes s2)" using s12 within_length by blast
  then have "set (reach (t_nodes s3) (Suc h) tp) \<subseteq> set (reach (t_nodes s1) (Suc h) tp) \<union> {i. length (t_nodes s1) \<le> i}"
    using s12 s23 by fastforce
  moreover have "t_params s2 = t_params s1" using s12 by (simp add: same_env_def)
  moreover have "same_env s1 s3" using s12 s23 same_env_trans by blast
  moreover have "\<forall>k. in_range k lo hi \<longrightarrow> occ_le (occ (t_nodes s3) (Suc h) tp k) (occ (t_nodes s1) (Suc h) tp k)"
    using s12 s23 occ_le_trans by blast
  ultimately show ?thesis using s23 unfolding flush_step_def by simp
qed

definition mid_flush :: "'p betree \<Rightarrow> 'p betree \<Rightarrow> nat \<Rightarrow> key option \<Rightarrow> key option \<Rightarrow> node_id \<Rightarrow>
    key list \<Rightarrow> node_id list \<Rightarrow> node_id \<Rightarrow> key list \<Rightarrow> node_id list \<Rightarrow> buffer \<Rightarrow> bool" where
  "mid_flush s s' h lo hi tp ps1 cs1 c ps2 cs2 b \<longleftrightarrow>
     arena_ok s' \<and> same_env s s' \<and> within (set (reach (t_nodes s) (Suc h) tp)) (t_nodes s) (t_nodes s') \<and>
     hole (t_params s) (t_nodes s') h lo hi tp ps1 cs1 c ps2 cs2 b \<and>
     (\<forall>k\<in>bt_keys b. \<not> in_range k (last_lo lo ps1) (first_hi hi ps2)) \<and>
     set (reach (t_nodes s') h c) \<inter> hole_ids (t_nodes s') h tp cs1 cs2 = {} \<and>
     hole_ids (t_nodes s') h tp cs1 cs2 \<union> set (reach (t_nodes s') h c) \<subseteq>
       set (reach (t_nodes s) (Suc h) tp) \<union> {i. length (t_nodes s) \<le> i} \<and>
     (\<forall>k. in_range k lo hi \<longrightarrow>
        occ_le (add_msg (bt_get b k) (occF (t_nodes s') h (ps1 @ ps2) (cs1 @ c # cs2) k)) (occ (t_nodes s) (Suc h) tp k))"

text \<open>The weight of a flushing node with one child singled out.\<close>
definition mid_weight :: "node list \<Rightarrow> nat \<Rightarrow> node_id list \<Rightarrow> node_id \<Rightarrow> node_id list \<Rightarrow> buffer \<Rightarrow> nat" where
  "mid_weight N h cs1 c cs2 b = Suc h * length b + weight_all N h (cs1 @ cs2) + weight N h c"

lemma occF_hole:
  assumes "hole P N h lo hi tp ps1 cs1 c ps2 cs2 b" "in_range k lo hi"
    and "\<forall>d\<in>set cs1 \<union> set cs2. occ N' h d k = occ N h d k"
  shows "occF N' h (ps1 @ ps2) (cs1 @ c # cs2) k =
    (if in_range k (last_lo lo ps1) (first_hi hi ps2) then occ N' h c k else occF N h (ps1 @ ps2) (cs1 @ c # cs2) k)"
proof (cases "in_range k (last_lo lo ps1) (first_hi hi ps2)")
  case True
  have "occF N' h (ps1 @ [] @ ps2) (cs1 @ c # [] @ cs2) k = occF N' h [] (c # []) k"
    by (rule occF_mid_in [of lo hi]) (use assms(1) True in \<open>auto simp: hole_def\<close>)
  with True show ?thesis by (simp add: occF_def)
next
  case False
  have "occF N' h (ps1 @ [] @ ps2) (cs1 @ c # [] @ cs2) k = occF N h (ps1 @ ps2) (cs1 @ c # cs2) k"
    by (rule occF_mid_out [of lo hi]) (use assms False in \<open>auto simp: hole_def\<close>)
  with False show ?thesis by simp
qed

text \<open>A change inside the singled-out child.\<close>

lemma mid_flush_child:
  assumes m: "mid_flush s s1 h lo hi tp ps1 cs1 c ps2 cs2 b"
    and s2: "arena_ok s2" "same_env s1 s2" "within (set (reach (t_nodes s1) h c)) (t_nodes s1) (t_nodes s2)"
      "set (reach (t_nodes s2) h c) \<subseteq> set (reach (t_nodes s1) h c) \<union> {i. length (t_nodes s1) \<le> i}"
      "\<forall>k. in_range k (last_lo lo ps1) (first_hi hi ps2) \<longrightarrow> occ_le (occ (t_nodes s2) h c k) (occ (t_nodes s1) h c k)"
  shows "mid_flush s s2 h lo hi tp ps1 cs1 c ps2 cs2 b"
    "weight_all (t_nodes s2) h (cs1 @ cs2) = weight_all (t_nodes s1) h (cs1 @ cs2)"
proof -
  note m' = m [unfolded mid_flush_def]
  let ?N1 = "t_nodes s1" and ?N2 = "t_nodes s2"
  have hole: "hole (t_params s) ?N1 h lo hi tp ps1 cs1 c ps2 cs2 b" using m' by blast
  have bound: "\<forall>i\<in>hole_ids ?N1 h tp cs1 cs2. i < length ?N1" using hole_ids_bound [OF hole] by blast
  have ag: "agree (hole_ids ?N1 h tp cs1 cs2) ?N1 ?N2"
    by (rule within_agree [OF s2(3)]) (use m' bound in auto)
  note keep = hole_agree [OF hole ag]
  show "weight_all ?N2 h (cs1 @ cs2) = weight_all ?N1 h (cs1 @ cs2)" by (rule keep(4))
  have len: "length (t_nodes s) \<le> length ?N1" using m' within_length by blast
  have w: "within (set (reach (t_nodes s) (Suc h) tp)) (t_nodes s) ?N2"
    by (rule within_trans [OF _ s2(3)]) (use m' in auto)
  have disj: "set (reach ?N2 h c) \<inter> hole_ids ?N2 h tp cs1 cs2 = {}"
    unfolding keep(2) using m' s2(4) bound by fastforce
  have sub: "hole_ids ?N2 h tp cs1 cs2 \<union> set (reach ?N2 h c) \<subseteq>
      set (reach (t_nodes s) (Suc h) tp) \<union> {i. length (t_nodes s) \<le> i}"
    unfolding keep(2) using m' s2(4) len by fastforce
  have "occ_le (add_msg (bt_get b k) (occF ?N2 h (ps1 @ ps2) (cs1 @ c # cs2) k)) (occ (t_nodes s) (Suc h) tp k)"
    if k: "in_range k lo hi" for k
  proof -
    have "occ_le (occF ?N2 h (ps1 @ ps2) (cs1 @ c # cs2) k) (occF ?N1 h (ps1 @ ps2) (cs1 @ c # cs2) k)"
      unfolding occF_hole [OF hole k keep(3)] using s2(5) occF_hole [OF hole k, of ?N1]
      by (cases "in_range k (last_lo lo ps1) (first_hi hi ps2)") simp_all
    from occ_le_add [OF this, of "bt_get b k"] m' k show ?thesis using occ_le_trans by blast
  qed
  moreover have "same_env s s2" by (rule same_env_trans [OF _ s2(2)]) (use m' in simp)
  ultimately show "mid_flush s s2 h lo hi tp ps1 cs1 c ps2 cs2 b"
    unfolding mid_flush_def using m' s2(1) keep(1) w disj sub by simp
qed

section \<open>Settling the child\<close>

lemma plug_child:
  assumes m: "mid_flush s s1 h lo hi tp ps1 cs1 c ps2 cs2 b"
    and sp: "split_post s1 s2 h (last_lo lo ps1) (first_hi hi ps2) c qs ds"
  shows "\<exists>s3. integrate_splits tp (zip qs ds) s2 = Some s3 \<and> flush_step s s3 h lo hi tp \<and>
    weight (t_nodes s3) (Suc h) tp = mid_weight (t_nodes s1) h cs1 c cs2 b"
proof -
  note m' = m [unfolded mid_flush_def] and sp' = sp [unfolded split_post_def]
  let ?N1 = "t_nodes s1" and ?N2 = "t_nodes s2" and ?S = "set (reach (t_nodes s) (Suc h) tp)"
  have env: "t_params s1 = t_params s" "t_params s2 = t_params s" using m' sp' by (auto simp: same_env_def)
  have hole: "hole (t_params s) ?N1 h lo hi tp ps1 cs1 c ps2 cs2 b" using m' by blast
  have bound: "\<forall>i\<in>hole_ids ?N1 h tp cs1 cs2. i < length ?N1" using hole_ids_bound [OF hole] by blast
  have "c \<notin> hole_ids ?N1 h tp cs1 cs2" using m' reach_self [of c ?N1 h] by blast
  then have ag: "agree (hole_ids ?N1 h tp cs1 cs2) ?N1 ?N2"
    using sp' bound by (intro within_agree [of "{c}"]) auto
  note keep = hole_agree [OF hole ag]
  have f: "forest (t_params s) ?N2 h (last_lo lo ps1) (first_hi hi ps2) qs (c # ds)" using sp' env by simp
  have new: "set (reach_all ?N2 h (c # ds)) \<inter> hole_ids ?N2 h tp cs1 cs2 = {}"
    unfolding keep(2) using sp' m' bound by fastforce
  obtain s3 where s3: "integrate_splits tp (zip qs ds) s2 = Some s3" "arena_ok s3" "same_env s2 s3"
    "t_nodes s3 = ?N2[tp := Internal (ps1 @ qs @ ps2) (cs1 @ c # ds @ cs2) b]" "loose (t_params s) (t_nodes s3) h lo hi tp"
    "reach (t_nodes s3) (Suc h) tp = tp # reach_all ?N2 h cs1 @ reach_all ?N2 h (c # ds) @ reach_all ?N2 h cs2"
    "weight (t_nodes s3) (Suc h) tp = Suc h * length b + weight_all ?N2 h (cs1 @ cs2) + weight_all ?N2 h (c # ds)"
    "\<forall>k. occ (t_nodes s3) (Suc h) tp k = add_msg (bt_get b k) (occF ?N2 h (ps1 @ qs @ ps2) (cs1 @ c # ds @ cs2) k)"
    using hole_plug [OF _ refl _ keep(1) f _ new] sp' env by metis
  have len: "length cs1 = length ps1" "length ds = length qs" "length cs2 = length ps2"
    "pivots_ok lo hi (ps1 @ ps2)" "pivots_ok lo hi (ps1 @ qs @ ps2)"
    using hole f pivots_ok_mid [of lo hi ps1 ps2 qs] by (auto simp: hole_def forest_def)
  have occ: "occF ?N2 h (ps1 @ qs @ ps2) (cs1 @ c # ds @ cs2) k = occF ?N1 h (ps1 @ ps2) (cs1 @ c # cs2) k"
    if k: "in_range k lo hi" for k
  proof (cases "in_range k (last_lo lo ps1) (first_hi hi ps2)")
    case True
    then show ?thesis using occF_mid_in [OF len(5) True len(1,2)] sp' occF_hole [OF hole k, of ?N1] by simp
  next
    case False
    show ?thesis by (rule occF_mid_out [OF len(5,4) k False len(1-3) keep(3)])
  qed
  have ids: "set (reach (t_nodes s3) (Suc h) tp) = hole_ids ?N1 h tp cs1 cs2 \<union> set (reach_all ?N2 h (c # ds))"
    unfolding s3(6) keep(2) [symmetric] by (auto simp: hole_ids_def)
  have l1: "length (t_nodes s) \<le> length ?N1" using m' within_length by blast
  have sub: "set (reach (t_nodes s3) (Suc h) tp) \<subseteq> ?S \<union> {i. length (t_nodes s) \<le> i}"
    unfolding ids using m' sp' l1 by fastforce
  have "within ?S (t_nodes s) ?N2"
    by (rule within_trans [of _ _ ?N1 "{c}"]) (use m' sp' reach_self [of c ?N1 h] in auto)
  then have "within ?S (t_nodes s) (t_nodes s3)"
    unfolding s3(4) by (rule within_trans [OF _ within_update [of tp "{tp}"]]) (use reach_self [of tp "t_nodes s" "Suc h"] in auto)
  moreover have "same_env s s2" by (rule same_env_trans [of _ s1]) (use m' sp' in simp_all)
  then have "same_env s s3" by (rule same_env_trans [OF _ s3(3)])
  ultimately have "flush_step s s3 h lo hi tp"
    unfolding flush_step_def using s3(2,5,8) sub occ m' by simp
  moreover have "weight (t_nodes s3) (Suc h) tp = mid_weight ?N1 h cs1 c cs2 b"
    using s3(7) keep(4) sp' by (simp add: mid_weight_def)
  ultimately show ?thesis using s3(1) by blast
qed

lemma close_child:
  assumes m: "mid_flush s s1 h lo hi tp ps1 cs1 c ps2 cs2 b"
    and gone: "\<forall>k. in_range k (last_lo lo ps1) (first_hi hi ps2) \<longrightarrow> occ (t_nodes s1) h c k = ([], None)"
      "weight (t_nodes s1) h c = 0"
  shows "\<exists>s3. remove_child tp c s1 = Some s3 \<and> flush_step s s3 h lo hi tp \<and>
    weight (t_nodes s3) (Suc h) tp = mid_weight (t_nodes s1) h cs1 c cs2 b"
proof -
  note m' = m [unfolded mid_flush_def]
  let ?N1 = "t_nodes s1" and ?S = "set (reach (t_nodes s) (Suc h) tp)"
  have env: "t_params s1 = t_params s" using m' by (auto simp: same_env_def)
  have hole: "hole (t_params s) ?N1 h lo hi tp ps1 cs1 c ps2 cs2 b" using m' by blast
  have c: "c \<notin> hole_ids ?N1 h tp cs1 cs2" using m' reach_self [of c ?N1 h] by blast
  have ok: "arena_ok s1" and b: "\<forall>k\<in>bt_keys b. \<not> in_range k (last_lo lo ps1) (first_hi hi ps2)" using m' by blast+
  obtain s3 ps' where s3: "remove_child tp c s1 = Some s3" "arena_ok s3" "same_env s1 s3"
    "t_nodes s3 = ?N1[tp := Internal ps' (cs1 @ cs2) b]" "loose (t_params s) (t_nodes s3) h lo hi tp"
    "reach (t_nodes s3) (Suc h) tp = tp # reach_all ?N1 h cs1 @ reach_all ?N1 h cs2"
    "weight (t_nodes s3) (Suc h) tp = Suc h * length b + weight_all ?N1 h (cs1 @ cs2)"
    "\<forall>k. in_range k lo hi \<longrightarrow> occ (t_nodes s3) (Suc h) tp k = add_msg (bt_get b k)
       (if in_range k (last_lo lo ps1) (first_hi hi ps2) then ([], None)
        else occF ?N1 h (ps1 @ ps2) (cs1 @ c # cs2) k)"
    using hole_close [OF ok refl env [symmetric] hole c b] by metis
  have occ: "occ (t_nodes s3) (Suc h) tp k = add_msg (bt_get b k) (occF ?N1 h (ps1 @ ps2) (cs1 @ c # cs2) k)"
    if k: "in_range k lo hi" for k
    using s3(8) k gone(1) occF_hole [OF hole k, of ?N1]
    by (cases "in_range k (last_lo lo ps1) (first_hi hi ps2)") simp_all
  have ids: "set (reach (t_nodes s3) (Suc h) tp) = hole_ids ?N1 h tp cs1 cs2"
    unfolding s3(6) by (auto simp: hole_ids_def)
  have "within ?S (t_nodes s) (t_nodes s3)"
    unfolding s3(4) by (rule within_trans [OF _ within_update [of tp "{tp}"]]) (use m' reach_self [of tp "t_nodes s" "Suc h"] in auto)
  moreover have "same_env s s3" by (rule same_env_trans [OF _ s3(3)]) (use m' in simp)
  ultimately have "flush_step s s3 h lo hi tp"
    unfolding flush_step_def using s3(2,5) ids occ m' by simp
  then show ?thesis using s3(1,7) gone(2) by (auto simp: mid_weight_def)
qed

section \<open>Starting a round\<close>

lemma record_flush_simps [arena_simps]:
  "t_nodes (record_flush tr tp pend j s) = t_nodes s" "t_params (record_flush tr tp pend j s) = t_params s"
  "arena_ok s \<Longrightarrow> arena_ok (record_flush tr tp pend j s)" "same_env s (record_flush tr tp pend j s)"
  by (simp_all add: record_flush_def arena_ok_def same_env_def v1_view_intros)

lemma weight_Suc: "index N c = Some (Internal ps cs b) \<Longrightarrow> weight N (Suc h) c = Suc h * length b + weight_all N h cs"
  by (simp add: weight.simps(2))

lemma reach_Suc: "index N c = Some (Internal ps cs b) \<Longrightarrow> reach N (Suc h) c = c # reach_all N h cs"
  by (simp add: reach.simps(2))

lemma round_start:
  assumes ok: "arena_ok s" and l: "loose (t_params s) (t_nodes s) h lo hi tp"
    and tp: "index (t_nodes s) tp = Some (Internal ps cs b)" and b: "b \<noteq> []"
  obtains j ps1 cs1 c ps2 cs2 b' pend batch d s1 s2 where
    "pick_and_extract tp depth tr s = Some (j, c, pend, batch, s1)"
    "apply_batch c batch thr (record_flush tr tp pend j s1) = Some (d, s2)"
    "mid_flush s s2 h lo hi tp ps1 cs1 c ps2 cs2 b'"
    "delivered thr (t_params s) (t_nodes s2) h (last_lo lo ps1) (first_hi hi ps2) c d"
    "distinct (reach (t_nodes s2) h c)"
    "mid_weight (t_nodes s2) h cs1 c cs2 b' < weight (t_nodes s) (Suc h) tp"
proof -
  obtain j ps1 cs1 c ps2 cs2 batch b' s1 where
    pick: "pick_and_extract tp depth tr s = Some (j, c, map (routed ps b) [0..<length cs], batch, s1)"
    and s1: "arena_ok s1" "same_env s s1" and eq: "ps = ps1 @ ps2" "cs = cs1 @ c # cs2"
    and N1: "t_nodes s1 = (t_nodes s)[tp := Internal ps cs b']"
    and bs: "batch = filter (\<lambda>e. in_range (fst e) (last_lo lo ps1) (first_hi hi ps2)) b"
      "b' = filter (\<lambda>e. \<not> in_range (fst e) (last_lo lo ps1) (first_hi hi ps2)) b" "batch \<noteq> []"
    and hole: "hole (t_params s) (t_nodes s) h lo hi tp ps1 cs1 c ps2 cs2 b"
    and t: "tree (t_params s) (t_nodes s) h (last_lo lo ps1) (first_hi hi ps2) c" and dist: "distinct (reach (t_nodes s) h c)"
    and disj: "set (reach (t_nodes s) h c) \<inter> hole_ids (t_nodes s) h tp cs1 cs2 = {}"
    by (rule pick_and_extract_ok [OF ok l tp b])
  let ?N = "t_nodes s" and ?l = "last_lo lo ps1" and ?u = "first_hi hi ps2"
  let ?pend = "map (routed ps b) [0..<length cs]"
  let ?s1 = "record_flush tr tp ?pend j s1"
  have bok: "buffer_ok lo hi b" using hole by (simp add: hole_def)
  then have b'ok: "buffer_ok lo hi b'" "buffer_ok ?l ?u batch" unfolding bs by (auto simp: buffer_ok_def bt_ok_filter)
  have tpc: "tp \<notin> set (reach ?N h c)" using disj by (auto simp: hole_ids_def)
  note reb = hole_rebuffer [OF hole b'ok(1) tpc, folded eq, folded N1]
  have agc: "agree (set (reach ?N h c)) ?N (t_nodes s1)" by (rule reb(3)) (simp add: eq)
  have env: "t_params s1 = t_params s" using s1(2) by (simp add: same_env_def)
  have t1: "tree (t_params ?s1) (t_nodes ?s1) h ?l ?u c" "distinct (reach (t_nodes ?s1) h c)"
    using t dist agree_local [OF agc] by (simp_all add: arena_simps env)
  obtain d s2 where app: "apply_batch c batch thr ?s1 = Some (d, s2)" and dp: "deliver_post thr batch ?s1 s2 h ?l ?u c d"
    using deliver_ok [OF record_flush_simps(3) [OF s1(1)] t1 b'ok(2)] by blast
  note dp' = dp [unfolded deliver_post_def record_flush_simps env]
  have cn: "c \<notin> hole_ids ?N h tp cs1 cs2" using disj reach_self [of c ?N h] by blast
  have bound: "\<forall>i\<in>hole_ids ?N h tp cs1 cs2. i < length ?N" using hole_ids_bound [OF hole] by blast
  have ag2: "agree (hole_ids (t_nodes s1) h tp cs1 cs2) (t_nodes s1) (t_nodes s2)"
    unfolding reb(2) by (rule within_agree [of "{c}"]) (use dp' cn bound N1 in auto)
  note keep = hole_agree [OF reb(1) ag2]
  have sib1: "agree (set (reach ?N h e)) ?N (t_nodes s1)" if "e \<in> set (cs1 @ cs2)" for e
    by (rule reb(3)) (use that eq in auto)
  have sib: "\<forall>e\<in>set cs1 \<union> set cs2. occ (t_nodes s2) h e k = occ ?N h e k" for k
    using keep(3) agree_local(3) [OF sib1] by auto
  have reach: "reach (t_nodes s2) h c = reach ?N h c" using dp' agree_local(1) [OF agc] by simp
  have occ: "occ_le (add_msg (bt_get b' k) (occF (t_nodes s2) h (ps1 @ ps2) (cs1 @ c # cs2) k)) (occ ?N (Suc h) tp k)"
    if k: "in_range k lo hi" for k
  proof -
    have old: "occ ?N (Suc h) tp k = add_msg (bt_get b k) (occF ?N h (ps1 @ ps2) (cs1 @ c # cs2) k)"
      using occ_Suc [OF tp] by (simp add: eq)
    have get: "bt_get b' k = (if in_range k ?l ?u then None else bt_get b k)"
      "bt_get batch k = (if in_range k ?l ?u then bt_get b k else None)"
      using bt_get_filter [of b "\<lambda>k. \<not> in_range k ?l ?u"] bt_get_filter [of b "\<lambda>k. in_range k ?l ?u"] bok
      unfolding bs by (simp_all add: buffer_ok_def)
    have "occ_le (occ (t_nodes s2) h c k) (add_msg (bt_get batch k) (occ ?N h c k))"
      using dp' agree_local(3) [OF agc] by simp
    then show ?thesis unfolding old occF_hole [OF hole k sib]
      using get occF_hole [OF hole k, of ?N] by (cases "in_range k ?l ?u") auto
  qed
  have sub: "hole_ids (t_nodes s2) h tp cs1 cs2 \<union> set (reach (t_nodes s2) h c) \<subseteq> set (reach ?N (Suc h) tp)"
    unfolding keep(2) reb(2) reach reach_Suc [OF tp] eq by (auto simp: hole_ids_def)
  have "within (set (reach ?N (Suc h) tp)) ?N (t_nodes s1)"
    unfolding N1 by (rule within_update) (rule reach_self)
  then have w: "within (set (reach ?N (Suc h) tp)) ?N (t_nodes s2)"
    by (rule within_trans [of _ _ _ "{c}"]) (use dp' reach_Suc [OF tp] eq reach_self [of c ?N h] in auto)
  have "same_env s s2"
    using same_env_trans [OF same_env_trans [OF s1(2) record_flush_simps(4)]] dp' by blast
  then have mid: "mid_flush s s2 h lo hi tp ps1 cs1 c ps2 cs2 b'"
    unfolding mid_flush_def using dp' w keep(1) disj sub occ
    by (auto simp: keep(2) reb(2) reach bs(2))
  have len: "length batch + length b' = length b" unfolding bs by (rule sum_length_filter_compl)
  have "weight_all (t_nodes s2) h (cs1 @ cs2) = weight_all ?N h (cs1 @ cs2)"
    using keep(4) agree_local(4) [OF sib1] by (metis (no_types, lifting) map_eq_conv)
  moreover have "weight (t_nodes s2) h c \<le> weight ?N h c + h * length batch"
    using dp' agree_local(4) [OF agc] by simp
  ultimately have "mid_weight (t_nodes s2) h cs1 c cs2 b' + length batch \<le> weight ?N (Suc h) tp"
    unfolding weight_Suc [OF tp] len [symmetric] mid_weight_def eq by (simp add: algebra_simps)
  then have "mid_weight (t_nodes s2) h cs1 c cs2 b' < weight ?N (Suc h) tp" using bs(3) by (cases batch) auto
  then show thesis using that [OF pick app mid] dp' t1(2) by (simp add: record_flush_simps)
qed

section \<open>Ending a round\<close>

lemma mid_flush_params: "mid_flush s s' h lo hi tp ps1 cs1 c ps2 cs2 b \<Longrightarrow> t_params s' = t_params s \<and> arena_ok s'"
  by (simp add: mid_flush_def same_env_def)

lemma settle_delivered:
  assumes m: "mid_flush s s2 h lo hi tp ps1 cs1 c ps2 cs2 b"
    and del: "delivered thr (t_params s) (t_nodes s2) h (last_lo lo ps1) (first_hi hi ps2) c d"
    and dist: "distinct (reach (t_nodes s2) h c)" and d: "d \<noteq> DeliveredInternal True"
    and thr: "thr \<le> buffer_capacity (t_params s)"
  obtains s3 where
    "if d = DeliveredLeaf True then remove_child tp c s2 = Some s3
     else \<exists>promoted s'. split_if_needed c s2 = Some (promoted, s') \<and> integrate_splits tp promoted s' = Some s3"
    "flush_step s s3 h lo hi tp" "weight (t_nodes s3) (Suc h) tp = mid_weight (t_nodes s2) h cs1 c cs2 b"
proof -
  have P: "t_params s2 = t_params s" and ok: "arena_ok s2" using mid_flush_params [OF m] by auto
  note outer = that
  have split: thesis if sp: "split_if_needed c s2 = Some (zip qs ds, s')"
      "split_post s2 s' h (last_lo lo ps1) (first_hi hi ps2) c qs ds" "d \<noteq> DeliveredLeaf True" for qs ds s'
    using plug_child [OF m sp(2)] sp(1,3) outer by auto
  show thesis
  proof (cases h)
    case 0
    obtain es where c: "index (t_nodes s2) c = Some (Leaf es)" "leaf_ok (last_lo lo ps1) (first_hi hi ps2) es"
      "d = DeliveredLeaf (es = [])" using del 0 by (auto simp: delivered_def)
    show thesis
    proof (cases "es = []")
      case True
      have "\<exists>s3. remove_child tp c s2 = Some s3 \<and> flush_step s s3 h lo hi tp \<and>
          weight (t_nodes s3) (Suc h) tp = mid_weight (t_nodes s2) h cs1 c cs2 b"
        using 0 True c by (intro close_child [OF m]) simp_all
      then show thesis using True c outer by auto
    next
      case False
      from split_leaf_post [OF ok c(1,2) False] show thesis using split c(3) False 0 by auto
    qed
  next
    case (Suc h')
    obtain cps ccs cb where c: "index (t_nodes s2) c = Some (Internal cps ccs cb)"
      "forest (t_params s) (t_nodes s2) h' (last_lo lo ps1) (first_hi hi ps2) cps ccs"
      "buffer_ok (last_lo lo ps1) (first_hi hi ps2) cb" "d = DeliveredInternal (length cb > thr)"
      using del Suc by (auto simp: delivered_def)
    have "length cb \<le> buffer_capacity (t_params s2)" using c(4) d thr P by auto
    from split_internal_post [OF ok c(1) _ c(3) this, of h'] c(2) dist Suc P
    show thesis using split c(4) by auto
  qed
qed

definition flush_done :: "nat \<Rightarrow> node list \<Rightarrow> nat \<Rightarrow> node_id \<Rightarrow> bool" where
  "flush_done thr N h tp \<longleftrightarrow>
     (case index N tp of Some (Internal ps cs b) \<Rightarrow> length b \<le> thr | _ \<Rightarrow> False) \<and>
     (thr = 0 \<longrightarrow> weight N (Suc h) tp = 0)"

lemma loose_node:
  assumes "loose P N h lo hi tp"
  obtains ps cs b where "index N tp = Some (Internal ps cs b)" "buffer_ok lo hi b"
    "ps = [] \<and> cs = [] \<and> b = [] \<or> forest P N h lo hi ps cs"
  using assms by (auto simp: loose_def split: option.splits node.splits)

text \<open>What the drain-mode probe finds below a flushing node whose own buffer is empty.\<close>

lemma buffered_child_weight:
  assumes "loose (t_params s) (t_nodes s) h lo hi tp" "index (t_nodes s) tp = Some (Internal ps cs [])"
  shows "(weight (t_nodes s) (Suc h) tp = 0 \<longrightarrow> buffered_child s tp = Some None) \<and>
    (weight (t_nodes s) (Suc h) tp \<noteq> 0 \<longrightarrow>
      (\<exists>j. j < length cs \<and> buffered_child s tp = Some (Some (cs ! j)) \<and> 0 < weight (t_nodes s) h (cs ! j)))"
proof -
  have "cs = [] \<or> forest (t_params s) (t_nodes s) h lo hi ps cs" using assms by (auto simp: loose_def)
  then have "\<forall>c\<in>set cs. \<exists>lo hi. tree (t_params s) (t_nodes s) h lo hi c" using forest_child by fastforce
  from find_buffered_weight [OF this] show ?thesis
    using assms(2) weight_Suc [OF assms(2), of h] by (simp add: buffered_child_def node_at_index)
qed

lemma flush_loop_settles:
  assumes "loose (t_params s) (t_nodes s) h lo hi tp" "flush_done thr (t_nodes s) h tp"
  shows "flush_loop thr tr (tp # below) s = do {
     (outcome, s) \<leftarrow> settle tp s;
     case below of
       [] \<Rightarrow> Some (outcome, s)
     | parent # _ \<Rightarrow> do {
         s \<leftarrow> (case outcome of Splits promoted \<Rightarrow> integrate_splits parent promoted s | Removed \<Rightarrow> remove_child parent tp s);
         flush_loop thr tr below s
       }
   }"
proof -
  obtain ps cs b where tp: "index (t_nodes s) tp = Some (Internal ps cs b)" using assms(1) by (rule loose_node)
  have "(if thr = 0 then buffered_child s tp else Some None) = Some None"
    using assms tp buffered_child_weight [OF assms(1)] by (auto simp: flush_done_def)
  moreover have "buffer_len s tp = Some (length b)" "length b \<le> thr"
    using tp assms(2) by (simp_all add: buffer_len_def node_at_index flush_done_def)
  ultimately show ?thesis by (subst flush_loop.simps) simp
qed

lemma child_done:
  assumes m: "mid_flush s s2 (Suc h) lo hi tp ps1 cs1 c ps2 cs2 b"
    and l: "loose (t_params s) (t_nodes s2) h (last_lo lo ps1) (first_hi hi ps2) c"
    and fd: "flush_done thr (t_nodes s2) h c" and thr: "thr \<le> buffer_capacity (t_params s)"
  shows "\<exists>s3. flush_loop thr tr (c # tp # below) s2 = flush_loop thr tr (tp # below) s3 \<and>
    flush_step s s3 (Suc h) lo hi tp \<and>
    weight (t_nodes s3) (Suc (Suc h)) tp = mid_weight (t_nodes s2) (Suc h) cs1 c cs2 b"
proof -
  have P: "t_params s2 = t_params s" and ok: "arena_ok s2" using mid_flush_params [OF m] by auto
  obtain cps ccs cb where c: "index (t_nodes s2) c = Some (Internal cps ccs cb)"
    "buffer_ok (last_lo lo ps1) (first_hi hi ps2) cb"
    "cps = [] \<and> ccs = [] \<and> cb = [] \<or> forest (t_params s) (t_nodes s2) h (last_lo lo ps1) (first_hi hi ps2) cps ccs"
    using l by (rule loose_node)
  note loop = flush_loop_settles [OF l [folded P] fd, of tr "tp # below"]
  show ?thesis
  proof (cases "ccs = []")
    case True
    have e: "cb = []" "cps = []" using c(3) True by (auto simp: forest_def)
    have "settle c s2 = Some (Removed, s2)" using c(1) True by (simp add: settle_def node_at_index)
    moreover have "\<forall>k. occ (t_nodes s2) (Suc h) c k = ([], None)" "weight (t_nodes s2) (Suc h) c = 0"
      using occ_Suc [OF c(1)] weight_Suc [OF c(1)] e True by (simp_all add: occF_def)
    ultimately show ?thesis using loop close_child [OF m] by fastforce
  next
    case False
    have f: "forest (t_params s2) (t_nodes s2) h (last_lo lo ps1) (first_hi hi ps2) cps ccs" using c(3) False P by simp
    have "length cb \<le> buffer_capacity (t_params s2)" "distinct (reach (t_nodes s2) (Suc h) c)"
      using fd thr P l c(1) by (simp_all add: flush_done_def loose_def)
    from split_internal_post [OF ok c(1) f c(2) this] obtain qs ds s' where
      sp: "split_if_needed c s2 = Some (zip qs ds, s')" "split_post s2 s' (Suc h) (last_lo lo ps1) (first_hi hi ps2) c qs ds"
      by blast
    have "settle c s2 = Some (Splits (zip qs ds), s')" using c(1) False sp(1) by (simp add: settle_def node_at_index)
    with loop plug_child [OF m sp(2)] show ?thesis by fastforce
  qed
qed

section \<open>The whole flush\<close>

definition flush_ends :: "nat \<Rightarrow> bool \<Rightarrow> node_id list \<Rightarrow> nat \<Rightarrow> key option \<Rightarrow> key option \<Rightarrow> node_id \<Rightarrow>
    'p betree \<Rightarrow> bool" where
  "flush_ends thr tr below h lo hi tp s \<longleftrightarrow>
     (\<exists>s'. flush_loop thr tr (tp # below) s = flush_loop thr tr (tp # below) s' \<and>
       flush_step s s' h lo hi tp \<and> flush_done thr (t_nodes s') h tp \<and>
       weight (t_nodes s') (Suc h) tp \<le> weight (t_nodes s) (Suc h) tp)"

text \<open>Descending into a child, and coming back.\<close>

lemma flush_child:
  assumes m: "mid_flush s s2 (Suc h) lo hi tp ps1 cs1 c ps2 cs2 b"
    and fe: "flush_ends thr tr (tp # below) h (last_lo lo ps1) (first_hi hi ps2) c s2"
    and thr: "thr \<le> buffer_capacity (t_params s)"
  shows "\<exists>s4. flush_loop thr tr (c # tp # below) s2 = flush_loop thr tr (tp # below) s4 \<and>
    flush_step s s4 (Suc h) lo hi tp \<and>
    weight (t_nodes s4) (Suc (Suc h)) tp \<le> mid_weight (t_nodes s2) (Suc h) cs1 c cs2 b \<and>
    (thr = 0 \<longrightarrow> weight (t_nodes s4) (Suc (Suc h)) tp + weight (t_nodes s2) (Suc h) c \<le>
      mid_weight (t_nodes s2) (Suc h) cs1 c cs2 b)"
proof -
  from fe obtain s3 where loop: "flush_loop thr tr (c # tp # below) s2 = flush_loop thr tr (c # tp # below) s3"
    and st: "flush_step s2 s3 h (last_lo lo ps1) (first_hi hi ps2) c" and fd: "flush_done thr (t_nodes s3) h c"
    and w: "weight (t_nodes s3) (Suc h) c \<le> weight (t_nodes s2) (Suc h) c" by (auto simp: flush_ends_def)
  note st' = st [unfolded flush_step_def]
  have P: "t_params s2 = t_params s" using mid_flush_params [OF m] by simp
  have m3: "mid_flush s s3 (Suc h) lo hi tp ps1 cs1 c ps2 cs2 b"
    and sib: "weight_all (t_nodes s3) (Suc h) (cs1 @ cs2) = weight_all (t_nodes s2) (Suc h) (cs1 @ cs2)"
    using mid_flush_child [OF m] st' by simp_all
  from child_done [OF m3 _ fd thr, of tr below] st' P obtain s4 where s4:
    "flush_loop thr tr (c # tp # below) s3 = flush_loop thr tr (tp # below) s4" "flush_step s s4 (Suc h) lo hi tp"
    "weight (t_nodes s4) (Suc (Suc h)) tp = mid_weight (t_nodes s3) (Suc h) cs1 c cs2 b" by auto
  moreover have "thr = 0 \<longrightarrow> weight (t_nodes s3) (Suc h) c = 0" using fd by (simp add: flush_done_def)
  ultimately show ?thesis using loop w sib by (intro exI [of _ s4]) (simp add: mid_weight_def)
qed

lemma mid_flush_descend:
  assumes ok: "arena_ok s" and l: "loose (t_params s) (t_nodes s) h lo hi tp"
    and tp: "index (t_nodes s) tp = Some (Internal ps cs [])" and j: "j < length cs"
  obtains ps1 cs1 ps2 cs2 where "mid_flush s s h lo hi tp ps1 cs1 (cs ! j) ps2 cs2 []"
    "tree (t_params s) (t_nodes s) h (last_lo lo ps1) (first_hi hi ps2) (cs ! j)"
    "distinct (reach (t_nodes s) h (cs ! j))"
    "mid_weight (t_nodes s) h cs1 (cs ! j) cs2 [] = weight (t_nodes s) (Suc h) tp"
proof -
  obtain ps1 cs1 ps2 cs2 where h: "ps = ps1 @ ps2" "cs = cs1 @ cs ! j # cs2" "length cs1 = j"
    "hole (t_params s) (t_nodes s) h lo hi tp ps1 cs1 (cs ! j) ps2 cs2 []"
    "tree (t_params s) (t_nodes s) h (last_lo lo ps1) (first_hi hi ps2) (cs ! j)"
    "distinct (reach (t_nodes s) h (cs ! j))"
    "set (reach (t_nodes s) h (cs ! j)) \<inter> hole_ids (t_nodes s) h tp cs1 cs2 = {}"
    by (rule loose_hole [OF l tp j])
  have r: "reach (t_nodes s) (Suc h) tp = tp # reach_all (t_nodes s) h (cs1 @ cs ! j # cs2)"
    using reach_Suc [OF tp] h(2) by simp
  have "occ (t_nodes s) (Suc h) tp k = occF (t_nodes s) h (ps1 @ ps2) (cs1 @ cs ! j # cs2) k" for k
    using occ_Suc [OF tp, of h k] h(1,2) by simp
  then have "mid_flush s s h lo hi tp ps1 cs1 (cs ! j) ps2 cs2 []"
    unfolding mid_flush_def using ok h(4,7) r by (auto simp: hole_ids_def)
  moreover have "weight (t_nodes s) (Suc h) tp = weight_all (t_nodes s) h (cs1 @ cs ! j # cs2)"
    using weight_Suc [OF tp, of h] h(2) by simp
  then have "mid_weight (t_nodes s) h cs1 (cs ! j) cs2 [] = weight (t_nodes s) (Suc h) tp"
    by (simp add: mid_weight_def)
  ultimately show thesis using that h(5,6) by blast
qed

text \<open>One round, given that shallower flushes end.\<close>

lemma flush_round:
  fixes s :: "'p betree"
  assumes ok: "arena_ok s" and l: "loose (t_params s) (t_nodes s) h lo hi tp"
    and thr: "thr \<le> buffer_capacity (t_params s)" and nd: "\<not> flush_done thr (t_nodes s) h tp"
    and IH: "\<And>h' c l u (s2 :: 'p betree). h = Suc h' \<Longrightarrow> arena_ok s2 \<Longrightarrow> t_params s2 = t_params s \<Longrightarrow>
      loose (t_params s2) (t_nodes s2) h' l u c \<Longrightarrow>
      weight (t_nodes s2) (Suc h') c \<le> weight (t_nodes s) (Suc h) tp \<Longrightarrow> flush_ends thr tr (tp # below) h' l u c s2"
  shows "\<exists>s4. flush_loop thr tr (tp # below) s = flush_loop thr tr (tp # below) s4 \<and>
    flush_step s s4 h lo hi tp \<and> weight (t_nodes s4) (Suc h) tp < weight (t_nodes s) (Suc h) tp"
proof -
  obtain ps cs b where tp: "index (t_nodes s) tp = Some (Internal ps cs b)" using l by (rule loose_node)
  have len: "buffer_len s tp = Some (length b)" using tp by (simp add: buffer_len_def node_at_index)
  show ?thesis
  proof (cases "length b \<le> thr")
    case True
    then have thr0: "thr = 0" "b = []" "weight (t_nodes s) (Suc h) tp \<noteq> 0"
      using nd tp by (auto simp: flush_done_def)
    obtain j where j: "j < length cs" "buffered_child s tp = Some (Some (cs ! j))" "0 < weight (t_nodes s) h (cs ! j)"
      using buffered_child_weight [OF l] tp thr0 by blast
    then obtain h' where h: "h = Suc h'" by (cases h) auto
    obtain ps1 cs1 ps2 cs2 where m: "mid_flush s s h lo hi tp ps1 cs1 (cs ! j) ps2 cs2 []"
      "tree (t_params s) (t_nodes s) h (last_lo lo ps1) (first_hi hi ps2) (cs ! j)"
      "distinct (reach (t_nodes s) h (cs ! j))"
      "mid_weight (t_nodes s) h cs1 (cs ! j) cs2 [] = weight (t_nodes s) (Suc h) tp"
      using mid_flush_descend [OF ok l _ j(1)] tp thr0(2) by blast
    have "loose (t_params s) (t_nodes s) h' (last_lo lo ps1) (first_hi hi ps2) (cs ! j)"
      using m(2,3) unfolding h by (auto elim!: tree_SucE simp: loose_def)
    from IH [OF h ok refl this] m(4) h
    have "flush_ends thr tr (tp # below) h' (last_lo lo ps1) (first_hi hi ps2) (cs ! j) s" by (simp add: mid_weight_def)
    from flush_child [OF m(1) [unfolded h] this thr] thr0 j(3) m(4) h
    obtain s4 where "flush_loop thr tr (cs ! j # tp # below) s = flush_loop thr tr (tp # below) s4"
      "flush_step s s4 h lo hi tp" "weight (t_nodes s4) (Suc h) tp < weight (t_nodes s) (Suc h) tp" by auto
    moreover have "flush_loop thr tr (tp # below) s = flush_loop thr tr (cs ! j # tp # below) s"
      using len True thr0(1) j(2) by (subst flush_loop.simps) simp
    ultimately show ?thesis by metis
  next
    case False
    then have "b \<noteq> []" by auto
    obtain j ps1 cs1 c ps2 cs2 b' pend batch d s1 s2 where
      r: "pick_and_extract tp (length below) tr s = Some (j, c, pend, batch, s1)"
      "apply_batch c batch thr (record_flush tr tp pend j s1) = Some (d, s2)"
      and m: "mid_flush s s2 h lo hi tp ps1 cs1 c ps2 cs2 b'"
      and del: "delivered thr (t_params s) (t_nodes s2) h (last_lo lo ps1) (first_hi hi ps2) c d"
      "distinct (reach (t_nodes s2) h c)"
      and w: "mid_weight (t_nodes s2) h cs1 c cs2 b' < weight (t_nodes s) (Suc h) tp"
      by (rule round_start [OF ok l tp \<open>b \<noteq> []\<close>])
    have loop: "flush_loop thr tr (tp # below) s =
       (if d = DeliveredInternal True then flush_loop thr tr (c # tp # below) s2
        else if d = DeliveredLeaf True then do { s \<leftarrow> remove_child tp c s2; flush_loop thr tr (tp # below) s }
        else do { (promoted, s) \<leftarrow> split_if_needed c s2; s \<leftarrow> integrate_splits tp promoted s; flush_loop thr tr (tp # below) s })"
      using len False r by (subst flush_loop.simps) (simp add: Let_def)
    show ?thesis
    proof (cases "d = DeliveredInternal True")
      case True
      then obtain h' where h: "h = Suc h'" using del(1) by (cases h) (auto simp: delivered_def)
      have P: "t_params s2 = t_params s" "arena_ok s2" using mid_flush_params [OF m] by auto
      have "loose (t_params s2) (t_nodes s2) h' (last_lo lo ps1) (first_hi hi ps2) c"
        using del(1) P h by (auto simp: delivered_def)
      from IH [OF h P(2,1) this] w h
      have "flush_ends thr tr (tp # below) h' (last_lo lo ps1) (first_hi hi ps2) c s2" by (simp add: mid_weight_def)
      from flush_child [OF m [unfolded h] this thr] w loop True h show ?thesis
        by (metis (no_types, lifting) order.strict_trans1)
    next
      case False
      from settle_delivered [OF m del False thr] obtain s3 where
        "if d = DeliveredLeaf True then remove_child tp c s2 = Some s3
         else \<exists>promoted s'. split_if_needed c s2 = Some (promoted, s') \<and> integrate_splits tp promoted s' = Some s3"
        "flush_step s s3 h lo hi tp" "weight (t_nodes s3) (Suc h) tp = mid_weight (t_nodes s2) h cs1 c cs2 b'" by metis
      with loop False w show ?thesis by (intro exI [of _ s3]) (auto split: if_splits)
    qed
  qed
qed

lemma flush_run:
  assumes "arena_ok s" "loose (t_params s) (t_nodes s) h lo hi tp" "thr \<le> buffer_capacity (t_params s)"
  shows "flush_ends thr tr below h lo hi tp s"
  using assms
proof (induction "weight (t_nodes s) (Suc h) tp + h" arbitrary: s h lo hi tp below rule: less_induct)
  case less
  show ?case
  proof (cases "flush_done thr (t_nodes s) h tp")
    case True
    then show ?thesis using flush_step_refl [OF less.prems(1,2)] by (auto simp: flush_ends_def)
  next
    case False
    have "\<exists>s4. flush_loop thr tr (tp # below) s = flush_loop thr tr (tp # below) s4 \<and>
        flush_step s s4 h lo hi tp \<and> weight (t_nodes s4) (Suc h) tp < weight (t_nodes s) (Suc h) tp"
      by (rule flush_round [OF less.prems False]) (rule less.hyps, use less.prems(3) in auto)
    then obtain s4 where s4: "flush_loop thr tr (tp # below) s = flush_loop thr tr (tp # below) s4"
      "flush_step s s4 h lo hi tp" "weight (t_nodes s4) (Suc h) tp < weight (t_nodes s) (Suc h) tp" by blast
    then have P: "t_params s4 = t_params s" by (simp add: flush_step_def same_env_def)
    have "flush_ends thr tr below h lo hi tp s4"
      by (rule less.hyps) (use s4(2,3) less.prems(3) P in \<open>auto simp: flush_step_def\<close>)
    then show ?thesis using s4 flush_step_trans [OF s4(2)] by (fastforce simp: flush_ends_def)
  qed
qed

end
