(* ===== verification/Arena_Root.thy ===== *)
theory Arena_Root
  imports Arena_Run
begin

text \<open>
  The root level: \<open>restore_root_with\<close> flushes the root, grows the tree while the root splits
  (every new root has fewer children than the one before, so this ends), replaces a root that lost
  every child by an empty leaf, and collapses a root with one child and no messages.
\<close>

section \<open>A tree at rest\<close>

text \<open>The root may be an empty leaf; everything else is as in any other subtree.\<close>
definition root_tree :: "params \<Rightarrow> node list \<Rightarrow> nat \<Rightarrow> node_id \<Rightarrow> bool" where
  "root_tree P N h r \<longleftrightarrow>
     (if h = 0 then (case index N r of Some (Leaf es) \<Rightarrow> bt_ok es \<and> length es \<le> leaf_capacity P | _ \<Rightarrow> False)
      else tree P N h None None r) \<and>
     distinct (reach N h r)"

text \<open>What settling the root leaves alone.\<close>
definition same_ops :: "'p betree \<Rightarrow> 'p betree \<Rightarrow> bool" where
  "same_ops s s' \<longleftrightarrow> t_params s' = t_params s \<and> t_next_seq s' = t_next_seq s \<and>
     t_ops_since_commit s' = t_ops_since_commit s \<and>
     trace_ops (v2 (t_trace s')) = trace_ops (v2 (t_trace s))"

lemma same_env_ops: "same_env s s' \<Longrightarrow> same_ops s s'"
  by (simp add: same_env_def same_ops_def)

lemma same_ops_trans: "same_ops s1 s2 \<Longrightarrow> same_ops s2 s3 \<Longrightarrow> same_ops s1 s3"
  by (simp add: same_ops_def)

lemma same_ops_refl [simp]: "same_ops s s"
  by (simp add: same_ops_def)

definition root_step :: "nat \<Rightarrow> 'p betree \<Rightarrow> nat \<Rightarrow> 'p betree \<Rightarrow> nat \<Rightarrow> bool" where
  "root_step thr s h s' h' \<longleftrightarrow>
     arena_ok s' \<and> same_ops s s' \<and> root_tree (t_params s) (t_nodes s') h' (t_root s') \<and>
     (\<forall>k. occ_le (occ (t_nodes s') h' (t_root s') k) (occ (t_nodes s) h (t_root s) k)) \<and>
     (thr = 0 \<longrightarrow> weight (t_nodes s') h' (t_root s') = 0)"

lemma root_step_trans:
  assumes "arena_ok s2" "same_ops s1 s2" "\<forall>k. occ_le (occ (t_nodes s2) h2 (t_root s2) k) (occ (t_nodes s1) h1 (t_root s1) k)"
    and "root_step thr s2 h2 s3 h3"
  shows "root_step thr s1 h1 s3 h3"
  using assms occ_le_trans unfolding root_step_def by (fastforce simp: same_ops_def)

section \<open>Growing\<close>

text \<open>Every split of an internal node produces fewer pieces than the node has children.\<close>

lemma length_peel: "peel ps cs L b = Some (pcs, b') \<Longrightarrow> length pcs = length L"
  by (induction L arbitrary: b pcs b') (auto simp: bind_eq_Some_conv bt_split_off_def Let_def)

lemma length_alloc_internals: "length (fst (alloc_internals pcs s)) = length pcs"
  using alloc_internals_eq [of pcs s] by auto

lemma split_fewer:
  assumes "index (t_nodes s) c = Some (Internal ps cs b)" "split_if_needed c s = Some (promoted, s')"
    "params_legal (t_params s)" "promoted \<noteq> []"
  shows "Suc (length promoted) < length cs"
proof -
  have big: "length cs > fanout (t_params s)" and sp: "split_internal c s = Some (promoted, s')"
    using assms(1,2,4) by (auto simp: split_if_needed_def node_at_index split: if_splits)
  have F: "2 \<le> fanout (t_params s)" using assms(3) by (simp add: params_legal_def)
  obtain sizes where sz: "partition_sizes (length cs) (fanout (t_params s)) = Some sizes" "sizes \<noteq> []" "length sizes < length cs"
    using partition_sizes_total [of "fanout (t_params s)" "length cs"] F big by fastforce
  from sp assms(1) sz(1) obtain pcs buf s1 where
    pcs: "peel ps cs (rev (tl (zip (starts_from 0 sizes) sizes))) b = Some (pcs, buf)"
    and "alloc_internals (rev pcs) s1 = (promoted, s')"
    by (auto simp: split_internal_def mark_dirty_def node_at_index bind_eq_Some_conv split: if_splits prod.splits)
  then have "length promoted = length sizes - 1"
    using length_peel [OF pcs] length_alloc_internals [of "rev pcs" s1] by (simp add: starts_from_snoc(2))
  with sz(2,3) show ?thesis by (cases sizes) auto
qed

lemma loose_new_root:
  assumes f: "forest P N h None None qs cs" and d: "distinct (reach_all N h cs)"
  defines "N' \<equiv> N @ [Internal qs cs []]"
  shows "loose P N' h None None (length N)" "weight N' (Suc h) (length N) = weight_all N h cs"
    "occ N' (Suc h) (length N) k = occF N h qs cs k"
proof -
  have r: "index N' (length N) = Some (Internal qs cs [])" by (simp add: N'_def)
  have below: "i < length N" if "i \<in> set (reach_all N h cs)" for i
    using that tree_reach_bound forest_child [OF f] by fastforce
  have ag: "agree (set (reach N h c)) N N'" if "c \<in> set cs" for c
    unfolding N'_def by (rule agree_append) (use that below in auto)
  have maps: "map (reach N' h) cs = map (reach N h) cs" "map (weight N' h) cs = map (weight N h) cs"
    using agree_local(1,4) [OF ag] by auto
  have f': "forest P N' h None None qs cs"
    using f segs_in [of cs qs] agree_local(2) [OF ag] by (fastforce simp: forest_def)
  have "distinct (length N # reach_all N h cs)" using d below by auto
  then have "distinct (reach N' (Suc h) (length N))" unfolding reach_Suc [OF r] maps(1) .
  then show "loose P N' h None None (length N)" using f' r by (simp add: loose_def buffer_ok_def)
  show "weight N' (Suc h) (length N) = weight_all N h cs" unfolding weight_Suc [OF r] maps(2) by simp
  have "occF N' h qs cs k = occF N h qs cs k" by (rule occF_cong) (use agree_local(3) [OF ag] in auto)
  then show "occ N' (Suc h) (length N) k = occF N h qs cs k" using occ_Suc [OF r] by simp
qed

lemma root_step_emptied:
  assumes ok: "arena_ok s" and none: "\<forall>k. occ (t_nodes s) h (t_root s) k = ([], None)"
  shows "root_step thr s h ((snd (alloc (Leaf []) s))\<lparr>t_root := fst (alloc (Leaf []) s)\<rparr>) 0"
  using ok none by (auto simp: root_step_def root_tree_def same_ops_def alloc_def arena_ok_def)

lemma root_step_kept:
  assumes ok: "arena_ok s1" "same_env s s1" and t: "tree (t_params s) (t_nodes s1) (Suc h) None None (t_root s)"
    "distinct (reach (t_nodes s1) (Suc h) (t_root s))"
    and occ: "\<forall>k. occ (t_nodes s1) (Suc h) (t_root s) k = occ (t_nodes s) (Suc h) (t_root s) k"
    and w: "thr = 0 \<longrightarrow> weight (t_nodes s1) (Suc h) (t_root s) = 0"
  shows "root_step thr s (Suc h) s1 (Suc h)"
proof -
  have "t_root s1 = t_root s" "same_ops s s1" using ok(2) by (simp_all add: same_env_def same_ops_def)
  with assms show ?thesis by (simp add: root_step_def root_tree_def)
qed

lemma restore_done:
  assumes "arena_ok s" "loose (t_params s) (t_nodes s) h None None (t_root s)"
    "flush_done thr (t_nodes s) h (t_root s)" "thr \<le> buffer_capacity (t_params s)"
    "index (t_nodes s) (t_root s) = Some (Internal ps cs b)"
  shows "\<exists>s' h'. restore_loop thr tr s = Some s' \<and> root_step thr s (Suc h) s' h'"
  using assms
proof (induction "length cs" arbitrary: s h ps cs b rule: less_induct)
  case less
  note ok = less.prems(1) and l = less.prems(2) and fd = less.prems(3) and thr = less.prems(4) and r = less.prems(5)
  let ?N = "t_nodes s" and ?r = "t_root s" and ?P = "t_params s"
  have flush: "flush_with ?r thr tr s = settle ?r s"
    using flush_loop_settles [OF l fd, of tr "[]"] by (simp add: flush_with_def)
  have at: "node_at s ?r = Some (Internal ps cs b)" using r by (simp add: node_at_index)
  show ?case
  proof (cases "cs = []")
    case True
    then have e: "b = []" "ps = []" using l r by (auto simp: loose_def forest_def)
    have "settle ?r s = Some (Removed, s)" using at True by (simp add: settle_def)
    then have "restore_loop thr tr s = Some ((snd (alloc (Leaf []) s))\<lparr>t_root := fst (alloc (Leaf []) s)\<rparr>)"
      using at flush by (subst restore_loop.simps) (simp add: split_beta)
    moreover have "\<forall>k. occ ?N (Suc h) ?r k = ([], None)" using occ_Suc [OF r] e True by (simp add: occF_def)
    ultimately show ?thesis using root_step_emptied [OF ok] by blast
  next
    case False
    have f: "forest ?P ?N h None None ps cs" and b: "buffer_ok None None b" and d: "distinct (reach ?N (Suc h) ?r)"
      using l r False by (auto simp: loose_def)
    have bl: "length b \<le> buffer_capacity ?P" using fd r thr by (simp add: flush_done_def)
    from split_internal_post [OF ok r f b bl d] obtain qs ds s1 where
      sp: "split_if_needed ?r s = Some (zip qs ds, s1)" and post: "split_post s s1 (Suc h) None None ?r qs ds" by blast
    note post' = post [unfolded split_post_def]
    have len: "length ds = length qs" using post' by (auto simp: forest_def)
    have settle: "settle ?r s = Some (Splits (zip qs ds), s1)" using at False sp by (simp add: settle_def)
    have w: "thr = 0 \<longrightarrow> weight_all (t_nodes s1) (Suc h) (?r # ds) = 0" using post' fd by (simp add: flush_done_def)
    have env: "t_params s1 = ?P" "t_root s1 = ?r" using post' by (simp_all add: same_env_def)
    show ?thesis
    proof (cases "qs = []")
      case True
      then have "restore_loop thr tr s = Some s1"
        using at flush settle by (subst restore_loop.simps) simp
      moreover have "root_step thr s (Suc h) s1 (Suc h)"
        using True len post' w by (intro root_step_kept) (simp_all add: forest_def occF_def)
      ultimately show ?thesis by blast
    next
      case False
      let ?n = "Internal qs (?r # ds) []"
      let ?s2 = "(snd (alloc ?n s1))\<lparr>t_root := length (t_nodes s1)\<rparr>"
      have ne: "zip qs ds \<noteq> []" using False len by (auto simp: zip_eq_Nil_iff)
      have loop: "restore_loop thr tr s = restore_loop thr tr ?s2"
        using at flush settle ne len env by (subst restore_loop.simps) (simp add: split_beta alloc_simps(1))
      note nr = loose_new_root [of ?P "t_nodes s1" "Suc h" qs "?r # ds"]
      have N2: "t_nodes ?s2 = t_nodes s1 @ [?n]" "t_params ?s2 = ?P" "t_root ?s2 = length (t_nodes s1)"
        using env by (simp_all add: alloc_simps)
      have "\<exists>s' h'. restore_loop thr tr ?s2 = Some s' \<and> root_step thr ?s2 (Suc (Suc h)) s' h'"
      proof (rule less.hyps)
        show "length (?r # ds) < length cs"
          using split_fewer [OF r sp _ ne] ok len by (simp add: arena_ok_def)
        show "arena_ok ?s2" using post' by (simp add: alloc_def arena_ok_def)
        show "loose (t_params ?s2) (t_nodes ?s2) (Suc h) None None (t_root ?s2)"
          unfolding N2 by (rule nr(1)) (use post' in simp_all)
        have "weight (t_nodes ?s2) (Suc (Suc h)) (t_root ?s2) = weight_all (t_nodes s1) (Suc h) (?r # ds)"
          unfolding N2 by (rule nr(2)) (use post' in simp_all)
        with w show "flush_done thr (t_nodes ?s2) (Suc h) (t_root ?s2)" by (simp add: flush_done_def N2)
        show "thr \<le> buffer_capacity (t_params ?s2)" using thr N2 by simp
        show "index (t_nodes ?s2) (t_root ?s2) = Some ?n" by (simp add: N2)
      qed
      moreover have "occ (t_nodes ?s2) (Suc (Suc h)) (t_root ?s2) k = occ ?N (Suc h) ?r k" for k
      proof -
        have "occ (t_nodes ?s2) (Suc (Suc h)) (t_root ?s2) k = occF (t_nodes s1) (Suc h) qs (?r # ds) k"
          unfolding N2 by (rule nr(3)) (use post' in simp_all)
        then show ?thesis using post' by simp
      qed
      moreover have "arena_ok ?s2" "same_ops s ?s2" using post' by (auto simp: alloc_def arena_ok_def same_env_def same_ops_def)
      ultimately show ?thesis unfolding loop using root_step_trans by (metis occ_le_refl)
    qed
  qed
qed

section \<open>Settling the root\<close>

text \<open>A root that an operation has just written: a leaf of any size, or a flushing node.\<close>
definition root_loose :: "params \<Rightarrow> node list \<Rightarrow> nat \<Rightarrow> node_id \<Rightarrow> bool" where
  "root_loose P N h r \<longleftrightarrow>
     (case h of
        0 \<Rightarrow> (case index N r of Some (Leaf es) \<Rightarrow> bt_ok es | _ \<Rightarrow> False)
      | Suc h' \<Rightarrow> loose P N h' None None r)"

lemma restore_loop_ok:
  assumes ok: "arena_ok s" and r: "root_loose (t_params s) (t_nodes s) h (t_root s)"
    and thr: "thr \<le> buffer_capacity (t_params s)"
  shows "\<exists>s' h'. restore_loop thr tr s = Some s' \<and> root_step thr s h s' h'"
proof (cases h)
  case 0
  let ?r = "t_root s"
  obtain es where es: "index (t_nodes s) ?r = Some (Leaf es)" "bt_ok es"
    using r 0 by (auto simp: root_loose_def split: option.splits node.splits)
  have at: "node_at s ?r = Some (Leaf es)" using es by (simp add: node_at_index)
  show ?thesis
  proof (cases "length es \<le> leaf_capacity (t_params s)")
    case True
    then have "split_if_needed ?r s = Some ([], s)" using at by (simp add: split_if_needed_def)
    then have "restore_loop thr tr s = Some s" using at by (subst restore_loop.simps) simp
    moreover have "root_step thr s h s 0" using 0 ok es True by (simp add: root_step_def root_tree_def)
    ultimately show ?thesis by blast
  next
    case False
    then have ne: "es \<noteq> []" by auto
    from split_leaf_post [OF ok es(1) _ ne, of None None] es(2) obtain qs ds s1 where
      sp: "split_if_needed ?r s = Some (zip qs ds, s1)" and post: "split_post s s1 0 None None ?r qs ds"
      by (auto simp: leaf_ok_def)
    note post' = post [unfolded split_post_def]
    have len: "length ds = length qs" using post' by (auto simp: forest_def)
    have env: "t_params s1 = t_params s" "t_root s1 = ?r" using post' by (simp_all add: same_env_def)
    show ?thesis
    proof (cases "qs = []")
      case True
      then have "restore_loop thr tr s = Some s1" using at sp by (subst restore_loop.simps) simp
      moreover have "tree (t_params s) (t_nodes s1) 0 None None ?r" using True len post' by (simp add: forest_def)
      then have "root_tree (t_params s) (t_nodes s1) 0 ?r"
        by (auto simp: root_tree_def leaf_ok_def split: option.splits node.splits)
      then have "root_step thr s h s1 0"
        using 0 True len post' env by (simp add: root_step_def same_env_ops occF_def)
      ultimately show ?thesis by blast
    next
      case False
      let ?n = "Internal qs (?r # ds) []"
      let ?s2 = "(snd (alloc ?n s1))\<lparr>t_root := length (t_nodes s1)\<rparr>"
      have ne: "zip qs ds \<noteq> []" using False len by (auto simp: zip_eq_Nil_iff)
      have loop: "restore_loop thr tr s = restore_loop thr tr ?s2"
        using at sp ne len env by (subst restore_loop.simps) (simp add: split_beta alloc_simps(1))
      note nr = loose_new_root [of "t_params s" "t_nodes s1" 0 qs "?r # ds"]
      have N2: "t_nodes ?s2 = t_nodes s1 @ [?n]" "t_params ?s2 = t_params s" "t_root ?s2 = length (t_nodes s1)"
        using env by (simp_all add: alloc_simps)
      have ok2: "arena_ok ?s2" "same_ops s ?s2"
        using post' by (auto simp: alloc_def arena_ok_def same_env_def same_ops_def)
      have "\<exists>s' h'. restore_loop thr tr ?s2 = Some s' \<and> root_step thr ?s2 (Suc 0) s' h'"
      proof (rule restore_done [OF ok2(1)])
        show "loose (t_params ?s2) (t_nodes ?s2) 0 None None (t_root ?s2)"
          unfolding N2 by (rule nr(1)) (use post' in simp_all)
        have "weight (t_nodes ?s2) (Suc 0) (t_root ?s2) = weight_all (t_nodes s1) 0 (?r # ds)"
          unfolding N2 by (rule nr(2)) (use post' in simp_all)
        then show "flush_done thr (t_nodes ?s2) 0 (t_root ?s2)" by (simp add: flush_done_def N2)
        show "thr \<le> buffer_capacity (t_params ?s2)" using thr N2 by simp
        show "index (t_nodes ?s2) (t_root ?s2) = Some ?n" by (simp add: N2)
      qed
      moreover have "occ (t_nodes ?s2) (Suc 0) (t_root ?s2) k = occ (t_nodes s) h ?r k" for k
      proof -
        have "occ (t_nodes ?s2) (Suc 0) (t_root ?s2) k = occF (t_nodes s1) 0 qs (?r # ds) k"
          unfolding N2 by (rule nr(3)) (use post' in simp_all)
        then show ?thesis using post' 0 by simp
      qed
      ultimately show ?thesis unfolding loop using root_step_trans [OF ok2] by (metis occ_le_refl)
    qed
  qed
next
  case (Suc h')
  have l: "loose (t_params s) (t_nodes s) h' None None (t_root s)" using r Suc by (simp add: root_loose_def)
  obtain s1 where loop: "flush_loop thr tr [t_root s] s = flush_loop thr tr [t_root s] s1"
    and st: "flush_step s s1 h' None None (t_root s)" and fd: "flush_done thr (t_nodes s1) h' (t_root s)"
    using flush_run [OF ok l thr, of tr "[]"] by (auto simp: flush_ends_def)
  note st' = st [unfolded flush_step_def]
  have env: "t_params s1 = t_params s" "t_root s1 = t_root s" using st' by (simp_all add: same_env_def)
  obtain ps cs b where n: "index (t_nodes s) (t_root s) = Some (Internal ps cs b)" using l by (rule loose_node)
  obtain ps1 cs1 b1 where n1: "index (t_nodes s1) (t_root s1) = Some (Internal ps1 cs1 b1)"
    using st' env by (auto elim: loose_node)
  have "restore_loop thr tr s = restore_loop thr tr s1"
    using n n1 loop env by (subst (1 2) restore_loop.simps) (simp add: node_at_index flush_with_def)
  moreover have "\<exists>s' h2. restore_loop thr tr s1 = Some s' \<and> root_step thr s1 (Suc h') s' h2"
    by (rule restore_done [OF _ _ _ _ n1]) (use st' fd thr env in simp_all)
  ultimately show ?thesis
    using root_step_trans [of s1 s "Suc h'" "Suc h'" thr] st' Suc env same_env_ops by (metis in_range_None)
qed

lemma collapse_root_ok:
  assumes "arena_ok s" "root_tree (t_params s) (t_nodes s) h (t_root s)"
  shows "\<exists>s' h'. collapse_root s = Some s' \<and> arena_ok s' \<and> same_ops s s' \<and> t_nodes s' = t_nodes s \<and>
    root_tree (t_params s) (t_nodes s) h' (t_root s') \<and>
    (\<forall>k. occ (t_nodes s) h' (t_root s') k = occ (t_nodes s) h (t_root s) k) \<and>
    weight (t_nodes s) h' (t_root s') = weight (t_nodes s) h (t_root s)"
  using assms
proof (induction h arbitrary: s)
  case 0
  then obtain es where "node_at s (t_root s) = Some (Leaf es)"
    by (auto simp: root_tree_def node_at_index split: option.splits node.splits)
  then have "collapse_root s = Some s" by (subst collapse_root.simps) simp
  with 0 show ?case by (intro exI [of _ s] exI [of _ 0]) simp
next
  case (Suc h)
  have t: "tree (t_params s) (t_nodes s) (Suc h) None None (t_root s)" "distinct (reach (t_nodes s) (Suc h) (t_root s))"
    using Suc.prems(2) by (simp_all add: root_tree_def)
  obtain ps cs b where r: "index (t_nodes s) (t_root s) = Some (Internal ps cs b)"
    and f: "forest (t_params s) (t_nodes s) h None None ps cs" using t(1) by (rule tree_SucE)
  show ?case
  proof (cases "length cs = 1 \<and> b = []")
    case False
    then have "collapse_root s = Some s" using r by (subst collapse_root.simps) (auto simp: node_at_index)
    with Suc.prems show ?thesis by (intro exI [of _ s] exI [of _ "Suc h"]) simp
  next
    case True
    then obtain c where cs: "cs = [c]" "ps = []" "b = []" using f by (cases cs) (auto simp: forest_def)
    let ?s = "s\<lparr>t_root := c\<rparr>"
    have step: "collapse_root s = collapse_root ?s" using r cs by (subst collapse_root.simps) (simp add: node_at_index)
    have "tree (t_params s) (t_nodes s) h None None c" using f cs by (simp add: forest_def)
    moreover have "distinct (reach (t_nodes s) h c)" using t(2) reach_Suc [OF r, of h] cs by simp
    ultimately have rt: "root_tree (t_params ?s) (t_nodes ?s) h (t_root ?s)"
      by (cases h) (auto simp: root_tree_def leaf_ok_def split: option.splits node.splits)
    have same: "occ (t_nodes s) (Suc h) (t_root s) k = occ (t_nodes s) h c k"
      "weight (t_nodes s) (Suc h) (t_root s) = weight (t_nodes s) h c" for k
      using occ_Suc [OF r] weight_Suc [OF r] cs by (simp_all add: occF_def)
    have "arena_ok ?s" "same_ops s ?s" using Suc.prems(1) by (simp_all add: arena_ok_def same_ops_def)
    with Suc.IH [OF _ rt] step same show ?thesis using same_ops_trans by fastforce
  qed
qed

lemma restore_root_with_ok:
  assumes "arena_ok s" "root_loose (t_params s) (t_nodes s) h (t_root s)" "thr \<le> buffer_capacity (t_params s)"
  shows "\<exists>s' h'. restore_root_with thr tr s = Some s' \<and> root_step thr s h s' h'"
proof -
  obtain s1 h1 where s1: "restore_loop thr tr s = Some s1" "root_step thr s h s1 h1"
    using restore_loop_ok [OF assms] by blast
  note st = s1(2) [unfolded root_step_def]
  have P: "t_params s1 = t_params s" using st by (simp add: same_ops_def)
  have "arena_ok s1" "root_tree (t_params s1) (t_nodes s1) h1 (t_root s1)" using st P by auto
  from collapse_root_ok [OF this] obtain s2 h2 where s2: "collapse_root s1 = Some s2" "arena_ok s2" "same_ops s1 s2"
    "t_nodes s2 = t_nodes s1" "root_tree (t_params s1) (t_nodes s1) h2 (t_root s2)"
    "\<forall>k. occ (t_nodes s1) h2 (t_root s2) k = occ (t_nodes s1) h1 (t_root s1) k"
    "weight (t_nodes s1) h2 (t_root s2) = weight (t_nodes s1) h1 (t_root s1)" by blast
  have "root_step thr s h s2 h2"
    using st s2 P same_ops_trans [of s s1 s2] by (simp add: root_step_def)
  then show ?thesis using s1(1) s2(1) by (auto simp: restore_root_with_def)
qed

section \<open>One message\<close>

text \<open>Writing a message at the root, before the root is settled.\<close>

lemma root_tree_loose: "root_tree P N h r \<Longrightarrow> root_loose P N h r"
  by (cases h) (auto simp: root_tree_def root_loose_def loose_def elim!: tree_SucE split: option.splits node.splits)

text \<open>The path of the written key has gained the message, the others are as before.\<close>
definition message_written :: "key \<Rightarrow> message \<Rightarrow> node list \<Rightarrow> node_id \<Rightarrow> node list \<Rightarrow> node_id \<Rightarrow> nat \<Rightarrow> nat \<Rightarrow> bool" where
  "message_written k m N r N' r' h h' \<longleftrightarrow>
     (\<forall>k'. occ_le (occ N' h' r' k') (add_msg (if k' = k then Some m else None) (occ N h r k')))"

lemma single_batch:
  "fold (\<lambda>(k, m). apply_to_leaf k m) [(k, m)] es = apply_to_leaf k m es"
  "fold (\<lambda>(k, m). coalesce_into k m) [(k, m)] b = coalesce_into k m b"
  by simp_all

lemma root_delivery:
  fixes k :: key and m :: message
  assumes ok: "arena_ok s" and r: "root_tree (t_params s) (t_nodes s) h (t_root s)"
  defines "n' \<equiv> (case node_at s (t_root s) of
      Some (Leaf es) \<Rightarrow> Leaf (apply_to_leaf k m es)
    | Some (Internal ps cs b) \<Rightarrow> Internal ps cs (coalesce_into k m b)
    | None \<Rightarrow> Leaf [])"
  defines "s' \<equiv> set_node (t_root s) n' (dirtied (t_root s) s)"
  shows "root_loose (t_params s) (t_nodes s') h (t_root s')"
    "message_written k m (t_nodes s) (t_root s) (t_nodes s') (t_root s') h h"
    "apply_root k m s = restore_root s'" "arena_ok s'" "same_env s s'"
proof -
  let ?N = "t_nodes s" and ?r = "t_root s"
  obtain n where n: "index ?N ?r = Some n"
    using r by (cases h) (auto simp: root_tree_def elim!: tree_SucE split: option.splits)
  have r': "?r < length ?N" using n by (simp add: index_eq_Some)
  show "arena_ok s'" "same_env s s'" using ok by (simp_all add: s'_def arena_simps)
  have N': "t_nodes s' = ?N[?r := n']" "t_root s' = ?r" "index (t_nodes s') ?r = Some n'"
    using r' by (simp_all add: s'_def arena_simps index_update)
  show "apply_root k m s = restore_root s'"
    using n r' ok by (cases n) (simp_all add: apply_root_def mark_dirty_ok node_at_index arena_simps s'_def n'_def)
  have batch: "buffer_ok None None [(k, m)]" by (simp add: buffer_ok_def bt_ok_Cons)
  have get: "bt_get [(k, m)] k' = (if k' = k then Some m else None)" for k' by simp
  have "root_loose (t_params s) (t_nodes s') h ?r \<and>
      message_written k m ?N ?r (t_nodes s') ?r h h"
  proof (cases h)
    case 0
    obtain es where es: "index ?N ?r = Some (Leaf es)" "bt_ok es"
      using r 0 by (auto simp: root_tree_def split: option.splits node.splits)
    then have n': "n' = Leaf (apply_to_leaf k m es)" by (simp add: n'_def node_at_index)
    have "occ_le ([], bt_get (apply_to_leaf k m es) k') (add_msg (bt_get [(k, m)] k') ([], bt_get es k'))" for k'
      using leaf_upd.get_upd [OF es(2), of k m] occ_le_leaf by auto
    then show ?thesis using 0 N'(3) n' es leaf_upd.ok_upd [OF es(2)]
      by (simp add: root_loose_def message_written_def get del: map_of.simps)
  next
    case (Suc h')
    have t: "tree (t_params s) ?N (Suc h') None None ?r" and d: "distinct (reach ?N (Suc h') ?r)"
      using r Suc by (simp_all add: root_tree_def)
    obtain dl s2 where app: "apply_batch ?r [(k, m)] 0 s = Some (dl, s2)"
      and post: "deliver_post 0 [(k, m)] s s2 (Suc h') None None ?r dl"
      using deliver_ok [OF ok t d batch] by blast
    obtain ps cs b where c: "index ?N ?r = Some (Internal ps cs b)" using t by (rule tree_SucE)
    then have n': "n' = Internal ps cs (coalesce_into k m b)" by (simp add: n'_def node_at_index)
    have "s2 = s'"
      using app c r' ok by (simp add: apply_batch_def mark_dirty_ok node_at_index arena_simps s'_def n' Let_def)
    then show ?thesis
      using post Suc get by (auto simp: deliver_post_def delivered_def root_loose_def message_written_def)
  qed
  then show "root_loose (t_params s) (t_nodes s') h (t_root s')"
    "message_written k m (t_nodes s) (t_root s) (t_nodes s') (t_root s') h h" using N'(2) by simp_all
qed

lemma apply_root_ok:
  assumes "arena_ok s" "root_tree (t_params s) (t_nodes s) h (t_root s)"
  shows "\<exists>s' h'. apply_root k m s = Some s' \<and> arena_ok s' \<and> same_ops s s' \<and>
    root_tree (t_params s) (t_nodes s') h' (t_root s') \<and>
    message_written k m (t_nodes s) (t_root s) (t_nodes s') (t_root s') h h'"
proof -
  note d = root_delivery [OF assms, of k m]
  let ?s1 = "set_node (t_root s) (case node_at s (t_root s) of
      Some (Leaf es) \<Rightarrow> Leaf (apply_to_leaf k m es)
    | Some (Internal ps cs b) \<Rightarrow> Internal ps cs (coalesce_into k m b)
    | None \<Rightarrow> Leaf []) (dirtied (t_root s) s)"
  have P: "t_params ?s1 = t_params s" using d(5) by (simp add: same_env_def)
  have rl: "root_loose (t_params ?s1) (t_nodes ?s1) h (t_root ?s1)" using d(1) P by simp
  from restore_root_with_ok [OF d(4) rl order_refl, of True] obtain s' h' where
    s': "restore_root_with (buffer_capacity (t_params ?s1)) True ?s1 = Some s'"
    "root_step (buffer_capacity (t_params ?s1)) ?s1 h s' h'" by blast
  note st = s'(2) [unfolded root_step_def P]
  have "message_written k m (t_nodes s) (t_root s) (t_nodes s') (t_root s') h h'"
    using d(2) st occ_le_trans unfolding message_written_def by blast
  moreover have "same_ops s s'" using st same_ops_trans [OF same_env_ops [OF d(5)]] by blast
  ultimately show ?thesis using s'(1) d(3) st by (auto simp: restore_root_def)
qed

end
