(* ===== verification/BeTree_Correct.thy ===== *)
theory BeTree_Correct
  imports Arena_Root
begin

text \<open>
  The in-memory engine as a map. \<open>betree_inv\<close> is the structural invariant (I1, I2, I4--I7 and the
  absence of sharing), \<open>betree_fresh\<close> is freshness (I3), and \<open>betree_abs\<close> is the map that the tree
  stands for: the value of a key is what the messages on its path make of its leaf entry.
\<close>

section \<open>The invariant and the abstract map\<close>

definition betree_inv :: "'p betree \<Rightarrow> bool" where
  "betree_inv s \<longleftrightarrow> arena_ok s \<and> (\<exists>h. root_tree (t_params s) (t_nodes s) h (t_root s))"

definition betree_path :: "'p betree \<Rightarrow> key \<Rightarrow> occurrences" where
  "betree_path s k = occ (t_nodes s) (the (height s) - 1) (t_root s) k"

definition betree_abs :: "'p betree \<Rightarrow> (key \<rightharpoonup> val)" where
  "betree_abs s k = path_value (betree_path s k)"

text \<open>I3: on every path the sequence numbers decrease downwards, and none is above the counter.\<close>
definition fresh_seqs :: "u64 \<Rightarrow> u64 list \<Rightarrow> bool" where
  "fresh_seqs n qs \<longleftrightarrow> sorted_wrt (>) qs \<and> (\<forall>q\<in>set qs. q \<le> n)"

definition betree_fresh :: "'p betree \<Rightarrow> bool" where
  "betree_fresh s \<longleftrightarrow> (\<forall>k. fresh_seqs (t_next_seq s) (path_seqs (betree_path s k)))"

lemma height_from_tree:
  "tree (t_params s) (t_nodes s) h lo hi c \<Longrightarrow> height_from s d c = Some (d + h)"
proof (induction h arbitrary: lo hi c d)
  case 0
  from 0 obtain es where "index (t_nodes s) c = Some (Leaf es)" by (rule tree_0E)
  then show ?case by (subst height_from.simps) (simp add: node_at_index)
next
  case (Suc h)
  obtain ps cs b where c: "index (t_nodes s) c = Some (Internal ps cs b)" and f: "forest (t_params s) (t_nodes s) h lo hi ps cs"
    using Suc.prems by (rule tree_SucE)
  then obtain c' cs' where cs: "cs = c' # cs'" by (cases cs) (auto simp: forest_def)
  obtain l u where "tree (t_params s) (t_nodes s) h l u c'" using forest_child [OF f, of c'] cs by auto
  from Suc.IH [OF this] c cs show ?case by (subst height_from.simps) (simp add: node_at_index)
qed

lemma root_tree_0: "root_tree P N 0 r \<Longrightarrow> \<exists>es. index N r = Some (Leaf es) \<and> bt_ok es \<and> length es \<le> leaf_capacity P"
  by (auto simp: root_tree_def split: option.splits node.splits)

lemma height_root:
  assumes "root_tree (t_params s) (t_nodes s) h (t_root s)"
  shows "height s = Some (Suc h)"
proof (cases h)
  case 0
  then show ?thesis using root_tree_0 assms unfolding height_def
    by (subst height_from.simps) (fastforce simp: node_at_index)
next
  case (Suc h')
  then have "tree (t_params s) (t_nodes s) h None None (t_root s)" using assms by (simp add: root_tree_def)
  then show ?thesis by (simp add: height_def height_from_tree)
qed

lemma betree_path_eq:
  "root_tree (t_params s) (t_nodes s) h (t_root s) \<Longrightarrow> betree_path s k = occ (t_nodes s) h (t_root s) k"
  by (simp add: betree_path_def height_root)

section \<open>Reading\<close>

lemma path_value_add: "path_value (add_msg m p) = (case m of None \<Rightarrow> path_value p | Some m \<Rightarrow> msg_effect m (path_value p))"
  by (cases m; cases p) simp_all

lemma get_from_node:
  assumes "index (t_nodes s) c = Some (Internal ps cs b)" "index cs (route ps k) = Some c'"
    and "\<And>chain. get_from s k chain c' = Some (apply_chain chain v)"
  shows "get_from s k chain c =
    Some (apply_chain chain (case bt_get b k of None \<Rightarrow> v | Some m \<Rightarrow> msg_effect m v))"
proof (cases "bt_get b k")
  case None
  with assms show ?thesis by (subst get_from.simps) (simp add: node_at_index)
next
  case (Some m)
  with assms show ?thesis
    by (cases m rule: message_cases; subst get_from.simps) (simp_all add: node_at_index apply_chain_extend)
qed

lemma get_from_tree:
  "tree (t_params s) (t_nodes s) h lo hi c \<Longrightarrow>
     get_from s k chain c = Some (apply_chain chain (path_value (occ (t_nodes s) h c k)))"
proof (induction h arbitrary: lo hi c chain)
  case 0
  from 0 obtain es where "index (t_nodes s) c = Some (Leaf es)" by (rule tree_0E)
  then show ?case by (subst get_from.simps) (simp add: node_at_index)
next
  case (Suc h)
  obtain ps cs b where c: "index (t_nodes s) c = Some (Internal ps cs b)" and f: "forest (t_params s) (t_nodes s) h lo hi ps cs"
    using Suc.prems by (rule tree_SucE)
  obtain c' l u where c': "index cs (route ps k) = Some c'" "(l, c', u) \<in> set (segs lo hi ps cs)"
    using route_seg [of cs ps lo hi k] f by (auto simp: forest_def)
  then have "tree (t_params s) (t_nodes s) h l u c'" using f by (auto simp: forest_def)
  from get_from_node [OF c c'(1) Suc.IH [OF this]] c c'(1) show ?case
    by (simp add: occ_Suc occF_def path_value_add)
qed

lemma get_from_root:
  assumes "root_tree (t_params s) (t_nodes s) h (t_root s)"
  shows "get_from s k None (t_root s) = Some (path_value (occ (t_nodes s) h (t_root s) k))"
proof (cases h)
  case 0
  then obtain es where "index (t_nodes s) (t_root s) = Some (Leaf es)" using root_tree_0 assms by blast
  then show ?thesis using 0 by (subst get_from.simps) (simp add: node_at_index)
next
  case (Suc h')
  then have "tree (t_params s) (t_nodes s) h None None (t_root s)" using assms by (simp add: root_tree_def)
  from get_from_tree [OF this, of k None] show ?thesis by simp
qed

section \<open>Writing\<close>

text \<open>The bookkeeping that every mutating operation does first.\<close>
definition stamped :: "op_kind2 \<Rightarrow> 'p betree \<Rightarrow> 'p betree" where
  "stamped op s = s\<lparr>t_next_seq := t_next_seq s + 1, t_ops_since_commit := t_ops_since_commit s + 1,
     t_trace := rec_op (t_next_seq s + 1) op (t_trace s)\<rparr>"

lemma stamped_simps [arena_simps]:
  "t_params (stamped op s) = t_params s" "t_nodes (stamped op s) = t_nodes s" "t_root (stamped op s) = t_root s"
  "t_next_seq (stamped op s) = t_next_seq s + 1" "arena_ok s \<Longrightarrow> arena_ok (stamped op s)"
  "trace_ops (v2 (t_trace (stamped op s))) = trace_ops (v2 (t_trace s)) @ [op]"
  by (simp_all add: stamped_def arena_ok_def v1_view_intros)

lemma betree_ops_stamped:
  "betree_insert k v s = apply_root k (Put (t_next_seq s + 1) v) (stamped (Insert2 k v) s)"
  "betree_delete k s = apply_root k (Delete (t_next_seq s + 1)) (stamped (Delete2 k) s)"
  "betree_upsert k op s = apply_root k (Upsert (t_next_seq s + 1) op) (stamped (Upsert2 k op) s)"
  by (simp_all add: betree_insert_def betree_delete_def betree_upsert_def stamped_def Let_def)

lemma set_subseq: "subseq xs ys \<Longrightarrow> set xs \<subseteq> set ys"
  by (induction xs ys rule: list_emb.induct) auto

lemma sorted_wrt_subseq: "subseq xs ys \<Longrightarrow> sorted_wrt R ys \<Longrightarrow> sorted_wrt R xs"
proof (induction xs ys rule: list_emb.induct)
  case (list_emb_Cons2 x y xs ys)
  then show ?case using set_subseq by fastforce
qed auto

lemma fresh_seqs_subseq: "subseq qs' qs \<Longrightarrow> fresh_seqs n qs \<Longrightarrow> fresh_seqs n qs'"
  unfolding fresh_seqs_def using sorted_wrt_subseq [of qs' qs "(>)"] set_subseq [of qs' qs] by blast

text \<open>A key's path after a write: its value, and its freshness while the counter does not wrap.\<close>

lemma message_written_value:
  assumes "message_written k m N r N' r' h h'"
  shows "path_value (occ N' h' r' k') =
    (if k' = k then msg_effect m (path_value (occ N h r k)) else path_value (occ N h r k'))"
  using assms unfolding message_written_def by (auto simp: occ_le_def path_value_add)

lemma path_seqs_add: "path_seqs (add_msg m p) = (case m of None \<Rightarrow> [] | Some m \<Rightarrow> [msg_seq m]) @ path_seqs p"
  by (cases m; cases p) simp_all

lemma message_written_fresh:
  assumes w: "message_written k m N r N' r' h h'" and m: "msg_seq m = n + 1" "n < n + 1"
    and old: "\<forall>k. fresh_seqs n (path_seqs (occ N h r k))"
  shows "fresh_seqs (n + 1) (path_seqs (occ N' h' r' k'))"
proof (rule fresh_seqs_subseq)
  show "subseq (path_seqs (occ N' h' r' k')) (path_seqs (add_msg (if k' = k then Some m else None) (occ N h r k')))"
    using w by (simp add: message_written_def occ_le_def)
  have "\<forall>q\<in>set (path_seqs (occ N h r k')). q < n + 1"
    using old m(2) unfolding fresh_seqs_def by (meson order.strict_trans1)
  then show "fresh_seqs (n + 1) (path_seqs (add_msg (if k' = k then Some m else None) (occ N h r k')))"
    using old m(1) by (auto simp: path_seqs_add fresh_seqs_def)
qed

lemma write_ok:
  assumes inv: "betree_inv s" and m: "msg_seq m = t_next_seq s + 1"
  shows "\<exists>s'. apply_root k m (stamped op s) = Some s' \<and> betree_inv s' \<and>
    betree_abs s' = (betree_abs s)(k := msg_effect m (betree_abs s k)) \<and>
    trace_ops (v2 (t_trace s')) = trace_ops (v2 (t_trace s)) @ [op] \<and> t_next_seq s' = t_next_seq s + 1 \<and>
    t_params s' = t_params s \<and>
    (betree_fresh s \<and> t_next_seq s < t_next_seq s + 1 \<longrightarrow> betree_fresh s')"
proof -
  obtain h where ok: "arena_ok s" and rt: "root_tree (t_params s) (t_nodes s) h (t_root s)"
    using inv by (auto simp: betree_inv_def)
  have "root_tree (t_params (stamped op s)) (t_nodes (stamped op s)) h (t_root (stamped op s))"
    using rt by (simp add: arena_simps)
  from apply_root_ok [OF stamped_simps(5) [OF ok] this, of k m] obtain s' h' where s':
    "apply_root k m (stamped op s) = Some s'" "arena_ok s'" "same_ops (stamped op s) s'"
    "root_tree (t_params s) (t_nodes s') h' (t_root s')"
    "message_written k m (t_nodes s) (t_root s) (t_nodes s') (t_root s') h h'" by (auto simp: arena_simps)
  have env: "t_params s' = t_params s" "t_next_seq s' = t_next_seq s + 1"
    "trace_ops (v2 (t_trace s')) = trace_ops (v2 (t_trace s)) @ [op]"
    using s'(3) by (simp_all add: same_ops_def arena_simps)
  have rt': "root_tree (t_params s') (t_nodes s') h' (t_root s')" using s'(4) env by simp
  have "betree_abs s' = (betree_abs s)(k := msg_effect m (betree_abs s k))"
    using message_written_value [OF s'(5)]
    by (auto simp: betree_abs_def fun_eq_iff betree_path_eq [OF rt] betree_path_eq [OF rt'])
  moreover have "betree_fresh s'" if "betree_fresh s" "t_next_seq s < t_next_seq s + 1"
    using message_written_fresh [OF s'(5) m that(2)] that(1)
    by (simp add: betree_fresh_def betree_path_eq [OF rt] betree_path_eq [OF rt'] env)
  ultimately show ?thesis using s'(1,2) rt' env by (auto simp: betree_inv_def)
qed

end
