(* ===== verification/BeTree_Scan.thy ===== *)
theory BeTree_Scan
  imports BeTree_Correct
begin

text \<open>
  Range scans of the in-memory engine. A frame that has worked through its first \<open>i\<close> children
  holds exactly the in-range keys that route to them; a finished frame hands its parent the
  subtree's in-range values. The clipped bounds never reach \<open>BTreeMap::range\<close> empty, so none of
  its panics is possible.
\<close>

section \<open>Accumulators\<close>

interpretation scan_upd: keyed_update bt_get bt_ok fold_message msg_effect
proof unfold_locales
  fix m :: "(key, val) btmap" and k and x :: message
  assume "bt_ok m"
  then show "bt_get (fold_message k x m) = (bt_get m)(k := msg_effect x (bt_get m k))" "bt_ok (fold_message k x m)"
    by (cases x; simp add: bt_get_insert bt_get_remove bt_ok_insert bt_ok_remove)+
qed

interpretation put_upd: keyed_update bt_get bt_ok bt_insert "\<lambda>v _. Some v"
  by unfold_locales (simp_all add: bt_get_insert bt_ok_insert)

interpretation entry_upd: keyed_update bt_get bt_ok "\<lambda>k e. bt_insert k (entry_value e)" "\<lambda>e _. Some (entry_value e)"
  by unfold_locales (simp_all add: bt_get_insert bt_ok_insert)

lemma bt_get_bt_append:
  assumes "bt_ok m" "bt_ok r"
  shows "bt_ok (bt_append m r)" "bt_get (bt_append m r) k = (case bt_get r k of None \<Rightarrow> bt_get m k | Some v \<Rightarrow> Some v)"
  using put_upd.ok_batch [OF assms(1)] put_upd.get_batch [OF assms(1) bt_ok_distinct [OF assms(2)]]
  by (simp_all add: bt_append_def)

lemma bt_get_fold_entries:
  assumes "bt_ok m" "bt_ok es"
  shows "bt_ok (fold_entries es m)"
    "bt_get (fold_entries es m) k = (case bt_get es k of None \<Rightarrow> bt_get m k | Some e \<Rightarrow> Some (entry_value e))"
  using entry_upd.ok_batch [OF assms(1)] entry_upd.get_batch [OF assms(1) bt_ok_distinct [OF assms(2)]]
  by (simp_all add: fold_entries_def)

lemma bt_get_bt_filter: "bt_ok m \<Longrightarrow> bt_get (filter (\<lambda>e. in_bounds lo hi (fst e)) m) k = (if in_bounds lo hi k then bt_get m k else None)"
  by (rule bt_get_filter)

lemma bt_range_nonempty: "\<not> range_is_empty lo hi \<Longrightarrow> bt_range lo hi m = Some (filter (\<lambda>e. in_bounds lo hi (fst e)) m)"
  by (simp add: bt_range_def range_is_empty_iff_panics)

section \<open>The bounds of a child\<close>

lemma route_eq_iff:
  assumes "sorted_wrt (<) ps" "i \<le> length ps"
  shows "route ps k = i \<longleftrightarrow> (i = 0 \<or> ps ! (i - 1) \<le> k) \<and> (i = length ps \<or> k < ps ! i)"
  using assms
proof (induction ps arbitrary: i)
  case (Cons p ps)
  show ?case
  proof (cases i)
    case 0
    then show ?thesis by (auto simp: route_Cons not_le)
  next
    case (Suc j)
    have "p \<le> ps ! (j - 1)" if "0 < j" using Cons.prems Suc that by (simp add: less_imp_le)
    then show ?thesis using Cons Suc by (cases j) (auto simp: route_Cons)
  qed
qed simp

lemma child_bounds:
  assumes "sorted_wrt (<) ps" "i \<le> length ps"
  obtains l u where "child_lo lo ps i = Some l" "child_hi hi ps i = Some u"
    "\<And>k. in_bounds l u k \<longleftrightarrow> in_bounds lo hi k \<and> route ps k = i"
proof -
  obtain l where l: "child_lo lo ps i = Some l" "\<And>k. above_lower l k \<longleftrightarrow> above_lower lo k \<and> (i = 0 \<or> ps ! (i - 1) \<le> k)"
    using assms(2) by (cases i) (auto simp: child_lo_def above_clip_lower)
  obtain u where u: "child_hi hi ps i = Some u" "\<And>k. below_upper u k \<longleftrightarrow> below_upper hi k \<and> (i = length ps \<or> k < ps ! i)"
    using assms(2) by (cases "i = length ps") (auto simp: child_hi_def below_clip_upper)
  show thesis by (rule that [OF l(1) u(1)]) (auto simp: in_bounds_def l(2) u(2) route_eq_iff [OF assms])
qed

section \<open>The loop\<close>

text \<open>The in-range values of the keys that satisfy \<open>P\<close>.\<close>
definition scanned :: "key bound \<Rightarrow> key bound \<Rightarrow> (key \<Rightarrow> bool) \<Rightarrow> (key \<Rightarrow> val option) \<Rightarrow> (key, val) btmap \<Rightarrow> bool" where
  "scanned lo hi P f r \<longleftrightarrow> bt_ok r \<and> (\<forall>k. bt_get r k = (if in_bounds lo hi k \<and> P k then f k else None))"

text \<open>Handing a finished frame's results to its parent.\<close>
fun hand_up :: "'p betree \<Rightarrow> (key, val) btmap \<Rightarrow> scan_frame list \<Rightarrow> (key, val) btmap option" where
  "hand_up s r [] = Some r"
| "hand_up s r (parent # rest) = scan_loop s (parent\<lparr>f_acc := bt_append (f_acc parent) r\<rparr> # rest)"

lemma scan_finish:
  assumes c: "index (t_nodes s) c = Some (Internal ps cs b)" and b: "bt_ok b"
    and ne: "\<not> range_is_empty lo hi" and acc: "scanned lo hi (\<lambda>_. True) f acc"
  shows "\<exists>r. scanned lo hi (\<lambda>_. True) (\<lambda>k. case bt_get b k of None \<Rightarrow> f k | Some m \<Rightarrow> msg_effect m (f k)) r \<and>
    (\<forall>rest. scan_loop s (\<lparr>f_id = c, f_lo = lo, f_hi = hi, f_next_child = length cs, f_acc = acc\<rparr> # rest) = hand_up s r rest)"
proof -
  let ?ms = "filter (\<lambda>e. in_bounds lo hi (fst e)) b"
  let ?r = "fold (\<lambda>(k, m). fold_message k m) ?ms acc"
  have ms: "bt_ok ?ms" using b by (rule bt_ok_filter)
  have acc': "bt_ok acc" using acc by (simp add: scanned_def)
  have "bt_get ?r k = (case bt_get ?ms k of None \<Rightarrow> bt_get acc k | Some m \<Rightarrow> msg_effect m (bt_get acc k))" for k
    using scan_upd.get_batch [OF acc' bt_ok_distinct [OF ms]] .
  then have "scanned lo hi (\<lambda>_. True) (\<lambda>k. case bt_get b k of None \<Rightarrow> f k | Some m \<Rightarrow> msg_effect m (f k)) ?r"
    using acc scan_upd.ok_batch [OF acc'] bt_get_bt_filter [OF b]
    by (auto simp: scanned_def split: option.splits if_splits)
  moreover have "scan_loop s (\<lparr>f_id = c, f_lo = lo, f_hi = hi, f_next_child = length cs, f_acc = acc\<rparr> # rest) = hand_up s ?r rest" for rest
    using c ne by (subst scan_loop.simps) (cases rest; simp add: node_at_index bt_range_nonempty Let_def)
  ultimately show ?thesis by blast
qed

lemma scanned_step:
  assumes A: "scanned lo hi (\<lambda>k. route ps k < i) f acc" and bounds: "\<And>k. in_bounds l u k \<longleftrightarrow> in_bounds lo hi k \<and> route ps k = i"
    and R: "bt_ok r" "\<And>k. bt_get r k = (if in_bounds l u k then f k else None)"
    and new: "bt_ok acc'" "\<And>k. bt_get acc' k = (case bt_get r k of None \<Rightarrow> bt_get acc k | Some v \<Rightarrow> Some v)"
  shows "scanned lo hi (\<lambda>k. route ps k < Suc i) f acc'"
  using A R new bounds by (auto simp: scanned_def less_Suc_eq split: option.splits)

lemma bt_ok_values: "bt_ok (map (\<lambda>(k, e). (k, g e)) es) = bt_ok es"
  by (induction es) (auto simp: bt_ok_Cons)

lemma bt_get_values: "bt_get (map (\<lambda>(k, e). (k, g e)) es) k = map_option g (bt_get es k)"
  by (simp add: map_of_map)

abbreviation in_values :: "key bound \<Rightarrow> key bound \<Rightarrow> entries \<Rightarrow> (key, val) btmap" where
  "in_values l u es \<equiv> map (\<lambda>(k, e). (k, entry_value e)) (filter (\<lambda>e. in_bounds l u (fst e)) es)"

lemma leaf_scanned:
  assumes "bt_ok es"
  shows "bt_ok (in_values l u es)"
    "bt_get (in_values l u es) k = (if in_bounds l u k then map_option entry_value (bt_get es k) else None)"
  using assms by (simp_all add: bt_ok_values bt_get_values bt_ok_filter bt_get_bt_filter)

text \<open>What a fresh frame on an internal node of height \<open>h\<close> produces.\<close>
definition frames_ok :: "'p betree \<Rightarrow> nat \<Rightarrow> bool" where
  "frames_ok s h \<longleftrightarrow> (\<forall>lo hi l u c. h \<noteq> 0 \<longrightarrow> tree (t_params s) (t_nodes s) h lo hi c \<longrightarrow> \<not> range_is_empty l u \<longrightarrow>
     (\<exists>r. scanned l u (\<lambda>_. True) (\<lambda>k. path_value (occ (t_nodes s) h c k)) r \<and>
       (\<forall>rest. scan_loop s (\<lparr>f_id = c, f_lo = l, f_hi = u, f_next_child = 0, f_acc = []\<rparr> # rest) = hand_up s r rest)))"

text \<open>One child, given what its own frame produces when it is internal.\<close>

lemma scan_child:
  assumes c: "index (t_nodes s) c = Some (Internal ps cs b)" and f: "forest (t_params s) (t_nodes s) h cl cu ps cs"
    and i: "i < length cs" and acc: "scanned lo hi (\<lambda>k. route ps k < i) (\<lambda>k. path_value (occF (t_nodes s) h ps cs k)) acc"
    and IH: "frames_ok s h"
  shows "\<exists>acc'. scanned lo hi (\<lambda>k. route ps k < Suc i) (\<lambda>k. path_value (occF (t_nodes s) h ps cs k)) acc' \<and>
    (\<forall>rest. scan_loop s (\<lparr>f_id = c, f_lo = lo, f_hi = hi, f_next_child = i, f_acc = acc\<rparr> # rest) =
      scan_loop s (\<lparr>f_id = c, f_lo = lo, f_hi = hi, f_next_child = Suc i, f_acc = acc'\<rparr> # rest))"
proof -
  let ?N = "t_nodes s" and ?f = "\<lambda>k. path_value (occF (t_nodes s) h ps cs k)"
  let ?frame = "\<lambda>i acc. \<lparr>f_id = c, f_lo = lo, f_hi = hi, f_next_child = i, f_acc = acc\<rparr>"
  have piv: "sorted_wrt (<) ps" "i \<le> length ps" using f i by (auto simp: forest_def pivots_ok_iff)
  obtain l u where lu: "child_lo lo ps i = Some l" "child_hi hi ps i = Some u"
    "\<And>k. in_bounds l u k \<longleftrightarrow> in_bounds lo hi k \<and> route ps k = i" using child_bounds [OF piv] by blast
  obtain cl' cu' where t: "tree (t_params s) ?N h cl' cu' (cs ! i)" using forest_child [OF f, of "cs ! i"] i by auto
  have fc: "?f k = path_value (occ ?N h (cs ! i) k)" if "route ps k = i" for k using that i by (simp add: occF_def)
  have acc_ok: "bt_ok acc" using acc by (simp add: scanned_def)
  show ?thesis
  proof (cases "range_is_empty l u")
    case True
    have none: "route ps k \<noteq> i" if "in_bounds lo hi k" for k using range_is_empty_sound [OF True, of k] lu(3) that by blast
    have "scanned lo hi (\<lambda>k. route ps k < Suc i) ?f acc"
      using acc none by (auto simp: scanned_def less_Suc_eq)
    moreover have "scan_loop s (?frame i acc # rest) = scan_loop s (?frame (Suc i) acc # rest)" for rest
      using c i lu(1,2) True by (subst scan_loop.simps) (simp add: node_at_index Let_def)
    ultimately show ?thesis by blast
  next
    case False
    show ?thesis
    proof (cases h)
      case 0
      obtain es where es: "index ?N (cs ! i) = Some (Leaf es)" "bt_ok es"
        using t unfolding 0 by (auto simp: leaf_ok_def split: option.splits node.splits)
      let ?es = "filter (\<lambda>e. in_bounds l u (fst e)) es"
      let ?r = "map (\<lambda>(k, e). (k, entry_value e)) ?es"
      have "scanned lo hi (\<lambda>k. route ps k < Suc i) ?f (fold_entries ?es acc)"
      proof (rule scanned_step [OF acc lu(3), where r = ?r])
        show "bt_ok ?r" by (rule leaf_scanned(1) [OF es(2)])
        show "bt_get ?r k = (if in_bounds l u k then ?f k else None)" for k
          unfolding leaf_scanned(2) [OF es(2)] using fc [of k] lu(3) [of k] es(1) 0 by auto
        show "bt_ok (fold_entries ?es acc)" using bt_get_fold_entries [OF acc_ok bt_ok_filter [OF es(2)]] by simp
        show "bt_get (fold_entries ?es acc) k = (case bt_get ?r k of None \<Rightarrow> bt_get acc k | Some v \<Rightarrow> Some v)" for k
          using bt_get_fold_entries [OF acc_ok bt_ok_filter [OF es(2)]] by (auto simp: bt_get_values split: option.splits)
      qed
      moreover have "scan_loop s (?frame i acc # rest) = scan_loop s (?frame (Suc i) (fold_entries ?es acc) # rest)" for rest
        using c i lu(1,2) False es(1)
        by (subst scan_loop.simps) (simp add: node_at_index Let_def bt_range_nonempty)
      ultimately show ?thesis by blast
    next
      case (Suc h')
      obtain ps' cs' b' where n: "index ?N (cs ! i) = Some (Internal ps' cs' b')" using t unfolding Suc by (rule tree_SucE)
      from IH t False Suc obtain r where r: "scanned l u (\<lambda>_. True) (\<lambda>k. path_value (occ ?N h (cs ! i) k)) r"
        "\<And>rest. scan_loop s (\<lparr>f_id = cs ! i, f_lo = l, f_hi = u, f_next_child = 0, f_acc = []\<rparr> # rest) = hand_up s r rest"
        unfolding frames_ok_def by (metis nat.distinct(1))
      have r_ok: "bt_ok r" using r(1) by (simp add: scanned_def)
      have "scanned lo hi (\<lambda>k. route ps k < Suc i) ?f (bt_append acc r)"
      proof (rule scanned_step [OF acc lu(3) r_ok])
        show "bt_get r k = (if in_bounds l u k then ?f k else None)" for k
          using r(1) fc [of k] lu(3) by (auto simp: scanned_def)
      qed (use bt_get_bt_append [OF acc_ok r_ok] in auto)
      moreover have "scan_loop s (?frame i acc # rest) = scan_loop s (?frame (Suc i) (bt_append acc r) # rest)" for rest
        using c i lu(1,2) False n r(2) [of "?frame (Suc i) acc # rest"]
        by (subst scan_loop.simps) (simp add: node_at_index Let_def)
      ultimately show ?thesis by blast
    qed
  qed
qed

lemma scan_children:
  assumes c: "index (t_nodes s) c = Some (Internal ps cs b)" and f: "forest (t_params s) (t_nodes s) h cl cu ps cs"
    and IH: "frames_ok s h"
    and "i \<le> length cs" "scanned lo hi (\<lambda>k. route ps k < i) (\<lambda>k. path_value (occF (t_nodes s) h ps cs k)) acc"
  shows "\<exists>acc'. scanned lo hi (\<lambda>_. True) (\<lambda>k. path_value (occF (t_nodes s) h ps cs k)) acc' \<and>
    (\<forall>rest. scan_loop s (\<lparr>f_id = c, f_lo = lo, f_hi = hi, f_next_child = i, f_acc = acc\<rparr> # rest) =
      scan_loop s (\<lparr>f_id = c, f_lo = lo, f_hi = hi, f_next_child = length cs, f_acc = acc'\<rparr> # rest))"
  using assms(4,5)
proof (induction "length cs - i" arbitrary: i acc)
  case 0
  then have "i = length cs" by simp
  moreover have "route ps k < length cs" for k using route_le [of ps k] f by (simp add: forest_def le_imp_less_Suc)
  ultimately show ?case using "0.prems"(2) by (auto simp: scanned_def)
next
  case (Suc n)
  then have i: "i < length cs" by simp
  obtain acc' where acc': "scanned lo hi (\<lambda>k. route ps k < Suc i) (\<lambda>k. path_value (occF (t_nodes s) h ps cs k)) acc'"
    "\<forall>rest. scan_loop s (\<lparr>f_id = c, f_lo = lo, f_hi = hi, f_next_child = i, f_acc = acc\<rparr> # rest) =
      scan_loop s (\<lparr>f_id = c, f_lo = lo, f_hi = hi, f_next_child = Suc i, f_acc = acc'\<rparr> # rest)"
    using scan_child [OF c f i Suc.prems(2) IH] by blast
  from Suc.hyps(1) [OF _ _ acc'(1)] Suc.hyps(2) i acc'(2) show ?case by simp
qed

lemma scan_frames: "frames_ok s h"
proof (induction h)
  case 0
  show ?case by (simp add: frames_ok_def)
next
  case (Suc h)
  show ?case unfolding frames_ok_def
  proof (intro allI impI)
    fix cl cu lo hi c
    assume t: "tree (t_params s) (t_nodes s) (Suc h) cl cu c" and ne: "\<not> range_is_empty lo hi"
    obtain ps cs b where c: "index (t_nodes s) c = Some (Internal ps cs b)"
      and f: "forest (t_params s) (t_nodes s) h cl cu ps cs" and b: "buffer_ok cl cu b"
      using t by (rule tree_SucE)
    have start: "scanned lo hi (\<lambda>k. route ps k < 0) (\<lambda>k. path_value (occF (t_nodes s) h ps cs k)) []"
      by (simp add: scanned_def)
    obtain acc where acc: "scanned lo hi (\<lambda>_. True) (\<lambda>k. path_value (occF (t_nodes s) h ps cs k)) acc"
      "\<forall>rest. scan_loop s (\<lparr>f_id = c, f_lo = lo, f_hi = hi, f_next_child = 0, f_acc = []\<rparr> # rest) =
        scan_loop s (\<lparr>f_id = c, f_lo = lo, f_hi = hi, f_next_child = length cs, f_acc = acc\<rparr> # rest)"
      using scan_children [OF c f Suc _ start] by blast
    have "bt_ok b" using b by (simp add: buffer_ok_def)
    from scan_finish [OF c this ne acc(1)] acc(2)
    show "\<exists>r. scanned lo hi (\<lambda>_. True) (\<lambda>k. path_value (occ (t_nodes s) (Suc h) c k)) r \<and>
      (\<forall>rest. scan_loop s (\<lparr>f_id = c, f_lo = lo, f_hi = hi, f_next_child = 0, f_acc = []\<rparr> # rest) = hand_up s r rest)"
      unfolding occ_Suc [OF c] path_value_add by auto
  qed
qed

text \<open>The scan of the whole engine.\<close>

lemma scan_values:
  assumes "root_tree (t_params s) (t_nodes s) h (t_root s)"
  shows "\<exists>r. betree_scan lo hi s = Some (Inr r, s\<lparr>t_trace := rec_scan lo hi (t_trace s)\<rparr>) \<and>
    scanned lo hi (\<lambda>_. True) (\<lambda>k. path_value (occ (t_nodes s) h (t_root s) k)) r"
proof (cases "range_is_empty lo hi")
  case True
  then show ?thesis using range_is_empty_sound by (auto simp: betree_scan_def scanned_def)
next
  case False
  let ?s = "s\<lparr>t_trace := rec_scan lo hi (t_trace s)\<rparr>"
  show ?thesis
  proof (cases h)
    case 0
    then obtain es where es: "index (t_nodes s) (t_root s) = Some (Leaf es)" "bt_ok es" using root_tree_0 assms by blast
    with False 0 leaf_scanned [OF es(2), of lo hi] show ?thesis
      by (simp add: betree_scan_def node_at_def bt_range_nonempty scanned_def)
  next
    case (Suc h')
    then have t: "tree (t_params ?s) (t_nodes ?s) (Suc h') None None (t_root s)" using assms by (simp add: root_tree_def)
    obtain ps cs b where n: "index (t_nodes s) (t_root s) = Some (Internal ps cs b)" using t by (auto elim: tree_SucE)
    from scan_frames [of ?s "Suc h'", unfolded frames_ok_def, rule_format, OF _ t False] obtain r where
      r: "scanned lo hi (\<lambda>_. True) (\<lambda>k. path_value (occ (t_nodes s) (Suc h') (t_root s) k)) r"
      "\<forall>rest. scan_loop ?s (\<lparr>f_id = t_root s, f_lo = lo, f_hi = hi, f_next_child = 0, f_acc = []\<rparr> # rest) = hand_up ?s r rest"
      by auto
    from r(2) have "scan_loop ?s [\<lparr>f_id = t_root s, f_lo = lo, f_hi = hi, f_next_child = 0, f_acc = []\<rparr>] = Some r" by simp
    then show ?thesis using False n Suc r(1) by (simp add: betree_scan_def node_at_def Let_def)
  qed
qed

end
