(* ===== verification/BeTree_Engine.thy ===== *)
theory BeTree_Engine
  imports BeTree_Scan
begin

text \<open>
  The in-memory engine implements the trait: every method returns, keeps the invariant, and acts
  on the abstract map as the trait promises, under every policy that honours its contract.
\<close>

section \<open>The methods\<close>

lemma with_policy_ok:
  assumes "params_legal p" "policy_legal pol"
  shows "\<exists>s. with_policy p pol = Some s \<and> betree_inv s \<and> betree_abs s = Map.empty \<and> betree_fresh s \<and>
    v2 (t_trace s) = [] \<and> t_next_seq s = 0"
proof -
  define s where "s = \<lparr>t_params = p, t_nodes = [Leaf []], t_dirty = [True], t_root = 0, t_next_seq = 0,
     t_ops_since_commit = 0, t_policy = pol, t_trace = recorder_default\<rparr>"
  have new: "with_policy p pol = Some s" using assms(1) by (simp add: with_policy_def params_legal_def s_def)
  have rt: "root_tree (t_params s) (t_nodes s) 0 (t_root s)" by (simp add: s_def root_tree_def)
  have "betree_inv s" unfolding betree_inv_def using rt assms by (auto simp: arena_ok_def s_def v1_view_intros)
  moreover have "betree_path s k = ([], None)" for k using betree_path_eq [OF rt] by (simp add: s_def)
  ultimately show ?thesis
    using new by (auto simp: betree_abs_def betree_fresh_def fresh_seqs_def recorder_default_def fun_eq_iff s_def)
qed

lemma kv_apply_BeTree:
  "\<exists>k m. kv_apply (BeTree pol) op s = apply_root k m (stamped op s) \<and> msg_seq m = t_next_seq s + 1 \<and>
     (\<forall>f. f(k := msg_effect m (f k)) = op_effect op f)"
proof (cases op)
  case (Insert2 k v)
  then show ?thesis
    by (intro exI [of _ k] exI [of _ "Put (t_next_seq s + 1) v"]) (simp add: BeTree_def betree_ops_stamped)
next
  case (Delete2 k)
  then show ?thesis
    by (intro exI [of _ k] exI [of _ "Delete (t_next_seq s + 1)"]) (simp add: BeTree_def betree_ops_stamped)
next
  case (Upsert2 k u)
  then show ?thesis
    by (intro exI [of _ k] exI [of _ "Upsert (t_next_seq s + 1) u"]) (simp add: BeTree_def betree_ops_stamped)
qed

lemma betree_apply_ok:
  assumes "betree_inv s"
  shows "\<exists>s'. kv_apply (BeTree pol) op s = Some s' \<and> betree_inv s' \<and>
    betree_abs s' = op_effect op (betree_abs s) \<and>
    trace_ops (v2 (t_trace s')) = trace_ops (v2 (t_trace s)) @ [op] \<and> t_next_seq s' = t_next_seq s + 1 \<and>
    (betree_fresh s \<and> t_next_seq s < t_next_seq s + 1 \<longrightarrow> betree_fresh s')"
proof -
  obtain k m where op: "kv_apply (BeTree pol) op s = apply_root k m (stamped op s)" "msg_seq m = t_next_seq s + 1"
    "\<forall>f. f(k := msg_effect m (f k)) = op_effect op f" using kv_apply_BeTree by blast
  from write_ok [OF assms op(2), of k op] op(1,3) show ?thesis by auto
qed

lemma betree_inv_trace: "betree_inv s \<Longrightarrow> v1_view r \<Longrightarrow> betree_inv (s\<lparr>t_trace := r\<rparr>)"
  by (simp add: betree_inv_def arena_ok_def)

lemma betree_abs_trace: "betree_inv s \<Longrightarrow> betree_abs (s\<lparr>t_trace := r\<rparr>) = betree_abs s"
proof -
  assume "betree_inv s"
  then obtain h where rt: "root_tree (t_params s) (t_nodes s) h (t_root s)" by (auto simp: betree_inv_def)
  then have "root_tree (t_params (s\<lparr>t_trace := r\<rparr>)) (t_nodes (s\<lparr>t_trace := r\<rparr>)) h (t_root (s\<lparr>t_trace := r\<rparr>))" by simp
  from betree_path_eq [OF this] betree_path_eq [OF rt] show ?thesis by (simp add: betree_abs_def fun_eq_iff)
qed

lemma betree_get_ok:
  assumes "betree_inv s"
  shows "betree_get k s = Some (betree_abs s k, s\<lparr>t_trace := rec_get k (t_trace s)\<rparr>)"
proof -
  let ?s = "s\<lparr>t_trace := rec_get k (t_trace s)\<rparr>"
  obtain h where rt: "root_tree (t_params s) (t_nodes s) h (t_root s)" using assms by (auto simp: betree_inv_def)
  then have "root_tree (t_params ?s) (t_nodes ?s) h (t_root ?s)" by simp
  from get_from_root [OF this, of k] betree_path_eq [OF rt, of k] show ?thesis
    by (simp add: betree_get_def betree_abs_def)
qed

lemma betree_scan_ok:
  assumes "betree_inv s"
  shows "\<exists>r. betree_scan lo hi s = Some (Inr r, s\<lparr>t_trace := rec_scan lo hi (t_trace s)\<rparr>) \<and> bt_ok r \<and>
    (\<forall>k. map_of r k = (if in_bounds lo hi k then betree_abs s k else None))"
proof -
  obtain h where rt: "root_tree (t_params s) (t_nodes s) h (t_root s)" using assms by (auto simp: betree_inv_def)
  from scan_values [OF rt, of lo hi] show ?thesis
    using betree_path_eq [OF rt] by (auto simp: scanned_def betree_abs_def)
qed

section \<open>The trait\<close>

lemma betree_kv_engine:
  assumes "policy_legal pol"
  shows "kv_engine (BeTree pol) betree_inv betree_abs"
proof unfold_locales
  show "\<exists>e. kv_new (BeTree pol) p = Some e \<and> betree_inv e \<and> betree_abs e = Map.empty \<and> kv_trace2 (BeTree pol) e = []"
    if "params_legal p" for p
    using with_policy_ok [OF that assms] by (auto simp: BeTree_def)
  show "\<exists>e'. kv_apply (BeTree pol) op e = Some e' \<and> betree_inv e' \<and> betree_abs e' = op_effect op (betree_abs e) \<and>
      trace_ops (kv_trace2 (BeTree pol) e') = trace_ops (kv_trace2 (BeTree pol) e) @ [op]"
    if "betree_inv e" for e op
    using betree_apply_ok [OF that, of pol op] by (auto simp: BeTree_def)
  show "\<exists>e'. kv_get (BeTree pol) k e = Some (betree_abs e k, e') \<and> betree_inv e' \<and> betree_abs e' = betree_abs e \<and>
      trace_ops (kv_trace2 (BeTree pol) e') = trace_ops (kv_trace2 (BeTree pol) e)"
    if "betree_inv e" for e k
    using betree_get_ok [OF that, of k] betree_abs_trace [OF that] that betree_inv_trace [OF that]
    by (auto simp: BeTree_def betree_inv_def arena_ok_def v1_view_intros)
  show "\<exists>r e'. kv_scan (BeTree pol) lo hi e = Some (Inr r, e') \<and> betree_inv e' \<and> betree_abs e' = betree_abs e \<and>
      bt_ok r \<and> (\<forall>k. map_of r k = (if in_bounds lo hi k then betree_abs e k else None)) \<and>
      trace_ops (kv_trace2 (BeTree pol) e') = trace_ops (kv_trace2 (BeTree pol) e)"
    if "betree_inv e" for e lo hi
    using betree_scan_ok [OF that, of lo hi] betree_abs_trace [OF that] that betree_inv_trace [OF that]
    by (auto simp: BeTree_def betree_inv_def arena_ok_def v1_view_intros)
qed

interpretation betree: kv_engine "BeTree GreedyFullest" betree_inv betree_abs
  by (rule betree_kv_engine) simp

section \<open>Draining\<close>

lemma drain_ok:
  assumes "betree_inv s"
  shows "\<exists>s'. drain s = Some s' \<and> betree_inv s' \<and> betree_abs s' = betree_abs s \<and>
    subtree_has_messages s' (t_root s') = Some False \<and> t_next_seq s' = t_next_seq s \<and>
    (betree_fresh s \<longrightarrow> betree_fresh s') \<and> trace_ops (v2 (t_trace s')) = trace_ops (v2 (t_trace s)) \<and>
    (\<exists>h. root_tree (t_params s') (t_nodes s') h (t_root s') \<and> weight (t_nodes s') h (t_root s') = 0)"
proof -
  obtain h where ok: "arena_ok s" and rt: "root_tree (t_params s) (t_nodes s) h (t_root s)"
    using assms by (auto simp: betree_inv_def)
  from restore_root_with_ok [OF ok root_tree_loose [OF rt], of 0 False] obtain s' h' where
    s': "drain s = Some s'" and st: "root_step 0 s h s' h'" by (auto simp: drain_def)
  note st' = st [unfolded root_step_def same_ops_def]
  have rt': "root_tree (t_params s') (t_nodes s') h' (t_root s')" using st' by simp
  have "subtree_has_messages s' (t_root s') = Some False"
  proof (cases h')
    case 0
    then obtain es where "index (t_nodes s') (t_root s') = Some (Leaf es)" using root_tree_0 rt' by blast
    then show ?thesis unfolding subtree_has_messages_def
      by (subst has_messages_from.simps) (simp add: node_at_index has_messages_from.simps [of s' "[]"])
  next
    case (Suc n)
    then have "tree (t_params s') (t_nodes s') h' None None (t_root s')" using rt' by (simp add: root_tree_def)
    from subtree_has_messages_weight [OF this] st' show ?thesis by simp
  qed
  moreover have "betree_abs s' = betree_abs s"
    using st' by (simp add: betree_abs_def fun_eq_iff betree_path_eq [OF rt] betree_path_eq [OF rt'] occ_le_def)
  moreover have "betree_fresh s \<longrightarrow> betree_fresh s'"
    using st' unfolding betree_fresh_def betree_path_eq [OF rt] betree_path_eq [OF rt'] occ_le_def
    by (metis fresh_seqs_subseq)
  moreover have "\<exists>h. root_tree (t_params s') (t_nodes s') h (t_root s') \<and> weight (t_nodes s') h (t_root s') = 0"
    using st' rt' by blast
  moreover have "betree_inv s'" "t_next_seq s' = t_next_seq s" "trace_ops (v2 (t_trace s')) = trace_ops (v2 (t_trace s))"
    using st' rt' by (auto simp: betree_inv_def)
  ultimately show ?thesis using s' by blast
qed

section \<open>Any calls\<close>

text \<open>What a client may call on a tree: the methods of the trait, and \<open>drain\<close>.\<close>

datatype betree_call = Call kv_call | Drain

fun betree_step :: "betree_call \<Rightarrow> 'p betree \<Rightarrow> 'p betree option" where
  "betree_step (Call call) s = kv_step (BeTree (t_policy s)) call s"
| "betree_step Drain s = drain s"

lemma betree_policy_legal: "betree_inv s \<Longrightarrow> policy_legal (t_policy s)"
  by (simp add: betree_inv_def arena_ok_def)

text \<open>The calls return, and the mutations in the trace spell out the contents.\<close>

lemma betree_steps_ok:
  "betree_inv s \<Longrightarrow> betree_abs s = ops_effect (trace_ops (v2 (t_trace s))) Map.empty \<Longrightarrow>
    \<exists>s'. run_events betree_step calls s = Some s' \<and> betree_inv s' \<and>
      betree_abs s' = ops_effect (trace_ops (v2 (t_trace s'))) Map.empty"
proof (induction calls arbitrary: s)
  case (Cons c calls)
  have "\<exists>s'. betree_step c s = Some s' \<and> betree_inv s' \<and> betree_abs s' = ops_effect (trace_ops (v2 (t_trace s'))) Map.empty"
  proof (cases c)
    case (Call call)
    have tr: "kv_trace2 (BeTree pol) e = v2 (t_trace e)" for pol and e :: "'a betree" by (simp add: BeTree_def)
    show ?thesis
      using kv_engine.step_explained [OF betree_kv_engine [OF betree_policy_legal [OF Cons.prems(1)]] Cons.prems(1), of call] Cons.prems(2)
      by (simp add: Call tr)
  next
    case Drain
    show ?thesis using drain_ok [OF Cons.prems(1)] Cons.prems(2) by (auto simp: Drain)
  qed
  with Cons.IH show ?case by fastforce
qed simp

end
