(* ===== verification/Check_Correct.thy ===== *)
theory Check_Correct
  imports BeTree_Engine
begin

text \<open>
  The checker accepts every tree that satisfies the invariants: a subtree's frame runs through
  without a report, restores the map of newer sequence numbers, and only records the depth of its
  leaves.
\<close>

section \<open>The map of newer sequence numbers\<close>

lemma undo_seqs_append: "undo_seqs (xs @ ys) m = undo_seqs ys (undo_seqs xs m)"
  by (induction xs arbitrary: m) auto

lemma overlay_ok: "bt_ok newest \<Longrightarrow> bt_ok (snd (overlay_seqs ov newest))"
  by (induction ov newest rule: overlay_seqs.induct) (auto simp: Let_def split_beta bt_ok_insert)

lemma undo_overlay:
  "bt_ok newest \<Longrightarrow> undo_seqs (rev (fst (overlay_seqs ov newest))) (snd (overlay_seqs ov newest)) = newest"
proof (induction ov newest rule: overlay_seqs.induct)
  case (2 k q ov newest)
  have "bt_get (case bt_get newest k of Some seq \<Rightarrow> bt_insert k seq (bt_insert k q newest)
      | None \<Rightarrow> bt_remove k (bt_insert k q newest)) k' = bt_get newest k'" for k'
    using 2 by (auto simp: bt_get_insert bt_get_remove bt_ok_insert split: option.split)
  moreover have "bt_ok (case bt_get newest k of Some seq \<Rightarrow> bt_insert k seq (bt_insert k q newest)
      | None \<Rightarrow> bt_remove k (bt_insert k q newest))"
    using 2 by (auto simp: bt_ok_insert bt_ok_remove split: option.split)
  ultimately have "(case bt_get newest k of Some seq \<Rightarrow> bt_insert k seq (bt_insert k q newest)
      | None \<Rightarrow> bt_remove k (bt_insert k q newest)) = newest"
    using bt_ok_unique 2(2) by blast
  with 2 show ?case by (simp add: Let_def split_beta undo_seqs_append bt_ok_insert)
qed simp

lemma overlay_get:
  "distinct (map fst ov) \<Longrightarrow>
     bt_get (snd (overlay_seqs ov newest)) k = (case map_of ov k of None \<Rightarrow> bt_get newest k | Some q \<Rightarrow> Some q)"
proof (induction ov newest rule: overlay_seqs.induct)
  case (2 k' q ov newest)
  have "map_of ov k' = None" using 2(2) by (simp add: map_of_eq_None_iff)
  with 2 show ?case by (auto simp: Let_def split_beta bt_get_insert split: option.split)
qed simp

section \<open>The checks of one node\<close>

text \<open>The newest sequence number above a key, followed by those on its path below.\<close>
definition path_above :: "seq_map \<Rightarrow> key \<Rightarrow> occurrences \<Rightarrow> u64 list" where
  "path_above newest k p = (case bt_get newest k of None \<Rightarrow> [] | Some q \<Rightarrow> [q]) @ path_seqs p"

lemma check_keys_ok:
  assumes "\<forall>(k, q)\<in>set ks. in_range k lo hi \<and> (\<forall>a. bt_get newest k = Some a \<longrightarrow> q < a)"
  shows "check_keys nid lo hi newest ks = None"
  using assms by (induction ks) (auto split: option.split simp: not_le)

lemma pivots_disorder_None: "sorted_wrt (<) ps \<Longrightarrow> pivots_disorder i ps = None"
  by (induction i ps rule: pivots_disorder.induct) auto

definition overlay_of :: "buffer \<Rightarrow> key option \<Rightarrow> key option \<Rightarrow> (key \<times> u64) list" where
  "overlay_of b l u = map (\<lambda>(k, m). (k, msg_seq m)) (filter (\<lambda>e. in_range (fst e) l u) b)"

lemma map_of_overlay:
  "bt_ok b \<Longrightarrow> map_of (overlay_of b l u) k = (if in_range k l u then map_option msg_seq (bt_get b k) else None)"
  using bt_get_filter [of b "\<lambda>k. in_range k l u" k] by (simp add: overlay_of_def map_of_map)

lemma distinct_overlay: "bt_ok b \<Longrightarrow> distinct (map fst (overlay_of b l u))"
proof -
  assume "bt_ok b"
  then have "distinct (map fst (filter (\<lambda>e. in_range (fst e) l u) b))" by (intro bt_ok_distinct bt_ok_filter)
  moreover have "map fst (overlay_of b l u) = map fst (filter (\<lambda>e. in_range (fst e) l u) b)"
    by (auto simp: overlay_of_def split_beta)
  ultimately show ?thesis by simp
qed

lemma nth_segs:
  assumes "length cs = Suc (length ps)" "i < length cs"
  shows "segs lo hi ps cs ! i = (if i = 0 then lo else Some (ps ! (i - 1)), cs ! i, if i < length ps then Some (ps ! i) else hi)"
  using assms
proof (induction lo hi ps cs arbitrary: i rule: segs.induct)
  case (3 lo hi p ps c cs)
  then show ?case by (cases i) (auto simp: nth_Cons')
qed auto

lemma length_segs: "length cs = Suc (length ps) \<Longrightarrow> length (segs lo hi ps cs) = length cs"
  by (induction lo hi ps cs rule: segs.induct) auto

lemma in_range_bounds: "in_bounds (lower_bound l) (upper_bound u) k = in_range k l u"
  by (auto simp: in_bounds_def lower_bound_def upper_bound_def in_range_def split: option.split)

definition seg_frame :: "nat \<Rightarrow> buffer \<Rightarrow> key option \<times> node_id \<times> key option \<Rightarrow> check_frame" where
  "seg_frame d b = (\<lambda>(l, c, u). Enter c l u d (overlay_of b l u))"

lemma tree_range_inhabited: "tree P N h lo hi c \<Longrightarrow> \<exists>k. in_range k lo hi"
proof (induction h arbitrary: lo hi c)
  case 0
  then obtain es where "index N c = Some (Leaf es)" "leaf_ok lo hi es" "es \<noteq> []" by (rule tree_0E)
  then show ?case by (cases es) (auto simp: leaf_ok_def)
next
  case (Suc h)
  obtain ps cs b where f: "forest P N h lo hi ps cs" using Suc.prems by (rule tree_SucE)
  show ?case
  proof (cases ps)
    case Nil
    with f obtain c' where "cs = [c']" by (cases cs) (auto simp: forest_def)
    with f Nil have "tree P N h lo hi c'" by (simp add: forest_def)
    then show ?thesis by (rule Suc.IH)
  next
    case (Cons p ps')
    with f have "strictly_in lo hi p" by (simp add: forest_def)
    then show ?thesis using strictly_in_in_range by blast
  qed
qed

lemma range_ok: "in_range k l u \<Longrightarrow> \<not> range_panics (lower_bound l) (upper_bound u)"
  by (cases l; cases u) (auto simp: in_range_def lower_bound_def upper_bound_def)

lemma child_frames_segs:
  assumes f: "forest P N h lo hi ps cs"
  shows "child_frames lo hi d b ps cs = Some (map (seg_frame d b) (segs lo hi ps cs))"
proof -
  have len: "length cs = Suc (length ps)" using f by (simp add: forest_def)
  have "child_frame lo hi d b ps (i, cs ! i) = Some (seg_frame d b (segs lo hi ps cs ! i))" if "i < length cs" for i
  proof -
    have i: "i < length cs" by (rule that)
    obtain l u where seg: "segs lo hi ps cs ! i = (l, cs ! i, u)" using nth_segs [OF len i] by blast
    then have "(l, cs ! i, u) \<in> set (segs lo hi ps cs)" using i length_segs [OF len] by (metis nth_mem)
    then have "tree P N h l u (cs ! i)" using f by (auto simp: forest_def)
    then have "\<not> range_panics (lower_bound l) (upper_bound u)" using tree_range_inhabited range_ok by blast
    then show ?thesis using seg nth_segs [OF len i, of lo hi] i len
      by (auto simp: child_frame_def seg_frame_def overlay_of_def bt_range_def in_range_bounds index_def split: if_splits)
  qed
  then have "map (child_frame lo hi d b ps) (enumerate 0 cs) = map (\<lambda>x. Some (seg_frame d b x)) (segs lo hi ps cs)"
    by (intro nth_equalityI) (auto simp: length_segs [OF len] nth_enumerate_eq)
  then show ?thesis using those_map_Some [of "segs lo hi ps cs" "\<lambda>x. Some (seg_frame d b x)" "seg_frame d b"]
    by (simp add: child_frames_def)
qed


section \<open>The walk over a subtree\<close>

abbreviation bump :: "nat \<Rightarrow> leaf_depths \<Rightarrow> leaf_depths" where
  "bump d depths \<equiv> depths\<lparr>shallowest := min (shallowest depths) d, deepest := max (deepest depths) d\<rparr>"

text \<open>I3 as the walk sees it: what is above a node and the paths below it, for the keys it owns.\<close>
definition fresh_below :: "seq_map \<Rightarrow> key option \<Rightarrow> key option \<Rightarrow> (key \<Rightarrow> occurrences) \<Rightarrow> bool" where
  "fresh_below newest lo hi p \<longleftrightarrow> (\<forall>k. in_range k lo hi \<longrightarrow> sorted_wrt (>) (path_above newest k (p k)))"

definition frame_passes :: "node_source \<Rightarrow> nat \<Rightarrow> nat \<Rightarrow> seq_map \<Rightarrow> check_frame \<Rightarrow> bool" where
  "frame_passes src h d newest f \<longleftrightarrow>
     (\<forall>rest depths. check_loop src (f # rest) newest depths = check_loop src rest newest (bump (d + h) depths))"

lemma frames_pass:
  assumes "\<forall>f\<in>set fs. frame_passes src h d newest f" "fs \<noteq> []"
  shows "check_loop src (fs @ rest) newest depths = check_loop src rest newest (bump (d + h) depths)"
  using assms
proof (induction fs arbitrary: depths)
  case (Cons f fs)
  then show ?case by (cases "fs = []") (auto simp: frame_passes_def)
qed simp

lemma enter_leaf:
  assumes "src_node src c = Some (Leaf es)" "bt_ok newest"
    "check_leaf src c lo hi (snd (overlay_seqs ov newest)) es = None"
  shows "frame_passes src 0 d newest (Enter c lo hi d ov)"
  unfolding frame_passes_def
proof (intro allI)
  fix rest depths
  have "check_loop src (Enter c lo hi d ov # rest) newest depths =
      check_loop src (Undo (fst (overlay_seqs ov newest)) # rest) (snd (overlay_seqs ov newest)) (bump d depths)"
    using assms(1,3) by (subst check_loop.simps) (simp add: split_beta Let_def)
  then show "check_loop src (Enter c lo hi d ov # rest) newest depths = check_loop src rest newest (bump (d + 0) depths)"
    by (simp add: check_loop.simps [of src "Undo _ # _"] undo_overlay [OF assms(2)])
qed

lemma enter_internal:
  assumes "src_node src c = Some (Internal ps cs b)" "bt_ok newest"
    "check_internal src c lo hi (snd (overlay_seqs ov newest)) ps cs b = None"
    "child_frames lo hi (d + 1) b ps cs = Some frames" "frames \<noteq> []"
    "\<forall>f\<in>set frames. frame_passes src h (d + 1) (snd (overlay_seqs ov newest)) f"
  shows "frame_passes src (Suc h) d newest (Enter c lo hi d ov)"
  unfolding frame_passes_def
proof (intro allI)
  fix rest depths
  let ?u = "fst (overlay_seqs ov newest)" and ?n = "snd (overlay_seqs ov newest)"
  have "check_loop src (Enter c lo hi d ov # rest) newest depths =
      check_loop src (rev frames @ Undo ?u # rest) ?n depths"
    using assms(1,3,4) by (subst check_loop.simps) (simp add: split_beta Let_def)
  also have "\<dots> = check_loop src (Undo ?u # rest) ?n (bump (d + 1 + h) depths)"
    by (rule frames_pass) (use assms(5,6) in auto)
  finally show "check_loop src (Enter c lo hi d ov # rest) newest depths =
      check_loop src rest newest (bump (d + Suc h) depths)"
    by (simp add: check_loop.simps [of src "Undo _ # _"] undo_overlay [OF assms(2)])
qed


lemma check_leaf_ok:
  assumes "bt_ok es" "\<forall>k\<in>bt_keys es. in_range k lo hi" "length es \<le> leaf_capacity (src_params src)"
    "es \<noteq> [] \<or> c = src_root src" and fresh: "fresh_below newest lo hi (\<lambda>k. ([], bt_get es k))"
  shows "check_leaf src c lo hi newest es = None"
proof -
  have "entry_seq e < a" if "(k, e) \<in> set es" "bt_get newest k = Some a" for k e a
  proof -
    have "in_range k lo hi" "bt_get es k = Some e" using that(1) assms(1,2) bt_get_in by force+
    then show ?thesis using fresh that(2) by (fastforce simp: fresh_below_def path_above_def)
  qed
  then have "check_keys c lo hi newest (map (\<lambda>(k, e). (k, entry_seq e)) es) = None"
    using assms(2) by (intro check_keys_ok) force
  then show ?thesis using assms(3,4) by (auto simp: check_leaf_def)
qed

lemma check_internal_ok:
  assumes f: "forest P N h lo hi ps cs" and b: "buffer_ok lo hi b" and "length cs \<le> fanout (src_params src)"
    "length b \<le> buffer_capacity (src_params src)"
    and fresh: "fresh_below newest lo hi (\<lambda>k. add_msg (bt_get b k) (p k))"
  shows "check_internal src c lo hi newest ps cs b = None"
proof -
  have "msg_seq m < a" if "(k, m) \<in> set b" "bt_get newest k = Some a" for k m a
  proof -
    have "in_range k lo hi" "bt_get b k = Some m" using that(1) b bt_get_in by (force simp: buffer_ok_def)+
    then show ?thesis using fresh that(2) by (fastforce simp: fresh_below_def path_above_def path_seqs_add)
  qed
  then have "check_keys c lo hi newest (map (\<lambda>(k, m). (k, msg_seq m)) b) = None"
    using b by (intro check_keys_ok) (force simp: buffer_ok_def)
  moreover have "pivots_disorder 1 ps = None" "\<forall>p\<in>set ps. in_range p lo hi"
    using f pivots_ok_sorted [of lo hi ps] pivots_ok_bounds [of lo hi ps] strictly_in_in_range
    by (auto simp: forest_def pivots_disorder_None)
  moreover from this have "find (\<lambda>p. \<not> in_range p lo hi) ps = None" by (simp add: find_None_iff)
  ultimately show ?thesis using assms(3,4) f by (simp add: check_internal_def forest_def)
qed

text \<open>What freshness a child inherits once its slice of the buffer is overlaid.\<close>

lemma fresh_below_child:
  assumes f: "forest P N h lo hi ps cs" and b: "buffer_ok lo hi b" and seg: "(l, c', u) \<in> set (segs lo hi ps cs)"
    and fresh: "fresh_below newest lo hi (\<lambda>k. add_msg (bt_get b k) (occF N h ps cs k))"
  shows "fresh_below (snd (overlay_seqs (overlay_of b l u) newest)) l u (occ N h c')"
  unfolding fresh_below_def
proof (intro allI impI)
  fix k assume k: "in_range k l u"
  then have k': "in_range k lo hi" "index cs (route ps k) = Some c'"
    using segs_inside [OF seg _ k] seg_route [OF seg _ k] f by (auto simp: forest_def)
  have ok: "bt_ok b" using b by (simp add: buffer_ok_def)
  have "bt_get (snd (overlay_seqs (overlay_of b l u) newest)) k =
      (case bt_get b k of None \<Rightarrow> bt_get newest k | Some m \<Rightarrow> Some (msg_seq m))"
    using k by (simp add: overlay_get distinct_overlay [OF ok] map_of_overlay [OF ok] split: option.split)
  moreover have "sorted_wrt (>) (path_above newest k (add_msg (bt_get b k) (occ N h c' k)))"
    using fresh [unfolded fresh_below_def, rule_format, OF k'(1)] k'(2) by (simp add: occF_def)
  ultimately show "sorted_wrt (>) (path_above (snd (overlay_seqs (overlay_of b l u) newest)) k (occ N h c' k))"
    by (cases "bt_get b k") (auto simp: path_above_def path_seqs_add sorted_wrt_append)
qed

lemma check_subtree:
  assumes src: "src_node src = index N" "src_params src = P"
  shows "tree P N h lo hi c \<Longrightarrow> bt_ok newest \<Longrightarrow> fresh_below (snd (overlay_seqs ov newest)) lo hi (occ N h c) \<Longrightarrow>
    frame_passes src h d newest (Enter c lo hi d ov)"
proof (induction h arbitrary: lo hi c newest ov d)
  case 0
  obtain es where es: "index N c = Some (Leaf es)" "leaf_ok lo hi es" "es \<noteq> []" "length es \<le> leaf_capacity P"
    using "0.prems"(1) by (rule tree_0E)
  have "check_leaf src c lo hi (snd (overlay_seqs ov newest)) es = None"
    by (rule check_leaf_ok) (use es "0.prems"(3) src in \<open>auto simp: leaf_ok_def fresh_below_def\<close>)
  then show ?case by (intro enter_leaf) (use es src "0.prems"(2) in auto)
next
  case (Suc h)
  obtain ps cs b where n: "index N c = Some (Internal ps cs b)" and f: "forest P N h lo hi ps cs"
    and b: "buffer_ok lo hi b" and cap: "length cs \<le> fanout P" "length b \<le> buffer_capacity P"
    using Suc.prems(1) by (rule tree_SucE)
  let ?n = "snd (overlay_seqs ov newest)"
  have fresh: "fresh_below ?n lo hi (\<lambda>k. add_msg (bt_get b k) (occF N h ps cs k))"
    using Suc.prems(3) n by (simp add: occ_Suc fresh_below_def)
  have "frame_passes src h (d + 1) ?n (seg_frame (d + 1) b (l, c', u))" if seg: "(l, c', u) \<in> set (segs lo hi ps cs)" for l c' u
  proof -
    have "tree P N h l u c'" using seg f by (auto simp: forest_def)
    from Suc.IH [OF this overlay_ok [OF Suc.prems(2)] fresh_below_child [OF f b seg fresh]] show ?thesis
      by (simp add: seg_frame_def)
  qed
  moreover have "segs lo hi ps cs \<noteq> []" using length_segs [of cs ps lo hi] f by (auto simp: forest_def)
  moreover have "check_internal src c lo hi ?n ps cs b = None"
    by (rule check_internal_ok [OF f b _ _ fresh]) (use cap src in simp_all)
  ultimately show ?case
    by (intro enter_internal [OF _ Suc.prems(2) _ child_frames_segs [OF f]]) (use n src in auto)
qed

section \<open>The whole tree\<close>

lemma betree_check_accepts:
  assumes inv: "betree_inv s" and fresh: "betree_fresh s" and small: "the (height s) \<le> usize_max"
  shows "betree_check_invariants s = Some (Inr ())"
proof -
  obtain h where rt: "root_tree (t_params s) (t_nodes s) h (t_root s)" using inv by (auto simp: betree_inv_def)
  let ?src = "betree_source s" and ?N = "t_nodes s" and ?r = "t_root s"
  have src: "src_node ?src = index ?N" "src_params ?src = t_params s" "src_root ?src = ?r"
    by (simp_all add: betree_source_def node_at_def fun_eq_iff)
  have paths: "fresh_below (snd (overlay_seqs [] [])) None None (occ ?N h ?r)"
    using fresh by (simp add: betree_fresh_def fresh_seqs_def betree_path_eq [OF rt] fresh_below_def path_above_def)
  have "frame_passes ?src h 1 [] (Enter ?r None None 1 [])"
  proof (cases h)
    case 0
    then obtain es where es: "index ?N ?r = Some (Leaf es)" "bt_ok es" "length es \<le> leaf_capacity (t_params s)"
      using root_tree_0 rt by blast
    have "check_leaf ?src ?r None None (snd (overlay_seqs [] [])) es = None"
      by (rule check_leaf_ok) (use es src paths 0 in \<open>auto simp: fresh_below_def\<close>)
    then show ?thesis unfolding 0 by (intro enter_leaf) (use es src in auto)
  next
    case (Suc h')
    then have "tree (t_params s) ?N h None None ?r" using rt by (simp add: root_tree_def)
    then show ?thesis using check_subtree [OF src(1,2) _ _ paths] by simp
  qed
  then have "check_tree ?src = Some (Inr (bump (Suc h) \<lparr>shallowest = usize_max, deepest = 0\<rparr>))"
    by (simp add: check_tree_def frame_passes_def src check_loop.simps [of _ "[]"])
  moreover have "Suc h \<le> usize_max" using small height_root [OF rt] by simp
  ultimately show ?thesis by (simp add: betree_check_invariants_def check_invariants_def min_absorb2)
qed

end
