(* ===== verification/Vfs.thy ===== *)
theory Vfs
  imports Format "HOL-Library.Multiset"
begin

text \<open>
  \<open>src/vfs.rs\<close>: the storage interface and its two in-crate implementations. The trait is a record of
  operations over a device state; an operation may fail with an error or panic (\<^const>\<open>None\<close>). The
  locale \<open>vfs\<close> is the documented contract: what each operation does to the bytes a reader sees.

  \<open>FaultyVfs\<close> is the crash-injection device: a volatile view over durable bytes, and a log of all
  operations from which the file after a crash at any point is replayed, every un-synced operation
  dropped, applied, zeroed or torn. \<open>CountingVfs\<close> wraps any device. \<open>FileVfs\<close> only forwards to the
  operating system and has no model.
\<close>

section \<open>The trait\<close>

type_synonym ('a, 's) io = "((io_error + 'a) \<times> 's) option"

record 'v vfs_ops =
  read_exact_at :: "nat \<Rightarrow> nat \<Rightarrow> 'v \<Rightarrow> (bytes, 'v) io"
  write_all_at :: "nat \<Rightarrow> bytes \<Rightarrow> 'v \<Rightarrow> (unit, 'v) io"
  vfs_sync :: "'v \<Rightarrow> (unit, 'v) io"
  vfs_len :: "'v \<Rightarrow> (nat, 'v) io"
  set_len :: "nat \<Rightarrow> 'v \<Rightarrow> (unit, 'v) io"

section \<open>Byte buffers\<close>

text \<open>\<open>Vec::resize(n, 0)\<close>.\<close>
definition resize :: "bytes \<Rightarrow> nat \<Rightarrow> bytes" where
  "resize buf n = take n buf @ replicate (n - length buf) 0"

text \<open>Copy \<open>data\<close> to \<open>buf[off..]\<close>, zero-filling any gap.\<close>
definition write_at :: "bytes \<Rightarrow> nat \<Rightarrow> bytes \<Rightarrow> bytes" where
  "write_at buf off data =
     (let stop = off + length data; buf = (if length buf < stop then resize buf stop else buf)
      in take off buf @ data @ drop stop buf)"

section \<open>The crash-injection device\<close>

datatype fate = Drop | Apply | Zero | Tear u64

datatype vfs_op = OpWrite nat nat | OpSetLen nat | OpSync bool

datatype log_entry = LogWrite nat bytes | LogSetLen nat | SyncOk | SyncFailed "fate list"

fun is_sync :: "log_entry \<Rightarrow> bool" where
  "is_sync SyncOk = True"
| "is_sync (SyncFailed _) = True"
| "is_sync _ = False"

record faulty_state =
  fs_view :: bytes
  fs_durable :: bytes
  fs_initial :: bytes
  fs_log :: "log_entry list"
  fs_window_start :: nat
  fs_fail_sync :: "(nat \<times> fate list) option"

text \<open>\<open>FaultyVfs::new\<close> and \<open>FaultyVfs::from_image\<close>.\<close>
definition faulty_new :: faulty_state where
  "faulty_new = \<lparr>fs_view = [], fs_durable = [], fs_initial = [], fs_log = [], fs_window_start = 0,
     fs_fail_sync = None\<rparr>"

definition from_image :: "bytes \<Rightarrow> faulty_state" where
  "from_image img = faulty_new\<lparr>fs_view := img, fs_durable := img, fs_initial := img\<rparr>"

definition log_len :: "faulty_state \<Rightarrow> nat" where
  "log_len s = length (fs_log s)"

fun public_op :: "log_entry \<Rightarrow> vfs_op" where
  "public_op (LogWrite off data) = OpWrite off (length data)"
| "public_op (LogSetLen len) = OpSetLen len"
| "public_op SyncOk = OpSync False"
| "public_op (SyncFailed _) = OpSync True"

definition op_log :: "faulty_state \<Rightarrow> vfs_op list" where
  "op_log s = map public_op (fs_log s)"

definition window_len_at :: "faulty_state \<Rightarrow> nat \<Rightarrow> nat option" where
  "window_len_at s pos =
     (if pos \<le> length (fs_log s)
      then Some (length (takeWhile (\<lambda>e. \<not> is_sync e) (rev (take pos (fs_log s)))))
      else None)"

text \<open>\<open>fates.get(op_index)\<close>, applied in full when missing.\<close>
definition fate_at :: "fate list \<Rightarrow> bool \<Rightarrow> nat \<Rightarrow> fate" where
  "fate_at fates all i = (if all then Apply else if i < length fates then fates ! i else Apply)"

fun apply_write :: "fate \<Rightarrow> bytes \<Rightarrow> nat \<Rightarrow> bytes \<Rightarrow> bytes" where
  "apply_write Drop buf off data = buf"
| "apply_write Apply buf off data = write_at buf off data"
| "apply_write Zero buf off data = write_at buf off (replicate (length data) 0)"
| "apply_write (Tear seed) buf off data = write_at buf off (take (unat seed mod (length data + 1)) data)"

fun apply_window_from :: "nat \<Rightarrow> bytes \<Rightarrow> log_entry list \<Rightarrow> fate list \<Rightarrow> bool \<Rightarrow> bytes option" where
  "apply_window_from i buf [] fates all = Some buf"
| "apply_window_from i buf (LogWrite off data # window) fates all =
     apply_window_from (i + 1) (apply_write (fate_at fates all i) buf off data) window fates all"
| "apply_window_from i buf (LogSetLen len # window) fates all =
     apply_window_from (i + 1) (if fate_at fates all i = Drop then buf else resize buf len) window fates all"
| "apply_window_from i buf (_ # window) fates all = None"

definition apply_window :: "bytes \<Rightarrow> log_entry list \<Rightarrow> fate list \<Rightarrow> bool \<Rightarrow> bytes option" where
  "apply_window buf window fates all = apply_window_from 0 buf window fates all"

text \<open>The replay loop of \<open>crash_image_at\<close>: the image after the last sync, and where the window starts.\<close>
fun replay_syncs :: "log_entry list \<Rightarrow> nat \<Rightarrow> nat \<Rightarrow> bytes \<Rightarrow> log_entry list \<Rightarrow> (bytes \<times> nat) option" where
  "replay_syncs log i wstart img [] = Some (img, wstart)"
| "replay_syncs log i wstart img (SyncOk # es) = do {
     w \<leftarrow> slice log wstart i;
     img \<leftarrow> apply_window img w [] True;
     replay_syncs log (i + 1) (i + 1) img es
   }"
| "replay_syncs log i wstart img (SyncFailed fates # es) = do {
     w \<leftarrow> slice log wstart i;
     img \<leftarrow> apply_window img w fates False;
     replay_syncs log (i + 1) (i + 1) img es
   }"
| "replay_syncs log i wstart img (_ # es) = replay_syncs log (i + 1) wstart img es"

definition crash_image_at :: "faulty_state \<Rightarrow> nat \<Rightarrow> fate list \<Rightarrow> bytes option" where
  "crash_image_at s pos fates =
     (if pos \<le> length (fs_log s)
      then do {
        (img, wstart) \<leftarrow> replay_syncs (fs_log s) 0 0 (fs_initial s) (take pos (fs_log s));
        w \<leftarrow> slice (fs_log s) wstart pos;
        apply_window img w fates False
      }
      else None)"

definition fail_nth_sync :: "nat \<Rightarrow> fate list \<Rightarrow> faulty_state \<Rightarrow> faulty_state" where
  "fail_nth_sync skip fates s = s\<lparr>fs_fail_sync := Some (skip, fates)\<rparr>"

definition fail_next_sync :: "fate list \<Rightarrow> faulty_state \<Rightarrow> faulty_state" where
  "fail_next_sync fates s = fail_nth_sync 0 fates s"

subsection \<open>\<open>impl Vfs for FaultyVfs\<close>\<close>

definition faulty_read :: "nat \<Rightarrow> nat \<Rightarrow> faulty_state \<Rightarrow> (bytes, faulty_state) io" where
  "faulty_read off n s =
     Some (if off + n > length (fs_view s) then Inl UnexpectedEof else Inr (take n (drop off (fs_view s))), s)"

text \<open>Two byte ranges that have no byte in common.\<close>
definition disjoint_ranges :: "nat \<Rightarrow> nat \<Rightarrow> nat \<Rightarrow> nat \<Rightarrow> bool" where
  "disjoint_ranges a1 a2 b1 b2 \<longleftrightarrow> a2 \<le> b1 \<or> b2 \<le> a1"

fun overlaps :: "nat \<Rightarrow> bytes \<Rightarrow> log_entry \<Rightarrow> bool" where
  "overlaps off data (LogWrite o' d) = (\<not> disjoint_ranges off (off + length data) o' (o' + length d))"
| "overlaps off data _ = False"

definition faulty_write :: "nat \<Rightarrow> bytes \<Rightarrow> faulty_state \<Rightarrow> (unit, faulty_state) io" where
  "faulty_write off data s =
     (if \<exists>e\<in>set (drop (fs_window_start s) (fs_log s)). overlaps off data e then None
      else Some (Inr (), s\<lparr>fs_view := write_at (fs_view s) off data,
                           fs_log := fs_log s @ [LogWrite off data]\<rparr>))"

text \<open>A successful sync makes the window durable.\<close>
definition sync_window :: "faulty_state \<Rightarrow> (unit, faulty_state) io" where
  "sync_window s = do {
     durable \<leftarrow> apply_window (fs_durable s) (drop (fs_window_start s) (fs_log s)) [] True;
     Some (Inr (), s\<lparr>fs_durable := durable, fs_log := fs_log s @ [SyncOk],
                     fs_window_start := length (fs_log s) + 1\<rparr>)
   }"

definition faulty_sync :: "faulty_state \<Rightarrow> (unit, faulty_state) io" where
  "faulty_sync s =
     (case fs_fail_sync s of
        None \<Rightarrow> sync_window s
      | Some (skip, fates) \<Rightarrow>
          if skip = 0 then do {
            durable \<leftarrow> apply_window (fs_durable s) (drop (fs_window_start s) (fs_log s)) fates False;
            Some (Inl (IoOther ''injected sync failure''),
                  s\<lparr>fs_durable := durable, fs_log := fs_log s @ [SyncFailed fates],
                    fs_window_start := length (fs_log s) + 1, fs_fail_sync := None\<rparr>)
          }
          else sync_window (s\<lparr>fs_fail_sync := Some (skip - 1, fates)\<rparr>))"

definition faulty_len :: "faulty_state \<Rightarrow> (nat, faulty_state) io" where
  "faulty_len s = Some (Inr (length (fs_view s)), s)"

definition faulty_set_len :: "nat \<Rightarrow> faulty_state \<Rightarrow> (unit, faulty_state) io" where
  "faulty_set_len len s =
     Some (Inr (), s\<lparr>fs_view := resize (fs_view s) len, fs_log := fs_log s @ [LogSetLen len]\<rparr>)"

definition FaultyVfs :: "faulty_state vfs_ops" where
  "FaultyVfs = \<lparr>read_exact_at = faulty_read, write_all_at = faulty_write, vfs_sync = faulty_sync,
     vfs_len = faulty_len, set_len = faulty_set_len\<rparr>"

section \<open>The counting wrapper\<close>

text \<open>Counters are \<open>u64\<close> in the source; they count calls and bytes of one run.\<close>
record io_stats =
  read_ops :: nat
  read_bytes :: nat
  write_ops :: nat
  write_bytes :: nat
  syncs :: nat
  set_lens :: nat

record 'v counting_vfs =
  c_inner :: 'v
  c_stats :: io_stats

definition counting_new :: "'v \<Rightarrow> 'v counting_vfs" where
  "counting_new v = \<lparr>c_inner = v, c_stats = \<lparr>read_ops = 0, read_bytes = 0, write_ops = 0,
     write_bytes = 0, syncs = 0, set_lens = 0\<rparr>\<rparr>"

text \<open>Running an operation of the wrapped device.\<close>
definition on_inner :: "('v \<Rightarrow> ('a, 'v) io) \<Rightarrow> 'v counting_vfs \<Rightarrow> ('a, 'v counting_vfs) io" where
  "on_inner f c = do { (r, v) \<leftarrow> f (c_inner c); Some (r, c\<lparr>c_inner := v\<rparr>) }"

definition CountingVfs :: "'v vfs_ops \<Rightarrow> 'v counting_vfs vfs_ops" where
  "CountingVfs ops =
     \<lparr>read_exact_at = (\<lambda>off n c. on_inner (read_exact_at ops off n)
        (c\<lparr>c_stats := (c_stats c)\<lparr>read_ops := read_ops (c_stats c) + 1,
                                  read_bytes := read_bytes (c_stats c) + n\<rparr>\<rparr>)),
      write_all_at = (\<lambda>off data c. on_inner (write_all_at ops off data)
        (c\<lparr>c_stats := (c_stats c)\<lparr>write_ops := write_ops (c_stats c) + 1,
                                  write_bytes := write_bytes (c_stats c) + length data\<rparr>\<rparr>)),
      vfs_sync = (\<lambda>c. on_inner (vfs_sync ops) (c\<lparr>c_stats := (c_stats c)\<lparr>syncs := syncs (c_stats c) + 1\<rparr>\<rparr>)),
      vfs_len = (\<lambda>c. on_inner (vfs_len ops) c),
      set_len = (\<lambda>len c. on_inner (set_len ops len)
        (c\<lparr>c_stats := (c_stats c)\<lparr>set_lens := set_lens (c_stats c) + 1\<rparr>\<rparr>))\<rparr>"

end
