(* ===== verification/Disk_State.thy ===== *)
theory Disk_State
  imports BeTree Vfs
begin

text \<open>
  \<open>src/disk.rs\<close>, the state of the disk engine and its bookkeeping: the arena of slots, the bounded
  node cache, the offset interning, and loading a node from its record. The device operations and
  the codec are the fields of an environment \<open>E\<close>. A fallible method yields \<open>Inl\<close> with the error and
  the state as the error left it; a panic, an \<open>unreachable!\<close> and an unsigned subtraction below zero
  are \<^const>\<open>None\<close>. File offsets and byte counts are natural numbers: no file reaches \<open>2 ^ 64\<close> bytes.
\<close>

section \<open>Storage effects\<close>

record 'v env =
  env_vfs :: "'v vfs_ops"
  env_codec :: codec

type_synonym ('a, 's) dio = "((disk_error + 'a) \<times> 's) option"

text \<open>The \<open>?\<close> operator: go on with the value, or return the error and the state as it is.\<close>
definition and_then :: "('a, 's) dio \<Rightarrow> ('a \<Rightarrow> 's \<Rightarrow> ('b, 's) dio) \<Rightarrow> ('b, 's) dio" where
  "and_then m f = do { (r, s) \<leftarrow> m; case r of Inl e \<Rightarrow> Some (Inl e, s) | Inr x \<Rightarrow> f x s }"

abbreviation ok :: "'a \<Rightarrow> 's \<Rightarrow> ('a, 's) dio" where
  "ok x s \<equiv> Some (Inr x, s)"

abbreviation err :: "disk_error \<Rightarrow> 's \<Rightarrow> ('a, 's) dio" where
  "err e s \<equiv> Some (Inl e, s)"

lemma and_then_mono [partial_function_mono]:
  assumes "monotone (fun_ord option_ord) option_ord m"
    and "\<And>x s. monotone (fun_ord option_ord) option_ord (\<lambda>g. f x s g)"
  shows "monotone (fun_ord option_ord) option_ord (\<lambda>g. and_then (m g) (\<lambda>x s. f x s g))"
  unfolding and_then_def
proof (rule bind_mono [OF assms(1)])
  fix rs
  show "monotone (fun_ord option_ord) option_ord
      (\<lambda>g. case rs of (r, s) \<Rightarrow> (case r of Inl e \<Rightarrow> Some (Inl e, s) | Inr x \<Rightarrow> f x s g))"
    by (cases rs; cases "fst rs") (auto simp: monotone_on_def option.leq_refl intro: monotoneD [OF assms(2)])
qed

lemma and_then_simps [simp]:
  "and_then None f = None" "and_then (ok x s) f = f x s" "and_then (err e s) f = err e s"
  by (simp_all add: and_then_def)

section \<open>State\<close>

datatype node_slot =
    Loaded node bool "nat option" nat nat
  | OnDisk nat
  | Freed

record cache =
  budget :: "nat option"
  cache_bytes :: nat
  resident :: nat
  tick :: nat
  lru :: "(node_id \<times> nat) list"
  hits :: nat
  misses :: nat
  evictions :: nat
  overcommit_events :: nat

definition cache_default :: cache where
  "cache_default = \<lparr>budget = None, cache_bytes = 0, resident = 0, tick = 0, lru = [], hits = 0,
     misses = 0, evictions = 0, overcommit_events = 0\<rparr>"

record cache_snapshot =
  st_hits :: nat
  st_misses :: nat
  st_evictions :: nat
  st_overcommit_events :: nat
  st_resident_bytes :: nat

record commit_stats =
  nodes_written :: nat
  bytes_written :: nat

record ('v, 'p) disk_engine =
  d_params :: params
  d_vfs :: 'v
  d_slots :: "node_slot list"
  d_root :: node_id
  d_next_seq :: u64
  d_next_generation :: u64
  d_watermark :: nat
  d_poisoned :: bool
  d_cache :: cache
  d_offsets :: "(nat, node_id) btmap"
  d_ops_since_commit :: u64
  d_policy :: "'p policy"
  d_trace :: recorder

fun est_message :: "message \<Rightarrow> nat" where
  "est_message (Put seq v) = 20 + length v"
| "est_message (Delete seq) = 12"
| "est_message (Upsert seq op) = 24"

fun est_bytes :: "node \<Rightarrow> nat" where
  "est_bytes (Leaf es) = 16 + sum_list (map (\<lambda>(k, e). 24 + length k + length (entry_value e)) es)"
| "est_bytes (Internal ps cs b) =
     28 + sum_list (map (\<lambda>p. 8 + length p) ps) + 8 * length cs +
     sum_list (map (\<lambda>(k, m). 12 + length k + est_message m) b)"

text \<open>A call of the device; its error becomes \<open>DiskError::Io\<close>.\<close>
definition on_vfs :: "('v \<Rightarrow> ('a, 'v) io) \<Rightarrow> ('v, 'p) disk_engine \<Rightarrow> ('a, ('v, 'p) disk_engine) dio" where
  "on_vfs f s = do {
     (r, v) \<leftarrow> f (d_vfs s);
     Some (case r of Inl e \<Rightarrow> Inl (Io e) | Inr x \<Rightarrow> Inr x, s\<lparr>d_vfs := v\<rparr>)
   }"

section \<open>Slots\<close>

definition is_dirty :: "('v, 'p) disk_engine \<Rightarrow> node_id \<Rightarrow> bool option" where
  "is_dirty s nid = do {
     slot \<leftarrow> index (d_slots s) nid;
     Some (case slot of Loaded n d off b t \<Rightarrow> d | _ \<Rightarrow> False)
   }"

definition loaded :: "('v, 'p) disk_engine \<Rightarrow> node_id \<Rightarrow> node option" where
  "loaded s nid = do {
     slot \<leftarrow> index (d_slots s) nid;
     case slot of Loaded n d off b t \<Rightarrow> Some n | _ \<Rightarrow> None
   }"

definition set_slot :: "node_id \<Rightarrow> node_slot \<Rightarrow> ('v, 'p) disk_engine \<Rightarrow> ('v, 'p) disk_engine" where
  "set_slot nid slot s = s\<lparr>d_slots := (d_slots s)[nid := slot]\<rparr>"

text \<open>Replacing the bytes accounted for one node: \<open>bytes - old + new\<close>.\<close>
definition recount :: "nat \<Rightarrow> nat \<Rightarrow> cache \<Rightarrow> cache option" where
  "recount old new c = do {
     rest \<leftarrow> checked_sub (cache_bytes c) old;
     Some (c\<lparr>cache_bytes := rest + new\<rparr>)
   }"

text \<open>One resident node less.\<close>
definition forget :: "nat \<Rightarrow> cache \<Rightarrow> cache option" where
  "forget bytes c = do {
     rest \<leftarrow> checked_sub (cache_bytes c) bytes;
     n \<leftarrow> checked_sub (resident c) 1;
     Some (c\<lparr>cache_bytes := rest, resident := n\<rparr>)
   }"

text \<open>Mutable access: the node, marked dirty and re-estimated from its current contents.\<close>
definition loaded_mut :: "node_id \<Rightarrow> ('v, 'p) disk_engine \<Rightarrow> (node \<times> ('v, 'p) disk_engine) option" where
  "loaded_mut nid s = do {
     slot \<leftarrow> index (d_slots s) nid;
     case slot of
       Loaded n d off b t \<Rightarrow> do {
         c \<leftarrow> recount b (est_bytes n) (d_cache s);
         Some (n, set_slot nid (Loaded n True off (est_bytes n) t) (s\<lparr>d_cache := c\<rparr>))
       }
     | _ \<Rightarrow> None
   }"

text \<open>Writing through the reference that \<open>loaded_mut\<close> returned.\<close>
definition put_node :: "node_id \<Rightarrow> node \<Rightarrow> ('v, 'p) disk_engine \<Rightarrow> ('v, 'p) disk_engine" where
  "put_node nid n s =
     (case index (d_slots s) nid of
        Some (Loaded _ d off b t) \<Rightarrow> set_slot nid (Loaded n d off b t) s
      | _ \<Rightarrow> s)"

fun slot_current :: "node_slot \<Rightarrow> nat \<Rightarrow> bool" where
  "slot_current (Loaded n d off b t) tk = (t = tk)"
| "slot_current _ tk = False"

fun stamp :: "nat \<Rightarrow> node_slot \<Rightarrow> node_slot" where
  "stamp tk (Loaded n d off b t) = Loaded n d off b tk"
| "stamp tk slot = slot"

text \<open>\<open>lru.retain(..)\<close>: only the entries that are current; an id outside the arena panics.\<close>
definition compact_lru :: "node_slot list \<Rightarrow> (node_id \<times> nat) list \<Rightarrow> (node_id \<times> nat) list option" where
  "compact_lru slots q =
     (if \<forall>(nid, t)\<in>set q. nid < length slots
      then Some (filter (\<lambda>(nid, t). slot_current (slots ! nid) t) q) else None)"

definition touch :: "node_id \<Rightarrow> ('v, 'p) disk_engine \<Rightarrow> ('v, 'p) disk_engine option" where
  "touch nid s =
     (if budget (d_cache s) = None then Some s
      else do {
        let tk = tick (d_cache s) + 1;
        slot \<leftarrow> index (d_slots s) nid;
        let s = set_slot nid (stamp tk slot) s;
        let q = lru (d_cache s) @ [(nid, tk)];
        q \<leftarrow> (if length q > max 64 (resident (d_cache s) * 4) then compact_lru (d_slots s) q else Some q);
        Some (s\<lparr>d_cache := (d_cache s)\<lparr>tick := tk, lru := q\<rparr>\<rparr>)
      })"

definition alloc_dirty :: "node \<Rightarrow> ('v, 'p) disk_engine \<Rightarrow> (node_id \<times> ('v, 'p) disk_engine) option" where
  "alloc_dirty n s = do {
     let nid = length (d_slots s);
     let bytes = est_bytes n;
     s \<leftarrow> touch nid (s\<lparr>d_slots := d_slots s @ [Loaded n True None bytes 0],
       d_cache := (d_cache s)\<lparr>cache_bytes := cache_bytes (d_cache s) + bytes,
                             resident := resident (d_cache s) + 1\<rparr>\<rparr>);
     Some (nid, s)
   }"

text \<open>A slot that already tracks the offset is reused unless it was freed.\<close>
definition alloc_on_disk :: "nat \<Rightarrow> ('v, 'p) disk_engine \<Rightarrow> (node_id \<times> ('v, 'p) disk_engine) option" where
  "alloc_on_disk offset s = do {
     reuse \<leftarrow> (case bt_get (d_offsets s) offset of
                 None \<Rightarrow> Some None
               | Some nid \<Rightarrow> do {
                   slot \<leftarrow> index (d_slots s) nid;
                   Some (if slot \<noteq> Freed then Some nid else None)
                 });
     case reuse of
       Some nid \<Rightarrow> Some (nid, s)
     | None \<Rightarrow>
         (let nid = length (d_slots s)
          in Some (nid, s\<lparr>d_slots := d_slots s @ [OnDisk offset],
                          d_offsets := bt_insert offset nid (d_offsets s)\<rparr>))
   }"

fun alloc_children :: "nat list \<Rightarrow> ('v, 'p) disk_engine \<Rightarrow> (node_id list \<times> ('v, 'p) disk_engine) option" where
  "alloc_children [] s = Some ([], s)"
| "alloc_children (off # offs) s = do {
     (nid, s) \<leftarrow> alloc_on_disk off s;
     (nids, s) \<leftarrow> alloc_children offs s;
     Some (nid # nids, s)
   }"

definition release_slot :: "node_id \<Rightarrow> ('v, 'p) disk_engine \<Rightarrow> ('v, 'p) disk_engine option" where
  "release_slot nid s = do {
     slot \<leftarrow> index (d_slots s) nid;
     case slot of
       Loaded n d off b t \<Rightarrow> do {
         c \<leftarrow> forget b (d_cache s);
         Some (set_slot nid Freed (s\<lparr>d_cache := c,
           d_offsets := (case off of None \<Rightarrow> d_offsets s | Some o' \<Rightarrow> bt_remove o' (d_offsets s))\<rparr>))
       }
     | OnDisk o' \<Rightarrow> Some (set_slot nid Freed (s\<lparr>d_offsets := bt_remove o' (d_offsets s)\<rparr>))
     | Freed \<Rightarrow> Some s
   }"

section \<open>The bounded cache\<close>

text \<open>At most as many entries are examined as the queue had at the start; the first argument counts
  what is left of them.\<close>
fun enforce_loop :: "nat \<Rightarrow> nat \<Rightarrow> node_id list \<Rightarrow> node_id option \<Rightarrow> ('v, 'p) disk_engine \<Rightarrow>
    ('v, 'p) disk_engine option" where
  "enforce_loop 0 bud pins just_loaded s = Some s"
| "enforce_loop (Suc left) bud pins just_loaded s =
     (if cache_bytes (d_cache s) > bud then
        (case lru (d_cache s) of
           [] \<Rightarrow> Some s
         | (nid, tk) # q \<Rightarrow> do {
             let s = s\<lparr>d_cache := (d_cache s)\<lparr>lru := q\<rparr>\<rparr>;
             slot \<leftarrow> index (d_slots s) nid;
             case slot of
               Loaded n d off b t \<Rightarrow>
                 if t \<noteq> tk then enforce_loop left bud pins just_loaded s
                 else if d \<or> nid \<in> set pins \<or> just_loaded = Some nid then
                   (let tk = tick (d_cache s) + 1
                    in enforce_loop left bud pins just_loaded
                         (set_slot nid (Loaded n d off b tk)
                           (s\<lparr>d_cache := (d_cache s)\<lparr>tick := tk, lru := q @ [(nid, tk)]\<rparr>\<rparr>)))
                 else do {
                   o' \<leftarrow> off;
                   c \<leftarrow> forget b (d_cache s);
                   enforce_loop left bud pins just_loaded
                     (set_slot nid (OnDisk o') (s\<lparr>d_cache := c\<lparr>evictions := evictions c + 1\<rparr>\<rparr>))
                 }
             | _ \<Rightarrow> enforce_loop left bud pins just_loaded s
           })
      else Some s)"

definition enforce_budget :: "node_id list \<Rightarrow> node_id option \<Rightarrow> ('v, 'p) disk_engine \<Rightarrow>
    ('v, 'p) disk_engine option" where
  "enforce_budget pins just_loaded s =
     (case budget (d_cache s) of
        None \<Rightarrow> Some s
      | Some bud \<Rightarrow> do {
          s \<leftarrow> enforce_loop (length (lru (d_cache s))) bud pins just_loaded s;
          Some (if cache_bytes (d_cache s) > bud
                then s\<lparr>d_cache := (d_cache s)\<lparr>overcommit_events := overcommit_events (d_cache s) + 1\<rparr>\<rparr>
                else s)
        })"

definition cache_stats :: "('v, 'p) disk_engine \<Rightarrow> cache_snapshot" where
  "cache_stats s = \<lparr>st_hits = hits (d_cache s), st_misses = misses (d_cache s),
     st_evictions = evictions (d_cache s), st_overcommit_events = overcommit_events (d_cache s),
     st_resident_bytes = cache_bytes (d_cache s)\<rparr>"

section \<open>Reading records\<close>

definition read_record :: "'v env \<Rightarrow> nat \<Rightarrow> ('v, 'p) disk_engine \<Rightarrow> (disk_node \<times> nat, ('v, 'p) disk_engine) dio" where
  "read_record E offset s =
     (if offset < DATA_START \<or> offset > d_watermark s - RECORD_HEADER_SIZE
      then err (CorruptNode offset (HeaderOutsideData (d_watermark s))) s
      else and_then (on_vfs (read_exact_at (env_vfs E) offset RECORD_HEADER_SIZE) s) (\<lambda>header s.
        (let len = unat (from_le (take 4 header) :: u32); stored_crc = from_le (drop 4 header) in do {
           room \<leftarrow> checked_sub (d_watermark s) (offset + RECORD_HEADER_SIZE);
           if len > room then err (CorruptNode offset (PayloadPastWatermark len (d_watermark s))) s
           else and_then (on_vfs (read_exact_at (env_vfs E) (offset + RECORD_HEADER_SIZE) len) s) (\<lambda>payload s.
             (let computed = crc32 (env_codec E) payload in
              if computed \<noteq> stored_crc then err (CorruptNode offset (ChecksumMismatch stored_crc computed)) s
              else (case decode_node (env_codec E) payload of
                      Inl e \<Rightarrow> err (CorruptNode offset (Undecodable e)) s
                    | Inr n \<Rightarrow> ok (n, length payload) s)))
         })))"

text \<open>The structural validation of a decoded record, and its conversion to a node.\<close>
definition node_of_record :: "nat \<Rightarrow> disk_node \<Rightarrow> ('v, 'p) disk_engine \<Rightarrow> (node, ('v, 'p) disk_engine) dio" where
  "node_of_record offset dn s =
     (case dn of
        DiskLeaf es \<Rightarrow> ok (Leaf es) s
      | DiskInternal ps offs b \<Rightarrow>
          if length offs \<noteq> length ps + 1
          then err (CorruptNode offset (ArityMismatch (length ps) (length offs))) s
          else (case find (\<lambda>c. c < DATA_START \<or> c \<ge> offset) offs of
                  Some c \<Rightarrow> err (CorruptNode offset (ChildOffsetOutside c offset)) s
                | None \<Rightarrow> do {
                    (cs, s) \<leftarrow> alloc_children offs s;
                    ok (Internal ps cs b) s
                  }))"

text \<open>The loaded node takes its slot, is accounted for, and the budget is enforced.\<close>
definition finish_load :: "node_id \<Rightarrow> node_id list \<Rightarrow> nat \<Rightarrow> nat \<Rightarrow> node \<Rightarrow> ('v, 'p) disk_engine \<Rightarrow>
    (unit, ('v, 'p) disk_engine) dio" where
  "finish_load nid pins offset payload_len n s = do {
     let bytes = RECORD_HEADER_SIZE + payload_len;
     s \<leftarrow> touch nid (set_slot nid (Loaded n False (Some offset) bytes 0)
            (s\<lparr>d_cache := (d_cache s)\<lparr>cache_bytes := cache_bytes (d_cache s) + bytes,
               resident := resident (d_cache s) + 1, misses := misses (d_cache s) + 1\<rparr>\<rparr>));
     s \<leftarrow> enforce_budget pins (Some nid) s;
     ok () s
   }"

definition ensure_loaded :: "'v env \<Rightarrow> node_id \<Rightarrow> node_id list \<Rightarrow> ('v, 'p) disk_engine \<Rightarrow>
    (unit, ('v, 'p) disk_engine) dio" where
  "ensure_loaded E nid pins s = do {
     slot \<leftarrow> index (d_slots s) nid;
     case slot of
       Loaded n d off b t \<Rightarrow> do {
         s \<leftarrow> touch nid (s\<lparr>d_cache := (d_cache s)\<lparr>hits := hits (d_cache s) + 1\<rparr>\<rparr>);
         ok () s
       }
     | OnDisk offset \<Rightarrow>
         and_then (read_record E offset s) (\<lambda>(dn, payload_len) s.
           and_then (node_of_record offset dn s) (finish_load nid pins offset payload_len))
     | Freed \<Rightarrow> None
   }"

end
