(* ===== verification/Disk.thy ===== *)
theory Disk
  imports Disk_State
begin

text \<open>
  \<open>src/disk.rs\<close>, the engine: the tree machinery over slots (it mirrors \<open>src/betree.rs\<close>, with
  residency and dirtiness tracked per slot), the mutating and reading operations, commit, creation
  and recovery, and the trait surface. The pure parts of splitting and flushing (\<open>take_pieces\<close>,
  \<open>peel\<close>, \<open>tally\<close>, \<open>extract_batch\<close>, \<open>insert_splits\<close>) are those of the in-memory engine, as the
  code of the two files is the same there.
\<close>

section \<open>Splitting\<close>

fun disk_alloc_leaves :: "entries list \<Rightarrow> ('v, 'p) disk_engine \<Rightarrow>
    ((key \<times> node_id) list \<times> ('v, 'p) disk_engine) option" where
  "disk_alloc_leaves [] s = Some ([], s)"
| "disk_alloc_leaves (piece # pieces) s =
     (case piece of
        [] \<Rightarrow> None
      | (pivot, _) # _ \<Rightarrow> do {
          (new_id, s) \<leftarrow> alloc_dirty (Leaf piece) s;
          (promoted, s) \<leftarrow> disk_alloc_leaves pieces s;
          Some ((pivot, new_id) # promoted, s)
        })"

text \<open>The entries are taken out of the node before it is accessed again for its first piece.\<close>
definition disk_split_leaf :: "node_id \<Rightarrow> ('v, 'p) disk_engine \<Rightarrow>
    ((key \<times> node_id) list \<times> ('v, 'p) disk_engine) option" where
  "disk_split_leaf nid s = do {
     (n, s) \<leftarrow> loaded_mut nid s;
     case n of
       Leaf items \<Rightarrow> do {
         let s = put_node nid (Leaf []) s;
         sizes \<leftarrow> partition_sizes (length items) (leaf_capacity (d_params s));
         case map bt_collect (take_pieces sizes items) of
           [] \<Rightarrow> None
         | first # pieces \<Rightarrow> do {
             (_, s) \<leftarrow> loaded_mut nid s;
             disk_alloc_leaves pieces (put_node nid (Leaf first) s)
           }
       }
     | Internal _ _ _ \<Rightarrow> None
   }"

fun disk_alloc_internals :: "(key \<times> key list \<times> node_id list \<times> buffer) list \<Rightarrow> ('v, 'p) disk_engine \<Rightarrow>
    ((key \<times> node_id) list \<times> ('v, 'p) disk_engine) option" where
  "disk_alloc_internals [] s = Some ([], s)"
| "disk_alloc_internals ((pivot, piece_pivots, piece_children, piece_buffer) # pieces) s = do {
     (new_id, s) \<leftarrow> alloc_dirty (Internal piece_pivots piece_children piece_buffer) s;
     (promoted, s) \<leftarrow> disk_alloc_internals pieces s;
     Some ((pivot, new_id) # promoted, s)
   }"

definition disk_split_internal :: "node_id \<Rightarrow> ('v, 'p) disk_engine \<Rightarrow>
    ((key \<times> node_id) list \<times> ('v, 'p) disk_engine) option" where
  "disk_split_internal nid s = do {
     (n, s) \<leftarrow> loaded_mut nid s;
     case n of
       Internal pivots children buf \<Rightarrow> do {
         let s = put_node nid (Internal [] [] []) s;
         sizes \<leftarrow> partition_sizes (length children) (fanout (d_params s));
         let starts = starts_from 0 sizes;
         (pieces_rev, buf) \<leftarrow> peel pivots children (rev (tl (zip starts sizes))) buf;
         sz0 \<leftarrow> index sizes 0;
         stop \<leftarrow> checked_sub sz0 1;
         first_pivots \<leftarrow> slice pivots 0 stop;
         first_children \<leftarrow> slice children 0 sz0;
         (_, s) \<leftarrow> loaded_mut nid s;
         disk_alloc_internals (rev pieces_rev) (put_node nid (Internal first_pivots first_children buf) s)
       }
     | Leaf _ \<Rightarrow> None
   }"

definition disk_split_if_needed :: "node_id \<Rightarrow> ('v, 'p) disk_engine \<Rightarrow>
    ((key \<times> node_id) list \<times> ('v, 'p) disk_engine) option" where
  "disk_split_if_needed nid s = do {
     n \<leftarrow> loaded s nid;
     case n of
       Leaf es \<Rightarrow> if length es > leaf_capacity (d_params s) then disk_split_leaf nid s else Some ([], s)
     | Internal ps cs b \<Rightarrow> if length cs > fanout (d_params s) then disk_split_internal nid s else Some ([], s)
   }"

definition disk_integrate_splits :: "node_id \<Rightarrow> (key \<times> node_id) list \<Rightarrow> ('v, 'p) disk_engine \<Rightarrow>
    ('v, 'p) disk_engine option" where
  "disk_integrate_splits nid promoted s =
     (if promoted = [] then Some s
      else do {
        (n, s) \<leftarrow> loaded_mut nid s;
        case n of
          Internal ps cs b \<Rightarrow> do {
            (ps, cs) \<leftarrow> insert_splits promoted ps cs;
            Some (put_node nid (Internal ps cs b) s)
          }
        | Leaf _ \<Rightarrow> None
      })"

definition disk_settle :: "node_id \<Rightarrow> ('v, 'p) disk_engine \<Rightarrow> (outcome \<times> ('v, 'p) disk_engine) option" where
  "disk_settle nid s = do {
     n \<leftarrow> loaded s nid;
     if (case n of Internal ps cs b \<Rightarrow> cs = [] | Leaf _ \<Rightarrow> False)
     then Some (Removed, s)
     else do { (promoted, s) \<leftarrow> disk_split_if_needed nid s; Some (Splits promoted, s) }
   }"

definition disk_remove_child :: "node_id \<Rightarrow> node_id \<Rightarrow> ('v, 'p) disk_engine \<Rightarrow> ('v, 'p) disk_engine option" where
  "disk_remove_child parent child s = do {
     (n, s) \<leftarrow> loaded_mut parent s;
     case n of
       Internal ps cs b \<Rightarrow> do {
         at \<leftarrow> position child cs;
         cs \<leftarrow> vec_remove at cs;
         ps \<leftarrow> (if at > 0 then vec_remove (at - 1) ps
               else if ps \<noteq> [] then vec_remove 0 ps
               else Some ps);
         release_slot child (put_node parent (Internal ps cs b) s)
       }
     | Leaf _ \<Rightarrow> None
   }"

section \<open>Flushing\<close>

definition disk_buffer_len :: "('v, 'p) disk_engine \<Rightarrow> node_id \<Rightarrow> nat option" where
  "disk_buffer_len s nid = do {
     n \<leftarrow> loaded s nid;
     case n of Internal ps cs b \<Rightarrow> Some (length b) | Leaf _ \<Rightarrow> None
   }"

definition disk_choose_child :: "node_id \<Rightarrow> nat \<Rightarrow> bool \<Rightarrow> node_id list \<Rightarrow> buffer \<Rightarrow> nat list \<Rightarrow> nat list \<Rightarrow>
    ('v, 'p) disk_engine \<Rightarrow> (nat \<times> ('v, 'p) disk_engine) option" where
  "disk_choose_child nid depth policy_mode children buf occ bytes s =
     (if policy_mode
      then do {
        dirty \<leftarrow> those (map (is_dirty s) children);
        let ctx = \<lparr>ctx_node = nid, ctx_depth = depth, child_pending = occ, child_pending_bytes = bytes,
                   child_dirty = dirty, buffer_total = length buf,
                   ctx_ops_since_commit = d_ops_since_commit s\<rparr>;
        let (chosen, st) = policy_choose (d_policy s) (policy_state (d_policy s)) ctx;
        Some (chosen, s\<lparr>d_policy := (d_policy s)\<lparr>policy_state := st\<rparr>\<rparr>)
      }
      else Some (pick occ, s))"

definition disk_pick_and_extract :: "node_id \<Rightarrow> nat \<Rightarrow> bool \<Rightarrow> ('v, 'p) disk_engine \<Rightarrow>
    (nat \<times> node_id \<times> nat list \<times> buffer \<times> ('v, 'p) disk_engine) option" where
  "disk_pick_and_extract nid depth policy_mode s = do {
     n \<leftarrow> loaded s nid;
     case n of
       Internal pivots children buf \<Rightarrow> do {
         (occ, bytes) \<leftarrow> tally pivots buf (replicate (length children) 0) (replicate (length children) 0);
         (chosen, s) \<leftarrow> disk_choose_child nid depth policy_mode children buf occ bytes s;
         _ \<leftarrow> (if chosen < length occ \<and> occ ! chosen > 0 then Some () else None);
         (_, s) \<leftarrow> loaded_mut nid s;
         (buf, batch) \<leftarrow> extract_batch pivots chosen buf;
         child \<leftarrow> index children chosen;
         Some (chosen, child, occ, batch, put_node nid (Internal pivots children buf) s)
       }
     | Leaf _ \<Rightarrow> None
   }"

definition disk_apply_batch :: "'v env \<Rightarrow> node_id \<Rightarrow> buffer \<Rightarrow> node_id list \<Rightarrow> nat \<Rightarrow> ('v, 'p) disk_engine \<Rightarrow>
    (delivery, ('v, 'p) disk_engine) dio" where
  "disk_apply_batch E child batch pins threshold s =
     and_then (ensure_loaded E child pins s) (\<lambda>_ s. do {
       (n, s) \<leftarrow> loaded_mut child s;
       case n of
         Leaf es \<Rightarrow>
           (let es = fold (\<lambda>(k, m). apply_to_leaf k m) batch es
            in ok (DeliveredLeaf (es = [])) (put_node child (Leaf es) s))
       | Internal ps cs b \<Rightarrow>
           (let b = fold (\<lambda>(k, m). coalesce_into k m) batch b
            in ok (DeliveredInternal (length b > threshold)) (put_node child (Internal ps cs b) s))
     })"

partial_function (option) disk_has_messages_from :: "'v env \<Rightarrow> node_id list \<Rightarrow> node_id list \<Rightarrow>
    ('v, 'p) disk_engine \<Rightarrow> (bool, ('v, 'p) disk_engine) dio" where
  "disk_has_messages_from E pins stack s =
     (case stack of
        [] \<Rightarrow> ok False s
      | nid # stack \<Rightarrow> and_then (ensure_loaded E nid pins s) (\<lambda>_ s. do {
          n \<leftarrow> loaded s nid;
          case n of
            Internal ps cs b \<Rightarrow> if b \<noteq> [] then ok True s else disk_has_messages_from E pins (rev cs @ stack) s
          | Leaf _ \<Rightarrow> disk_has_messages_from E pins stack s
        }))"

definition disk_subtree_has_messages :: "'v env \<Rightarrow> node_id \<Rightarrow> node_id list \<Rightarrow> ('v, 'p) disk_engine \<Rightarrow>
    (bool, ('v, 'p) disk_engine) dio" where
  "disk_subtree_has_messages E nid pins s = disk_has_messages_from E pins [nid] s"

text \<open>The first child with messages below; the flushing stack and the probed child are pinned.\<close>
fun disk_find_buffered :: "'v env \<Rightarrow> node_id list \<Rightarrow> node_id list \<Rightarrow> ('v, 'p) disk_engine \<Rightarrow>
    (node_id option, ('v, 'p) disk_engine) dio" where
  "disk_find_buffered E flushing [] s = ok None s"
| "disk_find_buffered E flushing (c # cs) s =
     and_then (disk_subtree_has_messages E c (rev flushing @ [c]) s) (\<lambda>b s.
       if b then ok (Some c) s else disk_find_buffered E flushing cs s)"

definition disk_buffered_child :: "'v env \<Rightarrow> node_id list \<Rightarrow> node_id \<Rightarrow> ('v, 'p) disk_engine \<Rightarrow>
    (node_id option, ('v, 'p) disk_engine) dio" where
  "disk_buffered_child E flushing tp s = do {
     n \<leftarrow> loaded s tp;
     disk_find_buffered E flushing (case n of Internal ps cs b \<Rightarrow> cs | Leaf _ \<Rightarrow> []) s
   }"

definition disk_record_flush :: "bool \<Rightarrow> node_id \<Rightarrow> nat list \<Rightarrow> nat \<Rightarrow> ('v, 'p) disk_engine \<Rightarrow>
    ('v, 'p) disk_engine" where
  "disk_record_flush trace_flushes tp occ chosen s =
     (if trace_flushes then s\<lparr>d_trace := rec_flush_decision tp occ chosen (d_trace s)\<rparr> else s)"

text \<open>The loop of \<open>flush_with\<close>; the stack is kept with its top first.\<close>
partial_function (option) disk_flush_loop :: "'v env \<Rightarrow> nat \<Rightarrow> bool \<Rightarrow> node_id list \<Rightarrow> ('v, 'p) disk_engine \<Rightarrow>
    (outcome, ('v, 'p) disk_engine) dio" where
  "disk_flush_loop E threshold trace_flushes flushing s =
     (case flushing of
        [] \<Rightarrow> None
      | tp # below \<Rightarrow> do {
          len \<leftarrow> disk_buffer_len s tp;
          if len \<le> threshold then
            and_then (if threshold = 0 then disk_buffered_child E flushing tp s else ok None s) (\<lambda>descend s.
              case descend of
                Some child \<Rightarrow> disk_flush_loop E threshold trace_flushes (child # flushing) s
              | None \<Rightarrow> do {
                  (outcome, s) \<leftarrow> disk_settle tp s;
                  case below of
                    [] \<Rightarrow> ok outcome s
                  | parent # _ \<Rightarrow> do {
                      s \<leftarrow> (case outcome of
                              Splits promoted \<Rightarrow> disk_integrate_splits parent promoted s
                            | Removed \<Rightarrow> disk_remove_child parent tp s);
                      disk_flush_loop E threshold trace_flushes below s
                    }
                })
          else do {
            (chosen, child, occ, batch, s) \<leftarrow> disk_pick_and_extract tp (length flushing - 1) trace_flushes s;
            let s = disk_record_flush trace_flushes tp occ chosen s;
            and_then (disk_apply_batch E child batch (rev flushing) threshold s) (\<lambda>d s.
              if d = DeliveredInternal True
              then disk_flush_loop E threshold trace_flushes (child # flushing) s
              else if d = DeliveredLeaf True
              then do { s \<leftarrow> disk_remove_child tp child s; disk_flush_loop E threshold trace_flushes flushing s }
              else do {
                (promoted, s) \<leftarrow> disk_split_if_needed child s;
                s \<leftarrow> disk_integrate_splits tp promoted s;
                disk_flush_loop E threshold trace_flushes flushing s
              })
          }
        })"

definition disk_flush_with :: "'v env \<Rightarrow> node_id \<Rightarrow> nat \<Rightarrow> bool \<Rightarrow> ('v, 'p) disk_engine \<Rightarrow>
    (outcome, ('v, 'p) disk_engine) dio" where
  "disk_flush_with E nid threshold trace_flushes s = disk_flush_loop E threshold trace_flushes [nid] s"

section \<open>Settling the root\<close>

partial_function (option) disk_restore_loop :: "'v env \<Rightarrow> nat \<Rightarrow> bool \<Rightarrow> ('v, 'p) disk_engine \<Rightarrow>
    (unit, ('v, 'p) disk_engine) dio" where
  "disk_restore_loop E threshold trace_flushes s = do {
     n \<leftarrow> loaded s (d_root s);
     and_then (case n of
         Internal _ _ _ \<Rightarrow> disk_flush_with E (d_root s) threshold trace_flushes s
       | Leaf _ \<Rightarrow> do { (promoted, s) \<leftarrow> disk_split_if_needed (d_root s) s; ok (Splits promoted) s })
       (\<lambda>outcome s.
         case outcome of
           Removed \<Rightarrow> do {
             let old_root = d_root s;
             (new_root, s) \<leftarrow> alloc_dirty (Leaf []) s;
             s \<leftarrow> release_slot old_root (s\<lparr>d_root := new_root\<rparr>);
             ok () s
           }
         | Splits promoted \<Rightarrow>
             if promoted = [] then ok () s
             else do {
               (new_root, s) \<leftarrow> alloc_dirty (Internal (map fst promoted) (d_root s # map snd promoted) []) s;
               disk_restore_loop E threshold trace_flushes (s\<lparr>d_root := new_root\<rparr>)
             })
   }"

partial_function (option) disk_collapse_root :: "'v env \<Rightarrow> ('v, 'p) disk_engine \<Rightarrow>
    (unit, ('v, 'p) disk_engine) dio" where
  "disk_collapse_root E s = do {
     n \<leftarrow> loaded s (d_root s);
     case n of
       Internal ps cs b \<Rightarrow>
         if length cs = 1 \<and> b = []
         then do {
           let old_root = d_root s;
           s \<leftarrow> release_slot old_root (s\<lparr>d_root := hd cs\<rparr>);
           and_then (ensure_loaded E (d_root s) [] s) (\<lambda>_ s. disk_collapse_root E s)
         }
         else ok () s
     | Leaf _ \<Rightarrow> ok () s
   }"

definition disk_restore_root_with :: "'v env \<Rightarrow> nat \<Rightarrow> bool \<Rightarrow> ('v, 'p) disk_engine \<Rightarrow>
    (unit, ('v, 'p) disk_engine) dio" where
  "disk_restore_root_with E threshold trace_flushes s =
     and_then (disk_restore_loop E threshold trace_flushes s) (\<lambda>_ s. disk_collapse_root E s)"

definition disk_restore_root :: "'v env \<Rightarrow> ('v, 'p) disk_engine \<Rightarrow> (unit, ('v, 'p) disk_engine) dio" where
  "disk_restore_root E s = disk_restore_root_with E (buffer_capacity (d_params s)) True s"

text \<open>An error poisons the engine.\<close>
definition poison_on_error :: "('a, ('v, 'p) disk_engine) dio \<Rightarrow> ('a, ('v, 'p) disk_engine) dio" where
  "poison_on_error m = do {
     (r, s) \<leftarrow> m;
     case r of Inl e \<Rightarrow> err e (s\<lparr>d_poisoned := True\<rparr>) | Inr x \<Rightarrow> ok x s
   }"

definition disk_drain :: "'v env \<Rightarrow> ('v, 'p) disk_engine \<Rightarrow> (unit, ('v, 'p) disk_engine) dio" where
  "disk_drain E s =
     and_then (ensure_loaded E (d_root s) [] s) (\<lambda>_ s. poison_on_error (disk_restore_root_with E 0 False s))"

section \<open>Operations\<close>

definition disk_apply_root :: "'v env \<Rightarrow> key \<Rightarrow> message \<Rightarrow> ('v, 'p) disk_engine \<Rightarrow>
    (unit, ('v, 'p) disk_engine) dio" where
  "disk_apply_root E k m s = do {
     (n, s) \<leftarrow> loaded_mut (d_root s) s;
     let s = put_node (d_root s) (case n of
                Leaf es \<Rightarrow> Leaf (apply_to_leaf k m es)
              | Internal ps cs b \<Rightarrow> Internal ps cs (coalesce_into k m b)) s;
     poison_on_error (disk_restore_root E s)
   }"

definition try_insert :: "'v env \<Rightarrow> key \<Rightarrow> val \<Rightarrow> ('v, 'p) disk_engine \<Rightarrow> (unit, ('v, 'p) disk_engine) dio" where
  "try_insert E k v s =
     and_then (ensure_loaded E (d_root s) [] s) (\<lambda>_ s.
       (let s = s\<lparr>d_next_seq := d_next_seq s + 1, d_ops_since_commit := d_ops_since_commit s + 1\<rparr>;
            seq = d_next_seq s;
            s = s\<lparr>d_trace := rec_op seq (Insert2 k v) (d_trace s)\<rparr>
        in disk_apply_root E k (Put seq v) s))"

definition try_delete :: "'v env \<Rightarrow> key \<Rightarrow> ('v, 'p) disk_engine \<Rightarrow> (unit, ('v, 'p) disk_engine) dio" where
  "try_delete E k s =
     and_then (ensure_loaded E (d_root s) [] s) (\<lambda>_ s.
       (let s = s\<lparr>d_next_seq := d_next_seq s + 1, d_ops_since_commit := d_ops_since_commit s + 1\<rparr>;
            seq = d_next_seq s;
            s = s\<lparr>d_trace := rec_op seq (Delete2 k) (d_trace s)\<rparr>
        in disk_apply_root E k (Delete seq) s))"

definition try_upsert :: "'v env \<Rightarrow> key \<Rightarrow> upsert_op \<Rightarrow> ('v, 'p) disk_engine \<Rightarrow>
    (unit, ('v, 'p) disk_engine) dio" where
  "try_upsert E k op s =
     and_then (ensure_loaded E (d_root s) [] s) (\<lambda>_ s.
       (let s = s\<lparr>d_next_seq := d_next_seq s + 1, d_ops_since_commit := d_ops_since_commit s + 1\<rparr>;
            seq = d_next_seq s;
            s = s\<lparr>d_trace := rec_op seq (Upsert2 k op) (d_trace s)\<rparr>
        in disk_apply_root E k (Upsert seq op) s))"

partial_function (option) disk_get_from :: "'v env \<Rightarrow> key \<Rightarrow> i64 option \<Rightarrow> node_id \<Rightarrow> ('v, 'p) disk_engine \<Rightarrow>
    (val option, ('v, 'p) disk_engine) dio" where
  "disk_get_from E k chain nid s =
     and_then (ensure_loaded E nid [] s) (\<lambda>_ s. do {
       n \<leftarrow> loaded s nid;
       case n of
         Internal ps cs b \<Rightarrow>
           (case bt_get b k of
              Some (Put seq v) \<Rightarrow> ok (apply_chain chain (Some v)) s
            | Some (Delete seq) \<Rightarrow> ok (apply_chain chain None) s
            | Some (Upsert seq op) \<Rightarrow>
                (case op of Add delta \<Rightarrow> do {
                   c \<leftarrow> index cs (route ps k);
                   disk_get_from E k (Some ((case chain of None \<Rightarrow> 0 | Some c \<Rightarrow> c) + delta)) c s
                 })
            | None \<Rightarrow> do { c \<leftarrow> index cs (route ps k); disk_get_from E k chain c s })
       | Leaf es \<Rightarrow> ok (apply_chain chain (map_option entry_value (bt_get es k))) s
     })"

definition try_get :: "'v env \<Rightarrow> key \<Rightarrow> ('v, 'p) disk_engine \<Rightarrow> (val option, ('v, 'p) disk_engine) dio" where
  "try_get E k s = disk_get_from E k None (d_root s) (s\<lparr>d_trace := rec_get k (d_trace s)\<rparr>)"

text \<open>The frame stack also pins its nodes: \<open>pins\<close> lists their ids, the root's first.\<close>
partial_function (option) disk_scan_loop :: "'v env \<Rightarrow> scan_frame list \<Rightarrow> ('v, 'p) disk_engine \<Rightarrow>
    ((key, val) btmap, ('v, 'p) disk_engine) dio" where
  "disk_scan_loop E stack s =
     (case stack of
        [] \<Rightarrow> None
      | fr # rest \<Rightarrow> do {
          n \<leftarrow> loaded s (f_id fr);
          case n of
            Leaf _ \<Rightarrow> None
          | Internal ps cs b \<Rightarrow>
              (let i = f_next_child fr in
               if i < length cs then do {
                 let fr = fr\<lparr>f_next_child := i + 1\<rparr>;
                 c_lo \<leftarrow> child_lo (f_lo fr) ps i;
                 c_hi \<leftarrow> child_hi (f_hi fr) ps i;
                 if range_is_empty c_lo c_hi then disk_scan_loop E (fr # rest) s
                 else do {
                   child \<leftarrow> index cs i;
                   and_then (ensure_loaded E child (rev (map f_id (fr # rest))) s) (\<lambda>_ s. do {
                     cn \<leftarrow> loaded s child;
                     case cn of
                       Leaf es \<Rightarrow> do {
                         es \<leftarrow> bt_range (bound_as_slice c_lo) (bound_as_slice c_hi) es;
                         disk_scan_loop E (fr\<lparr>f_acc := fold_entries es (f_acc fr)\<rparr> # rest) s
                       }
                     | Internal _ _ _ \<Rightarrow>
                         disk_scan_loop E
                           (\<lparr>f_id = child, f_lo = c_lo, f_hi = c_hi, f_next_child = 0, f_acc = []\<rparr> # fr # rest) s
                   })
                 }
               }
               else do {
                 ms \<leftarrow> bt_range (bound_as_slice (f_lo fr)) (bound_as_slice (f_hi fr)) b;
                 let acc = fold (\<lambda>(k, m). fold_message k m) ms (f_acc fr);
                 case rest of
                   [] \<Rightarrow> ok acc s
                 | parent # rest \<Rightarrow> disk_scan_loop E (parent\<lparr>f_acc := bt_append (f_acc parent) acc\<rparr> # rest) s
               })
        })"

definition try_scan :: "'v env \<Rightarrow> key bound \<Rightarrow> key bound \<Rightarrow> ('v, 'p) disk_engine \<Rightarrow>
    ((key \<times> val) list, ('v, 'p) disk_engine) dio" where
  "try_scan E lo hi s =
     (let s = s\<lparr>d_trace := rec_scan lo hi (d_trace s)\<rparr> in
      if range_is_empty lo hi then ok [] s
      else and_then (ensure_loaded E (d_root s) [] s) (\<lambda>_ s. do {
        n \<leftarrow> loaded s (d_root s);
        case n of
          Leaf es \<Rightarrow> do {
            es \<leftarrow> bt_range (bound_as_slice lo) (bound_as_slice hi) es;
            ok (map (\<lambda>(k, e). (k, entry_value e)) es) s
          }
        | Internal _ _ _ \<Rightarrow>
            disk_scan_loop E [\<lparr>f_id = d_root s, f_lo = lo, f_hi = hi, f_next_child = 0, f_acc = []\<rparr>] s
      }))"

section \<open>Walks over the whole tree\<close>

partial_function (option) load_all_from :: "'v env \<Rightarrow> node_id list \<Rightarrow> ('v, 'p) disk_engine \<Rightarrow>
    (unit, ('v, 'p) disk_engine) dio" where
  "load_all_from E stack s =
     (case stack of
        [] \<Rightarrow> ok () s
      | nid # stack \<Rightarrow> and_then (ensure_loaded E nid [] s) (\<lambda>_ s. do {
          n \<leftarrow> loaded s nid;
          load_all_from E (rev (case n of Internal ps cs b \<Rightarrow> cs | Leaf _ \<Rightarrow> []) @ stack) s
        }))"

definition load_all :: "'v env \<Rightarrow> ('v, 'p) disk_engine \<Rightarrow> (unit, ('v, 'p) disk_engine) dio" where
  "load_all E s = load_all_from E [d_root s] s"

partial_function (option) live_walk_from :: "'v env \<Rightarrow> nat \<Rightarrow> nat \<Rightarrow> node_id list \<Rightarrow> ('v, 'p) disk_engine \<Rightarrow>
    (nat \<times> nat, ('v, 'p) disk_engine) dio" where
  "live_walk_from E nodes bytes stack s =
     (case stack of
        [] \<Rightarrow> ok (nodes, bytes) s
      | nid # stack \<Rightarrow> and_then (ensure_loaded E nid [] s) (\<lambda>_ s. do {
          slot \<leftarrow> index (d_slots s) nid;
          n \<leftarrow> loaded s nid;
          live_walk_from E (nodes + 1) (bytes + (case slot of Loaded _ _ _ b _ \<Rightarrow> b | _ \<Rightarrow> 0))
            (rev (case n of Internal ps cs b \<Rightarrow> cs | Leaf _ \<Rightarrow> []) @ stack) s
        }))"

definition live_walk :: "'v env \<Rightarrow> ('v, 'p) disk_engine \<Rightarrow> (nat \<times> nat, ('v, 'p) disk_engine) dio" where
  "live_walk E s = live_walk_from E 0 0 [d_root s] s"

definition live_bytes :: "'v env \<Rightarrow> ('v, 'p) disk_engine \<Rightarrow> (nat, ('v, 'p) disk_engine) dio" where
  "live_bytes E s = and_then (live_walk E s) (\<lambda>(nodes, bytes) s. ok bytes s)"

definition live_node_count :: "'v env \<Rightarrow> ('v, 'p) disk_engine \<Rightarrow> (nat, ('v, 'p) disk_engine) dio" where
  "live_node_count E s = and_then (live_walk E s) (\<lambda>(nodes, bytes) s. ok nodes s)"

partial_function (option) disk_height_from :: "'v env \<Rightarrow> nat \<Rightarrow> node_id \<Rightarrow> ('v, 'p) disk_engine \<Rightarrow>
    (nat, ('v, 'p) disk_engine) dio" where
  "disk_height_from E h nid s =
     and_then (ensure_loaded E nid [] s) (\<lambda>_ s. do {
       n \<leftarrow> loaded s nid;
       case n of
         Internal ps cs b \<Rightarrow> do { c \<leftarrow> index cs 0; disk_height_from E (h + 1) c s }
       | Leaf _ \<Rightarrow> ok h s
     })"

definition disk_height :: "'v env \<Rightarrow> ('v, 'p) disk_engine \<Rightarrow> (nat, ('v, 'p) disk_engine) dio" where
  "disk_height E s = disk_height_from E 1 (d_root s) s"

definition disk_source :: "('v, 'p) disk_engine \<Rightarrow> node_source" where
  "disk_source s = \<lparr>src_root = d_root s, src_params = d_params s, src_node = loaded s\<rparr>"

text \<open>Stamping everything resident after the budget was suspended.\<close>
fun touch_resident :: "node_id list \<Rightarrow> ('v, 'p) disk_engine \<Rightarrow> ('v, 'p) disk_engine option" where
  "touch_resident [] s = Some s"
| "touch_resident (nid # nids) s = do {
     slot \<leftarrow> index (d_slots s) nid;
     s \<leftarrow> (case slot of Loaded _ _ _ _ _ \<Rightarrow> touch nid s | _ \<Rightarrow> Some s);
     touch_resident nids s
   }"

definition check_invariants_full :: "'v env \<Rightarrow> ('v, 'p) disk_engine \<Rightarrow>
    ((invariant_violation + unit) \<times> ('v, 'p) disk_engine) option" where
  "check_invariants_full E s = do {
     let bud = budget (d_cache s);
     (r, s) \<leftarrow> load_all E (s\<lparr>d_cache := (d_cache s)\<lparr>budget := None\<rparr>\<rparr>);
     case r of
       Inl e \<Rightarrow> None
     | Inr _ \<Rightarrow> do {
         result \<leftarrow> check_invariants (disk_source s);
         let s = s\<lparr>d_cache := (d_cache s)\<lparr>budget := bud\<rparr>\<rparr>;
         s \<leftarrow> (if bud = None then Some s else touch_resident [0..<length (d_slots s)] s);
         s \<leftarrow> enforce_budget [] None s;
         Some (result, s)
       }
   }"

section \<open>Commit\<close>

text \<open>The dirty nodes, parents before descendants: a walk over dirty edges only.\<close>
partial_function (option) disk_dirty_walk :: "('v, 'p) disk_engine \<Rightarrow> node_id list \<Rightarrow> node_id list option" where
  "disk_dirty_walk s visit =
     (case visit of
        [] \<Rightarrow> Some []
      | nid # visit \<Rightarrow> do {
          n \<leftarrow> loaded s nid;
          more \<leftarrow> (case n of
                     Internal ps cs b \<Rightarrow> do {
                       flags \<leftarrow> those (map (is_dirty s) cs);
                       Some (map fst (filter snd (zip cs flags)))
                     }
                   | Leaf _ \<Rightarrow> Some []);
          pre \<leftarrow> disk_dirty_walk s (rev more @ visit);
          Some (nid # pre)
        })"

definition resolve_offset :: "('v, 'p) disk_engine \<Rightarrow> (node_id, nat) btmap \<Rightarrow> node_id \<Rightarrow> nat option" where
  "resolve_offset s assigned nid = do {
     slot \<leftarrow> index (d_slots s) nid;
     case slot of
       Freed \<Rightarrow> None
     | OnDisk offset \<Rightarrow> Some offset
     | Loaded n d off b t \<Rightarrow> if d then bt_get assigned nid else off
   }"

definition node_payload :: "'v env \<Rightarrow> ('v, 'p) disk_engine \<Rightarrow> (node_id, nat) btmap \<Rightarrow> node_id \<Rightarrow>
    (disk_error + bytes) option" where
  "node_payload E s assigned nid = do {
     n \<leftarrow> loaded s nid;
     dn \<leftarrow> (case n of
              Leaf es \<Rightarrow> Some (DiskLeaf es)
            | Internal ps cs b \<Rightarrow> do {
                offs \<leftarrow> those (map (resolve_offset s assigned) cs);
                Some (DiskInternal ps offs b)
              });
     Some (case encode_node (env_codec E) dn of Inl e \<Rightarrow> Inl (Io e) | Inr bs \<Rightarrow> Inr bs)
   }"

text \<open>One record: length, checksum, payload.\<close>
definition record_bytes :: "codec \<Rightarrow> bytes \<Rightarrow> bytes" where
  "record_bytes cd payload = to_le 4 (of_nat (length payload) :: u32) @ to_le 4 (crc32 cd payload) @ payload"

fun serialize_nodes :: "'v env \<Rightarrow> ('v, 'p) disk_engine \<Rightarrow> node_id list \<Rightarrow> bytes \<Rightarrow> (node_id, nat) btmap \<Rightarrow>
    (node_id, nat) btmap \<Rightarrow> (disk_error + bytes \<times> (node_id, nat) btmap \<times> (node_id, nat) btmap) option" where
  "serialize_nodes E s [] buf assigned record_lens = Some (Inr (buf, assigned, record_lens))"
| "serialize_nodes E s (nid # nids) buf assigned record_lens = do {
     let offset = d_watermark s + length buf;
     p \<leftarrow> node_payload E s assigned nid;
     case p of
       Inl e \<Rightarrow> Some (Inl e)
     | Inr payload \<Rightarrow>
         if length payload > 2 ^ 32 - 1 then Some (Inl (NodeTooLarge (length payload)))
         else serialize_nodes E s nids (buf @ record_bytes (env_codec E) payload)
                (bt_insert nid offset assigned)
                (bt_insert nid (RECORD_HEADER_SIZE + length payload) record_lens)
   }"

text \<open>Adopting the written records in memory.\<close>
fun adopt_records :: "(node_id \<times> nat) list \<Rightarrow> (node_id, nat) btmap \<Rightarrow> ('v, 'p) disk_engine \<Rightarrow>
    ('v, 'p) disk_engine option" where
  "adopt_records [] record_lens s = Some s"
| "adopt_records ((nid, off) # assigned) record_lens s = do {
     slot \<leftarrow> index (d_slots s) nid;
     case slot of
       Loaded n d old_offset b t \<Rightarrow> do {
         exact \<leftarrow> bt_get record_lens nid;
         c \<leftarrow> recount b exact (d_cache s);
         let offs = (case old_offset of None \<Rightarrow> d_offsets s | Some old \<Rightarrow> bt_remove old (d_offsets s));
         adopt_records assigned record_lens
           (set_slot nid (Loaded n False (Some off) exact t)
             (s\<lparr>d_cache := c, d_offsets := bt_insert off nid offs\<rparr>))
       }
     | _ \<Rightarrow> None
   }"

text \<open>The superblock of the running commit.\<close>
definition new_superblock :: "('v, 'p) disk_engine \<Rightarrow> nat \<Rightarrow> nat \<Rightarrow> superblock" where
  "new_superblock s root_offset watermark =
     \<lparr>sb_magic = MAGIC, sb_format_version = FORMAT_VERSION, sb_params = d_params s,
      sb_last_seq = d_next_seq s, sb_generation = d_next_generation s,
      sb_root_offset = of_nat root_offset, sb_watermark = of_nat watermark\<rparr>"

definition publish_slot :: "u64 \<Rightarrow> nat" where
  "publish_slot generation = SUPERBLOCK_SLOTS ! unat (generation mod 2)"

text \<open>Steps 1 and 2: append the dirty nodes, then sync.\<close>
definition commit_data :: "'v env \<Rightarrow> bytes \<Rightarrow> ('v, 'p) disk_engine \<Rightarrow> (unit, ('v, 'p) disk_engine) dio" where
  "commit_data E buf s =
     and_then (if buf = [] then ok () s else on_vfs (write_all_at (env_vfs E) (d_watermark s) buf) s)
       (\<lambda>_ s. on_vfs (vfs_sync (env_vfs E)) s)"

text \<open>Steps 3 and 4: publish through the inactive slot, then sync again.\<close>
definition commit_publish :: "'v env \<Rightarrow> superblock \<Rightarrow> ('v, 'p) disk_engine \<Rightarrow> (unit, ('v, 'p) disk_engine) dio" where
  "commit_publish E sb s =
     (case encode_slot (env_codec E) sb of
        Inl e \<Rightarrow> err (Io e) s
      | Inr slot_bytes \<Rightarrow>
          and_then (on_vfs (write_all_at (env_vfs E) (publish_slot (d_next_generation s)) slot_bytes) s)
            (\<lambda>_ s. on_vfs (vfs_sync (env_vfs E)) s))"

text \<open>What an acknowledged commit does in memory.\<close>
definition commit_adopt :: "bytes \<Rightarrow> (node_id, nat) btmap \<Rightarrow> (node_id, nat) btmap \<Rightarrow> ('v, 'p) disk_engine \<Rightarrow>
    (commit_stats, ('v, 'p) disk_engine) dio" where
  "commit_adopt buf assigned record_lens s = do {
     s \<leftarrow> adopt_records assigned record_lens
            (s\<lparr>d_watermark := d_watermark s + length buf, d_next_generation := d_next_generation s + 1\<rparr>);
     s \<leftarrow> enforce_budget [] None s;
     ok \<lparr>nodes_written = length assigned, bytes_written = length buf + SUPERBLOCK_SLOT_SIZE\<rparr>
       (s\<lparr>d_ops_since_commit := 0\<rparr>)
   }"

definition commit_inner :: "'v env \<Rightarrow> ('v, 'p) disk_engine \<Rightarrow> (commit_stats, ('v, 'p) disk_engine) dio" where
  "commit_inner E s = do {
     d \<leftarrow> is_dirty s (d_root s);
     pre \<leftarrow> (if d then disk_dirty_walk s [d_root s] else Some []);
     r \<leftarrow> serialize_nodes E s (rev pre) [] [] [];
     case r of
       Inl e \<Rightarrow> err e s
     | Inr (buf, assigned, record_lens) \<Rightarrow>
         and_then (commit_data E buf s) (\<lambda>_ s. do {
           root_offset \<leftarrow> resolve_offset s assigned (d_root s);
           and_then (commit_publish E (new_superblock s root_offset (d_watermark s + length buf)) s)
             (\<lambda>_ s. commit_adopt buf assigned record_lens s)
         })
   }"

definition commit :: "'v env \<Rightarrow> ('v, 'p) disk_engine \<Rightarrow> (commit_stats, ('v, 'p) disk_engine) dio" where
  "commit E s = (if d_poisoned s then err Poisoned s else poison_on_error (commit_inner E s))"

section \<open>Creating and opening\<close>

text \<open>A constructor that fails has no engine, so its result is the error or the engine; the state of
  the device is part of it.\<close>
definition create_on_with :: "'v env \<Rightarrow> 'v \<Rightarrow> params \<Rightarrow> nat option \<Rightarrow> 'p policy \<Rightarrow>
    ((disk_error + ('v, 'p) disk_engine) \<times> 'v) option" where
  "create_on_with E v p cache_budget pol =
     (if \<not> (fanout p \<ge> 2 \<and> buffer_capacity p \<ge> 1 \<and> leaf_capacity p \<ge> 1) then None
      else do {
        (r, v) \<leftarrow> vfs_len (env_vfs E) v;
        case r of
          Inl e \<Rightarrow> Some (Inl (Io e), v)
        | Inr len \<Rightarrow>
            if len > 0 then Some (Inl (NotEmpty len), v)
            else do {
              let bytes = est_bytes (Leaf []);
              s \<leftarrow> touch 0 \<lparr>d_params = p, d_vfs = v, d_slots = [Loaded (Leaf []) True None bytes 0], d_root = 0,
                d_next_seq = 0, d_next_generation = 0, d_watermark = DATA_START, d_poisoned = False,
                d_cache = cache_default\<lparr>budget := cache_budget, cache_bytes := bytes, resident := 1\<rparr>,
                d_offsets = [], d_ops_since_commit = 0, d_policy = pol, d_trace = recorder_default\<rparr>;
              (r, s) \<leftarrow> commit E s;
              Some (case r of Inl e \<Rightarrow> Inl e | Inr _ \<Rightarrow> Inr s, d_vfs s)
            }
      })"

text \<open>Both slots in turn: the newest valid superblock within the file, and a foreign version if any.\<close>
fun scan_slots :: "'v env \<Rightarrow> nat \<Rightarrow> nat list \<Rightarrow> superblock option \<Rightarrow> u32 option \<Rightarrow> 'v \<Rightarrow>
    (superblock option \<times> u32 option, 'v) io" where
  "scan_slots E file_len [] best wrong_version v = Some (Inr (best, wrong_version), v)"
| "scan_slots E file_len (off # offs) best wrong_version v =
     (if file_len < off + SUPERBLOCK_SLOT_SIZE then scan_slots E file_len offs best wrong_version v
      else do {
        (r, v) \<leftarrow> read_exact_at (env_vfs E) off SUPERBLOCK_SLOT_SIZE v;
        case r of
          Inl e \<Rightarrow> Some (Inl e, v)
        | Inr slot \<Rightarrow>
            (case decode_slot (env_codec E) slot of
               Valid sb \<Rightarrow>
                 scan_slots E file_len offs
                   (if unat (sb_watermark sb) \<le> file_len \<and>
                       (case best of None \<Rightarrow> True | Some b \<Rightarrow> sb_generation sb > sb_generation b)
                    then Some sb else best) wrong_version v
             | WrongVersion found \<Rightarrow> scan_slots E file_len offs best (Some found) v
             | Invalid \<Rightarrow> scan_slots E file_len offs best wrong_version v)
      })"

definition opened :: "superblock \<Rightarrow> nat option \<Rightarrow> 'p policy \<Rightarrow> 'v \<Rightarrow> ('v, 'p) disk_engine" where
  "opened sb cache_budget pol v =
     \<lparr>d_params = sb_params sb, d_vfs = v, d_slots = [OnDisk (unat (sb_root_offset sb))], d_root = 0,
      d_next_seq = sb_last_seq sb, d_next_generation = sb_generation sb + 1,
      d_watermark = unat (sb_watermark sb), d_poisoned = False,
      d_cache = cache_default\<lparr>budget := cache_budget\<rparr>,
      d_offsets = [(unat (sb_root_offset sb), 0)], d_ops_since_commit = 0, d_policy = pol,
      d_trace = recorder_default\<rparr>"

definition open_on_with :: "'v env \<Rightarrow> 'v \<Rightarrow> nat option \<Rightarrow> 'p policy \<Rightarrow>
    ((disk_error + ('v, 'p) disk_engine) \<times> 'v) option" where
  "open_on_with E v cache_budget pol = do {
     (r, v) \<leftarrow> vfs_len (env_vfs E) v;
     case r of
       Inl e \<Rightarrow> Some (Inl (Io e), v)
     | Inr file_len \<Rightarrow> do {
         (r, v) \<leftarrow> scan_slots E file_len SUPERBLOCK_SLOTS None None v;
         case r of
           Inl e \<Rightarrow> Some (Inl (Io e), v)
         | Inr (best, wrong_version) \<Rightarrow>
             (case wrong_version of
                Some found \<Rightarrow> Some (Inl (UnsupportedVersion found), v)
              | None \<Rightarrow>
                  (case best of
                     None \<Rightarrow> Some (Inl NoValidSuperblock, v)
                   | Some sb \<Rightarrow> do {
                       (r, v) \<leftarrow> set_len (env_vfs E) (unat (sb_watermark sb)) v;
                       Some (case r of Inl e \<Rightarrow> Inl (Io e) | Inr _ \<Rightarrow> Inr (opened sb cache_budget pol v), v)
                     }))
       }
   }"

definition create_on :: "'v env \<Rightarrow> 'v \<Rightarrow> params \<Rightarrow> ((disk_error + ('v, unit) disk_engine) \<times> 'v) option" where
  "create_on E v p = create_on_with E v p None GreedyFullest"

definition create_on_bounded :: "'v env \<Rightarrow> 'v \<Rightarrow> params \<Rightarrow> nat \<Rightarrow>
    ((disk_error + ('v, unit) disk_engine) \<times> 'v) option" where
  "create_on_bounded E v p cache_budget = create_on_with E v p (Some cache_budget) GreedyFullest"

definition create_on_with_policy :: "'v env \<Rightarrow> 'v \<Rightarrow> params \<Rightarrow> 'p policy \<Rightarrow>
    ((disk_error + ('v, 'p) disk_engine) \<times> 'v) option" where
  "create_on_with_policy E v p pol = create_on_with E v p None pol"

definition open_on :: "'v env \<Rightarrow> 'v \<Rightarrow> ((disk_error + ('v, unit) disk_engine) \<times> 'v) option" where
  "open_on E v = open_on_with E v None GreedyFullest"

definition open_on_bounded :: "'v env \<Rightarrow> 'v \<Rightarrow> nat \<Rightarrow> ((disk_error + ('v, unit) disk_engine) \<times> 'v) option" where
  "open_on_bounded E v cache_budget = open_on_with E v (Some cache_budget) GreedyFullest"

definition open_on_with_policy :: "'v env \<Rightarrow> 'v \<Rightarrow> 'p policy \<Rightarrow>
    ((disk_error + ('v, 'p) disk_engine) \<times> 'v) option" where
  "open_on_with_policy E v pol = open_on_with E v None pol"

text \<open>\<open>generation()\<close>: the newest committed or recovered generation.\<close>
definition generation :: "('v, 'p) disk_engine \<Rightarrow> u64" where
  "generation s = d_next_generation s - 1"

definition file_len :: "'v env \<Rightarrow> ('v, 'p) disk_engine \<Rightarrow> (nat, ('v, 'p) disk_engine) dio" where
  "file_len E s = on_vfs (vfs_len (env_vfs E)) s"

section \<open>The trait\<close>

text \<open>\<open>expect\<close>: a storage failure on the infallible surface panics.\<close>
definition expect :: "('a, 's) dio \<Rightarrow> ('a \<times> 's) option" where
  "expect m = do { (r, s) \<leftarrow> m; case r of Inl e \<Rightarrow> None | Inr x \<Rightarrow> Some (x, s) }"

definition DiskEngine :: "'v env \<Rightarrow> ('v, 'p) disk_engine kv_ops" where
  "DiskEngine E = \<lparr>kv_new = (\<lambda>p. None),
     kv_insert = (\<lambda>k v s. map_option snd (expect (try_insert E k v s))),
     kv_delete = (\<lambda>k s. map_option snd (expect (try_delete E k s))),
     kv_upsert = (\<lambda>k op s. map_option snd (expect (try_upsert E k op s))),
     kv_scan = (\<lambda>lo hi s. map_option (\<lambda>(r, s). (map_sum Storage id r, s)) (try_scan E lo hi s)),
     kv_get = (\<lambda>k s. expect (try_get E k s)),
     kv_check_invariants = (\<lambda>s. check_invariants (disk_source s)),
     kv_trace = (\<lambda>s. v1 (d_trace s)), kv_trace2 = (\<lambda>s. v2 (d_trace s))\<rparr>"

end
