(* ===== verification/Vfs_Crash.thy ===== *)
theory Vfs_Crash
  imports Vfs
begin

text \<open>
  The storage contract and what the crash-injection device guarantees. The locale \<open>vfs\<close> states the
  documented contract once; the device and the counting wrapper over it are instances. For the
  device, the log is split at its syncs into the durable image and the window of un-synced
  operations, which gives the file after a crash at any point.
\<close>

section \<open>Byte buffers\<close>

lemma length_resize [simp]: "length (resize buf n) = n"
  by (simp add: resize_def)

lemma nth_resize: "i < n \<Longrightarrow> resize buf n ! i = (if i < length buf then buf ! i else 0)"
  by (auto simp: resize_def nth_append)

lemma resize_id [simp]: "resize buf (length buf) = buf"
  by (simp add: resize_def)

lemma length_write_at: "length (write_at buf off data) = max (length buf) (off + length data)"
  by (simp add: write_at_def Let_def)

lemma nth_write_at:
  assumes "i < max (length buf) (off + length data)"
  shows "write_at buf off data ! i =
    (if off \<le> i \<and> i < off + length data then data ! (i - off) else if i < length buf then buf ! i else 0)"
proof -
  let ?b = "if length buf < off + length data then resize buf (off + length data) else buf"
  have len: "length ?b = max (length buf) (off + length data)" by simp
  have b: "?b ! i = (if i < length buf then buf ! i else 0)" using assms by (auto simp: nth_resize)
  have "write_at buf off data = take off ?b @ data @ drop (off + length data) ?b"
    by (simp add: write_at_def Let_def)
  moreover have "(take off ?b @ data @ drop (off + length data) ?b) ! i =
      (if off \<le> i \<and> i < off + length data then data ! (i - off) else ?b ! i)"
    using assms len by (auto simp: nth_append min_def)
  ultimately show ?thesis using b by simp
qed

text \<open>Reading back what was written, and what was not.\<close>

lemma take_drop_write_at:
  "n = length data \<Longrightarrow> take n (drop off (write_at buf off data)) = data"
  by (rule nth_equalityI) (auto simp: length_write_at nth_write_at)

lemma take_drop_write_other:
  assumes "o' + n \<le> length buf" "disjoint_ranges o' (o' + n) off (off + length data)"
  shows "take n (drop o' (write_at buf off data)) = take n (drop o' buf)"
  by (rule nth_equalityI) (use assms in \<open>auto simp: length_write_at nth_write_at disjoint_ranges_def\<close>)

lemma write_at_commute:
  assumes "disjoint_ranges o1 (o1 + length d1) o2 (o2 + length d2)"
  shows "write_at (write_at buf o1 d1) o2 d2 = write_at (write_at buf o2 d2) o1 d1"
proof (rule nth_equalityI)
  show "length (write_at (write_at buf o1 d1) o2 d2) = length (write_at (write_at buf o2 d2) o1 d1)"
    by (simp add: length_write_at)
  fix i assume "i < length (write_at (write_at buf o1 d1) o2 d2)"
  then show "write_at (write_at buf o1 d1) o2 d2 ! i = write_at (write_at buf o2 d2) o1 d1 ! i"
    using assms by (auto simp: length_write_at nth_write_at disjoint_ranges_def)
qed

section \<open>The storage contract\<close>

locale vfs =
  fixes ops :: "'v vfs_ops" and view :: "'v \<Rightarrow> bytes"
  assumes read_law: "read_exact_at ops off n v = Some (r, v') \<Longrightarrow>
      view v' = view v \<and> (\<forall>bs. r = Inr bs \<longrightarrow> off + n \<le> length (view v) \<and> bs = take n (drop off (view v)))"
    and write_law: "write_all_at ops off data v = Some (Inr (), v') \<Longrightarrow> view v' = write_at (view v) off data"
    and sync_law: "vfs_sync ops v = Some (Inr (), v') \<Longrightarrow> view v' = view v"
    and len_law: "vfs_len ops v = Some (Inr n, v') \<Longrightarrow> n = length (view v) \<and> view v' = view v"
    and set_len_law: "set_len ops n v = Some (Inr (), v') \<Longrightarrow> view v' = resize (view v) n"
begin

text \<open>A write is read back, and leaves every disjoint range alone.\<close>

lemma write_then_read:
  assumes "write_all_at ops off data v = Some (Inr (), v')"
    and "read_exact_at ops off (length data) v' = Some (Inr bs, v'')"
  shows "bs = data"
  using write_law [OF assms(1)] read_law [OF assms(2)] by (simp add: take_drop_write_at)

lemma write_keeps_other:
  assumes "write_all_at ops off data v = Some (Inr (), v')" "disjoint_ranges o' (o' + n) off (off + length data)"
    and "read_exact_at ops o' n v = Some (Inr bs, v1)" "read_exact_at ops o' n v' = Some (Inr bs', v2)"
  shows "bs' = bs"
  using write_law [OF assms(1)] read_law [OF assms(3)] read_law [OF assms(4)] assms(2)
  by (simp add: take_drop_write_other)

text \<open>Counting changes nothing that a client can see.\<close>

lemma counting_vfs: "vfs (CountingVfs ops) (\<lambda>c. view (c_inner c))"
proof
  fix off n r and c c' :: "'v counting_vfs"
  assume "read_exact_at (CountingVfs ops) off n c = Some (r, c')"
  then obtain v' where "read_exact_at ops off n (c_inner c) = Some (r, v')" "c_inner c' = v'"
    by (auto simp: CountingVfs_def on_inner_def bind_eq_Some_conv)
  then show "view (c_inner c') = view (c_inner c) \<and>
      (\<forall>bs. r = Inr bs \<longrightarrow> off + n \<le> length (view (c_inner c)) \<and> bs = take n (drop off (view (c_inner c))))"
    using read_law by simp
qed (auto simp: CountingVfs_def on_inner_def bind_eq_Some_conv write_law sync_law len_law set_len_law)

end

interpretation faulty: vfs FaultyVfs fs_view
  by unfold_locales
    (auto simp: FaultyVfs_def faulty_read_def faulty_write_def faulty_sync_def sync_window_def faulty_len_def
      faulty_set_len_def bind_eq_Some_conv split: if_splits option.splits)

interpretation counted: vfs "CountingVfs FaultyVfs" "\<lambda>c. fs_view (c_inner c)"
  by (rule faulty.counting_vfs)

section \<open>Windows\<close>

text \<open>One un-synced operation under its fate.\<close>
fun fated :: "log_entry \<times> fate \<Rightarrow> bytes \<Rightarrow> bytes" where
  "fated (LogWrite off data, f) buf = apply_write f buf off data"
| "fated (LogSetLen len, f) buf = (if f = Drop then buf else resize buf len)"
| "fated (_, f) buf = buf"

definition with_fates :: "log_entry list \<Rightarrow> fate list \<Rightarrow> bool \<Rightarrow> (log_entry \<times> fate) list" where
  "with_fates window fates all = map (\<lambda>i. (window ! i, fate_at fates all i)) [0..<length window]"

abbreviation window_ok :: "log_entry list \<Rightarrow> bool" where
  "window_ok w \<equiv> \<forall>e\<in>set w. \<not> is_sync e"

lemma apply_window_from_fold:
  "window_ok w \<Longrightarrow>
     apply_window_from i buf w fates all = Some (fold fated (map (\<lambda>j. (w ! j, fate_at fates all (i + j))) [0..<length w]) buf)"
proof (induction i buf w fates all rule: apply_window_from.induct)
  case (2 i buf off data w fates all)
  then show ?case by (simp add: upt_conv_Cons map_Suc_upt [symmetric] comp_def del: upt_Suc)
next
  case (3 i buf len w fates all)
  then show ?case by (simp add: upt_conv_Cons map_Suc_upt [symmetric] comp_def del: upt_Suc)
qed auto

lemma apply_window_fold: "window_ok w \<Longrightarrow> apply_window buf w fates all = Some (fold fated (with_fates w fates all) buf)"
  by (simp add: apply_window_def with_fates_def apply_window_from_fold)

lemma with_fates_all: "with_fates w fates True = map (\<lambda>e. (e, Apply)) w"
  by (rule nth_equalityI) (simp_all add: with_fates_def fate_at_def)

lemma with_fates_none: "with_fates w [] all = map (\<lambda>e. (e, Apply)) w"
  by (rule nth_equalityI) (simp_all add: with_fates_def fate_at_def)

lemma with_fates_Nil [simp]: "with_fates [] fates all = []"
  by (simp add: with_fates_def)

lemma with_fates_snoc: "with_fates (w @ [e]) fates all = with_fates w fates all @ [(e, fate_at fates all (length w))]"
  by (auto simp: with_fates_def nth_append)

text \<open>The image after the last sync of a log, and the window behind it.\<close>
fun sync_state :: "bytes \<Rightarrow> log_entry list \<Rightarrow> log_entry list \<Rightarrow> bytes \<times> log_entry list" where
  "sync_state img w [] = (img, w)"
| "sync_state img w (SyncOk # es) = sync_state (fold fated (with_fates w [] True) img) [] es"
| "sync_state img w (SyncFailed fates # es) = sync_state (fold fated (with_fates w fates False) img) [] es"
| "sync_state img w (e # es) = sync_state img (w @ [e]) es"

lemma sync_state_append: "sync_state img w (es @ fs) = (let (img', w') = sync_state img w es in sync_state img' w' fs)"
  by (induction img w es rule: sync_state.induct) auto

lemma sync_state_window_ok: "window_ok w \<Longrightarrow> window_ok (snd (sync_state img w es))"
  by (induction img w es rule: sync_state.induct) auto

lemma sync_state_suffix: "\<exists>n. n \<le> length (w @ es) \<and> snd (sync_state img w es) = drop n (w @ es)"
proof (induction img w es rule: sync_state.induct)
  case (2 img w es)
  then obtain n where "n \<le> length es" "snd (sync_state (fold fated (with_fates w [] True) img) [] es) = drop n es" by auto
  then show ?case by (intro exI [of _ "length w + 1 + n"]) simp
next
  case (3 img w fates es)
  then obtain n where "n \<le> length es" "snd (sync_state (fold fated (with_fates w fates False) img) [] es) = drop n es" by auto
  then show ?case by (intro exI [of _ "length w + 1 + n"]) simp
qed (auto intro: exI [of _ 0])

lemma replay_syncs_state:
  assumes "log = pre @ w @ es @ post" "window_ok w" "i = length (pre @ w)"
  shows "\<exists>n. replay_syncs log i (length pre) img es = Some (fst (sync_state img w es), n) \<and>
    n \<le> i + length es \<and> drop n (take (i + length es) log) = snd (sync_state img w es)"
  using assms
proof (induction es arbitrary: pre w i img)
  case Nil
  then show ?case by simp
next
  case (Cons e es)
  have sl: "slice log (length pre) i = Some w" using Cons.prems by (simp add: slice_def)
  show ?case
  proof (cases "is_sync e")
    case True
    have "log = (pre @ w @ [e]) @ [] @ es @ post" "i + 1 = length ((pre @ w @ [e]) @ [])" using Cons.prems by auto
    from Cons.IH [OF this(1) _ this(2)] show ?thesis
      using True sl Cons.prems(2) by (cases e) (auto simp: apply_window_fold Cons.prems(3))
  next
    case False
    have "log = pre @ (w @ [e]) @ es @ post" "i + 1 = length (pre @ w @ [e])" "window_ok (w @ [e])"
      using Cons.prems False by auto
    from Cons.IH [OF this(1) this(3) this(2)] show ?thesis using False by (cases e) auto
  qed
qed

text \<open>The file after a crash: the image at the last sync, and the window under its fates.\<close>

lemma crash_image_eq:
  assumes "pos \<le> length (fs_log s)"
  shows "crash_image_at s pos fates =
    (let (img, w) = sync_state (fs_initial s) [] (take pos (fs_log s)) in Some (fold fated (with_fates w fates False) img))"
proof -
  let ?es = "take pos (fs_log s)"
  let ?r = "sync_state (fs_initial s) [] ?es"
  obtain n where n: "replay_syncs (fs_log s) 0 0 (fs_initial s) ?es = Some (fst ?r, n)"
    "n \<le> length ?es" "drop n (take (length ?es) (fs_log s)) = snd ?r"
    using replay_syncs_state [of "fs_log s" "[]" "[]" ?es "drop pos (fs_log s)" 0 "fs_initial s"] by auto
  have "slice (fs_log s) n pos = Some (snd ?r)"
    using n(2,3) assms by (simp add: slice_def drop_take)
  then show ?thesis using n(1) assms sync_state_window_ok [of "[]" "fs_initial s" ?es]
    by (simp add: crash_image_at_def apply_window_fold split_beta)
qed

section \<open>The device over time\<close>

definition window :: "faulty_state \<Rightarrow> log_entry list" where
  "window s = drop (fs_window_start s) (fs_log s)"

text \<open>The log explains the durable bytes and the window, no two pending writes overlap, and as long as
  no sync has failed the view is what a sync would make durable.\<close>
definition faulty_ok :: "faulty_state \<Rightarrow> bool" where
  "faulty_ok s \<longleftrightarrow> sync_state (fs_initial s) [] (fs_log s) = (fs_durable s, window s) \<and>
     fs_window_start s \<le> length (fs_log s) \<and>
     sorted_wrt (\<lambda>e e'. \<forall>off data. e' = LogWrite off data \<longrightarrow> \<not> overlaps off data e) (window s) \<and>
     ((\<forall>e\<in>set (fs_log s). \<forall>fates. e \<noteq> SyncFailed fates) \<longrightarrow>
        fs_view s = fold fated (with_fates (window s) [] True) (fs_durable s))"

inductive device_step :: "faulty_state \<Rightarrow> faulty_state \<Rightarrow> bool" where
  dev_read: "faulty_read off n s = Some (r, s') \<Longrightarrow> device_step s s'"
| dev_write: "faulty_write off data s = Some (r, s') \<Longrightarrow> device_step s s'"
| dev_sync: "faulty_sync s = Some (r, s') \<Longrightarrow> device_step s s'"
| dev_len: "faulty_len s = Some (r', s') \<Longrightarrow> device_step s s'"
| dev_set_len: "faulty_set_len n s = Some (r, s') \<Longrightarrow> device_step s s'"
| dev_arm: "device_step s (fail_nth_sync skip fates s)"

lemma faulty_ok_image: "faulty_ok (from_image img)"
  by (simp add: faulty_ok_def from_image_def faulty_new_def window_def)

lemma faulty_ok_window: "faulty_ok s \<Longrightarrow> window_ok (window s)"
  using sync_state_window_ok [of "[]" "fs_initial s" "fs_log s"] by (simp add: faulty_ok_def)

lemma window_append:
  "faulty_ok s \<Longrightarrow> fs_log s' = fs_log s @ [e] \<Longrightarrow> fs_window_start s' = fs_window_start s \<Longrightarrow> window s' = window s @ [e]"
  by (simp add: window_def faulty_ok_def)

lemma faulty_ok_append:
  assumes ok: "faulty_ok s" and e: "\<not> is_sync e" and log: "fs_log s' = fs_log s @ [e]"
    and same: "fs_window_start s' = fs_window_start s" "fs_initial s' = fs_initial s" "fs_durable s' = fs_durable s"
    and view: "fs_view s' = fated (e, Apply) (fs_view s)"
    and new: "\<forall>off data. e = LogWrite off data \<longrightarrow> (\<forall>e'\<in>set (window s). \<not> overlaps off data e')"
  shows "faulty_ok s'"
proof -
  have w: "window s' = window s @ [e]" by (rule window_append [OF ok log same(1)])
  have "sync_state img w [e] = (img, w @ [e])" for img w using e by (cases e) auto
  then show ?thesis using ok new w unfolding faulty_ok_def log same view
    by (auto simp: sync_state_append sorted_wrt_append with_fates_snoc fate_at_def)
qed

lemma sync_window_ok:
  assumes "faulty_ok s"
  shows "\<exists>s'. sync_window s = Some (Inr (), s') \<and> faulty_ok s' \<and> window s' = [] \<and> fs_view s' = fs_view s \<and>
    fs_log s' = fs_log s @ [SyncOk] \<and> fs_initial s' = fs_initial s \<and> fs_fail_sync s' = fs_fail_sync s \<and>
    fs_durable s' = fold fated (with_fates (window s) [] True) (fs_durable s)"
  using assms apply_window_fold [OF faulty_ok_window [OF assms], of "fs_durable s" "[]" True]
  by (simp add: sync_window_def faulty_ok_def window_def sync_state_append)

lemma sync_failed_ok:
  assumes "faulty_ok s" "fs_fail_sync s = Some (0, fates)"
  shows "\<exists>s'. faulty_sync s = Some (Inl (IoOther ''injected sync failure''), s') \<and> faulty_ok s' \<and> window s' = [] \<and>
    fs_log s' = fs_log s @ [SyncFailed fates] \<and> fs_initial s' = fs_initial s \<and>
    fs_durable s' = fold fated (with_fates (window s) fates False) (fs_durable s)"
  using assms apply_window_fold [OF faulty_ok_window [OF assms(1)], of "fs_durable s" fates False]
  by (simp add: faulty_sync_def faulty_ok_def window_def sync_state_append)

lemma faulty_ok_fail: "faulty_ok (s\<lparr>fs_fail_sync := x\<rparr>) = faulty_ok s"
  by (simp add: faulty_ok_def window_def)

lemma window_fail [simp]: "window (s\<lparr>fs_fail_sync := x\<rparr>) = window s"
  by (simp add: window_def)

lemma faulty_sync_cases:
  assumes "faulty_ok s" "faulty_sync s = Some (r, s')"
  shows "faulty_ok s' \<and> (\<exists>e. fs_log s' = fs_log s @ [e]) \<and> fs_initial s' = fs_initial s"
proof (cases "fs_fail_sync s")
  case None
  then show ?thesis using assms sync_window_ok [OF assms(1)] by (auto simp: faulty_sync_def)
next
  case (Some a)
  obtain skip fates where a: "a = (skip, fates)" by fastforce
  show ?thesis
  proof (cases "skip = 0")
    case True
    then show ?thesis using assms(2) sync_failed_ok [of s fates] assms(1) Some a by auto
  next
    case False
    then have "faulty_sync s = sync_window (s\<lparr>fs_fail_sync := Some (skip - 1, fates)\<rparr>)" using Some a by (simp add: faulty_sync_def)
    then show ?thesis using assms sync_window_ok [of "s\<lparr>fs_fail_sync := Some (skip - 1, fates)\<rparr>"]
      by (auto simp: faulty_ok_fail)
  qed
qed

lemma device_step_ok:
  assumes "device_step s s'" "faulty_ok s"
  shows "faulty_ok s' \<and> (\<exists>es. fs_log s' = fs_log s @ es) \<and> fs_initial s' = fs_initial s"
  using assms
proof (cases rule: device_step.cases)
  case (dev_write off data r)
  then have s': "s' = s\<lparr>fs_view := write_at (fs_view s) off data, fs_log := fs_log s @ [LogWrite off data]\<rparr>"
    and free: "\<forall>e\<in>set (window s). \<not> overlaps off data e"
    by (auto simp: faulty_write_def window_def split: if_splits)
  have "faulty_ok s'" by (rule faulty_ok_append [OF assms(2), of "LogWrite off data"]) (use s' free in auto)
  then show ?thesis using s' by simp
next
  case (dev_set_len n r)
  then have s': "s' = s\<lparr>fs_view := resize (fs_view s) n, fs_log := fs_log s @ [LogSetLen n]\<rparr>"
    by (auto simp: faulty_set_len_def)
  have "faulty_ok s'" by (rule faulty_ok_append [OF assms(2), of "LogSetLen n"]) (use s' in auto)
  then show ?thesis using s' by simp
next
  case (dev_sync r)
  then show ?thesis using faulty_sync_cases [OF assms(2)] by blast
qed (auto simp: faulty_read_def faulty_len_def fail_nth_sync_def faulty_ok_fail)

lemma device_run_ok:
  assumes "device_step\<^sup>*\<^sup>* s s'" "faulty_ok s"
  shows "faulty_ok s' \<and> (\<exists>es. fs_log s' = fs_log s @ es) \<and> fs_initial s' = fs_initial s"
  using assms
proof (induction rule: rtranclp_induct)
  case (step t u)
  then show ?case using device_step_ok [OF step(2)] by fastforce
qed simp

lemma crash_image_window: "faulty_ok s \<Longrightarrow> crash_image_at s (log_len s) fates = Some (fold fated (with_fates (window s) fates False) (fs_durable s))"
  by (simp add: crash_image_eq log_len_def faulty_ok_def)

lemma apply_write_commute:
  assumes "disjoint_ranges o1 (o1 + length d1) o2 (o2 + length d2)"
  shows "apply_write f2 (apply_write f1 buf o1 d1) o2 d2 = apply_write f1 (apply_write f2 buf o2 d2) o1 d1"
  using assms by (cases f1; cases f2) (auto intro!: write_at_commute simp: disjoint_ranges_def min_def split: if_splits)

lemma fated_commute:
  assumes "e = LogWrite o1 d1" "\<not> overlaps o1 d1 e'" "e' = LogWrite o2 d2"
  shows "fated (e, f) \<circ> fated (e', f') = fated (e', f') \<circ> fated (e, f)"
  using assms apply_write_commute [of o1 d1 o2 d2] by (auto simp: fun_eq_iff)

section \<open>Properties of the storage layer\<close>

text \<open>C25. A successful sync makes durable what was pending: on any device, a crash right after it leaves,
  whatever the fates, the bytes that were durable before with every write and resize since the last sync
  attempt applied in full. As long as no sync has failed, that is exactly what the engine saw before the
  sync; after a failed one it need not be, since the view keeps the changes that the failure discarded.\<close>

theorem sync_survives_any_crash:
  assumes "device_step\<^sup>*\<^sup>* (from_image img) s" "faulty_sync s = Some (Inr (), s')"
  shows "crash_image_at s' (log_len s') fates = Some (fs_durable s') \<and>
    fs_durable s' = fold fated (with_fates (window s) [] True) (fs_durable s) \<and>
    ((\<forall>e\<in>set (fs_log s). \<forall>fates. e \<noteq> SyncFailed fates) \<longrightarrow> fs_durable s' = fs_view s)"
proof -
  have ok: "faulty_ok s" using device_run_ok [OF assms(1) faulty_ok_image] by simp
  define t where "t = (case fs_fail_sync s of None \<Rightarrow> s
    | Some (skip, fates) \<Rightarrow> s\<lparr>fs_fail_sync := Some (skip - 1, fates)\<rparr>)"
  have t: "faulty_ok t" "window t = window s" "fs_durable t = fs_durable s" "fs_view t = fs_view s"
    using ok by (auto simp: t_def faulty_ok_fail split: option.split)
  have "sync_window t = Some (Inr (), s')"
    using assms(2) by (auto simp: faulty_sync_def t_def bind_eq_Some_conv split: option.splits if_splits)
  with sync_window_ok [OF t(1)] have s': "faulty_ok s'" "window s' = []"
    "fs_durable s' = fold fated (with_fates (window s) [] True) (fs_durable s)" by (auto simp: t)
  have "(\<forall>e\<in>set (fs_log s). \<forall>fates. e \<noteq> SyncFailed fates) \<longrightarrow> fs_durable s' = fs_view s"
    using ok s'(3) by (auto simp: faulty_ok_def)
  with crash_image_window [OF s'(1)] s'(2,3) show ?thesis by simp
qed

theorem sync_survives_any_crash_witness:
  "\<exists>s s'. faulty_write 2 [7] (from_image [1]) = Some (Inr (), s) \<and> faulty_sync s = Some (Inr (), s') \<and>
     crash_image_at s' (log_len s') [Drop, Tear 0] = Some [1, 0, 7]"
proof -
  let ?s = "(from_image [1])\<lparr>fs_view := [1, 0, 7], fs_log := [LogWrite 2 [7]]\<rparr>"
  have w: "faulty_write 2 [7] (from_image [1]) = Some (Inr (), ?s)"
    by (simp add: faulty_write_def from_image_def faulty_new_def write_at_def resize_def)
  then have run: "device_step\<^sup>*\<^sup>* (from_image [1]) ?s" by (blast intro: dev_write)
  obtain s' where s': "faulty_sync ?s = Some (Inr (), s')"
    by (simp add: faulty_sync_def sync_window_def from_image_def faulty_new_def apply_window_def fate_at_def)
  note crash = sync_survives_any_crash [OF run s', of "[Drop, Tear 0]"]
  have "fs_durable s' = [1, 0, 7]" using crash [THEN conjunct2, THEN conjunct2] by simp
  then have "crash_image_at s' (log_len s') [Drop, Tear 0] = Some [1, 0, 7]" using crash [THEN conjunct1] by simp
  with w s' show ?thesis by blast
qed

text \<open>C26. History is fixed: whatever the device does later, the file that a crash at an earlier point
  would have left is the same.\<close>

theorem crash_history_fixed:
  assumes "device_step\<^sup>*\<^sup>* (from_image img) s" "device_step\<^sup>*\<^sup>* s s'" "pos \<le> log_len s"
  shows "crash_image_at s' pos fates = crash_image_at s pos fates"
proof -
  have ok: "faulty_ok s" using device_run_ok [OF assms(1) faulty_ok_image] by simp
  from device_run_ok [OF assms(2) ok] obtain es where "fs_log s' = fs_log s @ es" "fs_initial s' = fs_initial s" by blast
  with assms(3) show ?thesis by (simp add: crash_image_eq log_len_def)
qed

theorem crash_history_fixed_witness:
  "\<exists>s'. faulty_write 0 [9] (from_image [1]) = Some (Inr (), s') \<and> crash_image_at s' 0 [] = crash_image_at (from_image [1]) 0 []"
proof -
  obtain s' where s': "faulty_write 0 [9] (from_image [1]) = Some (Inr (), s')"
    by (simp add: faulty_write_def from_image_def faulty_new_def)
  then have "device_step\<^sup>*\<^sup>* (from_image [1]) s'" by (blast intro: dev_write)
  from crash_history_fixed [OF _ this, of "[1]" 0 "[]"] s' show ?thesis by (simp add: log_len_def)
qed

text \<open>C27. Un-synced writes may land in any order: the writes pending at a crash, with their fates, give the
  same file in every order, since the device admits no two overlapping writes between syncs.\<close>

theorem crash_order_irrelevant:
  assumes "device_step\<^sup>*\<^sup>* (from_image img) s" "\<forall>e\<in>set (window s). \<exists>off data. e = LogWrite off data"
    and "mset order = mset (with_fates (window s) fates False)"
  shows "crash_image_at s (log_len s) fates = Some (fold fated order (fs_durable s))"
proof -
  have ok: "faulty_ok s" using device_run_ok [OF assms(1) faulty_ok_image] by simp
  let ?w = "with_fates (window s) fates False"
  have pair: "\<not> overlaps off data (window s ! i)" if "i < j" "j < length (window s)" "window s ! j = LogWrite off data" for i j off data
    using ok that by (auto simp: faulty_ok_def sorted_wrt_iff_nth_less)
  have "fated x \<circ> fated y = fated y \<circ> fated x" if xy: "x \<in> set ?w" "y \<in> set ?w" for x y
  proof -
    obtain i j where ij: "i < length (window s)" "j < length (window s)"
      "x = (window s ! i, fate_at fates False i)" "y = (window s ! j, fate_at fates False j)"
      using xy by (auto simp: with_fates_def)
    obtain o1 d1 o2 d2 where e: "window s ! i = LogWrite o1 d1" "window s ! j = LogWrite o2 d2"
      using assms(2) ij(1,2) by (meson nth_mem)
    consider "i = j" | "i < j" | "j < i" by linarith
    then show ?thesis
    proof cases
      case 2
      then show ?thesis using pair [OF 2 ij(2) e(2)] fated_commute [OF e(2) _ e(1)] ij(3,4) by simp
    next
      case 3
      then show ?thesis using pair [OF 3 ij(1) e(1)] fated_commute [OF e(1) _ e(2)] ij(3,4) by simp
    qed (use ij in simp)
  qed
  from fold_multiset_equiv [of ?w fated order, OF this] assms(3) have "fold fated ?w = fold fated order" by simp
  then show ?thesis using crash_image_window [OF ok] by simp
qed

theorem crash_order_irrelevant_witness:
  "\<exists>s1 s. faulty_write 0 [5] (from_image [1, 2]) = Some (Inr (), s1) \<and> faulty_write 1 [6] s1 = Some (Inr (), s) \<and>
     crash_image_at s (log_len s) [Apply, Zero] = Some (fold fated [(LogWrite 1 [6], Zero), (LogWrite 0 [5], Apply)] [1, 2])"
proof -
  let ?s1 = "(from_image [1, 2])\<lparr>fs_view := [5, 2], fs_log := [LogWrite 0 [5]]\<rparr>"
  let ?s = "?s1\<lparr>fs_view := [5, 6], fs_log := [LogWrite 0 [5], LogWrite 1 [6]]\<rparr>"
  have w: "faulty_write 0 [5] (from_image [1, 2]) = Some (Inr (), ?s1)" "faulty_write 1 [6] ?s1 = Some (Inr (), ?s)"
    by (simp_all add: faulty_write_def from_image_def faulty_new_def write_at_def disjoint_ranges_def)
  then have run: "device_step\<^sup>*\<^sup>* (from_image [1, 2]) ?s" by (meson dev_write rtranclp.rtrancl_refl rtranclp.rtrancl_into_rtrancl)
  have win: "window ?s = [LogWrite 0 [5], LogWrite 1 [6]]" "fs_durable ?s = [1, 2]"
    by (simp_all add: window_def from_image_def faulty_new_def)
  have wf: "with_fates [LogWrite 0 [5], LogWrite 1 [6]] [Apply, Zero] False = [(LogWrite 0 [5], Apply), (LogWrite 1 [6], Zero)]"
    by (simp add: with_fates_def fate_at_def upt_conv_Cons)
  have "mset [(LogWrite 1 [6], Zero), (LogWrite 0 [5], Apply)] = mset (with_fates (window ?s) [Apply, Zero] False)"
    unfolding win wf by simp
  from crash_order_irrelevant [OF run _ this] w win show ?thesis by auto
qed

text \<open>The device panics on a write exactly when it overlaps one pending since the last sync, and
  otherwise performs it.\<close>

theorem overlapping_write_panics:
  "faulty_write off data s =
     (if \<exists>o' d. LogWrite o' d \<in> set (window s) \<and> o' < off + length data \<and> off < o' + length d then None
      else Some (Inr (), s\<lparr>fs_view := write_at (fs_view s) off data, fs_log := fs_log s @ [LogWrite off data]\<rparr>))"
proof -
  have "(\<exists>e\<in>set (window s). overlaps off data e) \<longleftrightarrow>
      (\<exists>o' d. LogWrite o' d \<in> set (window s) \<and> o' < off + length data \<and> off < o' + length d)"
    (is "?l \<longleftrightarrow> ?r")
  proof
    assume ?l
    then obtain e where e: "e \<in> set (window s)" "overlaps off data e" by blast
    show ?r by (cases e; use e in \<open>auto simp: disjoint_ranges_def not_le\<close>)
  qed (force simp: disjoint_ranges_def)
  then show ?thesis by (simp add: faulty_write_def window_def)
qed

text \<open>A client's calls, to compare a device with the counting wrapper over it.\<close>
datatype vfs_call = CallRead nat nat | CallWrite nat bytes | CallSync | CallLen | CallSetLen nat

datatype vfs_answer = AnsBytes "io_error + bytes" | AnsUnit "io_error + unit" | AnsLen "io_error + nat"

definition answer :: "('a \<Rightarrow> vfs_answer) \<Rightarrow> ('a \<times> 'v) option \<Rightarrow> (vfs_answer \<times> 'v) option" where
  "answer f = map_option (\<lambda>(r, v). (f r, v))"

fun run_call :: "'v vfs_ops \<Rightarrow> vfs_call \<Rightarrow> 'v \<Rightarrow> (vfs_answer \<times> 'v) option" where
  "run_call ops (CallRead off n) v = answer AnsBytes (read_exact_at ops off n v)"
| "run_call ops (CallWrite off data) v = answer AnsUnit (write_all_at ops off data v)"
| "run_call ops CallSync v = answer AnsUnit (vfs_sync ops v)"
| "run_call ops CallLen v = answer AnsLen (vfs_len ops v)"
| "run_call ops (CallSetLen n) v = answer AnsUnit (set_len ops n v)"

fun vfs_calls :: "'v vfs_ops \<Rightarrow> vfs_call list \<Rightarrow> 'v \<Rightarrow> (vfs_answer list \<times> 'v) option" where
  "vfs_calls ops [] v = Some ([], v)"
| "vfs_calls ops (c # cs) v = do {
     (a, v) \<leftarrow> run_call ops c v;
     (as, v) \<leftarrow> vfs_calls ops cs v;
     Some (a # as, v)
   }"

fun count_call :: "vfs_call \<Rightarrow> io_stats \<Rightarrow> io_stats" where
  "count_call (CallRead off n) st = st\<lparr>read_ops := read_ops st + 1, read_bytes := read_bytes st + n\<rparr>"
| "count_call (CallWrite off data) st = st\<lparr>write_ops := write_ops st + 1, write_bytes := write_bytes st + length data\<rparr>"
| "count_call CallSync st = st\<lparr>syncs := syncs st + 1\<rparr>"
| "count_call CallLen st = st"
| "count_call (CallSetLen n) st = st\<lparr>set_lens := set_lens st + 1\<rparr>"

lemma counting_call:
  "run_call (CountingVfs ops) c w =
     map_option (\<lambda>(a, v). (a, w\<lparr>c_inner := v, c_stats := count_call c (c_stats w)\<rparr>)) (run_call ops c (c_inner w))"
  by (cases c) (auto simp: CountingVfs_def on_inner_def answer_def map_option_case split: option.split)

text \<open>C28. Counting is transparent: any sequence of calls gives the same answers, errors and panics
  included, leaves the wrapped device in the same state, and counts each call and its bytes once.\<close>

theorem counting_transparent:
  "vfs_calls (CountingVfs ops) cs w =
     map_option (\<lambda>(as, v). (as, w\<lparr>c_inner := v, c_stats := fold count_call cs (c_stats w)\<rparr>)) (vfs_calls ops cs (c_inner w))"
  by (induction cs arbitrary: w) (auto simp: counting_call split_beta map_option_case split: option.split bind_split)

end
