(* ===== verification/Disk_Invariant.thy ===== *)
theory Disk_Invariant
  imports Disk Vfs_Crash
begin

text \<open>
  What every operation of the disk engine keeps. The tree machinery changes the engine only through
  a handful of primitives (loading a slot, mutable access, allocation, release) and a few field
  updates; the locale \<open>slot_invariant\<close> asks a predicate to be kept by those and concludes, once, that
  every operation keeps it, on success and on error alike.
\<close>

section \<open>Errors propagate\<close>

lemma and_then_Some:
  "and_then m f = Some (r, s') \<longleftrightarrow>
     (\<exists>e. m = Some (Inl e, s') \<and> r = Inl e) \<or> (\<exists>x s1. m = Some (Inr x, s1) \<and> f x s1 = Some (r, s'))"
  by (auto simp: and_then_def bind_eq_Some_conv split: sum.splits) (metis old.sum.exhaust)

lemma poison_Some:
  "poison_on_error m = Some (r, s') \<longleftrightarrow>
     (\<exists>e s1. m = Some (Inl e, s1) \<and> r = Inl e \<and> s' = s1\<lparr>d_poisoned := True\<rparr>) \<or> (\<exists>x. m = Some (Inr x, s') \<and> r = Inr x)"
  by (auto simp: poison_on_error_def bind_eq_Some_conv split: sum.splits) (metis old.sum.exhaust)

lemma bind_SomeE:
  assumes "Option.bind m f = Some y"
  obtains x where "m = Some x" "f x = Some y"
  using assms by (auto simp: bind_eq_Some_conv)

lemma and_thenE:
  assumes "and_then m f = Some (r, s')"
  obtains e where "m = Some (Inl e, s')" "r = Inl e" | x s1 where "m = Some (Inr x, s1)" "f x s1 = Some (r, s')"
  using assms by (auto simp: and_then_Some)

lemma poisonE:
  assumes "poison_on_error m = Some (r, s')"
  obtains e s1 where "m = Some (Inl e, s1)" "r = Inl e" "s' = s1\<lparr>d_poisoned := True\<rparr>" | x where "m = Some (Inr x, s')" "r = Inr x"
  using assms by (auto simp: poison_Some)

lemmas runE = bind_SomeE and_thenE poisonE
lemmas run_splits = node.split_asm list.split_asm option.split_asm prod.split_asm if_split_asm outcome.split_asm
  upsert_op.split_asm message.split_asm

text \<open>The ways in which loading a slot can go.\<close>

lemma ensure_loadedE:
  assumes "ensure_loaded E nid pins s = Some (r, s')"
  obtains (hit) n d off b t where "index (d_slots s) nid = Some (Loaded n d off b t)" "r = Inr ()"
      "touch nid (s\<lparr>d_cache := (d_cache s)\<lparr>hits := hits (d_cache s) + 1\<rparr>\<rparr>) = Some s'"
    | (unread) off e where "index (d_slots s) nid = Some (OnDisk off)" "r = Inl e" "read_record E off s = Some (Inl e, s')"
    | (malformed) off dn len s1 e where "index (d_slots s) nid = Some (OnDisk off)" "r = Inl e"
      "read_record E off s = Some (Inr (dn, len), s1)" "node_of_record off dn s1 = Some (Inl e, s')"
    | (read) off dn len s1 n s2 where "index (d_slots s) nid = Some (OnDisk off)"
      "read_record E off s = Some (Inr (dn, len), s1)" "node_of_record off dn s1 = Some (Inr n, s2)"
      "finish_load nid pins off len n s2 = Some (r, s')"
proof -
  obtain slot where slot: "index (d_slots s) nid = Some slot"
    using assms by (auto simp: ensure_loaded_def elim!: bind_SomeE)
  show thesis
  proof (cases slot)
    case (Loaded n d off b t)
    then show thesis using assms slot by (intro hit) (auto simp: ensure_loaded_def elim!: bind_SomeE)
  next
    case (OnDisk off)
    then show thesis using assms slot unread malformed read by (auto simp: ensure_loaded_def elim!: and_thenE)
  next
    case Freed
    then show thesis using assms slot by (simp add: ensure_loaded_def)
  qed
qed

section \<open>The interface\<close>

locale slot_invariant =
  fixes E :: "'v env" and I :: "('v, 'p) disk_engine \<Rightarrow> bool"
  assumes ensure_loaded_I: "ensure_loaded E nid pins s = Some (r, s') \<Longrightarrow> I s \<Longrightarrow> I s'"
    and loaded_mut_I: "loaded_mut nid s = Some (n, s') \<Longrightarrow> I s \<Longrightarrow> I s'"
    and put_node_I: "I s \<Longrightarrow> I (put_node nid n s)"
    and alloc_dirty_I: "alloc_dirty n s = Some (nid, s') \<Longrightarrow> I s \<Longrightarrow> I s'"
    and release_slot_I: "release_slot nid s = Some s' \<Longrightarrow> I s \<Longrightarrow> I s'"
    and root_I: "I s \<Longrightarrow> I (s\<lparr>d_root := root\<rparr>)"
    and policy_I: "I s \<Longrightarrow> I (s\<lparr>d_policy := pol\<rparr>)"
    and trace_I: "I s \<Longrightarrow> I (s\<lparr>d_trace := tr\<rparr>)"
    and counters_I: "I s \<Longrightarrow> I (s\<lparr>d_next_seq := q, d_ops_since_commit := m\<rparr>)"
    and poisoned_I: "I s \<Longrightarrow> I (s\<lparr>d_poisoned := True\<rparr>)"
begin

lemmas fields_I = root_I policy_I trace_I counters_I poisoned_I put_node_I
lemmas steps_I = ensure_loaded_I loaded_mut_I alloc_dirty_I release_slot_I

lemma alloc_leaves_I: "disk_alloc_leaves ps s = Some (promoted, s') \<Longrightarrow> I s \<Longrightarrow> I s'"
proof (induction ps arbitrary: s promoted)
  case (Cons p ps)
  then show ?case by (auto split: list.split_asm elim!: bind_SomeE dest: alloc_dirty_I)
qed auto

lemma alloc_internals_I: "disk_alloc_internals ps s = Some (promoted, s') \<Longrightarrow> I s \<Longrightarrow> I s'"
proof (induction ps arbitrary: s promoted)
  case (Cons p ps)
  then show ?case by (cases p) (auto elim!: bind_SomeE dest: alloc_dirty_I)
qed auto

lemma split_if_needed_I: "disk_split_if_needed nid s = Some (promoted, s') \<Longrightarrow> I s \<Longrightarrow> I s'"
  by (auto simp: disk_split_if_needed_def disk_split_leaf_def disk_split_internal_def Let_def
      split: run_splits elim!: bind_SomeE dest!: alloc_leaves_I alloc_internals_I loaded_mut_I intro!: put_node_I)

lemma integrate_splits_I: "disk_integrate_splits nid promoted s = Some s' \<Longrightarrow> I s \<Longrightarrow> I s'"
  by (auto simp: disk_integrate_splits_def split: run_splits elim!: bind_SomeE intro!: put_node_I dest: loaded_mut_I)

lemma settle_I: "disk_settle nid s = Some (out, s') \<Longrightarrow> I s \<Longrightarrow> I s'"
  by (auto simp: disk_settle_def split: run_splits elim!: bind_SomeE dest: split_if_needed_I)

lemma remove_child_I: "disk_remove_child parent child s = Some s' \<Longrightarrow> I s \<Longrightarrow> I s'"
  by (auto simp: disk_remove_child_def split: run_splits elim!: bind_SomeE dest!: release_slot_I loaded_mut_I intro!: put_node_I)

lemma pick_and_extract_I:
  "disk_pick_and_extract nid depth mode s = Some (c, child, occ, batch, s') \<Longrightarrow> I s \<Longrightarrow> I s'"
  by (auto simp: disk_pick_and_extract_def disk_choose_child_def Let_def
      split: run_splits elim!: bind_SomeE intro!: put_node_I policy_I dest!: loaded_mut_I)

lemma apply_batch_I: "disk_apply_batch E child batch pins thr s = Some (r, s') \<Longrightarrow> I s \<Longrightarrow> I s'"
  by (auto simp: disk_apply_batch_def Let_def split: run_splits elim!: runE intro!: put_node_I dest: steps_I)

text \<open>What a loop returns is kept as soon as one round keeps it.\<close>
definition kept :: "'v env \<Rightarrow> ('v, 'p) disk_engine \<Rightarrow> 'a \<times> ('v, 'p) disk_engine \<Rightarrow> bool" where
  "kept E' s y \<longleftrightarrow> (E' = E \<longrightarrow> I s \<longrightarrow> I (snd y))"

lemma has_messages_I: "disk_has_messages_from E pins stack s = Some (r, s') \<Longrightarrow> I s \<Longrightarrow> I s'"
proof -
  have "kept E' s y" if "disk_has_messages_from E' pins stack s = Some y" for E' pins stack s y
    using that
  proof (induction E' pins stack s y rule: disk_has_messages_from.raw_induct [rotated, consumes 1, case_names step])
    case (step f E' pins stack s y)
    have IH: "f E pins stack t = Some (r, t') \<Longrightarrow> I t \<Longrightarrow> I t'" for pins stack t r t'
      using step(1) by (fastforce simp: kept_def)
    show ?case using step(2)
      by (cases y) (auto simp: kept_def split: run_splits elim!: runE dest!: ensure_loaded_I IH)
  qed
  then show "disk_has_messages_from E pins stack s = Some (r, s') \<Longrightarrow> I s \<Longrightarrow> I s'" by (fastforce simp: kept_def)
qed

lemma find_buffered_I: "disk_find_buffered E flushing cs s = Some (r, s') \<Longrightarrow> I s \<Longrightarrow> I s'"
  by (induction cs arbitrary: s)
    (auto simp: disk_subtree_has_messages_def split: if_split_asm elim!: runE dest!: has_messages_I)

lemma buffered_child_I: "disk_buffered_child E flushing tp s = Some (r, s') \<Longrightarrow> I s \<Longrightarrow> I s'"
  by (auto simp: disk_buffered_child_def elim!: runE dest!: find_buffered_I)

lemma record_flush_I: "I s \<Longrightarrow> I (disk_record_flush b tp occ c s)"
  by (simp add: disk_record_flush_def trace_I)

lemma flush_loop_I: "disk_flush_loop E thr tr flushing s = Some (r, s') \<Longrightarrow> I s \<Longrightarrow> I s'"
proof -
  have "kept E' s y" if "disk_flush_loop E' thr tr flushing s = Some y" for E' thr tr flushing s y
    using that
  proof (induction E' thr tr flushing s y rule: disk_flush_loop.raw_induct [rotated, consumes 1, case_names step])
    case (step f E' thr tr flushing s y)
    have IH: "f E thr tr flushing t = Some (r, t') \<Longrightarrow> I t \<Longrightarrow> I t'" for thr tr flushing t r t'
      using step(1) by (fastforce simp: kept_def)
    show ?case using step(2)
      by (cases y) (auto simp: kept_def split: run_splits elim!: runE dest!: buffered_child_I settle_I integrate_splits_I remove_child_I
        pick_and_extract_I apply_batch_I split_if_needed_I IH intro!: record_flush_I)
  qed
  then show "disk_flush_loop E thr tr flushing s = Some (r, s') \<Longrightarrow> I s \<Longrightarrow> I s'" by (fastforce simp: kept_def)
qed

lemma restore_loop_I: "disk_restore_loop E thr tr s = Some (r, s') \<Longrightarrow> I s \<Longrightarrow> I s'"
proof -
  have "kept E' s y" if "disk_restore_loop E' thr tr s = Some y" for E' thr tr s y
    using that
  proof (induction E' thr tr s y rule: disk_restore_loop.raw_induct [rotated, consumes 1, case_names step])
    case (step f E' thr tr s y)
    have IH: "f E thr tr t = Some (r, t') \<Longrightarrow> I t \<Longrightarrow> I t'" for thr tr t r t'
      using step(1) by (fastforce simp: kept_def)
    show ?case using step(2)
      by (cases y) (auto simp: kept_def disk_flush_with_def split: run_splits elim!: runE dest!: flush_loop_I split_if_needed_I alloc_dirty_I release_slot_I IH intro!: root_I)
  qed
  then show "disk_restore_loop E thr tr s = Some (r, s') \<Longrightarrow> I s \<Longrightarrow> I s'" by (fastforce simp: kept_def)
qed

lemma collapse_root_I: "disk_collapse_root E s = Some (r, s') \<Longrightarrow> I s \<Longrightarrow> I s'"
proof -
  have "kept E' s y" if "disk_collapse_root E' s = Some y" for E' s y
    using that
  proof (induction E' s y rule: disk_collapse_root.raw_induct [rotated, consumes 1, case_names step])
    case (step f E' s y)
    have IH: "f E t = Some (r, t') \<Longrightarrow> I t \<Longrightarrow> I t'" for t r t'
      using step(1) by (fastforce simp: kept_def)
    show ?case using step(2)
      by (cases y) (auto simp: kept_def split: run_splits elim!: runE dest!: ensure_loaded_I release_slot_I IH intro!: root_I)
  qed
  then show "disk_collapse_root E s = Some (r, s') \<Longrightarrow> I s \<Longrightarrow> I s'" by (fastforce simp: kept_def)
qed

lemma restore_root_with_I: "disk_restore_root_with E thr tr s = Some (r, s') \<Longrightarrow> I s \<Longrightarrow> I s'"
  by (auto simp: disk_restore_root_with_def elim!: runE dest!: restore_loop_I collapse_root_I)

text \<open>The mutating operations.\<close>

lemma apply_root_I: "disk_apply_root E k m s = Some (r, s') \<Longrightarrow> I s \<Longrightarrow> I s'"
  by (auto simp: disk_apply_root_def disk_restore_root_def Let_def elim!: runE
      dest!: restore_root_with_I loaded_mut_I intro!: poisoned_I put_node_I)

lemma drain_I: "disk_drain E s = Some (r, s') \<Longrightarrow> I s \<Longrightarrow> I s'"
  by (auto simp: disk_drain_def elim!: runE dest!: restore_root_with_I ensure_loaded_I intro!: poisoned_I)

lemma mutations_I:
  "try_insert E k v s = Some (r, s') \<Longrightarrow> I s \<Longrightarrow> I s'"
  "try_delete E k s = Some (r, s') \<Longrightarrow> I s \<Longrightarrow> I s'"
  "try_upsert E k op s = Some (r, s') \<Longrightarrow> I s \<Longrightarrow> I s'"
  by (auto simp: try_insert_def try_delete_def try_upsert_def Let_def elim!: runE
      dest!: apply_root_I ensure_loaded_I intro!: trace_I counters_I)

text \<open>The reading operations.\<close>

lemma get_from_I: "disk_get_from E k chain nid s = Some (r, s') \<Longrightarrow> I s \<Longrightarrow> I s'"
proof -
  have "kept E' s y" if "disk_get_from E' k chain nid s = Some y" for E' k chain nid s y
    using that
  proof (induction E' k chain nid s y rule: disk_get_from.raw_induct [rotated, consumes 1, case_names step])
    case (step f E' k chain nid s y)
    have IH: "f E k chain nid t = Some (r, t') \<Longrightarrow> I t \<Longrightarrow> I t'" for k chain nid t r t'
      using step(1) by (fastforce simp: kept_def)
    show ?case using step(2)
      by (cases y) (auto simp: kept_def split: run_splits elim!: runE dest!: ensure_loaded_I IH)
  qed
  then show "disk_get_from E k chain nid s = Some (r, s') \<Longrightarrow> I s \<Longrightarrow> I s'" by (fastforce simp: kept_def)
qed

lemma scan_loop_I: "disk_scan_loop E stack s = Some (r, s') \<Longrightarrow> I s \<Longrightarrow> I s'"
proof -
  have "kept E' s y" if "disk_scan_loop E' stack s = Some y" for E' stack s y
    using that
  proof (induction E' stack s y rule: disk_scan_loop.raw_induct [rotated, consumes 1, case_names step])
    case (step f E' stack s y)
    have IH: "f E stack t = Some (r, t') \<Longrightarrow> I t \<Longrightarrow> I t'" for stack t r t'
      using step(1) by (fastforce simp: kept_def)
    show ?case using step(2)
      by (cases y) (auto simp: kept_def Let_def split: run_splits elim!: runE dest!: ensure_loaded_I IH)
  qed
  then show "disk_scan_loop E stack s = Some (r, s') \<Longrightarrow> I s \<Longrightarrow> I s'" by (fastforce simp: kept_def)
qed

lemma load_all_from_I: "load_all_from E stack s = Some (r, s') \<Longrightarrow> I s \<Longrightarrow> I s'"
proof -
  have "kept E' s y" if "load_all_from E' stack s = Some y" for E' stack s y
    using that
  proof (induction E' stack s y rule: load_all_from.raw_induct [rotated, consumes 1, case_names step])
    case (step f E' stack s y)
    have IH: "f E stack t = Some (r, t') \<Longrightarrow> I t \<Longrightarrow> I t'" for stack t r t'
      using step(1) by (fastforce simp: kept_def)
    show ?case using step(2)
      by (cases y) (auto simp: kept_def split: run_splits elim!: runE dest!: ensure_loaded_I IH)
  qed
  then show "load_all_from E stack s = Some (r, s') \<Longrightarrow> I s \<Longrightarrow> I s'" by (fastforce simp: kept_def)
qed

lemma live_walk_from_I: "live_walk_from E nodes bytes stack s = Some (r, s') \<Longrightarrow> I s \<Longrightarrow> I s'"
proof -
  have "kept E' s y" if "live_walk_from E' nodes bytes stack s = Some y" for E' nodes bytes stack s y
    using that
  proof (induction E' nodes bytes stack s y rule: live_walk_from.raw_induct [rotated, consumes 1, case_names step])
    case (step f E' nodes bytes stack s y)
    have IH: "f E nodes bytes stack t = Some (r, t') \<Longrightarrow> I t \<Longrightarrow> I t'" for nodes bytes stack t r t'
      using step(1) by (fastforce simp: kept_def)
    show ?case using step(2)
      by (cases y) (auto simp: kept_def split: run_splits elim!: runE dest!: ensure_loaded_I IH)
  qed
  then show "live_walk_from E nodes bytes stack s = Some (r, s') \<Longrightarrow> I s \<Longrightarrow> I s'" by (fastforce simp: kept_def)
qed

lemma height_from_I: "disk_height_from E h nid s = Some (r, s') \<Longrightarrow> I s \<Longrightarrow> I s'"
proof -
  have "kept E' s y" if "disk_height_from E' h nid s = Some y" for E' h nid s y
    using that
  proof (induction E' h nid s y rule: disk_height_from.raw_induct [rotated, consumes 1, case_names step])
    case (step f E' h nid s y)
    have IH: "f E h nid t = Some (r, t') \<Longrightarrow> I t \<Longrightarrow> I t'" for h nid t r t'
      using step(1) by (fastforce simp: kept_def)
    show ?case using step(2)
      by (cases y) (auto simp: kept_def split: run_splits elim!: runE dest!: ensure_loaded_I IH)
  qed
  then show "disk_height_from E h nid s = Some (r, s') \<Longrightarrow> I s \<Longrightarrow> I s'" by (fastforce simp: kept_def)
qed

lemma reads_I:
  "try_get E k s = Some (r1, s') \<Longrightarrow> I s \<Longrightarrow> I s'"
  "try_scan E lo hi s = Some (r2, s') \<Longrightarrow> I s \<Longrightarrow> I s'"
  "load_all E s = Some (r3, s') \<Longrightarrow> I s \<Longrightarrow> I s'"
  "live_walk E s = Some (r4, s') \<Longrightarrow> I s \<Longrightarrow> I s'"
  "disk_height E s = Some (r5, s') \<Longrightarrow> I s \<Longrightarrow> I s'"
  by (auto simp: try_get_def try_scan_def load_all_def live_walk_def disk_height_def Let_def
      split: run_splits elim!: runE
      dest!: get_from_I scan_loop_I load_all_from_I live_walk_from_I height_from_I ensure_loaded_I intro!: trace_I)

end

end
