(* ===== verification/Disk_Cache.thy ===== *)
theory Disk_Cache
  imports Disk_Invariant
begin

text \<open>
  The bounded node cache. \<open>cache_ok\<close> is its accounting: the bytes and the count are those of the
  resident slots, a clean resident node has a record to go back to, and the queue and the offset
  interning only name slots that exist. Every primitive keeps it and, where it subtracts, has enough
  to subtract from; so every operation of the engine keeps it. Enforcing the budget always returns
  and only ever turns clean, unpinned nodes back into their records.
\<close>

section \<open>Accounting\<close>

fun slot_bytes :: "node_slot \<Rightarrow> nat" where
  "slot_bytes (Loaded n d off b t) = b"
| "slot_bytes _ = 0"

fun slot_count :: "node_slot \<Rightarrow> nat" where
  "slot_count (Loaded n d off b t) = 1"
| "slot_count _ = 0"

definition total :: "(node_slot \<Rightarrow> nat) \<Rightarrow> node_slot list \<Rightarrow> nat" where
  "total f slots = sum_list (map f slots)"

fun slot_ok :: "node_slot \<Rightarrow> bool" where
  "slot_ok (Loaded n d off b t) = (d \<or> off \<noteq> None)"
| "slot_ok _ = True"

definition cache_ok :: "('v, 'p) disk_engine \<Rightarrow> bool" where
  "cache_ok s \<longleftrightarrow>
     cache_bytes (d_cache s) = total slot_bytes (d_slots s) \<and> resident (d_cache s) = total slot_count (d_slots s) \<and>
     (\<forall>slot\<in>set (d_slots s). slot_ok slot) \<and>
     (\<forall>(nid, t)\<in>set (lru (d_cache s)). nid < length (d_slots s)) \<and>
     (\<forall>(off, nid)\<in>set (d_offsets s). nid < length (d_slots s))"

lemma total_append [simp]: "total f (xs @ ys) = total f xs + total f ys"
  by (simp add: total_def)

lemma total_single [simp]: "total f [x] = f x"
  by (simp add: total_def)

lemma total_ge: "i < length xs \<Longrightarrow> f (xs ! i) \<le> total f xs"
  unfolding total_def by (metis elem_le_sum_list length_map nth_map)

lemma total_update: "i < length xs \<Longrightarrow> total f (xs[i := y]) = total f xs - f (xs ! i) + f y"
  using total_ge [of i xs f] by (simp add: total_def map_update sum_list_update)

lemma bt_insert_in: "e \<in> set (bt_insert k v m) \<Longrightarrow> e = (k, v) \<or> e \<in> set m"
  by (induction k v m rule: bt_insert.induct) (auto split: if_split_asm)

lemma bt_remove_in: "e \<in> set (bt_remove k m) \<Longrightarrow> e \<in> set m"
  by (induction k m rule: bt_remove.induct) (auto split: if_split_asm)

lemma set_update_all: "\<forall>x\<in>set xs. P x \<Longrightarrow> P y \<Longrightarrow> \<forall>x\<in>set (xs[i := y]). P x"
  using set_update_subset_insert [of xs i y] by blast

text \<open>A slot replaced by another of known size; the cache recounted accordingly.\<close>

lemma cache_ok_set_slot:
  assumes "cache_ok s" "index (d_slots s) nid = Some old" "slot_ok new"
    and "cache_bytes c + slot_bytes old = cache_bytes (d_cache s) + slot_bytes new"
    and "resident c + slot_count old = resident (d_cache s) + slot_count new"
    and "\<forall>(i, t)\<in>set (lru c). i < length (d_slots s)" "\<forall>(off, i)\<in>set offs. i < length (d_slots s)"
  shows "cache_ok (set_slot nid new (s\<lparr>d_cache := c, d_offsets := offs\<rparr>))"
proof -
  have i: "nid < length (d_slots s)" "d_slots s ! nid = old" using assms(2) by (auto simp: index_eq_Some)
  have "slot_bytes old \<le> total slot_bytes (d_slots s)" "slot_count old \<le> total slot_count (d_slots s)"
    using total_ge [OF i(1)] i(2) by auto
  moreover have "\<forall>slot\<in>set ((d_slots s)[nid := new]). slot_ok slot"
    using assms(1,3) by (intro set_update_all) (auto simp: cache_ok_def)
  ultimately show ?thesis using assms i
    by (auto simp: cache_ok_def set_slot_def total_update)
qed

section \<open>The primitives\<close>

lemma stamp_same [simp]:
  "slot_bytes (stamp t slot) = slot_bytes slot" "slot_count (stamp t slot) = slot_count slot"
  "slot_ok (stamp t slot) = slot_ok slot"
  by (cases slot; simp)+

text \<open>What is left of a slot when its tick is ignored.\<close>
definition cores :: "('v, 'p) disk_engine \<Rightarrow> node_slot list" where
  "cores s = map (stamp 0) (d_slots s)"

lemma stamp_stamp [simp]: "stamp t (stamp t' slot) = stamp t slot"
  by (cases slot) simp_all

text \<open>Everything but the slots and the cache is as it was.\<close>
definition rest :: "('v, 'p) disk_engine \<Rightarrow> ('v, 'p) disk_engine" where
  "rest s = s\<lparr>d_slots := [], d_cache := cache_default\<rparr>"

definition same_rest :: "('v, 'p) disk_engine \<Rightarrow> ('v, 'p) disk_engine \<Rightarrow> bool" where
  "same_rest s s' \<longleftrightarrow> rest s' = rest s \<and> length (d_slots s') = length (d_slots s) \<and> budget (d_cache s') = budget (d_cache s)"

lemma same_rest_trans: "same_rest s1 s2 \<Longrightarrow> same_rest s2 s3 \<Longrightarrow> same_rest s1 s3"
  by (simp add: same_rest_def)

lemma same_rest_fields:
  assumes "same_rest s s'"
  shows "d_params s' = d_params s" "d_vfs s' = d_vfs s" "d_root s' = d_root s" "d_watermark s' = d_watermark s"
    "d_next_generation s' = d_next_generation s" "d_next_seq s' = d_next_seq s" "d_offsets s' = d_offsets s"
    "d_poisoned s' = d_poisoned s" "d_trace s' = d_trace s"
  using assms by (cases s; cases s'; simp add: same_rest_def rest_def)+

lemma stamp_update: "i < length xs \<Longrightarrow> map (stamp 0) (xs[i := stamp t (xs ! i)]) = map (stamp 0) xs"
  by (simp add: map_update list_update_same_conv)

lemma touch_ok:
  assumes "cache_ok s" "nid < length (d_slots s)"
  shows "\<exists>s'. touch nid s = Some s' \<and> cache_ok s' \<and> cores s' = cores s \<and> same_rest s s'"
proof (cases "budget (d_cache s)")
  case None
  then show ?thesis using assms by (simp add: touch_def same_rest_def)
next
  case (Some bud)
  let ?tk = "tick (d_cache s) + 1"
  let ?slots = "(d_slots s)[nid := stamp ?tk (d_slots s ! nid)]"
  let ?q = "lru (d_cache s) @ [(nid, ?tk)]"
  have q: "\<forall>(i, t)\<in>set ?q. i < length ?slots" using assms by (auto simp: cache_ok_def)
  define q' where "q' = (if length ?q > max 64 (resident (d_cache s) * 4)
    then filter (\<lambda>(nid, t). slot_current (?slots ! nid) t) ?q else ?q)"
  let ?s' = "set_slot nid (stamp ?tk (d_slots s ! nid)) (s\<lparr>d_cache := (d_cache s)\<lparr>tick := ?tk, lru := q'\<rparr>, d_offsets := d_offsets s\<rparr>)"
  have "touch nid s = Some ?s'"
    using Some assms(2) q by (auto simp: touch_def Let_def compact_lru_def set_slot_def q'_def)
  moreover have "cache_ok ?s'"
  proof (rule cache_ok_set_slot [OF assms(1)])
    show "index (d_slots s) nid = Some (d_slots s ! nid)" using assms(2) by simp
    show "slot_ok (stamp ?tk (d_slots s ! nid))" using assms by (auto simp: cache_ok_def)
    show "\<forall>(i, t)\<in>set (lru ((d_cache s)\<lparr>tick := ?tk, lru := q'\<rparr>)). i < length (d_slots s)"
      using q by (auto simp: q'_def)
    show "\<forall>(off, i)\<in>set (d_offsets s). i < length (d_slots s)" using assms(1) by (simp add: cache_ok_def)
  qed simp_all
  moreover have "cores ?s' = cores s" using assms(2) by (simp add: cores_def set_slot_def stamp_update)
  moreover have "same_rest s ?s'" by (simp add: same_rest_def rest_def set_slot_def)
  ultimately show ?thesis by blast
qed

lemma cache_ok_index: "cache_ok s \<Longrightarrow> index (d_slots s) nid = Some slot \<Longrightarrow> slot_ok slot"
  by (auto simp: cache_ok_def index_eq_Some)

lemma cache_enough:
  assumes "cache_ok s" "index (d_slots s) nid = Some slot"
  shows "slot_bytes slot \<le> cache_bytes (d_cache s)" "slot_count slot \<le> resident (d_cache s)"
  using assms total_ge [of nid "d_slots s" slot_bytes] total_ge [of nid "d_slots s" slot_count]
  by (auto simp: cache_ok_def index_eq_Some)

lemma recount_ok: "old \<le> cache_bytes c \<Longrightarrow> recount old new c = Some (c\<lparr>cache_bytes := cache_bytes c - old + new\<rparr>)"
  by (simp add: recount_def checked_sub_def)

lemma forget_ok:
  "b \<le> cache_bytes c \<Longrightarrow> 1 \<le> resident c \<Longrightarrow>
     forget b c = Some (c\<lparr>cache_bytes := cache_bytes c - b, resident := resident c - 1\<rparr>)"
  by (simp add: forget_def checked_sub_def)

lemma loaded_mut_ok:
  assumes "cache_ok s" "loaded s nid = Some n"
  shows "\<exists>s' off b t. loaded_mut nid s = Some (n, s') \<and> cache_ok s' \<and> same_rest s s' \<and>
    d_slots s' = (d_slots s)[nid := Loaded n True off b t]"
proof -
  obtain d off b t where slot: "index (d_slots s) nid = Some (Loaded n d off b t)"
    using assms(2) by (auto simp: loaded_def split: node_slot.splits elim!: bind_SomeE)
  have b: "b \<le> cache_bytes (d_cache s)" using cache_enough(1) [OF assms(1) slot] by simp
  let ?c = "(d_cache s)\<lparr>cache_bytes := cache_bytes (d_cache s) - b + est_bytes n\<rparr>"
  let ?s' = "set_slot nid (Loaded n True off (est_bytes n) t) (s\<lparr>d_cache := ?c, d_offsets := d_offsets s\<rparr>)"
  have "loaded_mut nid s = Some (n, ?s')" using slot by (simp add: loaded_mut_def recount_ok [OF b])
  moreover have "cache_ok ?s'"
    by (rule cache_ok_set_slot [OF assms(1) slot]) (use assms(1) b in \<open>auto simp: cache_ok_def\<close>)
  moreover have "same_rest s ?s'" by (simp add: same_rest_def rest_def set_slot_def)
  ultimately show ?thesis by (auto simp: set_slot_def)
qed

lemma put_node_ok: "cache_ok s \<Longrightarrow> cache_ok (put_node nid n s)"
proof -
  assume ok: "cache_ok s"
  show ?thesis
  proof (cases "\<exists>n' d off b t. index (d_slots s) nid = Some (Loaded n' d off b t)")
    case True
    then obtain n' d off b t where slot: "index (d_slots s) nid = Some (Loaded n' d off b t)" by blast
    have "cache_ok (set_slot nid (Loaded n d off b t) (s\<lparr>d_cache := d_cache s, d_offsets := d_offsets s\<rparr>))"
      by (rule cache_ok_set_slot [OF ok slot]) (use ok cache_ok_index [OF ok slot] in \<open>auto simp: cache_ok_def\<close>)
    then show ?thesis using slot by (simp add: put_node_def)
  qed (use ok in \<open>auto simp: put_node_def split: option.split node_slot.split\<close>)
qed

lemma alloc_dirty_ok:
  assumes "cache_ok s"
  shows "\<exists>s'. alloc_dirty n s = Some (length (d_slots s), s') \<and> cache_ok s'"
proof -
  let ?s = "s\<lparr>d_slots := d_slots s @ [Loaded n True None (est_bytes n) 0],
    d_cache := (d_cache s)\<lparr>cache_bytes := cache_bytes (d_cache s) + est_bytes n, resident := resident (d_cache s) + 1\<rparr>\<rparr>"
  have "cache_ok ?s" using assms by (auto simp: cache_ok_def)
  from touch_ok [OF this, of "length (d_slots s)"] show ?thesis by (auto simp: alloc_dirty_def Let_def)
qed

lemma release_slot_ok:
  assumes ok: "cache_ok s" and "nid < length (d_slots s)"
  shows "\<exists>s'. release_slot nid s = Some s' \<and> cache_ok s' \<and> d_slots s' = (d_slots s)[nid := Freed]"
proof -
  let ?slot = "d_slots s ! nid"
  have slot: "index (d_slots s) nid = Some ?slot" using assms(2) by simp
  have sub: "\<forall>(off, i)\<in>set (bt_remove k (d_offsets s)). i < length (d_slots s)" for k
    using ok by (auto simp: cache_ok_def dest!: bt_remove_in)
  show ?thesis
  proof (cases ?slot)
    case (Loaded n d off b t)
    have le: "b \<le> cache_bytes (d_cache s)" "1 \<le> resident (d_cache s)" using cache_enough [OF ok slot] Loaded by auto
    let ?c = "(d_cache s)\<lparr>cache_bytes := cache_bytes (d_cache s) - b, resident := resident (d_cache s) - 1\<rparr>"
    let ?offs = "case off of None \<Rightarrow> d_offsets s | Some o' \<Rightarrow> bt_remove o' (d_offsets s)"
    have "cache_ok (set_slot nid Freed (s\<lparr>d_cache := ?c, d_offsets := ?offs\<rparr>))"
      by (rule cache_ok_set_slot [OF ok slot]) (use ok sub le Loaded in \<open>auto simp: cache_ok_def split: option.split\<close>)
    then show ?thesis using Loaded assms(2) by (simp add: release_slot_def forget_ok [OF le]) (simp add: set_slot_def)
  next
    case (OnDisk off)
    have "cache_ok (set_slot nid Freed (s\<lparr>d_cache := d_cache s, d_offsets := bt_remove off (d_offsets s)\<rparr>))"
      by (rule cache_ok_set_slot [OF ok slot]) (use ok sub OnDisk in \<open>auto simp: cache_ok_def\<close>)
    then show ?thesis using OnDisk assms(2) by (simp add: release_slot_def) (simp add: set_slot_def)
  next
    case Freed
    then show ?thesis using assms by (simp add: release_slot_def) (metis list_update_id)
  qed
qed

lemma alloc_on_disk_ok:
  assumes "cache_ok s"
  shows "\<exists>nid s'. alloc_on_disk off s = Some (nid, s') \<and> cache_ok s' \<and> nid < length (d_slots s')"
proof (cases "bt_get (d_offsets s) off")
  case None
  then show ?thesis using assms
    by (auto simp: alloc_on_disk_def Let_def cache_ok_def dest!: bt_insert_in)
next
  case (Some nid)
  then have nid: "nid < length (d_slots s)" using assms bt_get_Some_in [OF Some] by (auto simp: cache_ok_def)
  then show ?thesis using assms Some
    by (cases "d_slots s ! nid = Freed") (auto simp: alloc_on_disk_def Let_def cache_ok_def dest!: bt_insert_in)
qed

lemma alloc_children_ok: "cache_ok s \<Longrightarrow> \<exists>nids s'. alloc_children offs s = Some (nids, s') \<and> cache_ok s'"
proof (induction offs arbitrary: s)
  case (Cons off offs)
  obtain nid s1 where s1: "alloc_on_disk off s = Some (nid, s1)" "cache_ok s1" using alloc_on_disk_ok [OF Cons.prems] by blast
  with Cons.IH [OF s1(2)] show ?case by auto
qed simp

section \<open>Enforcing the budget\<close>

text \<open>A slot is left alone up to its tick, or a clean and unpinned one goes back to its record.\<close>
definition reverts :: "bool \<Rightarrow> node_slot \<Rightarrow> node_slot \<Rightarrow> bool" where
  "reverts pinned slot slot' \<longleftrightarrow> stamp 0 slot' = stamp 0 slot \<or>
     (\<exists>n off b t. slot = Loaded n False (Some off) b t \<and> slot' = OnDisk off \<and> \<not> pinned)"

definition settled :: "node_id list \<Rightarrow> node_id option \<Rightarrow> ('v, 'p) disk_engine \<Rightarrow> ('v, 'p) disk_engine \<Rightarrow> bool" where
  "settled pins just_loaded s s' \<longleftrightarrow>
     (\<forall>i<length (d_slots s). reverts (i \<in> set pins \<or> just_loaded = Some i) (d_slots s ! i) (d_slots s' ! i))"

lemma stamp_Loaded: "stamp 0 slot = Loaded n d off b 0 \<longleftrightarrow> (\<exists>t'. slot = Loaded n d off b t')"
  by (cases slot) auto

lemma stamp_OnDisk: "stamp 0 slot = OnDisk off \<longleftrightarrow> slot = OnDisk off"
  by (cases slot) auto

lemma reverts_refl [simp]: "reverts p slot slot"
  by (simp add: reverts_def)

lemma reverts_trans:
  assumes "reverts p a b" "reverts p b c"
  shows "reverts p a c"
proof -
  consider "stamp 0 b = stamp 0 a" | n off y t where "a = Loaded n False (Some off) y t" "b = OnDisk off" "\<not> p"
    using assms(1) unfolding reverts_def by blast
  then show ?thesis
  proof cases
    case 1
    show ?thesis
    proof (cases "stamp 0 c = stamp 0 b")
      case True
      with 1 show ?thesis by (simp add: reverts_def)
    next
      case False
      then obtain n off y t where b: "b = Loaded n False (Some off) y t" "c = OnDisk off" "\<not> p"
        using assms(2) unfolding reverts_def by blast
      then have "stamp 0 a = Loaded n False (Some off) y 0" using 1 by simp
      then show ?thesis using b by (auto simp: reverts_def stamp_Loaded)
    qed
  next
    case 2
    then have "c = OnDisk off" using assms(2) by (auto simp: reverts_def stamp_OnDisk)
    with 2 show ?thesis by (auto simp: reverts_def)
  qed
qed

lemma settled_refl [simp]: "settled pins jl s s"
  by (simp add: settled_def)

lemma settled_trans:
  "settled pins jl s1 s2 \<Longrightarrow> settled pins jl s2 s3 \<Longrightarrow> length (d_slots s2) = length (d_slots s1) \<Longrightarrow> settled pins jl s1 s3"
  unfolding settled_def using reverts_trans by metis

lemma settled_set_slot:
  assumes "index (d_slots s) nid = Some old" "d_slots s' = (d_slots s)[nid := new]"
    "reverts (nid \<in> set pins \<or> jl = Some nid) old new"
  shows "settled pins jl s s'"
  using assms by (auto simp: settled_def nth_list_update index_eq_Some)

lemma enforce_loop_ok:
  assumes "cache_ok s"
  shows "\<exists>s'. enforce_loop left bud pins jl s = Some s' \<and> cache_ok s' \<and> same_rest s s' \<and> settled pins jl s s'"
  using assms
proof (induction left arbitrary: s)
  case 0
  then show ?case by (auto simp: same_rest_def)
next
  case (Suc left)
  show ?case
  proof (cases "cache_bytes (d_cache s) > bud \<and> lru (d_cache s) \<noteq> []")
    case False
    then show ?thesis using Suc.prems by (auto simp: same_rest_def split: list.split)
  next
    case True
    then obtain nid tk q where q: "lru (d_cache s) = (nid, tk) # q" by (cases "lru (d_cache s)") auto
    let ?s = "s\<lparr>d_cache := (d_cache s)\<lparr>lru := q\<rparr>\<rparr>"
    have ok: "cache_ok ?s" using Suc.prems q by (auto simp: cache_ok_def)
    have nid: "nid < length (d_slots s)" using Suc.prems q by (auto simp: cache_ok_def)
    have go: ?thesis if "enforce_loop (Suc left) bud pins jl s = enforce_loop left bud pins jl s1"
      "cache_ok s1" "same_rest s s1" "settled pins jl s s1" for s1
    proof -
      from Suc.IH [OF that(2)] obtain s' where s': "enforce_loop left bud pins jl s1 = Some s'" "cache_ok s'"
        "same_rest s1 s'" "settled pins jl s1 s'" by blast
      then have "settled pins jl s s'" using settled_trans [OF that(4) s'(4)] that(3) by (simp add: same_rest_def)
      with s' that(1) same_rest_trans [OF that(3) s'(3)] show ?thesis by auto
    qed
    have same: "same_rest s ?s" "settled pins jl s ?s" by (simp_all add: same_rest_def rest_def settled_def)
    show ?thesis
    proof (cases "d_slots s ! nid")
      case (Loaded n d off b t)
      have slot: "index (d_slots ?s) nid = Some (Loaded n d off b t)" using nid Loaded by simp
      consider "t \<noteq> tk" | "t = tk" "d \<or> nid \<in> set pins \<or> jl = Some nid"
        | "t = tk" "\<not> d" "nid \<notin> set pins" "jl \<noteq> Some nid" by blast
      then show ?thesis
      proof cases
        case 1
        show ?thesis by (rule go [OF _ ok same]) (use True q nid Loaded 1 in simp)
      next
        case 2
        let ?tk = "tick (d_cache s) + 1"
        let ?s1 = "set_slot nid (Loaded n d off b ?tk) (?s\<lparr>d_cache := (d_cache s)\<lparr>tick := ?tk, lru := q @ [(nid, ?tk)]\<rparr>, d_offsets := d_offsets s\<rparr>)"
        have "cache_ok ?s1"
          by (rule cache_ok_set_slot [OF ok slot])
            (use ok nid cache_ok_index [OF ok slot] in \<open>auto simp: cache_ok_def\<close>)
        moreover have "settled pins jl s ?s1"
          by (rule settled_set_slot [of _ nid]) (use nid Loaded in \<open>auto simp: set_slot_def reverts_def\<close>)
        moreover have "same_rest s ?s1" by (simp add: same_rest_def rest_def set_slot_def)
        ultimately show ?thesis
          by (intro go [of ?s1]) (use True q nid Loaded 2 in \<open>auto simp: Let_def\<close>)
      next
        case 3
        then obtain o' where off: "off = Some o'" using cache_ok_index [OF ok slot] by auto
        have le: "b \<le> cache_bytes (d_cache ?s)" "1 \<le> resident (d_cache ?s)" using cache_enough [OF ok slot] by auto
        let ?c = "(d_cache ?s)\<lparr>cache_bytes := cache_bytes (d_cache ?s) - b, resident := resident (d_cache ?s) - 1\<rparr>"
        let ?s1 = "set_slot nid (OnDisk o') (?s\<lparr>d_cache := ?c\<lparr>evictions := evictions ?c + 1\<rparr>, d_offsets := d_offsets s\<rparr>)"
        have "cache_ok ?s1"
          by (rule cache_ok_set_slot [OF ok slot]) (use ok le in \<open>auto simp: cache_ok_def\<close>)
        moreover have "settled pins jl s ?s1"
          by (rule settled_set_slot [of _ nid]) (use nid Loaded 3 off in \<open>auto simp: set_slot_def reverts_def\<close>)
        moreover have "same_rest s ?s1" by (simp add: same_rest_def rest_def set_slot_def)
        ultimately show ?thesis
          by (intro go [of ?s1]) (use True q nid Loaded 3 off forget_ok [OF le] in \<open>auto simp: Let_def\<close>)
      qed
    next
      case (OnDisk o')
      show ?thesis by (rule go [OF _ ok same]) (use True q nid OnDisk in simp)
    next
      case Freed
      show ?thesis by (rule go [OF _ ok same]) (use True q nid Freed in simp)
    qed
  qed
qed

lemma enforce_budget_ok:
  assumes "cache_ok s"
  shows "\<exists>s'. enforce_budget pins jl s = Some s' \<and> cache_ok s' \<and> same_rest s s' \<and> settled pins jl s s'"
proof (cases "budget (d_cache s)")
  case None
  then show ?thesis using assms by (simp add: enforce_budget_def same_rest_def)
next
  case (Some bud)
  obtain s1 where s1: "enforce_loop (length (lru (d_cache s))) bud pins jl s = Some s1" "cache_ok s1" "same_rest s s1"
    "settled pins jl s s1" using enforce_loop_ok [OF assms] by blast
  then show ?thesis using Some
    by (auto simp: enforce_budget_def cache_ok_def same_rest_def rest_def settled_def)
qed

section \<open>Loading\<close>

lemma on_vfs_cache: "on_vfs f s = Some (r, s') \<Longrightarrow> cache_ok s' = cache_ok s"
  by (auto simp: on_vfs_def cache_ok_def elim!: bind_SomeE)

lemma read_record_cache: "read_record E off s = Some (r, s') \<Longrightarrow> cache_ok s' = cache_ok s"
  by (auto simp: read_record_def Let_def split: if_split_asm sum.split_asm elim!: runE dest!: on_vfs_cache)

lemma node_of_record_cache:
  assumes "node_of_record off dn s = Some (r, s')" "cache_ok s"
  shows "cache_ok s'"
proof (cases dn)
  case (DiskInternal ps offs b)
  then show ?thesis using assms alloc_children_ok [OF assms(2), of offs]
    by (auto simp: node_of_record_def split: if_split_asm option.split_asm)
qed (use assms in \<open>auto simp: node_of_record_def\<close>)

lemma alloc_grows:
  "alloc_on_disk off s = Some (nid, s') \<Longrightarrow> length (d_slots s) \<le> length (d_slots s')"
  "alloc_children offs s = Some (nids, s') \<Longrightarrow> length (d_slots s) \<le> length (d_slots s')"
proof -
  show one: "length (d_slots s) \<le> length (d_slots s')" if "alloc_on_disk off s = Some (nid, s')" for off s nid and s' :: "('v, 'p) disk_engine"
    using that by (auto simp: alloc_on_disk_def Let_def split: option.split_asm if_split_asm elim!: bind_SomeE)
  show "alloc_children offs s = Some (nids, s') \<Longrightarrow> length (d_slots s) \<le> length (d_slots s')"
    by (induction offs arbitrary: s nids) (fastforce dest: one elim!: bind_SomeE)+
qed

lemma alloc_keeps:
  assumes "alloc_children offs s = Some (nids, s')" "i < length (d_slots s)"
  shows "d_slots s' ! i = d_slots s ! i"
  using assms
proof (induction offs arbitrary: s nids)
  case (Cons off offs)
  then obtain nid s1 nids1 where s1: "alloc_on_disk off s = Some (nid, s1)" "alloc_children offs s1 = Some (nids1, s')"
    by (auto elim!: bind_SomeE)
  have "d_slots s1 ! i = d_slots s ! i" using s1(1) Cons.prems(2)
    by (auto simp: alloc_on_disk_def Let_def nth_append split: option.split_asm if_split_asm elim!: bind_SomeE)
  with Cons.IH [OF s1(2)] alloc_grows(1) [OF s1(1)] Cons.prems(2) show ?case by simp
qed simp

lemma node_of_record_keeps:
  assumes "node_of_record off dn s = Some (r, s')" "i < length (d_slots s)"
  shows "d_slots s' ! i = d_slots s ! i" "length (d_slots s) \<le> length (d_slots s')"
  using assms alloc_keeps [OF _ assms(2)] alloc_grows(2)
  by (auto simp: node_of_record_def split: disk_node.split_asm if_split_asm option.split_asm elim!: runE)

lemma on_vfs_slots: "on_vfs f s = Some (r, s') \<Longrightarrow> d_slots s' = d_slots s"
  by (auto simp: on_vfs_def elim!: bind_SomeE)

lemma read_record_slots: "read_record E off s = Some (r, s') \<Longrightarrow> d_slots s' = d_slots s"
  by (auto simp: read_record_def Let_def split: if_split_asm sum.split_asm elim!: runE dest!: on_vfs_slots)

lemma finish_load_cache:
  assumes "cache_ok s" "index (d_slots s) nid = Some (OnDisk off)" "finish_load nid pins off len n s = Some (r, s')"
  shows "cache_ok s'"
proof -
  let ?b = "RECORD_HEADER_SIZE + len"
  let ?c = "(d_cache s)\<lparr>cache_bytes := cache_bytes (d_cache s) + ?b, resident := resident (d_cache s) + 1,
    misses := misses (d_cache s) + 1\<rparr>"
  let ?s = "set_slot nid (Loaded n False (Some off) ?b 0) (s\<lparr>d_cache := ?c, d_offsets := d_offsets s\<rparr>)"
  have "cache_ok ?s" by (rule cache_ok_set_slot [OF assms(1,2)]) (use assms(1) in \<open>auto simp: cache_ok_def\<close>)
  from touch_ok [OF this, of nid] obtain s3 where s3: "touch nid ?s = Some s3" "cache_ok s3"
    using assms(2) by (auto simp: set_slot_def index_eq_Some)
  with assms(3) enforce_budget_ok [OF s3(2), of pins "Some nid"] show ?thesis by (auto simp: finish_load_def Let_def)
qed

lemma ensure_loaded_cache:
  assumes run: "ensure_loaded E nid pins s = Some (r, s')" and ok: "cache_ok s"
  shows "cache_ok s'"
  using run
proof (cases rule: ensure_loadedE)
  case (hit n d off b t)
  let ?s = "s\<lparr>d_cache := (d_cache s)\<lparr>hits := hits (d_cache s) + 1\<rparr>\<rparr>"
  have "cache_ok ?s" using ok by (simp add: cache_ok_def)
  from touch_ok [OF this, of nid] hit show ?thesis by (auto simp: index_eq_Some)
next
  case (unread off e)
  then show ?thesis using read_record_cache ok by blast
next
  case (malformed off dn len s1 e)
  then show ?thesis using read_record_cache ok node_of_record_cache by blast
next
  case (read off dn len s1 n s2)
  have s1: "cache_ok s1" "index (d_slots s1) nid = Some (OnDisk off)"
    using read_record_cache [OF read(2)] read_record_slots [OF read(2)] ok read(1) by auto
  then have "index (d_slots s2) nid = Some (OnDisk off)"
    using node_of_record_keeps [OF read(3), of nid] by (auto simp: index_eq_Some)
  with finish_load_cache [OF node_of_record_cache [OF read(3) s1(1)] _ read(4)] show ?thesis by blast
qed

lemma loaded_mut_loaded: "loaded_mut nid s = Some (n, s') \<Longrightarrow> loaded s nid = Some n"
  by (auto simp: loaded_mut_def loaded_def split: node_slot.split_asm elim!: bind_SomeE)

lemma release_slot_index: "release_slot nid s = Some s' \<Longrightarrow> nid < length (d_slots s)"
  by (auto simp: release_slot_def index_eq_Some elim!: bind_SomeE)

lemma cache_slot_invariant: "slot_invariant (E :: 'v env) (cache_ok :: ('v, 'p) disk_engine \<Rightarrow> bool)"
proof
  show "loaded_mut nid s = Some (n, s') \<Longrightarrow> cache_ok s \<Longrightarrow> cache_ok s'" for nid n and s s' :: "('v, 'p) disk_engine"
    using loaded_mut_ok loaded_mut_loaded by fastforce
  show "alloc_dirty n s = Some (nid, s') \<Longrightarrow> cache_ok s \<Longrightarrow> cache_ok s'" for n nid and s s' :: "('v, 'p) disk_engine"
    using alloc_dirty_ok [of s n] by auto
  show "release_slot nid s = Some s' \<Longrightarrow> cache_ok s \<Longrightarrow> cache_ok s'" for nid and s s' :: "('v, 'p) disk_engine"
    using release_slot_ok [of s nid] release_slot_index [of nid s s'] by auto
  show "cache_ok s \<Longrightarrow> cache_ok (put_node nid n s)" for nid n and s :: "('v, 'p) disk_engine" by (rule put_node_ok)
  show "ensure_loaded E nid pins s = Some (r, s') \<Longrightarrow> cache_ok s \<Longrightarrow> cache_ok s'" for nid pins r and s s' :: "('v, 'p) disk_engine"
    by (rule ensure_loaded_cache)
qed (simp_all add: cache_ok_def)

interpretation cache: slot_invariant E cache_ok for E
  by (rule cache_slot_invariant)

end
