(* ===== verification/Disk_Run.thy ===== *)
theory Disk_Run
  imports Disk_Cache
begin

text \<open>
  The engine over time: what a program can do with it (\<open>disk_step\<close>), the engines it can hold
  (\<open>disk_reachable\<close>: created or recovered, then driven by any operations), and what holds of all of
  them. Between commits the file is never written, and a poisoned engine never commits again.
\<close>

section \<open>Steps\<close>

inductive disk_op :: "'v env \<Rightarrow> ('v, 'p) disk_engine \<Rightarrow> ('v, 'p) disk_engine \<Rightarrow> bool" for E where
  op_insert: "try_insert E k v s = Some (r, s') \<Longrightarrow> disk_op E s s'"
| op_delete: "try_delete E k s = Some (r, s') \<Longrightarrow> disk_op E s s'"
| op_upsert: "try_upsert E k u s = Some (r, s') \<Longrightarrow> disk_op E s s'"
| op_get: "try_get E k s = Some (g, s') \<Longrightarrow> disk_op E s s'"
| op_scan: "try_scan E lo hi s = Some (x, s') \<Longrightarrow> disk_op E s s'"
| op_drain: "disk_drain E s = Some (r, s') \<Longrightarrow> disk_op E s s'"
| op_load_all: "load_all E s = Some (r, s') \<Longrightarrow> disk_op E s s'"
| op_live: "live_walk E s = Some (w, s') \<Longrightarrow> disk_op E s s'"
| op_height: "disk_height E s = Some (h, s') \<Longrightarrow> disk_op E s s'"

inductive disk_reachable :: "'v env \<Rightarrow> ('v, 'p) disk_engine \<Rightarrow> bool" for E where
  created: "create_on_with E v p bud pol = Some (Inr s, v') \<Longrightarrow> disk_reachable E s"
| opened: "open_on_with E v bud pol = Some (Inr s, v') \<Longrightarrow> disk_reachable E s"
| operated: "disk_reachable E s \<Longrightarrow> disk_op E s s' \<Longrightarrow> disk_reachable E s'"
| committed: "disk_reachable E s \<Longrightarrow> commit E s = Some (r, s') \<Longrightarrow> disk_reachable E s'"

context slot_invariant
begin

text \<open>Every operation keeps the invariant.\<close>

lemma disk_op_I: "disk_op E s s' \<Longrightarrow> I s \<Longrightarrow> I s'"
  by (induction rule: disk_op.induct) (auto intro: mutations_I reads_I drain_I)

lemma disk_ops_I: "(disk_op E)\<^sup>*\<^sup>* s s' \<Longrightarrow> I s \<Longrightarrow> I s'"
  by (induction rule: rtranclp_induct) (auto intro: disk_op_I)

end

section \<open>What the primitives leave alone\<close>

text \<open>The fields that only commit changes, and the poison mark.\<close>
definition frame :: "('v, 'p) disk_engine \<Rightarrow> params \<times> nat \<times> u64 \<times> bool" where
  "frame s = (d_params s, d_watermark s, d_next_generation s, d_poisoned s)"

definition kept_frame :: "('v, 'p) disk_engine \<Rightarrow> ('v, 'p) disk_engine \<Rightarrow> bool" where
  "kept_frame s s' \<longleftrightarrow> frame s' = frame s \<and> d_vfs s' = d_vfs s"

lemma kept_frame_refl [simp]: "kept_frame s s"
  by (simp add: kept_frame_def)

lemma kept_frame_trans: "kept_frame s1 s2 \<Longrightarrow> kept_frame s2 s3 \<Longrightarrow> kept_frame s1 s3"
  by (simp add: kept_frame_def)

lemma kept_frame_simps [simp]:
  "kept_frame s (set_slot nid slot t) = kept_frame s t" "kept_frame s (t\<lparr>d_slots := slots\<rparr>) = kept_frame s t"
  "kept_frame s (t\<lparr>d_cache := c\<rparr>) = kept_frame s t" "kept_frame s (t\<lparr>d_offsets := offs\<rparr>) = kept_frame s t"
  "kept_frame s (put_node nid n t) = kept_frame s t" "kept_frame s (t\<lparr>d_root := root\<rparr>) = kept_frame s t"
  "kept_frame s (t\<lparr>d_policy := pol\<rparr>) = kept_frame s t" "kept_frame s (t\<lparr>d_trace := tr\<rparr>) = kept_frame s t"
  "kept_frame s (t\<lparr>d_next_seq := q, d_ops_since_commit := m\<rparr>) = kept_frame s t"
  by (auto simp: kept_frame_def frame_def set_slot_def put_node_def split: option.split node_slot.split)

lemma touch_frame: "touch nid t = Some t' \<Longrightarrow> kept_frame s t' = kept_frame s t"
  by (auto simp: touch_def Let_def split: if_split_asm elim!: bind_SomeE)

lemma enforce_loop_frame: "enforce_loop left bud pins jl t = Some t' \<Longrightarrow> kept_frame s t' = kept_frame s t"
proof (induction left arbitrary: t)
  case (Suc left)
  from Suc.prems show ?case
    by (auto simp: Let_def split: if_split_asm list.split_asm node_slot.split_asm elim!: bind_SomeE dest!: Suc.IH)
qed simp

lemma enforce_budget_frame: "enforce_budget pins jl t = Some t' \<Longrightarrow> kept_frame s t' = kept_frame s t"
  by (auto simp: enforce_budget_def split: option.split_asm if_split_asm elim!: bind_SomeE
      dest!: enforce_loop_frame [of _ _ _ _ _ _ s])

lemma slots_frame:
  "loaded_mut nid t = Some (n, t') \<Longrightarrow> kept_frame s t' = kept_frame s t"
  "alloc_dirty m t = Some (nid, t') \<Longrightarrow> kept_frame s t' = kept_frame s t"
  "release_slot nid t = Some t' \<Longrightarrow> kept_frame s t' = kept_frame s t"
  "alloc_on_disk off t = Some (nid, t') \<Longrightarrow> kept_frame s t' = kept_frame s t"
  by (auto simp: loaded_mut_def alloc_dirty_def release_slot_def alloc_on_disk_def Let_def
      split: node_slot.split_asm option.split_asm if_split_asm elim!: bind_SomeE dest!: touch_frame [of _ _ _ s])

lemma alloc_children_frame: "alloc_children offs t = Some (nids, t') \<Longrightarrow> kept_frame s t' = kept_frame s t"
  by (induction offs arbitrary: t nids) (auto elim!: bind_SomeE dest!: slots_frame(4) [of _ _ _ _ s])

lemma node_of_record_frame: "node_of_record off dn t = Some (r, t') \<Longrightarrow> kept_frame s t' = kept_frame s t"
  by (auto simp: node_of_record_def split: disk_node.split_asm if_split_asm option.split_asm elim!: bind_SomeE
      dest!: alloc_children_frame [of _ _ _ _ s])

lemma finish_load_frame: "finish_load nid pins off len n t = Some (r, t') \<Longrightarrow> kept_frame s t' = kept_frame s t"
  by (auto simp: finish_load_def Let_def elim!: bind_SomeE dest!: touch_frame [of _ _ _ s] enforce_budget_frame [of _ _ _ _ s])

text \<open>A read of the device: the fields are kept, and so is the device where reading does not change it.\<close>

lemma on_vfs_read:
  assumes "on_vfs f t = Some (r, t')"
  shows "frame t' = frame t" "(\<And>v x v'. f v = Some (x, v') \<Longrightarrow> v' = v) \<Longrightarrow> kept_frame s t' = kept_frame s t"
proof -
  obtain x v where f: "f (d_vfs t) = Some (x, v)" "t' = t\<lparr>d_vfs := v\<rparr>"
    using assms by (auto simp: on_vfs_def elim!: bind_SomeE)
  then show "frame t' = frame t" by (simp add: frame_def)
  show "kept_frame s t' = kept_frame s t" if "\<And>v x v'. f v = Some (x, v') \<Longrightarrow> v' = v"
    using that [OF f(1)] f(2) by simp
qed

definition pure_reads :: "'v env \<Rightarrow> bool" where
  "pure_reads E \<longleftrightarrow> (\<forall>off n v x v'. read_exact_at (env_vfs E) off n v = Some (x, v') \<longrightarrow> v' = v)"

lemma read_record_frame:
  assumes "read_record E off t = Some (r, t')"
  shows "frame t' = frame t" "pure_reads E \<Longrightarrow> kept_frame s t' = kept_frame s t"
proof -
  show "frame t' = frame t"
    using assms by (auto simp: read_record_def Let_def split: if_split_asm sum.split_asm elim!: runE dest!: on_vfs_read(1))
  assume "pure_reads E"
  then have "on_vfs (read_exact_at (env_vfs E) o' n) u = Some (x, u') \<Longrightarrow> kept_frame s u' = kept_frame s u" for o' n u x and u' :: "('a, 'b) disk_engine"
    using on_vfs_read(2) unfolding pure_reads_def by blast
  then show "kept_frame s t' = kept_frame s t"
    using assms by (auto simp: read_record_def Let_def split: if_split_asm sum.split_asm elim!: runE)
qed

lemma ensure_loaded_frame:
  assumes "ensure_loaded E nid pins t = Some (r, t')"
  shows "frame t' = frame t \<and> (pure_reads E \<longrightarrow> kept_frame t t')"
  using assms
proof (cases rule: ensure_loadedE)
  case (hit n d off b tk)
  then show ?thesis using touch_frame [OF hit(3), of t] by (simp add: kept_frame_def frame_def)
next
  case (unread off e)
  then show ?thesis using read_record_frame [OF unread(3)] by simp
next
  case (malformed off dn len s1 e)
  then show ?thesis using read_record_frame [OF malformed(3)] node_of_record_frame [OF malformed(4), of s1]
    by (auto simp: kept_frame_def)
next
  case (read off dn len s1 n s2)
  then show ?thesis using read_record_frame [OF read(2)] node_of_record_frame [OF read(3), of s1]
      finish_load_frame [OF read(4), of s2] by (auto simp: kept_frame_def)
qed

section \<open>Instances\<close>

lemma slots_kept:
  "loaded_mut nid s = Some (n, s') \<Longrightarrow> kept_frame s s'" "alloc_dirty n s = Some (nid, s') \<Longrightarrow> kept_frame s s'"
  "release_slot nid s = Some s' \<Longrightarrow> kept_frame s s'" "kept_frame s (put_node nid n s)"
  using slots_frame(1-3) [where s = s and t = s] by auto

lemma file_invariant:
  assumes pure: "pure_reads E" and I: "\<And>s s'. kept_frame s s' \<Longrightarrow> I s \<Longrightarrow> I s'" and "\<And>s. I s \<Longrightarrow> I (s\<lparr>d_poisoned := True\<rparr>)"
  shows "slot_invariant E I"
proof
  show "ensure_loaded E nid pins s = Some (r, s') \<Longrightarrow> I s \<Longrightarrow> I s'" for nid pins r s s'
    using ensure_loaded_frame I pure by blast
  show "loaded_mut nid s = Some (n, s') \<Longrightarrow> I s \<Longrightarrow> I s'" "alloc_dirty n s = Some (nid, s') \<Longrightarrow> I s \<Longrightarrow> I s'"
    "release_slot nid s = Some s' \<Longrightarrow> I s \<Longrightarrow> I s'" for nid n s s'
    using slots_kept(1-3) I by blast+
qed (rule assms(3), assumption | erule I [rotated], simp)+

lemma frame_invariant:
  assumes I: "\<And>s s'. frame s' = frame s \<Longrightarrow> I s \<Longrightarrow> I s'" and "\<And>s. I s \<Longrightarrow> I (s\<lparr>d_poisoned := True\<rparr>)"
  shows "slot_invariant E I"
proof
  have kept: "I s'" if "kept_frame s s'" "I s" for s s' using that I by (simp add: kept_frame_def)
  show "ensure_loaded E nid pins s = Some (r, s') \<Longrightarrow> I s \<Longrightarrow> I s'" for nid pins r s s'
    using ensure_loaded_frame I by blast
  show "loaded_mut nid s = Some (n, s') \<Longrightarrow> I s \<Longrightarrow> I s'" "alloc_dirty n s = Some (nid, s') \<Longrightarrow> I s \<Longrightarrow> I s'"
    "release_slot nid s = Some s' \<Longrightarrow> I s \<Longrightarrow> I s'" for nid n s s'
    using slots_kept(1-3) kept by blast+
qed (rule assms(2), assumption | erule I [rotated], simp add: frame_def put_node_def set_slot_def split: option.split node_slot.split)+

text \<open>A poisoned engine stays poisoned.\<close>
interpretation poisoned: slot_invariant E d_poisoned for E
  by (rule frame_invariant) (simp_all add: frame_def)

text \<open>The device, the parameters and the place of the next commit, where reading is pure.\<close>
definition file_is :: "'v \<Rightarrow> params \<Rightarrow> nat \<Rightarrow> u64 \<Rightarrow> ('v, 'p) disk_engine \<Rightarrow> bool" where
  "file_is v p w g s \<longleftrightarrow> d_vfs s = v \<and> d_params s = p \<and> d_watermark s = w \<and> d_next_generation s = g"

abbreviation faulty_env :: "codec \<Rightarrow> faulty_state env" where
  "faulty_env cd \<equiv> \<lparr>env_vfs = FaultyVfs, env_codec = cd\<rparr>"

lemma faulty_pure: "pure_reads (faulty_env cd)"
  by (simp add: pure_reads_def FaultyVfs_def faulty_read_def)

interpretation quiet: slot_invariant "faulty_env cd" "file_is v p w g" for cd v p w g
  by (rule file_invariant [OF faulty_pure]) (auto simp: file_is_def kept_frame_def frame_def)

section \<open>Commit and the constructors\<close>

lemma adopt_records_cache: "adopt_records assigned lens s = Some s' \<Longrightarrow> cache_ok s \<Longrightarrow> cache_ok s'"
proof (induction assigned arbitrary: s)
  case (Cons a assigned)
  obtain nid off where a: "a = (nid, off)" by fastforce
  from Cons.prems(1) obtain n d old b t exact c where slot: "index (d_slots s) nid = Some (Loaded n d old b t)"
    and c: "recount b exact (d_cache s) = Some c"
    and go: "adopt_records assigned lens (set_slot nid (Loaded n False (Some off) exact t)
      (s\<lparr>d_cache := c, d_offsets := bt_insert off nid (case old of None \<Rightarrow> d_offsets s | Some o' \<Rightarrow> bt_remove o' (d_offsets s))\<rparr>)) = Some s'"
    by (auto simp: a Let_def split: node_slot.split_asm elim!: bind_SomeE)
  have b: "b \<le> cache_bytes (d_cache s)" using cache_enough(1) [OF Cons.prems(2) slot] by simp
  have "cache_ok (set_slot nid (Loaded n False (Some off) exact t)
      (s\<lparr>d_cache := c, d_offsets := bt_insert off nid (case old of None \<Rightarrow> d_offsets s | Some o' \<Rightarrow> bt_remove o' (d_offsets s))\<rparr>))"
    using c b slot Cons.prems(2)
    by (intro cache_ok_set_slot [OF Cons.prems(2) slot])
      (auto simp: recount_ok [OF b] cache_ok_def index_eq_Some split: option.split dest!: bt_insert_in bt_remove_in)
  from Cons.IH [OF go this] show ?case .
qed simp

lemma cache_ok_fields [simp]:
  "cache_ok (s\<lparr>d_vfs := v\<rparr>) = cache_ok s" "cache_ok (s\<lparr>d_poisoned := b\<rparr>) = cache_ok s"
  "cache_ok (s\<lparr>d_watermark := w, d_next_generation := g\<rparr>) = cache_ok s" "cache_ok (s\<lparr>d_ops_since_commit := m\<rparr>) = cache_ok s"
  by (simp_all add: cache_ok_def)

lemma enforce_budget_cache: "enforce_budget pins jl s = Some s' \<Longrightarrow> cache_ok s \<Longrightarrow> cache_ok s'"
  using enforce_budget_ok [of s pins jl] by auto

lemma commit_parts_cache:
  "commit_data E buf s = Some (r, s') \<Longrightarrow> cache_ok s' = cache_ok s"
  "commit_publish E sb s = Some (r, s') \<Longrightarrow> cache_ok s' = cache_ok s"
  by (auto simp: commit_data_def commit_publish_def split: if_split_asm sum.split_asm elim!: and_thenE dest!: on_vfs_cache)

lemma commit_adopt_cache: "commit_adopt buf assigned lens s = Some (r, s') \<Longrightarrow> cache_ok s \<Longrightarrow> cache_ok s'"
  by (auto simp: commit_adopt_def elim!: bind_SomeE dest!: adopt_records_cache enforce_budget_cache)

lemma commit_cache: "commit E s = Some (r, s') \<Longrightarrow> cache_ok s \<Longrightarrow> cache_ok s'"
  by (auto simp: commit_def commit_inner_def split: if_split_asm sum.split_asm elim!: runE
      dest!: commit_parts_cache commit_adopt_cache)

lemma create_cache: "create_on_with E v p bud pol = Some (Inr s, v') \<Longrightarrow> cache_ok s"
proof -
  assume run: "create_on_with E v p bud pol = Some (Inr s, v')"
  obtain v1 s0 r where "touch 0 \<lparr>d_params = p, d_vfs = v1, d_slots = [Loaded (Leaf []) True None (est_bytes (Leaf [])) 0], d_root = 0,
      d_next_seq = 0, d_next_generation = 0, d_watermark = DATA_START, d_poisoned = False,
      d_cache = cache_default\<lparr>budget := bud, cache_bytes := est_bytes (Leaf []), resident := 1\<rparr>,
      d_offsets = [], d_ops_since_commit = 0, d_policy = pol, d_trace = recorder_default\<rparr> = Some s0" (is "touch 0 ?s = _")
    and c: "commit E s0 = Some (r, s)"
    using run by (auto simp: create_on_with_def Let_def split: if_split_asm sum.split_asm elim!: bind_SomeE)
  moreover have "cache_ok ?s" by (simp add: cache_ok_def cache_default_def)
  ultimately have "cache_ok s0" using touch_ok [of ?s 0] by auto
  with commit_cache [OF c] show ?thesis .
qed

lemma open_cache: "open_on_with E v bud pol = Some (Inr s, v') \<Longrightarrow> cache_ok s"
  by (auto simp: open_on_with_def opened_def cache_ok_def cache_default_def total_def
      split: sum.split_asm option.split_asm prod.split_asm elim!: bind_SomeE)

lemma reachable_cache: "disk_reachable E s \<Longrightarrow> cache_ok s"
  by (induction rule: disk_reachable.induct) (auto intro: create_cache open_cache cache.disk_op_I commit_cache)

end
