(* ===== verification/Disk_File.thy ===== *)
theory Disk_File
  imports Disk_Run BeTree_Correct
begin

text \<open>
  What a file holds. \<open>stored_node\<close> is the node record at an offset as recovery would read and validate
  it; \<open>stored\<close> is the path of a key through the records below an offset; \<open>holds\<close> is the path of a key
  through an engine whose nodes are partly in memory and partly in the file. Serialising the dirty
  nodes, children before parents, gives records that stand for the same values.
\<close>

section \<open>Records in a file\<close>

definition stored_record :: "codec \<Rightarrow> bytes \<Rightarrow> nat \<Rightarrow> nat \<Rightarrow> (disk_node \<times> nat) option" where
  "stored_record cd file wm off =
     (if off < DATA_START \<or> wm < off + RECORD_HEADER_SIZE \<or> length file < off + RECORD_HEADER_SIZE then None
      else (let header = take RECORD_HEADER_SIZE (drop off file); len = unat (from_le (take 4 header) :: u32) in
        if wm < off + RECORD_HEADER_SIZE + len \<or> length file < off + RECORD_HEADER_SIZE + len then None
        else (let payload = take len (drop (off + RECORD_HEADER_SIZE) file) in
          if crc32 cd payload \<noteq> from_le (drop 4 header) then None
          else (case decode_node cd payload of Inl e \<Rightarrow> None | Inr n \<Rightarrow> Some (n, len)))))"

text \<open>The validation that follows decoding.\<close>
fun record_ok :: "nat \<Rightarrow> disk_node \<Rightarrow> bool" where
  "record_ok off (DiskLeaf es) = True"
| "record_ok off (DiskInternal ps offs b) =
     (length offs = length ps + 1 \<and> (\<forall>c\<in>set offs. DATA_START \<le> c \<and> c < off))"

definition stored_node :: "codec \<Rightarrow> bytes \<Rightarrow> nat \<Rightarrow> nat \<Rightarrow> disk_node option" where
  "stored_node cd file wm off =
     (case stored_record cd file wm off of
        Some (n, len) \<Rightarrow> if record_ok off n then Some n else None
      | None \<Rightarrow> None)"

text \<open>Reading a record of the crash-injection device never panics: it gives exactly the stored record,
  or an error.\<close>

lemma read_record_faulty:
  "\<exists>e. read_record (faulty_env cd) off s =
     (case stored_record cd (fs_view (d_vfs s)) (d_watermark s) off of Some x \<Rightarrow> ok x s | None \<Rightarrow> err e s)"
proof -
  let ?f = "fs_view (d_vfs s)" and ?wm = "d_watermark s"
  have read: "on_vfs (read_exact_at FaultyVfs o' n) s =
      (if o' + n > length ?f then err (Io UnexpectedEof) s else ok (take n (drop o' ?f)) s)" for o' n
    by (simp add: on_vfs_def FaultyVfs_def faulty_read_def)
  have far: "off > ?wm - RECORD_HEADER_SIZE \<longleftrightarrow> ?wm < off + RECORD_HEADER_SIZE" if "DATA_START \<le> off"
    using that by (auto simp: DATA_START_def SUPERBLOCK_SLOT_SIZE_def RECORD_HEADER_SIZE_def)
  show ?thesis
  proof (cases "off < DATA_START \<or> ?wm < off + RECORD_HEADER_SIZE \<or> length ?f < off + RECORD_HEADER_SIZE")
    case True
    then show ?thesis using far by (auto simp: read_record_def stored_record_def read not_less)
  next
    case False
    then have near: "\<not> (off < DATA_START \<or> off > ?wm - RECORD_HEADER_SIZE)" using far by (auto simp: not_less)
    let ?h = "take RECORD_HEADER_SIZE (drop off ?f)"
    let ?len = "unat (from_le (take 4 ?h) :: u32)"
    have room: "?len > ?wm - (off + RECORD_HEADER_SIZE) \<longleftrightarrow> ?wm < off + RECORD_HEADER_SIZE + ?len" using False by auto
    show ?thesis using False near room
      by (auto simp: read_record_def stored_record_def read Let_def checked_sub_def split: sum.split)
  qed
qed

lemma record_bytes_split:
  "take 4 (record_bytes cd p) = to_le 4 (of_nat (length p) :: u32)" "drop 8 (record_bytes cd p) = p"
  "take 4 (drop 4 (record_bytes cd p)) = to_le 4 (crc32 cd p)" "length (record_bytes cd p) = 8 + length p"
  by (simp_all add: record_bytes_def)

text \<open>A record that was written is found again.\<close>

lemma stored_record_written:
  assumes "DATA_START \<le> off" "off + 8 + length p \<le> wm" "wm \<le> length file" "length p < 2 ^ 32"
    and at: "take (8 + length p) (drop off file) = record_bytes cd p" and dec: "decode_node cd p = Inr n"
  shows "stored_record cd file wm off = Some (n, length p)"
proof -
  have h: "take 8 (drop off file) = take 8 (record_bytes cd p)"
    by (metis at min.absorb1 le_add1 take_take)
  have "drop 8 (take (8 + length p) (drop off file)) = p" using at by (simp add: record_bytes_split)
  then have p: "take (length p) (drop (off + 8) file) = p" by (simp add: drop_take add.commute)
  have four: "take 4 (take 8 (record_bytes cd p)) = to_le 4 (of_nat (length p) :: u32)"
    "drop 4 (take 8 (record_bytes cd p)) = to_le 4 (crc32 cd p)"
    by (simp_all add: record_bytes_def)
  have "unat (of_nat (length p) :: u32) = length p" using assms(4) by (simp add: unat_of_nat take_bit_nat_eq_self)
  then have len: "unat (from_le (take 4 (record_bytes cd p)) :: u32) = length p" by (simp add: record_bytes_split)
  show ?thesis using assms(1-3) dec
    by (simp add: stored_record_def RECORD_HEADER_SIZE_def Let_def h four p len)
qed

text \<open>Only the data region below the watermark matters, and a higher watermark loses nothing.\<close>

definition data :: "nat \<Rightarrow> bytes \<Rightarrow> bytes" where
  "data wm fl = drop DATA_START (take wm fl)"

lemma data_slice:
  assumes "data wm fl' = data wm fl" "DATA_START \<le> o'" "o' + n \<le> wm"
  shows "take n (drop o' fl') = take n (drop o' fl)"
proof -
  have "take n (drop (o' - DATA_START) (data wm f)) = take n (drop o' f)" for f
    using assms(2,3) by (simp add: data_def drop_take)
  then show ?thesis using assms(1) by metis
qed

lemma stored_record_mono:
  assumes "stored_record cd fl wm off = Some x" "data wm fl' = data wm fl" "wm \<le> length fl'" "wm \<le> wm'"
  shows "stored_record cd fl' wm' off = Some x"
proof -
  let ?len = "unat (from_le (take 4 (take RECORD_HEADER_SIZE (drop off fl))) :: u32)"
  have b: "DATA_START \<le> off" "off + RECORD_HEADER_SIZE + ?len \<le> wm"
    using assms(1) by (auto simp: stored_record_def Let_def split: if_split_asm)
  have h: "take RECORD_HEADER_SIZE (drop off fl') = take RECORD_HEADER_SIZE (drop off fl)"
    using b by (intro data_slice [OF assms(2)]) simp_all
  have p: "take ?len (drop (off + RECORD_HEADER_SIZE) fl') = take ?len (drop (off + RECORD_HEADER_SIZE) fl)"
    using b by (intro data_slice [OF assms(2)]) simp_all
  show ?thesis using assms b unfolding stored_record_def Let_def h
    by (auto simp: p [simplified] split: if_split_asm)
qed

lemma stored_node_mono:
  assumes "stored_node cd fl wm off = Some n" "data wm fl' = data wm fl" "wm \<le> length fl'" "wm \<le> wm'"
  shows "stored_node cd fl' wm' off = Some n"
  using assms(1) stored_record_mono [OF _ assms(2-4)]
  by (auto simp: stored_node_def split: option.split_asm if_split_asm)

section \<open>Paths\<close>

inductive stored :: "(nat \<Rightarrow> disk_node option) \<Rightarrow> nat \<Rightarrow> key \<Rightarrow> occurrences \<Rightarrow> bool" for rd where
  stored_leaf: "rd off = Some (DiskLeaf es) \<Longrightarrow> stored rd off k ([], bt_get es k)"
| stored_internal: "rd off = Some (DiskInternal ps offs b) \<Longrightarrow> index offs (route ps k) = Some c \<Longrightarrow> stored rd c k p \<Longrightarrow>
    stored rd off k (add_msg (bt_get b k) p)"

inductive holds :: "(nat \<Rightarrow> disk_node option) \<Rightarrow> node_slot list \<Rightarrow> node_id \<Rightarrow> key \<Rightarrow> occurrences \<Rightarrow> bool" for rd slots where
  holds_disk: "index slots nid = Some (OnDisk off) \<Longrightarrow> stored rd off k p \<Longrightarrow> holds rd slots nid k p"
| holds_leaf: "index slots nid = Some (Loaded (Leaf es) d o' b t) \<Longrightarrow> holds rd slots nid k ([], bt_get es k)"
| holds_internal: "index slots nid = Some (Loaded (Internal ps cs m) d o' b t) \<Longrightarrow> index cs (route ps k) = Some c \<Longrightarrow>
    holds rd slots c k p \<Longrightarrow> holds rd slots nid k (add_msg (bt_get m k) p)"

inductive_cases stored_leafE: "stored rd off k p"
inductive_cases holdsE: "holds rd slots nid k p"

lemma stored_mono: "stored rd off k p \<Longrightarrow> (\<And>o' n. rd o' = Some n \<Longrightarrow> rd' o' = Some n) \<Longrightarrow> stored rd' off k p"
  by (induction rule: stored.induct) (auto intro: stored.intros)

lemma stored_unique: "stored rd off k p \<Longrightarrow> stored rd off k p' \<Longrightarrow> p' = p"
proof (induction arbitrary: p' rule: stored.induct)
  case (stored_leaf off es k)
  from stored_leaf(2) show ?case by (cases rule: stored.cases) (use stored_leaf(1) in auto)
next
  case (stored_internal off ps offs b k c p)
  from stored_internal(5) show ?case by (cases rule: stored.cases) (use stored_internal(1,2,4) in auto)
qed

lemma holds_unique: "holds rd slots nid k p \<Longrightarrow> holds rd slots nid k p' \<Longrightarrow> p' = p"
proof (induction arbitrary: p' rule: holds.induct)
  case (holds_disk nid off k p)
  from holds_disk(3) show ?case by (cases rule: holds.cases) (use holds_disk(1,2) stored_unique in auto)
next
  case (holds_leaf nid es d o' b t k)
  from holds_leaf(2) show ?case by (cases rule: holds.cases) (use holds_leaf(1) in auto)
next
  case (holds_internal nid ps cs m d o' b t k c p)
  from holds_internal(5) show ?case by (cases rule: holds.cases) (use holds_internal(1,2,4) in auto)
qed

text \<open>Two paths that give a key the same value.\<close>

definition reads_as :: "(nat \<Rightarrow> disk_node option) \<Rightarrow> nat \<Rightarrow> key \<Rightarrow> occurrences \<Rightarrow> bool" where
  "reads_as rd off k p \<longleftrightarrow> (\<exists>p'. stored rd off k p' \<and> path_value p' = path_value p)"

lemma reads_as_mono: "reads_as rd off k p \<Longrightarrow> (\<And>o' n. rd o' = Some n \<Longrightarrow> rd' o' = Some n) \<Longrightarrow> reads_as rd' off k p"
  unfolding reads_as_def using stored_mono by metis

lemma stored_reads_as: "stored rd off k p \<Longrightarrow> reads_as rd off k p"
  unfolding reads_as_def by blast

lemma reads_as_internal:
  assumes "rd off = Some (DiskInternal ps offs b)" "index offs (route ps k) = Some c" "reads_as rd c k p"
  shows "reads_as rd off k (add_msg (bt_get b k) p)"
proof -
  obtain p' where "stored rd c k p'" "path_value p' = path_value p" using assms(3) by (auto simp: reads_as_def)
  with stored_internal [of rd off ps offs b k c p', OF assms(1,2)] show ?thesis unfolding reads_as_def
    by (intro exI [of _ "add_msg (bt_get b k) p'"]) (simp add: path_value_add split: option.split)
qed

section \<open>Where records lie\<close>

text \<open>Every offset that the engine remembers is that of a record in the data region.\<close>
fun offset_ok :: "nat \<Rightarrow> node_slot \<Rightarrow> bool" where
  "offset_ok wm (OnDisk o') = (DATA_START \<le> o' \<and> o' + RECORD_HEADER_SIZE \<le> wm)"
| "offset_ok wm (Loaded n d off b t) = (\<forall>o'. off = Some o' \<longrightarrow> DATA_START \<le> o' \<and> o' + RECORD_HEADER_SIZE \<le> wm)"
| "offset_ok wm Freed = True"

definition offsets_ok :: "('v, 'p) disk_engine \<Rightarrow> bool" where
  "offsets_ok s \<longleftrightarrow> (\<forall>slot\<in>set (d_slots s). offset_ok (d_watermark s) slot)"

lemma offset_ok_stamp [simp]: "offset_ok wm (stamp t slot) = offset_ok wm slot"
  by (cases slot) auto

lemma offsets_ok_slot: "offsets_ok s \<Longrightarrow> index (d_slots s) nid = Some slot \<Longrightarrow> offset_ok (d_watermark s) slot"
  by (auto simp: offsets_ok_def index_eq_Some)

lemma offsets_ok_fields [simp]:
  "offsets_ok (s\<lparr>d_cache := c\<rparr>) = offsets_ok s" "offsets_ok (s\<lparr>d_offsets := offs\<rparr>) = offsets_ok s"
  "offsets_ok (s\<lparr>d_vfs := v\<rparr>) = offsets_ok s" "offsets_ok (s\<lparr>d_poisoned := True\<rparr>) = offsets_ok s"
  "offsets_ok (s\<lparr>d_ops_since_commit := m\<rparr>) = offsets_ok s"
  by (simp_all add: offsets_ok_def)

lemma offsets_ok_set_slot: "offsets_ok s \<Longrightarrow> offset_ok (d_watermark s) slot \<Longrightarrow> offsets_ok (set_slot nid slot s)"
  using set_update_all [of "d_slots s" "offset_ok (d_watermark s)" slot nid] by (simp add: offsets_ok_def set_slot_def)

lemma touch_offsets:
  assumes "touch nid s = Some s'" "offsets_ok s"
  shows "offsets_ok s'"
proof (cases "budget (d_cache s) = None")
  case False
  then obtain slot t c where slot: "index (d_slots s) nid = Some slot" and s': "s' = set_slot nid (stamp t slot) s\<lparr>d_cache := c\<rparr>"
    using assms(1) by (auto simp: touch_def Let_def elim!: bind_SomeE)
  show ?thesis using offsets_ok_slot [OF assms(2) slot] assms(2) by (simp add: s' offsets_ok_set_slot)
qed (use assms in \<open>simp add: touch_def\<close>)

lemma enforce_loop_offsets: "enforce_loop left bud pins jl s = Some s' \<Longrightarrow> offsets_ok s \<Longrightarrow> offsets_ok s'"
proof (induction left arbitrary: s)
  case (Suc left)
  show ?case
  proof (cases "bud < cache_bytes (d_cache s) \<and> lru (d_cache s) \<noteq> []")
    case True
    then obtain nid tk q where q: "lru (d_cache s) = (nid, tk) # q" by (cases "lru (d_cache s)") auto
    obtain slot where slot: "index (d_slots s) nid = Some slot" using Suc.prems(1) True q by (auto simp: Let_def elim!: bind_SomeE)
    have keep: "offsets_ok (set_slot nid x (s\<lparr>d_cache := c\<rparr>))" if "offset_ok (d_watermark s) x" for x c
      using offsets_ok_set_slot [of "s\<lparr>d_cache := c\<rparr>" x nid] that Suc.prems(2) by simp
    show ?thesis
    proof (cases slot)
      case (Loaded n d off b t)
      then have "offset_ok (d_watermark s) (Loaded n d off b t)" using offsets_ok_slot [OF Suc.prems(2) slot] by simp
      then show ?thesis using Suc.prems True q slot Loaded
        by (auto simp: Let_def split: if_split_asm elim!: bind_SomeE dest!: Suc.IH intro!: keep)
    qed (use Suc.prems True q slot in \<open>auto simp: Let_def dest!: Suc.IH\<close>)
  qed (use Suc.prems in \<open>auto split: if_split_asm list.split_asm\<close>)
qed simp

lemma enforce_budget_offsets: "enforce_budget pins jl s = Some s' \<Longrightarrow> offsets_ok s \<Longrightarrow> offsets_ok s'"
  by (auto simp: enforce_budget_def split: option.split_asm if_split_asm elim!: bind_SomeE dest!: enforce_loop_offsets)

lemma alloc_children_offsets:
  "alloc_children offs s = Some (nids, s') \<Longrightarrow> offsets_ok s \<Longrightarrow>
     \<forall>c\<in>set offs. DATA_START \<le> c \<and> c + RECORD_HEADER_SIZE \<le> d_watermark s \<Longrightarrow> offsets_ok s' \<and> d_watermark s' = d_watermark s"
proof (induction offs arbitrary: s nids)
  case (Cons off offs)
  obtain nid s1 ns where a: "alloc_on_disk off s = Some (nid, s1)" and go: "alloc_children offs s1 = Some (ns, s')"
    using Cons.prems(1) by (auto elim!: bind_SomeE)
  have "offsets_ok s1 \<and> d_watermark s1 = d_watermark s" using a Cons.prems(2,3)
    by (auto simp: alloc_on_disk_def Let_def offsets_ok_def split: option.split_asm if_split_asm elim!: bind_SomeE)
  with Cons.IH [OF go] Cons.prems(3) show ?case by auto
qed simp

lemma node_of_record_offsets:
  assumes "node_of_record off dn s = Some (r, s')" "offsets_ok s" "off + RECORD_HEADER_SIZE \<le> d_watermark s"
  shows "offsets_ok s' \<and> d_watermark s' = d_watermark s"
proof (cases dn)
  case (DiskInternal ps offs b)
  show ?thesis
  proof (cases "alloc_children offs s = None \<or> (find (\<lambda>c. c < DATA_START \<or> off \<le> c) offs \<noteq> None) \<or> length offs \<noteq> length ps + 1")
    case True
    then show ?thesis using assms(1,2) DiskInternal by (auto simp: node_of_record_def split: if_split_asm option.split_asm)
  next
    case False
    then have "\<forall>c\<in>set offs. DATA_START \<le> c \<and> c + RECORD_HEADER_SIZE \<le> d_watermark s"
      using assms(3) by (force simp: find_None_iff not_le not_less)
    then have all: "offsets_ok t \<and> d_watermark t = d_watermark s" if "alloc_children offs s = Some (nids, t)" for nids t
      using alloc_children_offsets that assms(2) by blast
    show ?thesis using assms(1) False DiskInternal by (auto simp: node_of_record_def elim!: bind_SomeE dest!: all)
  qed
qed (use assms in \<open>auto simp: node_of_record_def\<close>)

lemma finish_load_offsets:
  assumes "finish_load nid pins off len n s = Some (r, s')" "offsets_ok s" "DATA_START \<le> off" "off + RECORD_HEADER_SIZE \<le> d_watermark s"
  shows "offsets_ok s'"
  using assms by (auto simp: finish_load_def Let_def elim!: bind_SomeE dest!: touch_offsets enforce_budget_offsets
      intro!: offsets_ok_set_slot)

lemma ensure_loaded_offsets:
  assumes "ensure_loaded E nid pins s = Some (r, s')" "offsets_ok s"
  shows "offsets_ok s'"
  using assms(1)
proof (cases rule: ensure_loadedE)
  case (hit n d off b t)
  then show ?thesis using touch_offsets assms(2) by fastforce
next
  case (unread off e)
  then show ?thesis using read_record_slots [OF unread(3)] read_record_frame(1) [OF unread(3)] assms(2)
    by (simp add: offsets_ok_def frame_def)
next
  case (malformed off dn len s1 e)
  have "offsets_ok s1" "d_watermark s1 = d_watermark s"
    using read_record_slots [OF malformed(3)] read_record_frame(1) [OF malformed(3)] assms(2) by (simp_all add: offsets_ok_def frame_def)
  then show ?thesis using node_of_record_offsets [OF malformed(4)] offsets_ok_slot [OF assms(2) malformed(1)] by simp
next
  case (read off dn len s1 n s2)
  have s1: "offsets_ok s1" "d_watermark s1 = d_watermark s"
    using read_record_slots [OF read(2)] read_record_frame(1) [OF read(2)] assms(2) by (simp_all add: offsets_ok_def frame_def)
  then have "offsets_ok s2" "d_watermark s2 = d_watermark s"
    using node_of_record_offsets [OF read(3)] offsets_ok_slot [OF assms(2) read(1)] by simp_all
  then show ?thesis using finish_load_offsets [OF read(4)] offsets_ok_slot [OF assms(2) read(1)] by simp
qed

lemma loaded_mut_offsets:
  assumes "loaded_mut nid s = Some (n, s')" "offsets_ok s"
  shows "offsets_ok s'"
proof -
  obtain d off b t c where slot: "index (d_slots s) nid = Some (Loaded n d off b t)"
    and s': "s' = set_slot nid (Loaded n True off (est_bytes n) t) (s\<lparr>d_cache := c\<rparr>)"
    using assms(1) by (auto simp: loaded_mut_def split: node_slot.split_asm elim!: bind_SomeE)
  show ?thesis using offsets_ok_slot [OF assms(2) slot] assms(2) unfolding s' by (intro offsets_ok_set_slot) simp_all
qed

lemma put_node_offsets: "offsets_ok s \<Longrightarrow> offsets_ok (put_node nid n s)"
proof (cases "index (d_slots s) nid")
  case (Some slot)
  assume ok: "offsets_ok s"
  show ?thesis using offsets_ok_slot [OF ok Some] Some ok
    by (cases slot) (auto simp: put_node_def intro!: offsets_ok_set_slot)
qed (simp add: put_node_def)

interpretation offsets: slot_invariant E offsets_ok for E
proof
  show "alloc_dirty n s = Some (nid, s') \<Longrightarrow> offsets_ok s \<Longrightarrow> offsets_ok s'" for nid n and s s' :: "('a, 'b) disk_engine"
    by (auto simp: alloc_dirty_def Let_def elim!: bind_SomeE dest!: touch_offsets) (auto simp: offsets_ok_def)
  show "release_slot nid s = Some s' \<Longrightarrow> offsets_ok s \<Longrightarrow> offsets_ok s'" for nid and s s' :: "('a, 'b) disk_engine"
    by (auto simp: release_slot_def split: node_slot.split_asm elim!: bind_SomeE intro!: offsets_ok_set_slot)
qed (fact ensure_loaded_offsets loaded_mut_offsets put_node_offsets | simp add: offsets_ok_def)+

section \<open>Serialising the dirty nodes\<close>

text \<open>A tree node has one child more than pivots.\<close>
fun arity_ok :: "node_slot \<Rightarrow> bool" where
  "arity_ok (Loaded (Internal ps cs m) d off b t) = (length cs = length ps + 1)"
| "arity_ok slot = True"

text \<open>A clean node's record stands for the same values as the node.\<close>
definition faithful :: "(nat \<Rightarrow> disk_node option) \<Rightarrow> node_slot list \<Rightarrow> bool" where
  "faithful rd slots \<longleftrightarrow> (\<forall>nid n o' b t k p. index slots nid = Some (Loaded n False (Some o') b t) \<longrightarrow>
     holds rd slots nid k p \<longrightarrow> reads_as rd o' k p)"

text \<open>A file that continues another with the bytes of a commit.\<close>
definition extends :: "bytes \<Rightarrow> nat \<Rightarrow> bytes \<Rightarrow> bytes \<Rightarrow> nat \<Rightarrow> bool" where
  "extends F wm buf file wm' \<longleftrightarrow> data wm file = data wm F \<and> take (length buf) (drop wm file) = buf \<and>
     wm + length buf \<le> wm' \<and> wm' \<le> length file"

lemma extends_prefix: "extends F wm (buf @ tl_bytes) file wm' \<Longrightarrow> extends F wm buf file wm'"
proof -
  assume a: "extends F wm (buf @ tl_bytes) file wm'"
  then have "take (length buf) (take (length (buf @ tl_bytes)) (drop wm file)) = take (length buf) (buf @ tl_bytes)"
    by (simp add: extends_def)
  then show ?thesis using a by (simp add: extends_def min_def)
qed

lemma extends_mono:
  "extends F wm buf file wm' \<Longrightarrow> stored_node cd F wm off = Some n \<Longrightarrow> stored_node cd file wm' off = Some n"
  by (rule stored_node_mono [of cd F wm]) (auto simp: extends_def)

definition assigned_ok :: "codec \<Rightarrow> bytes \<Rightarrow> nat \<Rightarrow> node_slot list \<Rightarrow> bytes \<Rightarrow> (node_id, nat) btmap \<Rightarrow> bool" where
  "assigned_ok cd F wm slots buf assigned \<longleftrightarrow> (\<forall>nid off. bt_get assigned nid = Some off \<longrightarrow>
     DATA_START \<le> off \<and> off + RECORD_HEADER_SIZE \<le> wm + length buf \<and>
     (\<forall>file wm' k p. extends F wm buf file wm' \<longrightarrow> holds (stored_node cd F wm) slots nid k p \<longrightarrow>
        reads_as (stored_node cd file wm') off k p))"

lemma resolve_reads_as:
  assumes r: "resolve_offset s assigned c = Some off" and h: "holds (stored_node cd F wm) (d_slots s) c k p"
    and f: "faithful (stored_node cd F wm) (d_slots s)" and a: "assigned_ok cd F wm (d_slots s) buf assigned"
    and e: "extends F wm buf file wm'"
  shows "reads_as (stored_node cd file wm') off k p"
proof -
  let ?rd = "stored_node cd F wm" and ?rd' = "stored_node cd file wm'"
  have mono: "reads_as ?rd o' k p \<Longrightarrow> reads_as ?rd' o' k p" for o'
    using reads_as_mono extends_mono [OF e] by blast
  obtain slot where slot: "index (d_slots s) c = Some slot" using r by (auto simp: resolve_offset_def elim!: bind_SomeE)
  show ?thesis
  proof (cases slot)
    case (Loaded n d o' b t)
    show ?thesis
    proof (cases d)
      case True
      then have "bt_get assigned c = Some off" using r slot Loaded by (simp add: resolve_offset_def)
      then show ?thesis using a e h unfolding assigned_ok_def by blast
    next
      case False
      then have "index (d_slots s) c = Some (Loaded n False (Some off) b t)" using r slot Loaded by (simp add: resolve_offset_def)
      then have "reads_as ?rd off k p" using f h unfolding faithful_def by blast
      then show ?thesis by (rule mono)
    qed
  next
    case (OnDisk o')
    then have "o' = off" using r slot by (simp add: resolve_offset_def)
    with h slot OnDisk have "stored ?rd off k p" by (auto elim: holdsE)
    then show ?thesis by (intro mono stored_reads_as)
  qed (use r slot in \<open>simp add: resolve_offset_def\<close>)
qed

lemma resolve_range:
  assumes "resolve_offset s assigned c = Some off" "\<forall>slot\<in>set (d_slots s). offset_ok wm slot"
    "assigned_ok cd F wm (d_slots s) buf assigned"
  shows "DATA_START \<le> off \<and> off + RECORD_HEADER_SIZE \<le> wm + length buf"
proof -
  obtain slot where slot: "index (d_slots s) c = Some slot" using assms(1) by (auto simp: resolve_offset_def elim!: bind_SomeE)
  then have ok: "offset_ok wm slot" using assms(2) by (auto simp: index_eq_Some)
  show ?thesis
    by (cases slot; use assms(1,3) slot ok in \<open>auto simp: resolve_offset_def assigned_ok_def split: if_split_asm\<close>)
qed

lemma those_map_nth:
  "those (map f xs) = Some ys \<Longrightarrow> length ys = length xs \<and> (\<forall>i<length xs. f (xs ! i) = Some (ys ! i))"
proof (induction xs arbitrary: ys)
  case (Cons x xs)
  then obtain y zs where "f x = Some y" "those (map f xs) = Some zs" "ys = y # zs" by (auto split: option.split_asm)
  with Cons.IH [of zs] show ?case by (auto simp: nth_Cons split: nat.split)
qed simp

text \<open>One more record: the node with its children resolved, written at the end of what there is.\<close>

lemma payload_reads_as:
  assumes pay: "node_payload E s assigned nid = Some (Inr payload)" and cd: "env_codec E = cd" "\<forall>n. node_codec_ok cd n"
    and slots: "\<forall>slot\<in>set (d_slots s). offset_ok wm slot" "\<forall>slot\<in>set (d_slots s). arity_ok slot"
    and f: "faithful (stored_node cd F wm) (d_slots s)" and a: "assigned_ok cd F wm (d_slots s) buf assigned" and wm: "DATA_START \<le> wm" and len: "length payload < 2 ^ 32"
    and e: "extends F wm (buf @ record_bytes cd payload) file wm'" and h: "holds (stored_node cd F wm) (d_slots s) nid k p"
  shows "reads_as (stored_node cd file wm') (wm + length buf) k p"
proof -
  let ?rd' = "stored_node cd file wm'" and ?off = "wm + length buf"
  obtain n d o' b t where slot: "index (d_slots s) nid = Some (Loaded n d o' b t)"
    using pay by (auto simp: node_payload_def loaded_def split: node_slot.split_asm elim!: bind_SomeE)
  have ar: "arity_ok (Loaded n d o' b t)" using slots(2) slot by (force simp: index_eq_Some dest!: nth_mem)
  have ld: "loaded s nid = Some n" using slot by (simp add: loaded_def)
  have at: "take (8 + length payload) (drop ?off file) = record_bytes cd payload"
  proof -
    have "drop (length buf) (take (length (buf @ record_bytes cd payload)) (drop wm file)) = record_bytes cd payload"
      using e by (simp add: extends_def)
    then show ?thesis by (simp add: record_bytes_split drop_take add.commute)
  qed
  have rec: "?rd' ?off = Some dn" if "encode_node cd dn = Inr payload" "record_ok ?off dn" for dn
  proof -
    have "stored_record cd file wm' ?off = Some (dn, length payload)"
      by (rule stored_record_written [OF _ _ _ len at decode_encode_node [OF _ that(1)]])
        (use wm e cd(2) in \<open>auto simp: extends_def record_bytes_split\<close>)
    then show ?thesis using that(2) by (simp add: stored_node_def)
  qed
  show ?thesis
  proof (cases n)
    case (Leaf es)
    then have "encode_node cd (DiskLeaf es) = Inr payload" using pay ld cd(1) by (auto simp: node_payload_def split: sum.split_asm)
    then have "?rd' ?off = Some (DiskLeaf es)" by (rule rec) simp
    moreover have "p = ([], bt_get es k)" using h slot Leaf by (auto elim: holdsE)
    ultimately show ?thesis using stored_reads_as [OF stored_leaf, of ?rd' ?off es k] by simp
  next
    case (Internal ps cs m)
    obtain offs where offs: "those (map (resolve_offset s assigned) cs) = Some offs"
      and enc: "encode_node cd (DiskInternal ps offs m) = Inr payload"
      using pay ld cd(1) Internal by (auto simp: node_payload_def split: sum.split_asm elim!: bind_SomeE)
    have nth: "length offs = length cs" "\<And>i. i < length cs \<Longrightarrow> resolve_offset s assigned (cs ! i) = Some (offs ! i)"
      using those_map_nth [OF offs] by auto
    have "\<forall>c\<in>set offs. DATA_START \<le> c \<and> c < ?off"
      using nth resolve_range [OF _ slots(1) a] by (force simp: in_set_conv_nth RECORD_HEADER_SIZE_def)
    then have rd: "?rd' ?off = Some (DiskInternal ps offs m)" using ar Internal nth(1) by (intro rec [OF enc]) simp
    obtain c q where c: "index cs (route ps k) = Some c" "holds (stored_node cd F wm) (d_slots s) c k q" "p = add_msg (bt_get m k) q"
      using h slot Internal by (auto elim: holdsE)
    have i: "route ps k < length cs" "cs ! route ps k = c" using c(1) by (auto simp: index_eq_Some)
    have "reads_as ?rd' (offs ! route ps k) k q"
      using resolve_reads_as [OF _ c(2) f a extends_prefix [OF e]] nth(2) [OF i(1)] i(2) by simp
    then show ?thesis using reads_as_internal [of ?rd' ?off ps offs m k "offs ! route ps k" q] rd i(1) nth(1) c(3) by simp
  qed
qed

lemma serialize_ok:
  assumes run: "serialize_nodes E s nids buf assigned lens = Some (Inr (buf', assigned', lens'))"
    and cd: "env_codec E = cd" "\<forall>n. node_codec_ok cd n" and wm: "DATA_START \<le> d_watermark s"
    and slots: "offsets_ok s" "\<forall>slot\<in>set (d_slots s). arity_ok slot" and f: "faithful (stored_node cd F (d_watermark s)) (d_slots s)"
    and a: "assigned_ok cd F (d_watermark s) (d_slots s) buf assigned"
  shows "assigned_ok cd F (d_watermark s) (d_slots s) buf' assigned' \<and> (\<exists>tl_bytes. buf' = buf @ tl_bytes)"
  using run a
proof (induction nids arbitrary: buf assigned lens)
  case (Cons nid nids)
  let ?wm = "d_watermark s"
  obtain payload where pay: "node_payload E s assigned nid = Some (Inr payload)" "\<not> length payload > 2 ^ 32 - 1"
    and go: "serialize_nodes E s nids (buf @ record_bytes cd payload) (bt_insert nid (?wm + length buf) assigned)
      (bt_insert nid (RECORD_HEADER_SIZE + length payload) lens) = Some (Inr (buf', assigned', lens'))"
    using Cons.prems(1) cd(1) by (auto simp: Let_def split: sum.split_asm if_split_asm elim!: bind_SomeE)
  have len: "length payload < 2 ^ 32" using pay(2) by simp
  have "assigned_ok cd F ?wm (d_slots s) (buf @ record_bytes cd payload) (bt_insert nid (?wm + length buf) assigned)"
    unfolding assigned_ok_def
  proof (intro allI impI conjI)
    fix i off assume i: "bt_get (bt_insert nid (?wm + length buf) assigned) i = Some off"
    have new: "i = nid \<and> off = ?wm + length buf \<or> i \<noteq> nid \<and> bt_get assigned i = Some off"
      using i by (auto simp: bt_get_insert split: if_split_asm)
    have old: "DATA_START \<le> off \<and> off + RECORD_HEADER_SIZE \<le> ?wm + length buf" if "bt_get assigned i = Some off"
      using Cons.prems(2) that by (simp add: assigned_ok_def)
    show "DATA_START \<le> off" "off + RECORD_HEADER_SIZE \<le> ?wm + length (buf @ record_bytes cd payload)"
      using new old wm by (auto simp: record_bytes_split RECORD_HEADER_SIZE_def)
    fix fl wm' k p
    assume e: "extends F ?wm (buf @ record_bytes cd payload) fl wm'" and h: "holds (stored_node cd F ?wm) (d_slots s) i k p"
    show "reads_as (stored_node cd fl wm') off k p"
    proof (cases "i = nid")
      case True
      then show ?thesis using new payload_reads_as [OF pay(1) cd slots [unfolded offsets_ok_def] f Cons.prems(2) wm len e] h by auto
    next
      case False
      then show ?thesis using new Cons.prems(2) extends_prefix [OF e] h unfolding assigned_ok_def by blast
    qed
  qed
  from Cons.IH [OF go this] show ?case by auto
qed auto

end
