(* ===== verification/Disk_Sim.thy ===== *)
theory Disk_Sim
  imports Disk_File BeTree_Engine
begin

text \<open>
  The disk engine simulates the in-memory engine. A node of the tree is either in a slot or still only
  in the file; \<open>ref_view\<close> reads it in either place, with its children as references, and a child that the
  file names by offset is the slot that tracks this offset, if there is one. \<open>sim\<close> relates such an engine
  to an in-memory one whose arena indices stand for references: then loading and evicting nodes change
  nothing, and marking, writing, allocating and releasing nodes do what they do in the arena.
\<close>

section \<open>Views\<close>

datatype vref = AtSlot node_id | AtFile nat

datatype vnode = VLeaf entries | VInternal "key list" "vref list" buffer

fun mem_view :: "node \<Rightarrow> vnode" where
  "mem_view (Leaf es) = VLeaf es"
| "mem_view (Internal ps cs b) = VInternal ps (map AtSlot cs) b"

text \<open>A node of the arena, its children renamed.\<close>
fun ren :: "(node_id \<Rightarrow> vref) \<Rightarrow> node \<Rightarrow> vnode" where
  "ren m (Leaf es) = VLeaf es"
| "ren m (Internal ps cs b) = VInternal ps (map m cs) b"

fun vmap :: "(vref \<Rightarrow> vref) \<Rightarrow> vnode \<Rightarrow> vnode" where
  "vmap f (VLeaf es) = VLeaf es"
| "vmap f (VInternal ps rs b) = VInternal ps (map f rs) b"

fun kids :: "node \<Rightarrow> node_id list" where
  "kids (Leaf es) = []"
| "kids (Internal ps cs b) = cs"

fun vrefs :: "vnode \<Rightarrow> vref list" where
  "vrefs (VLeaf es) = []"
| "vrefs (VInternal ps rs b) = rs"

fun slot_off :: "node_slot \<Rightarrow> nat option" where
  "slot_off (Loaded n d off b t) = off"
| "slot_off (OnDisk off) = Some off"
| "slot_off Freed = None"

fun slot_dirty :: "node_slot \<Rightarrow> bool" where
  "slot_dirty (Loaded n d off b t) = d"
| "slot_dirty _ = False"

definition ref_of :: "('v, 'p) disk_engine \<Rightarrow> nat \<Rightarrow> vref" where
  "ref_of s off = (case bt_get (d_offsets s) off of Some nid \<Rightarrow> AtSlot nid | None \<Rightarrow> AtFile off)"

definition file_view :: "(nat \<Rightarrow> disk_node option) \<Rightarrow> ('v, 'p) disk_engine \<Rightarrow> nat \<Rightarrow> vnode option" where
  "file_view rd s off =
     (case rd off of
        None \<Rightarrow> None
      | Some (DiskLeaf es) \<Rightarrow> Some (VLeaf es)
      | Some (DiskInternal ps offs b) \<Rightarrow> Some (VInternal ps (map (ref_of s) offs) b))"

definition ref_view :: "(nat \<Rightarrow> disk_node option) \<Rightarrow> ('v, 'p) disk_engine \<Rightarrow> vref \<Rightarrow> vnode option" where
  "ref_view rd s r =
     (case r of
        AtFile off \<Rightarrow> file_view rd s off
      | AtSlot nid \<Rightarrow>
          (case index (d_slots s) nid of
             Some (Loaded n d off b t) \<Rightarrow> Some (mem_view n)
           | Some (OnDisk off) \<Rightarrow> file_view rd s off
           | _ \<Rightarrow> None))"

definition ref_dirty :: "('v, 'p) disk_engine \<Rightarrow> vref \<Rightarrow> bool" where
  "ref_dirty s r = (case r of AtFile off \<Rightarrow> False
     | AtSlot nid \<Rightarrow> (case index (d_slots s) nid of Some slot \<Rightarrow> slot_dirty slot | None \<Rightarrow> False))"

text \<open>The interning of offsets names exactly the slots that have one.\<close>
definition interned :: "('v, 'p) disk_engine \<Rightarrow> bool" where
  "interned s \<longleftrightarrow> bt_ok (d_offsets s) \<and>
     (\<forall>off nid. bt_get (d_offsets s) off = Some nid \<longleftrightarrow> (\<exists>slot. index (d_slots s) nid = Some slot \<and> slot_off slot = Some off))"

definition resident_at :: "('v, 'p) disk_engine \<Rightarrow> node_id \<Rightarrow> bool" where
  "resident_at s nid \<longleftrightarrow> (\<exists>n. loaded s nid = Some n)"

text \<open>A clean node in memory is the record it was read from or written to.\<close>
definition clean_ok :: "(nat \<Rightarrow> disk_node option) \<Rightarrow> ('v, 'p) disk_engine \<Rightarrow> node_id \<Rightarrow> bool" where
  "clean_ok rd s nid \<longleftrightarrow> (\<forall>n off b t. index (d_slots s) nid = Some (Loaded n False (Some off) b t) \<longrightarrow>
     file_view rd s off = Some (mem_view n))"

definition node_sim :: "(nat \<Rightarrow> disk_node option) \<Rightarrow> node_id set \<Rightarrow> ('v, 'p) disk_engine \<Rightarrow> 'p betree \<Rightarrow> (node_id \<Rightarrow> vref) \<Rightarrow>
    node_id \<Rightarrow> bool" where
  "node_sim rd L s t m a \<longleftrightarrow> a < length (t_nodes t) \<and> ref_view rd s (m a) = Some (ren m (t_nodes t ! a)) \<and>
     set (kids (t_nodes t ! a)) \<subseteq> L \<and> t_dirty t ! a = ref_dirty s (m a) \<and>
     (case m a of AtFile off \<Rightarrow> bt_get (d_offsets s) off = None | AtSlot nid \<Rightarrow> clean_ok rd s nid)"

definition same_fields :: "('v, 'p) disk_engine \<Rightarrow> 'p betree \<Rightarrow> bool" where
  "same_fields s t \<longleftrightarrow> d_params s = t_params t \<and> d_next_seq s = t_next_seq t \<and> d_ops_since_commit s = t_ops_since_commit t \<and>
     d_policy s = t_policy t"

definition sim :: "(nat \<Rightarrow> disk_node option) \<Rightarrow> node_id set \<Rightarrow> ('v, 'p) disk_engine \<Rightarrow> 'p betree \<Rightarrow> (node_id \<Rightarrow> vref) \<Rightarrow> bool" where
  "sim rd L s t m \<longleftrightarrow> cache_ok s \<and> interned s \<and> inj_on m L \<and> length (t_dirty t) = length (t_nodes t) \<and> same_fields s t \<and>
     (\<forall>a\<in>L. node_sim rd L s t m a)"

text \<open>A later correspondence: slots stay slots.\<close>
definition ref_le :: "node_id set \<Rightarrow> (node_id \<Rightarrow> vref) \<Rightarrow> (node_id \<Rightarrow> vref) \<Rightarrow> bool" where
  "ref_le L m m' \<longleftrightarrow> (\<forall>a\<in>L. \<forall>nid. m a = AtSlot nid \<longrightarrow> m' a = AtSlot nid)"

lemma ref_le_refl [simp]: "ref_le L m m"
  by (simp add: ref_le_def)

lemma ref_le_trans: "ref_le L m1 m2 \<Longrightarrow> ref_le L' m2 m3 \<Longrightarrow> L \<subseteq> L' \<Longrightarrow> ref_le L m1 m3"
  by (auto simp: ref_le_def)

lemma ref_leD: "ref_le L m m' \<Longrightarrow> a \<in> L \<Longrightarrow> m a = AtSlot nid \<Longrightarrow> m' a = AtSlot nid"
  by (simp add: ref_le_def)

lemma ren_cong: "(\<And>a. a \<in> set (kids n) \<Longrightarrow> m' a = m a) \<Longrightarrow> ren m' n = ren m n"
  by (cases n) auto

lemma ren_vmap: "ren (f \<circ> m) n = vmap f (ren m n)"
  by (cases n) auto

lemma vrefs_ren [simp]: "vrefs (ren m n) = map m (kids n)"
  by (cases n) auto

lemma mem_view_ren:
  "mem_view n = ren m n' \<longleftrightarrow> (case n' of Leaf es \<Rightarrow> n = Leaf es
     | Internal ps as b \<Rightarrow> (\<exists>cs. n = Internal ps cs b \<and> map m as = map AtSlot cs))"
  by (cases n; cases n') auto

section \<open>Reading\<close>

lemma loaded_iff: "loaded s nid = Some n \<longleftrightarrow> (\<exists>d off b t. index (d_slots s) nid = Some (Loaded n d off b t))"
  by (auto simp: loaded_def split: node_slot.split_asm elim!: bind_SomeE)

lemma sim_loaded:
  assumes "sim rd L s t m" "a \<in> L" "m a = AtSlot nid" "loaded s nid = Some n"
  shows "mem_view n = ren m (t_nodes t ! a)" "node_at t a = Some (t_nodes t ! a)" "set (kids (t_nodes t ! a)) \<subseteq> L"
  using assms by (auto simp: sim_def node_sim_def ref_view_def loaded_iff node_at_def)

lemma sim_bound: "sim rd L s t m \<Longrightarrow> a \<in> L \<Longrightarrow> m a = AtSlot nid \<Longrightarrow> nid < length (d_slots s)"
  by (auto simp: sim_def node_sim_def ref_view_def index_def split: if_split_asm)

section \<open>Loading and evicting change nothing\<close>

definition d_fields :: "('v, 'p) disk_engine \<Rightarrow> params \<times> u64 \<times> u64 \<times> 'p policy" where
  "d_fields s = (d_params s, d_next_seq s, d_ops_since_commit s, d_policy s)"

lemma same_fields_cong: "d_fields s' = d_fields s \<Longrightarrow> same_fields s' t = same_fields s t"
  by (auto simp: d_fields_def same_fields_def)

lemma ref_of_cong: "d_offsets s' = d_offsets s \<Longrightarrow> ref_of s' = ref_of s"
  by (simp add: ref_of_def fun_eq_iff)

lemma file_view_cong: "d_offsets s' = d_offsets s \<Longrightarrow> file_view rd s' = file_view rd s"
  by (drule ref_of_cong) (rule ext, simp only: file_view_def)

lemma reverts_slot: "reverts p slot slot' \<Longrightarrow> slot_off slot' = slot_off slot \<and> slot_dirty slot' = slot_dirty slot"
  unfolding reverts_def by (cases slot; cases slot') auto

lemma index_reverts:
  assumes "length xs' = length xs" "\<forall>i<length xs. reverts (p i) (xs ! i) (xs' ! i)"
  shows "(index xs' i = None \<and> index xs i = None) \<or> (\<exists>slot slot'. index xs i = Some slot \<and> index xs' i = Some slot' \<and> reverts (p i) slot slot')"
  using assms by (cases "i < length xs") auto

text \<open>Slots that are restamped, or turned back from clean nodes into their records.\<close>

lemma sim_reverts:
  assumes sim: "sim rd L s t m" and cache: "cache_ok s'" and offs: "d_offsets s' = d_offsets s" and f: "d_fields s' = d_fields s"
    and slots: "length (d_slots s') = length (d_slots s)" "\<forall>i<length (d_slots s). reverts (p i) (d_slots s ! i) (d_slots s' ! i)"
  shows "sim rd L s' t m"
proof -
  note idx = index_reverts [OF slots]
  have "(\<exists>slot. index (d_slots s') nid = Some slot \<and> slot_off slot = Some off) \<longleftrightarrow>
      (\<exists>slot. index (d_slots s) nid = Some slot \<and> slot_off slot = Some off)" for nid off
    using idx [of nid] by (auto dest: reverts_slot)
  then have "interned s'" using sim unfolding sim_def interned_def offs by simp
  moreover have "node_sim rd L s' t m a" if a: "a \<in> L" for a
  proof (cases "m a")
    case (AtFile off)
    have "node_sim rd L s t m a" using sim a by (simp add: sim_def)
    then show ?thesis using AtFile by (simp add: node_sim_def ref_view_def ref_dirty_def file_view_cong [OF offs] offs)
  next
    case (AtSlot nid)
    have ns: "node_sim rd L s t m a" using sim a by (simp add: sim_def)
    then obtain slot slot' where sl: "index (d_slots s) nid = Some slot" "index (d_slots s') nid = Some slot'" "reverts (p nid) slot slot'"
      using idx [of nid] AtSlot by (auto simp: node_sim_def ref_view_def)
    have dirty: "ref_dirty s' (m a) = ref_dirty s (m a)" using sl reverts_slot [OF sl(3)] by (simp add: ref_dirty_def AtSlot)
    have "ref_view rd s' (m a) = ref_view rd s (m a) \<and> clean_ok rd s' nid"
    proof (cases "stamp 0 slot' = stamp 0 slot")
      case True
      then show ?thesis using sl ns AtSlot
        by (cases slot; cases slot') (auto simp: ref_view_def clean_ok_def node_sim_def file_view_cong [OF offs])
    next
      case False
      then obtain n off b tk where "slot = Loaded n False (Some off) b tk" "slot' = OnDisk off" using sl(3) by (auto simp: reverts_def)
      then show ?thesis using sl ns AtSlot by (auto simp: ref_view_def clean_ok_def node_sim_def file_view_cong [OF offs])
    qed
    then show ?thesis using ns dirty AtSlot by (simp add: node_sim_def)
  qed
  ultimately show ?thesis using sim cache same_fields_cong [OF f] by (simp add: sim_def)
qed

lemma same_rest_d_fields: "same_rest s s' \<Longrightarrow> d_fields s' = d_fields s"
  by (cases s; cases s') (simp add: same_rest_def rest_def d_fields_def)

lemma cores_reverts: "cores s' = cores s \<Longrightarrow> length (d_slots s') = length (d_slots s) \<and> (\<forall>i<length (d_slots s). reverts p (d_slots s ! i) (d_slots s' ! i))"
  unfolding cores_def by (metis length_map nth_map reverts_def)

lemma cores_loaded: "cores s' = cores s \<Longrightarrow> loaded s' nid = loaded s nid"
proof -
  assume c: "cores s' = cores s"
  show ?thesis
  proof (cases "nid < length (d_slots s)")
    case True
    then have "nid < length (d_slots s')" "stamp 0 (d_slots s' ! nid) = stamp 0 (d_slots s ! nid)"
      using cores_reverts [OF c, of False] c by (auto simp: cores_def dest: map_eq_imp_length_eq) (metis nth_map)
    then show ?thesis using True by (cases "d_slots s ! nid"; cases "d_slots s' ! nid") (auto simp: loaded_def)
  next
    case False
    then show ?thesis using cores_reverts [OF c, of False] by (simp add: loaded_def)
  qed
qed

lemma touch_sim:
  assumes "sim rd L s t m" "nid < length (d_slots s)"
  shows "\<exists>s'. touch nid s = Some s' \<and> sim rd L s' t m \<and> (\<forall>i. loaded s' i = loaded s i) \<and> same_rest s s' \<and> cores s' = cores s"
proof -
  have "cache_ok s" using assms(1) by (simp add: sim_def)
  then obtain s' where s': "touch nid s = Some s'" "cache_ok s'" "cores s' = cores s" "same_rest s s'"
    using touch_ok assms(2) by blast
  have "sim rd L s' t m"
    using sim_reverts [OF assms(1) s'(2) _ same_rest_d_fields [OF s'(4)]] same_rest_fields(7) [OF s'(4)] cores_reverts [OF s'(3)] by blast
  then show ?thesis using s' cores_loaded [OF s'(3)] by blast
qed

lemma reverts_resident:
  "reverts True slot slot' \<Longrightarrow> (\<exists>n d off b t. slot = Loaded n d off b t) \<Longrightarrow> \<exists>n d off b t. slot' = Loaded n d off b t"
  unfolding reverts_def by (cases slot; cases slot') auto

lemma enforce_budget_sim:
  assumes "sim rd L s t m"
  shows "\<exists>s'. enforce_budget pins jl s = Some s' \<and> sim rd L s' t m \<and> same_rest s s' \<and>
    (\<forall>i. i \<in> set pins \<or> jl = Some i \<longrightarrow> resident_at s i \<longrightarrow> resident_at s' i)"
proof -
  have "cache_ok s" using assms by (simp add: sim_def)
  then obtain s' where s': "enforce_budget pins jl s = Some s'" "cache_ok s'" "same_rest s s'" "settled pins jl s s'"
    using enforce_budget_ok by blast
  have len: "length (d_slots s') = length (d_slots s)" using s'(3) by (simp add: same_rest_def)
  have "sim rd L s' t m"
    using sim_reverts [OF assms s'(2) same_rest_fields(7) [OF s'(3)] same_rest_d_fields [OF s'(3)] len s'(4) [unfolded settled_def]] .
  moreover have "resident_at s' i" if i: "i \<in> set pins \<or> jl = Some i" "resident_at s i" for i
  proof -
    have "i < length (d_slots s)" "\<exists>n d off b t. d_slots s ! i = Loaded n d off b t"
      using i(2) by (auto simp: resident_at_def loaded_iff index_eq_Some)
    moreover have "reverts True (d_slots s ! i) (d_slots s' ! i)" using s'(4) i(1) calculation(1) by (auto simp: settled_def)
    ultimately show ?thesis using reverts_resident len by (fastforce simp: resident_at_def loaded_iff)
  qed
  ultimately show ?thesis using s' by blast
qed

lemma loaded_set_slot:
  "nid < length (d_slots s) \<Longrightarrow> loaded (set_slot nid slot s) i =
     (if i = nid then (case slot of Loaded n d off b t \<Rightarrow> Some n | _ \<Rightarrow> None) else loaded s i)"
  by (cases "i < length (d_slots s)") (auto simp: loaded_def set_slot_def)

lemma loaded_cache [simp]: "loaded (s\<lparr>d_cache := c\<rparr>) i = loaded s i" "loaded (s\<lparr>d_offsets := offs\<rparr>) i = loaded s i"
  by (simp_all add: loaded_def)

section \<open>What an operation leaves alone\<close>

definition outer :: "('v, 'p) disk_engine \<Rightarrow> ('v, 'p) disk_engine" where
  "outer s = s\<lparr>d_slots := [], d_cache := cache_default, d_offsets := []\<rparr>"

lemma outer_simps [simp]:
  "outer (s\<lparr>d_slots := x\<rparr>) = outer s" "outer (s\<lparr>d_cache := c\<rparr>) = outer s" "outer (s\<lparr>d_offsets := offs\<rparr>) = outer s"
  "outer (set_slot nid slot s) = outer s"
  by (simp_all add: outer_def set_slot_def)

lemma outer_put_node [simp]: "outer (put_node nid n s) = outer s"
  by (simp add: put_node_def split: option.split node_slot.split)

lemma outerD:
  assumes "outer s' = outer s"
  shows "d_params s' = d_params s" "d_vfs s' = d_vfs s" "d_root s' = d_root s" "d_next_seq s' = d_next_seq s"
    "d_next_generation s' = d_next_generation s" "d_watermark s' = d_watermark s" "d_poisoned s' = d_poisoned s"
    "d_ops_since_commit s' = d_ops_since_commit s" "d_policy s' = d_policy s" "d_trace s' = d_trace s"
  using arg_cong [OF assms, of d_params] arg_cong [OF assms, of d_vfs] arg_cong [OF assms, of d_root]
    arg_cong [OF assms, of d_next_seq] arg_cong [OF assms, of d_next_generation] arg_cong [OF assms, of d_watermark]
    arg_cong [OF assms, of d_poisoned] arg_cong [OF assms, of d_ops_since_commit] arg_cong [OF assms, of d_policy]
    arg_cong [OF assms, of d_trace]
  by (simp_all add: outer_def)

lemma outer_d_fields:
  assumes "outer s' = outer s"
  shows "d_fields s' = d_fields s"
  by (simp add: d_fields_def outerD [OF assms])

lemma same_rest_outer: "same_rest s s' \<Longrightarrow> outer s' = outer s"
  by (cases s; cases s') (simp add: same_rest_def rest_def outer_def)

section \<open>Slots for the children of a record\<close>

text \<open>The engine after new slots for records were added.\<close>
definition grown :: "('v, 'p) disk_engine \<Rightarrow> ('v, 'p) disk_engine \<Rightarrow> bool" where
  "grown s s' \<longleftrightarrow> (\<exists>new. d_slots s' = d_slots s @ new \<and> (\<forall>slot\<in>set new. \<exists>off. slot = OnDisk off)) \<and>
     cache_ok s' \<and> interned s' \<and> (\<forall>off nid. bt_get (d_offsets s) off = Some nid \<longrightarrow> bt_get (d_offsets s') off = Some nid) \<and>
     outer s' = outer s"

lemma grown_refl: "cache_ok s \<Longrightarrow> interned s \<Longrightarrow> grown s s"
  by (simp add: grown_def)

lemma grown_trans: "grown s1 s2 \<Longrightarrow> grown s2 s3 \<Longrightarrow> grown s1 s3"
  unfolding grown_def by (elim conjE exE, intro conjI) auto

lemma alloc_on_disk_grown:
  assumes "cache_ok s" "interned s"
  shows "\<exists>nid s'. alloc_on_disk off s = Some (nid, s') \<and> grown s s' \<and> bt_get (d_offsets s') off = Some nid"
proof (cases "bt_get (d_offsets s) off")
  case None
  obtain nid s' where s': "alloc_on_disk off s = Some (nid, s')" "cache_ok s'" using alloc_on_disk_ok [OF assms(1)] by blast
  then have eqs: "nid = length (d_slots s)" "d_slots s' = d_slots s @ [OnDisk off]" "d_offsets s' = bt_insert off nid (d_offsets s)"
    "outer s' = outer s"
    using None by (auto simp: alloc_on_disk_def outer_def Let_def)
  have "interned s'" unfolding interned_def eqs(2,3)
  proof (intro conjI allI)
    show "bt_ok (bt_insert off nid (d_offsets s))" using assms(2) by (simp add: interned_def bt_ok_insert)
    fix o' i
    have old: "bt_get (d_offsets s) o' = Some i \<longleftrightarrow> (\<exists>slot. index (d_slots s) i = Some slot \<and> slot_off slot = Some o')"
      using assms(2) by (simp add: interned_def)
    have "index (d_slots s @ [OnDisk off]) i = (if i = nid then Some (OnDisk off) else index (d_slots s) i)"
      using eqs(1) by (auto simp: index_def nth_append)
    then show "bt_get (bt_insert off nid (d_offsets s)) o' = Some i \<longleftrightarrow>
        (\<exists>slot. index (d_slots s @ [OnDisk off]) i = Some slot \<and> slot_off slot = Some o')"
      using old None eqs(1) by (auto simp: bt_get_insert)
  qed
  then show ?thesis using s' eqs None by (auto simp: grown_def bt_get_insert)
next
  case (Some nid)
  then obtain slot where "index (d_slots s) nid = Some slot" "slot_off slot = Some off" using assms(2) unfolding interned_def by blast
  then have "alloc_on_disk off s = Some (nid, s)" using Some by (auto simp: alloc_on_disk_def)
  then show ?thesis using Some grown_refl [OF assms] by blast
qed

lemma alloc_children_grown:
  "cache_ok s \<Longrightarrow> interned s \<Longrightarrow>
     \<exists>nids s'. alloc_children offs s = Some (nids, s') \<and> grown s s' \<and> map AtSlot nids = map (ref_of s') offs"
proof (induction offs arbitrary: s)
  case Nil
  then show ?case by (simp add: grown_refl)
next
  case (Cons off offs)
  obtain nid s1 where s1: "alloc_on_disk off s = Some (nid, s1)" "grown s s1" "bt_get (d_offsets s1) off = Some nid"
    using alloc_on_disk_grown [OF Cons.prems] by blast
  then have "cache_ok s1" "interned s1" by (simp_all add: grown_def)
  from Cons.IH [OF this] obtain nids s2 where s2: "alloc_children offs s1 = Some (nids, s2)" "grown s1 s2"
    "map AtSlot nids = map (ref_of s2) offs" by blast
  have "bt_get (d_offsets s2) off = Some nid" using s1(3) s2(2) by (simp add: grown_def)
  then show ?case using s1 s2 grown_trans by (auto simp: ref_of_def)
qed

text \<open>What a reference is after the growth.\<close>
definition found :: "('v, 'p) disk_engine \<Rightarrow> vref \<Rightarrow> vref" where
  "found s r = (case r of AtSlot nid \<Rightarrow> AtSlot nid | AtFile off \<Rightarrow> ref_of s off)"

lemma grown_index: "grown s s' \<Longrightarrow> i < length (d_slots s) \<Longrightarrow> index (d_slots s') i = index (d_slots s) i"
  by (auto simp: grown_def index_def nth_append)

lemma grown_new: "grown s s' \<Longrightarrow> index (d_slots s') i = Some slot \<Longrightarrow> \<not> i < length (d_slots s) \<Longrightarrow> \<exists>off. slot = OnDisk off"
  by (auto simp: grown_def index_eq_Some nth_append)

lemma grown_ref_of: "grown s s' \<Longrightarrow> ref_of s' off = found s' (ref_of s off)"
  by (auto simp: grown_def ref_of_def found_def split: option.split)

lemma grown_file_view: "grown s s' \<Longrightarrow> file_view rd s' off = map_option (vmap (found s')) (file_view rd s off)"
  by (auto simp: file_view_def grown_ref_of split: option.split disk_node.split)

lemma found_slot [simp]: "found s (AtSlot nid) = AtSlot nid"
  by (simp add: found_def)

lemma vmap_found_mem [simp]: "vmap (found s) (mem_view n) = mem_view n"
  by (cases n) auto

lemma grown_found:
  assumes "grown s s'" "interned s" "bt_get (d_offsets s) off = None" "bt_get (d_offsets s') off = Some nid"
  shows "\<not> nid < length (d_slots s)" "index (d_slots s') nid = Some (OnDisk off)"
proof -
  have "interned s'" using assms(1) by (simp add: grown_def)
  then obtain slot where slot: "index (d_slots s') nid = Some slot" "slot_off slot = Some off"
    using assms(4) unfolding interned_def by blast
  show new: "\<not> nid < length (d_slots s)"
  proof
    assume "nid < length (d_slots s)"
    then have "index (d_slots s) nid = Some slot" using slot(1) grown_index [OF assms(1)] by simp
    then have "bt_get (d_offsets s) off = Some nid" using assms(2) slot(2) unfolding interned_def by blast
    then show False using assms(3) by simp
  qed
  show "index (d_slots s') nid = Some (OnDisk off)" using grown_new [OF assms(1) slot(1) new] slot by auto
qed

definition unseen :: "('v, 'p) disk_engine \<Rightarrow> vref \<Rightarrow> bool" where
  "unseen s r \<longleftrightarrow> (case r of AtSlot nid \<Rightarrow> nid < length (d_slots s) | AtFile off \<Rightarrow> bt_get (d_offsets s) off = None)"

lemma grown_ref_view:
  assumes g: "grown s s'" "interned s" and r: "unseen s r" "ref_view rd s r = Some vn"
  shows "ref_view rd s' (found s' r) = Some (vmap (found s') vn)" "ref_dirty s' (found s' r) = ref_dirty s r"
proof -
  have "ref_view rd s' (found s' r) = Some (vmap (found s') vn) \<and> ref_dirty s' (found s' r) = ref_dirty s r"
  proof (cases r)
    case (AtSlot nid)
    then show ?thesis using g r
      by (auto simp: unseen_def ref_view_def ref_dirty_def grown_index grown_file_view split: option.split_asm node_slot.split_asm)
  next
    case (AtFile off)
    then have view: "file_view rd s off = Some vn" "bt_get (d_offsets s) off = None" using r by (simp_all add: ref_view_def unseen_def)
    then show ?thesis using g AtFile grown_found [OF g view(2)]
      by (cases "bt_get (d_offsets s') off") (auto simp: ref_view_def ref_dirty_def found_def ref_of_def grown_file_view)
  qed
  then show "ref_view rd s' (found s' r) = Some (vmap (found s') vn)" "ref_dirty s' (found s' r) = ref_dirty s r" by simp_all
qed

lemma grown_inj:
  assumes g: "grown s s'" "interned s" and r: "unseen s r" "unseen s r'" and eq: "found s' r = found s' r'"
  shows "r = r'"
proof -
  have inj: "bt_get (d_offsets s') o1 = Some nid \<Longrightarrow> bt_get (d_offsets s') o2 = Some nid \<Longrightarrow> o1 = o2" for o1 o2 nid
    using g(1) unfolding grown_def interned_def by (metis option.inject)
  show ?thesis
    using eq r inj grown_found [OF g]
    by (cases r; cases r') (auto simp: found_def ref_of_def unseen_def split: option.split_asm)
qed

lemma node_sim_unseen: "node_sim rd L s t m a \<Longrightarrow> unseen s (m a)"
  by (auto simp: node_sim_def unseen_def ref_view_def index_def split: vref.split vref.split_asm if_split_asm)

lemma grown_sim:
  assumes sim: "sim rd L s t m" and g: "grown s s'"
  shows "sim rd L s' t (found s' \<circ> m)"
proof -
  have int: "interned s" and nodes: "\<And>a. a \<in> L \<Longrightarrow> node_sim rd L s t m a" using sim by (auto simp: sim_def)
  note unseen = node_sim_unseen [OF nodes]
  have "inj_on (found s' \<circ> m) L"
  proof (rule inj_onI)
    fix a b assume ab: "a \<in> L" "b \<in> L" "(found s' \<circ> m) a = (found s' \<circ> m) b"
    then have "m a = m b" using grown_inj [OF g int unseen unseen] by simp
    then show "a = b" using sim ab by (auto simp: sim_def dest: inj_onD)
  qed
  moreover have "node_sim rd L s' t (found s' \<circ> m) a" if a: "a \<in> L" for a
  proof -
    have v: "ref_view rd s' (found s' (m a)) = Some (ren (found s' \<circ> m) (t_nodes t ! a))" "ref_dirty s' (found s' (m a)) = ref_dirty s (m a)"
      using grown_ref_view [OF g int unseen [OF a]] nodes [OF a] by (auto simp: node_sim_def ren_vmap)
    moreover have "case found s' (m a) of AtFile off \<Rightarrow> bt_get (d_offsets s') off = None | AtSlot nid \<Rightarrow> clean_ok rd s' nid"
    proof (cases "m a")
      case (AtSlot nid)
      then have "clean_ok rd s nid" "nid < length (d_slots s)" using nodes [OF a] unseen [OF a] by (auto simp: node_sim_def unseen_def)
      then show ?thesis using AtSlot g by (auto simp: clean_ok_def grown_index grown_file_view)
    next
      case (AtFile off)
      then have "bt_get (d_offsets s) off = None" using nodes [OF a] by (simp add: node_sim_def)
      then show ?thesis using AtFile grown_found [OF g int]
        by (auto simp: found_def ref_of_def clean_ok_def split: option.split)
    qed
    ultimately show ?thesis using nodes [OF a] by (simp add: node_sim_def)
  qed
  ultimately show ?thesis using sim g same_fields_cong [OF outer_d_fields] by (auto simp: sim_def grown_def)
qed

lemma found_ref_le: "ref_le L m (found s \<circ> m)"
  by (simp add: ref_le_def)

section \<open>Changing one slot\<close>

definition t_fields :: "'p betree \<Rightarrow> params \<times> u64 \<times> u64 \<times> 'p policy" where
  "t_fields t = (t_params t, t_next_seq t, t_ops_since_commit t, t_policy t)"

lemma same_fields_eq: "same_fields s t \<longleftrightarrow> d_fields s = t_fields t"
  by (auto simp: same_fields_def d_fields_def t_fields_def)

lemma sim_set_slot:
  assumes sim: "sim rd L s t m" and a: "a \<in> L" "m a = AtSlot nid" and old: "index (d_slots s) nid = Some old" "slot_off old = off"
    and s': "d_slots s' = (d_slots s)[nid := Loaded n d off b tk]" "d_offsets s' = d_offsets s" "cache_ok s'" "d_fields s' = t_fields t'"
    and nd: "mem_view n = ren m nd" "set (kids nd) \<subseteq> L"
    and clean: "\<And>o'. \<not> d \<Longrightarrow> off = Some o' \<Longrightarrow> file_view rd s o' = Some (mem_view n)"
    and t': "t_nodes t' = (t_nodes t)[a := nd]" "t_dirty t' = (t_dirty t)[a := d]"
  shows "sim rd L s' t' m"
proof -
  have nid: "nid < length (d_slots s)" using old(1) by (simp add: index_eq_Some)
  have idx: "index (d_slots s') i = (if i = nid then Some (Loaded n d off b tk) else index (d_slots s) i)" for i
    using s'(1) nid by (auto simp: index_def)
  have offs: "(\<exists>slot. index (d_slots s') i = Some slot \<and> slot_off slot = Some o') \<longleftrightarrow>
      (\<exists>slot. index (d_slots s) i = Some slot \<and> slot_off slot = Some o')" for i o'
    using old by (auto simp: idx)
  have int: "interned s'" using sim unfolding sim_def interned_def s'(2) offs by blast
  have nodes: "node_sim rd L s t m a'" if "a' \<in> L" for a' using sim that by (simp add: sim_def)
  have bounds: "a < length (t_nodes t)" "a < length (t_dirty t)" using nodes [OF a(1)] sim by (auto simp: node_sim_def sim_def)
  have "node_sim rd L s' t' m a'" if a': "a' \<in> L" for a'
  proof (cases "a' = a")
    case True
    have "clean_ok rd s' nid" using clean by (auto simp: clean_ok_def idx file_view_cong [OF s'(2)])
    then show ?thesis using True a bounds nd t' by (auto simp: node_sim_def ref_view_def ref_dirty_def idx)
  next
    case False
    then have ne: "m a' \<noteq> AtSlot nid" using sim a a' unfolding sim_def inj_on_def by metis
    have fv: "file_view rd s' = file_view rd s" by (rule file_view_cong [OF s'(2)])
    have same: "index (d_slots s') i = index (d_slots s) i" if "m a' = AtSlot i" for i using ne that idx by auto
    have "ref_view rd s' (m a') = ref_view rd s (m a')" "ref_dirty s' (m a') = ref_dirty s (m a')"
      unfolding ref_view_def ref_dirty_def fv using same by (simp_all split: vref.split)
    moreover have "clean_ok rd s' i = clean_ok rd s i" if "m a' = AtSlot i" for i
      unfolding clean_ok_def same [OF that] fv ..
    ultimately show ?thesis using nodes [OF a'] False t' s'(2) by (auto simp: node_sim_def split: vref.split)
  qed
  then show ?thesis using sim int s'(3,4) t' by (simp add: sim_def same_fields_eq)
qed

text \<open>The slot of a node reads as the node.\<close>

lemma sim_slot:
  assumes "sim rd L s t m" "a \<in> L" "m a = AtSlot nid"
  obtains n d off b tk where "index (d_slots s) nid = Some (Loaded n d off b tk)" "mem_view n = ren m (t_nodes t ! a)" "t_dirty t ! a = d"
  | off where "index (d_slots s) nid = Some (OnDisk off)" "file_view rd s off = Some (ren m (t_nodes t ! a))" "\<not> t_dirty t ! a"
proof -
  have "node_sim rd L s t m a" using assms by (simp add: sim_def)
  then show ?thesis using assms(3) that by (auto simp: node_sim_def ref_view_def ref_dirty_def split: option.split_asm node_slot.split_asm)
qed

lemma sim_kids: "sim rd L s t m \<Longrightarrow> a \<in> L \<Longrightarrow> set (kids (t_nodes t ! a)) \<subseteq> L \<and> a < length (t_nodes t) \<and> a < length (t_dirty t)"
  by (auto simp: sim_def node_sim_def)

lemma list_update_same [simp]: "t\<lparr>t_nodes := (t_nodes t)[a := t_nodes t ! a], t_dirty := (t_dirty t)[a := t_dirty t ! a]\<rparr> = t"
  by simp

lemma sim_cache:
  assumes "sim rd L s t m" "cache_ok (s\<lparr>d_cache := c\<rparr>)"
  shows "sim rd L (s\<lparr>d_cache := c\<rparr>) t m"
  by (rule sim_reverts [OF assms(1,2), where p = "\<lambda>_. False"]) (simp_all add: d_fields_def)

section \<open>Loading\<close>

definition touched :: "('v, 'p) disk_engine \<Rightarrow> ('v, 'p) disk_engine \<Rightarrow> node_id list \<Rightarrow> bool" where
  "touched s s' pins \<longleftrightarrow> outer s' = outer s \<and> (\<forall>i\<in>set pins. resident_at s i \<longrightarrow> resident_at s' i)"

lemma ensure_hit_sim:
  assumes sim: "sim rd L s t m" and slot: "index (d_slots s) nid = Some (Loaded n d off b tk)"
  shows "\<exists>s'. ensure_loaded E nid pins s = ok () s' \<and> sim rd L s' t m \<and> outer s' = outer s \<and> (\<forall>i. loaded s' i = loaded s i)"
proof -
  let ?s = "s\<lparr>d_cache := (d_cache s)\<lparr>hits := hits (d_cache s) + 1\<rparr>\<rparr>"
  have "cache_ok ?s" using sim by (simp add: sim_def cache_ok_def)
  then have "sim rd L ?s t m" by (rule sim_cache [OF sim])
  moreover have "nid < length (d_slots ?s)" using slot by (simp add: index_eq_Some)
  ultimately obtain s' where s': "touch nid ?s = Some s'" "sim rd L s' t m" "\<forall>i. loaded s' i = loaded ?s i" "same_rest ?s s'"
    using touch_sim by blast
  have "outer s' = outer s" using same_rest_outer [OF s'(4)] by simp
  then show ?thesis using s' slot by (auto simp: ensure_loaded_def loaded_def)
qed

section \<open>Writing\<close>

lemma loaded_mut_sim:
  assumes sim: "sim rd L s t m" and a: "a \<in> L" "m a = AtSlot nid" and n: "loaded s nid = Some n"
  shows "\<exists>s'. loaded_mut nid s = Some (n, s') \<and> sim rd L s' (dirtied a t) m \<and> outer s' = outer s \<and>
    length (d_slots s') = length (d_slots s) \<and> (\<forall>i. loaded s' i = loaded s i)"
proof -
  obtain d off b tk where slot: "index (d_slots s) nid = Some (Loaded n d off b tk)" using n by (auto simp: loaded_iff)
  have ok: "cache_ok s" using sim by (simp add: sim_def)
  obtain s' where s': "loaded_mut nid s = Some (n, s')" "cache_ok s'" "same_rest s s'"
    "d_slots s' = (d_slots s)[nid := Loaded n True off (est_bytes n) tk]"
    using loaded_mut_ok [OF ok n] slot by (auto simp: loaded_mut_def set_slot_def elim!: bind_SomeE)
  have nid: "nid < length (d_slots s)" using slot by (simp add: index_eq_Some)
  have "sim rd L s' (dirtied a t) m"
  proof (rule sim_set_slot [OF sim a slot, where nd = "t_nodes t ! a" and d = True and n = n and off = off])
    show "d_offsets s' = d_offsets s" by (rule same_rest_fields(7) [OF s'(3)])
    show "d_fields s' = t_fields (dirtied a t)"
      using sim same_rest_d_fields [OF s'(3)] by (simp add: sim_def same_fields_eq t_fields_def dirtied_def)
    show "mem_view n = ren m (t_nodes t ! a)" using sim_loaded(1) [OF sim a n] .
  qed (use s' sim_kids [OF sim a(1)] in \<open>auto simp: dirtied_def\<close>)
  moreover have "loaded s' i = loaded s i" for i
    using s'(4) nid slot by (cases "i = nid") (auto simp: loaded_def index_def)
  ultimately show ?thesis using s' same_rest_outer [OF s'(3)] by auto
qed

lemma put_node_sim:
  assumes sim: "sim rd L s t m" and a: "a \<in> L" "m a = AtSlot nid" "t_dirty t ! a" and old: "loaded s nid = Some old"
    and n: "mem_view n = ren m nd" "set (kids nd) \<subseteq> L"
  shows "sim rd L (put_node nid n s) (set_node a nd t) m"
    "loaded (put_node nid n s) = (loaded s)(nid \<mapsto> n)" "length (d_slots (put_node nid n s)) = length (d_slots s)"
proof -
  obtain d off b tk where slot: "index (d_slots s) nid = Some (Loaded old d off b tk)" using old by (auto simp: loaded_iff)
  have d: "d" using sim_slot [OF sim a(1,2)] slot a(3) by auto
  have nid: "nid < length (d_slots s)" using slot by (simp add: index_eq_Some)
  have put: "put_node nid n s = set_slot nid (Loaded n d off b tk) s" using slot by (simp add: put_node_def)
  show "sim rd L (put_node nid n s) (set_node a nd t) m"
  proof (rule sim_set_slot [OF sim a(1,2) slot, where nd = nd and d = True and n = n and off = off and b = b and tk = tk])
    show "cache_ok (put_node nid n s)" using sim by (simp add: sim_def put_node_ok)
    show "d_fields (put_node nid n s) = t_fields (set_node a nd t)"
      using sim by (simp add: put sim_def same_fields_eq t_fields_def d_fields_def set_node_def set_slot_def)
    show "t_dirty (set_node a nd t) = (t_dirty t)[a := True]" using a(3) by (simp add: set_node_def) (metis (full_types) list_update_id)
  qed (use d n in \<open>auto simp: put set_slot_def set_node_def\<close>)
  show "loaded (put_node nid n s) = (loaded s)(nid \<mapsto> n)" using nid by (auto simp: put loaded_set_slot)
  show "length (d_slots (put_node nid n s)) = length (d_slots s)" by (simp add: put set_slot_def)
qed

lemma alloc_dirty_sim:
  assumes sim: "sim rd L s t m" and n: "mem_view n = ren m nd" "set (kids nd) \<subseteq> L"
  defines "a \<equiv> length (t_nodes t)" and "nid \<equiv> length (d_slots s)"
  shows "\<exists>s'. alloc_dirty n s = Some (nid, s') \<and> sim rd (insert a L) s' (snd (alloc nd t)) (m(a := AtSlot nid)) \<and>
    outer s' = outer s \<and> loaded s' = (loaded s)(nid \<mapsto> n)"
proof -
  define s1 where "s1 = s\<lparr>d_slots := d_slots s @ [Loaded n True None (est_bytes n) 0],
    d_cache := (d_cache s)\<lparr>cache_bytes := cache_bytes (d_cache s) + est_bytes n, resident := resident (d_cache s) + 1\<rparr>\<rparr>"
  let ?m = "m(a := AtSlot nid)" and ?t = "snd (alloc nd t)"
  have nodes: "node_sim rd L s t m x" if "x \<in> L" for x using sim that by (simp add: sim_def)
  have fresh: "a \<notin> L" using sim_kids [OF sim] by (auto simp: a_def)
  have ren: "ren ?m x = ren m x" if "set (kids x) \<subseteq> L" for x using fresh that by (intro ren_cong) auto
  have cache: "cache_ok s1" using sim by (auto simp: s1_def sim_def cache_ok_def)
  have idx: "index (d_slots s1) i = (if i = nid then Some (Loaded n True None (est_bytes n) 0) else index (d_slots s) i)" for i
    by (auto simp: s1_def index_def nth_append nid_def)
  have offs: "d_offsets s1 = d_offsets s" by (simp add: s1_def)
  have int: "interned s1" using sim by (auto simp: sim_def interned_def idx offs nid_def)
  have fv: "file_view rd s1 = file_view rd s" by (rule file_view_cong [OF offs])
  have "node_sim rd (insert a L) s1 ?t ?m x" if x: "x \<in> insert a L" for x
  proof (cases "x = a")
    case True
    then show ?thesis using n ren [OF n(2)] sim
      by (auto simp: node_sim_def ref_view_def ref_dirty_def clean_ok_def idx alloc_def a_def sim_def nth_append)
  next
    case False
    then have xL: "x \<in> L" using x by simp
    have kids: "set (kids (t_nodes t ! x)) \<subseteq> L" "x < length (t_nodes t)" "x < length (t_dirty t)" using sim_kids [OF sim xL] by simp_all
    have ne: "i \<noteq> nid" if "m x = AtSlot i" for i using sim_bound [OF sim xL that] by (simp add: nid_def)
    have "ref_view rd s1 (m x) = ref_view rd s (m x)" "ref_dirty s1 (m x) = ref_dirty s (m x)"
      unfolding ref_view_def ref_dirty_def fv using ne by (auto simp: idx split: vref.split)
    moreover have "clean_ok rd s1 i = clean_ok rd s i" if "m x = AtSlot i" for i
      unfolding clean_ok_def fv using ne [OF that] by (simp add: idx)
    ultimately show ?thesis using nodes [OF xL] False kids ren [OF kids(1)]
      by (auto simp: node_sim_def alloc_def nth_append offs split: vref.split)
  qed
  moreover have "m x \<noteq> AtSlot nid" if "x \<in> L" for x using sim_bound [OF sim that, of nid] by (auto simp: nid_def)
  then have "inj_on ?m (insert a L)" using sim fresh by (auto simp: sim_def inj_on_def dest!: sym [of "AtSlot nid"])
  ultimately have sim1: "sim rd (insert a L) s1 ?t ?m"
    using sim cache int by (simp add: sim_def same_fields_def alloc_def s1_def)
  obtain s' where s': "touch nid s1 = Some s'" "sim rd (insert a L) s' ?t ?m" "\<forall>i. loaded s' i = loaded s1 i" "same_rest s1 s'"
    using touch_sim [OF sim1, of nid] by (auto simp: nid_def s1_def)
  have "loaded s1 = (loaded s)(nid \<mapsto> n)" using idx by (auto simp: loaded_def)
  then have "loaded s' = (loaded s)(nid \<mapsto> n)" using s'(3) by auto
  then show ?thesis using s' same_rest_outer [OF s'(4)] by (auto simp: alloc_dirty_def Let_def nid_def s1_def)
qed

section \<open>Releasing\<close>

lemma file_view_released:
  assumes "file_view rd s off = Some vn" "AtSlot nid \<notin> set (vrefs vn)"
    and "\<And>o'. ref_of s o' \<noteq> AtSlot nid \<Longrightarrow> ref_of s' o' = ref_of s o'"
  shows "file_view rd s' off = Some vn"
  using assms by (force simp: file_view_def split: option.split_asm disk_node.split_asm)

lemma release_offsets:
  assumes "interned s" "index (d_slots s) nid = Some slot"
    and offs: "offs = (case slot_off slot of None \<Rightarrow> d_offsets s | Some o' \<Rightarrow> bt_remove o' (d_offsets s))"
  shows "bt_ok offs" "bt_get offs o' = (if bt_get (d_offsets s) o' = Some nid then None else bt_get (d_offsets s) o')"
proof -
  have ok: "bt_ok (d_offsets s)"
    and int: "\<And>o' i. bt_get (d_offsets s) o' = Some i \<longleftrightarrow> (\<exists>slot. index (d_slots s) i = Some slot \<and> slot_off slot = Some o')"
    using assms(1) unfolding interned_def by blast+
  show "bt_ok offs" using ok offs by (simp add: bt_ok_remove split: option.split)
  have "bt_get (d_offsets s) o' = Some nid \<longleftrightarrow> slot_off slot = Some o'" using int [of o' nid] assms(2) by simp
  then show "bt_get offs o' = (if bt_get (d_offsets s) o' = Some nid then None else bt_get (d_offsets s) o')"
    using offs ok by (auto simp: bt_get_remove split: option.split)
qed

lemma sim_released:
  assumes sim: "sim rd L s t m" and a: "a \<in> L" "m a = AtSlot nid" and alone: "\<And>x. x \<in> L - {a} \<Longrightarrow> a \<notin> set (kids (t_nodes t ! x))"
    and slot: "index (d_slots s) nid = Some slot" and s': "d_slots s' = (d_slots s)[nid := Freed]" "cache_ok s'" "d_fields s' = d_fields s"
    and offs: "d_offsets s' = (case slot_off slot of None \<Rightarrow> d_offsets s | Some o' \<Rightarrow> bt_remove o' (d_offsets s))"
  shows "sim rd (L - {a}) s' t m"
proof -
  have nid: "nid < length (d_slots s)" using slot by (simp add: index_eq_Some)
  have int: "interned s" and inj: "inj_on m L" and nodes: "\<And>x. x \<in> L \<Longrightarrow> node_sim rd L s t m x" using sim by (simp_all add: sim_def)
  note rel = release_offsets [OF int slot offs]
  have idx: "index (d_slots s') i = (if i = nid then Some Freed else index (d_slots s) i)" for i
    using s'(1) nid by (auto simp: index_def)
  have ref: "ref_of s' o' = ref_of s o'" if "ref_of s o' \<noteq> AtSlot nid" for o'
    using that rel(2) by (auto simp: ref_of_def split: option.splits)
  have "bt_get (d_offsets s') o' = Some i \<longleftrightarrow> (\<exists>slot. index (d_slots s') i = Some slot \<and> slot_off slot = Some o')" for o' i
    using int [unfolded interned_def, THEN conjunct2, rule_format, of o' i] by (cases "i = nid") (auto simp: rel(2) idx)
  then have "interned s'" using rel(1) by (simp add: interned_def)
  moreover have "node_sim rd (L - {a}) s' t m x" if x: "x \<in> L - {a}" for x
  proof -
    have ns: "node_sim rd L s t m x" using nodes x by simp
    have ne: "m y \<noteq> AtSlot nid" if "y \<in> L - {a}" for y using inj a that unfolding inj_on_def by (metis DiffD1 DiffD2 insertI1)
    have kids: "set (kids (t_nodes t ! x)) \<subseteq> L - {a}" using ns alone [OF x] by (auto simp: node_sim_def)
    then have refs: "AtSlot nid \<notin> set (vrefs (ren m (t_nodes t ! x)))" using ne by fastforce
    note fv = file_view_released [OF _ refs ref]
    have "ref_view rd s' (m x) = Some (ren m (t_nodes t ! x))" "ref_dirty s' (m x) = ref_dirty s (m x)"
      using ns ne [OF x] fv by (auto simp: node_sim_def ref_view_def ref_dirty_def idx split: vref.split_asm option.split_asm node_slot.split_asm)
    moreover have "clean_ok rd s' i" if "m x = AtSlot i" for i
      using ns that ne [OF x] fv by (auto simp: clean_ok_def idx node_sim_def ref_view_def)
    moreover have "bt_get (d_offsets s') o' = None" if "m x = AtFile o'" for o'
      using ns that by (simp add: rel(2) node_sim_def)
    ultimately show ?thesis using ns kids by (auto simp: node_sim_def split: vref.split)
  qed
  ultimately show ?thesis using sim s' inj_on_diff [OF inj] by (auto simp: sim_def same_fields_eq)
qed

lemma release_slot_sim:
  assumes sim: "sim rd L s t m" and a: "a \<in> L" "m a = AtSlot nid" and alone: "\<And>x. x \<in> L - {a} \<Longrightarrow> a \<notin> set (kids (t_nodes t ! x))"
  shows "\<exists>s'. release_slot nid s = Some s' \<and> sim rd (L - {a}) s' t m \<and> outer s' = outer s \<and> loaded s' = (loaded s)(nid := None)"
proof -
  have nid: "nid < length (d_slots s)" by (rule sim_bound [OF sim a])
  then obtain slot where slot: "index (d_slots s) nid = Some slot" by simp
  obtain s' where s': "release_slot nid s = Some s'" "cache_ok s'" "d_slots s' = (d_slots s)[nid := Freed]"
    using release_slot_ok nid sim unfolding sim_def by blast
  have rest: "outer s' = outer s" "d_offsets s' = (case slot_off slot of None \<Rightarrow> d_offsets s | Some o' \<Rightarrow> bt_remove o' (d_offsets s))"
    using s'(1) slot by (cases slot; auto simp: release_slot_def set_slot_def outer_def elim!: bind_SomeE)+
  have "sim rd (L - {a}) s' t m"
    by (rule sim_released [OF sim a alone slot s'(3,2) outer_d_fields [OF rest(1)] rest(2)])
  moreover have "loaded s' = (loaded s)(nid := None)" using s'(3) nid by (auto simp: loaded_def index_def)
  ultimately show ?thesis using s'(1) rest(1) by blast
qed

text \<open>Where the records of the file are read: a device whose reads give the nodes that \<open>rd\<close> finds.\<close>
locale node_store =
  fixes E :: "'v env" and rd :: "'v \<Rightarrow> nat \<Rightarrow> nat \<Rightarrow> disk_node option" and engine :: "('v, 'p) disk_engine itself"
  assumes read_law: "rd (d_vfs s) (d_watermark s) off = Some dn \<Longrightarrow> \<exists>len. read_record E off (s :: ('v, 'p) disk_engine) = ok (dn, len) s"
    and form_law: "rd v w off = Some dn \<Longrightarrow> record_ok off dn"
begin

abbreviation rds :: "('v, 'p) disk_engine \<Rightarrow> nat \<Rightarrow> disk_node option" where
  "rds s \<equiv> rd (d_vfs s) (d_watermark s)"

lemma load_record:
  assumes sim: "sim (rds s) L s t m" and slot: "file_view (rds s) s off = Some vn"
  obtains dn len n s2 where "read_record E off s = ok (dn, len) s" "node_of_record off dn s = ok n s2" "grown s s2"
    "file_view (rds s) s2 off = Some (mem_view n)"
proof -
  obtain dn where dn: "rds s off = Some dn" using slot by (auto simp: file_view_def split: option.split_asm)
  then obtain len where len: "read_record E off s = ok (dn, len) s" using read_law by blast
  have form: "record_ok off dn" using form_law dn by blast
  have ok: "cache_ok s" "interned s" using sim by (simp_all add: sim_def)
  show ?thesis
  proof (cases dn)
    case (DiskLeaf es)
    then show ?thesis using that [OF len] dn grown_refl [OF ok] by (simp add: node_of_record_def file_view_def)
  next
    case (DiskInternal ps offs b)
    obtain nids s2 where s2: "alloc_children offs s = Some (nids, s2)" "grown s s2" "map AtSlot nids = map (ref_of s2) offs"
      using alloc_children_grown [OF ok] by blast
    have "find (\<lambda>c. c < DATA_START \<or> c \<ge> off) offs = None" using form DiskInternal by (auto simp: find_None_iff)
    then have "node_of_record off dn s = ok (Internal ps nids b) s2" using form s2(1) DiskInternal by (simp add: node_of_record_def)
    then show ?thesis using that [OF len] dn s2 DiskInternal by (simp add: file_view_def)
  qed
qed

lemma finish_load_sim:
  assumes sim: "sim rd' L s t m" and a: "a \<in> L" "m a = AtSlot nid" and slot: "index (d_slots s) nid = Some (OnDisk off)"
    and view: "file_view rd' s off = Some (mem_view n)"
  shows "\<exists>s'. finish_load nid pins off len n s = ok () s' \<and> sim rd' L s' t m \<and> touched s s' pins \<and> resident_at s' nid"
proof -
  let ?b = "RECORD_HEADER_SIZE + len"
  let ?c = "(d_cache s)\<lparr>cache_bytes := cache_bytes (d_cache s) + ?b, resident := resident (d_cache s) + 1,
    misses := misses (d_cache s) + 1\<rparr>"
  let ?s = "set_slot nid (Loaded n False (Some off) ?b 0) (s\<lparr>d_cache := ?c\<rparr>)"
  have ok: "cache_ok s" using sim by (simp add: sim_def)
  have "cache_ok (set_slot nid (Loaded n False (Some off) ?b 0) (s\<lparr>d_cache := ?c, d_offsets := d_offsets s\<rparr>))"
    by (rule cache_ok_set_slot [OF ok slot]) (use ok in \<open>auto simp: cache_ok_def\<close>)
  then have c1: "cache_ok ?s" by simp
  have clean: "mem_view n = ren m (t_nodes t ! a)" "\<not> t_dirty t ! a" using sim_slot [OF sim a] slot view by auto
  note k = sim_kids [OF sim a(1)]
  have sim1: "sim rd' L ?s t m"
  proof (rule sim_set_slot [OF sim a slot, where nd = "t_nodes t ! a" and n = n and d = False and off = "Some off" and b = ?b and tk = 0])
    show "d_slots ?s = (d_slots s)[nid := Loaded n False (Some off) ?b 0]" by (simp add: set_slot_def)
    show "d_offsets ?s = d_offsets s" by (simp add: set_slot_def)
    show "d_fields ?s = t_fields t" using sim by (simp add: sim_def same_fields_eq d_fields_def set_slot_def)
    show "t_nodes t = (t_nodes t)[a := t_nodes t ! a]" by simp
    show "t_dirty t = (t_dirty t)[a := False]" using clean(2) by (metis (full_types) list_update_id)
  qed (use c1 clean view k in auto)
  have nid: "nid < length (d_slots s)" using slot by (simp add: index_eq_Some)
  then obtain s1 where s1: "touch nid ?s = Some s1" "sim rd' L s1 t m" "\<forall>i. loaded s1 i = loaded ?s i" "same_rest ?s s1"
    using touch_sim [OF sim1, of nid] by (auto simp: set_slot_def)
  obtain s2 where s2: "enforce_budget pins (Some nid) s1 = Some s2" "sim rd' L s2 t m" "same_rest s1 s2"
    "\<forall>i. i \<in> set pins \<or> Some nid = Some i \<longrightarrow> resident_at s1 i \<longrightarrow> resident_at s2 i"
    using enforce_budget_sim [OF s1(2)] by blast
  have "resident_at ?s nid" "\<And>i. resident_at s i \<Longrightarrow> resident_at ?s i"
    using nid by (simp_all add: resident_at_def loaded_set_slot)
  then have res: "resident_at s1 nid" "\<And>i. resident_at s i \<Longrightarrow> resident_at s1 i" using s1(3) by (simp_all add: resident_at_def)
  have "outer s2 = outer s" using same_rest_outer [OF s1(4)] same_rest_outer [OF s2(3)] by simp
  then show ?thesis using s1(1) s2 res by (auto simp: finish_load_def touched_def)
qed

lemma ensure_loaded_sim:
  assumes sim: "sim (rds s) L s t m" and a: "a \<in> L" "m a = AtSlot nid"
  shows "\<exists>s' m'. ensure_loaded E nid pins s = ok () s' \<and> sim (rds s) L s' t m' \<and> ref_le L m m' \<and> touched s s' pins \<and> resident_at s' nid"
  using sim a
proof (cases rule: sim_slot)
  case (1 n d off b tk)
  from ensure_hit_sim [OF sim this(1), of E pins]
  obtain s' where s': "ensure_loaded E nid pins s = ok () s'" "sim (rds s) L s' t m" "outer s' = outer s" "\<forall>i. loaded s' i = loaded s i" by blast
  have "resident_at s' nid" using 1(1) s'(4) by (simp add: resident_at_def loaded_def)
  then show ?thesis using s' by (intro exI [of _ s'] exI [of _ m]) (simp add: touched_def resident_at_def)
next
  case (2 off)
  obtain dn len n s2 where r: "read_record E off s = ok (dn, len) s" "node_of_record off dn s = ok n s2" "grown s s2"
    "file_view (rds s) s2 off = Some (mem_view n)" using load_record [OF sim 2(2)] by blast
  have nid: "nid < length (d_slots s)" using 2(1) by (simp add: index_eq_Some)
  note sim2 = grown_sim [OF sim r(3)]
  have slot: "index (d_slots s2) nid = Some (OnDisk off)" using grown_index [OF r(3) nid] 2(1) by simp
  obtain s' where s': "finish_load nid pins off len n s2 = ok () s'" "sim (rds s) L s' t (found s2 \<circ> m)" "touched s2 s' pins" "resident_at s' nid"
    using finish_load_sim [OF sim2 a(1) _ slot r(4)] a(2) by auto
  have "resident_at s2 i" if "resident_at s i" for i
    using that grown_index [OF r(3), of i] by (auto simp: resident_at_def loaded_iff index_eq_Some)
  then have "touched s s' pins" using s'(3) r(3) by (auto simp: touched_def grown_def)
  then show ?thesis using s' r 2(1) found_ref_le by (auto simp: ensure_loaded_def)
qed

end

end
