(* ===== verification/Disk_Sim_Tree.thy ===== *)
theory Disk_Sim_Tree
  imports Disk_Sim
begin

text \<open>
  The simulation of splitting, integrating and removing nodes. \<open>owned\<close> says that every node of the tree
  has one parent or is one of the roots at hand; \<open>related\<close> adds it to \<open>sim\<close>. Each operation of the disk
  engine that touches nodes in memory only is shown to do what its counterpart on the arena does.
\<close>

section \<open>Ownership\<close>

definition edges :: "node list \<Rightarrow> node_id set \<Rightarrow> node_id multiset" where
  "edges N L = (\<Sum>a\<in>L. mset (kids (N ! a)))"

text \<open>Every node of \<open>L\<close> is a child at most once, or once one of the orphans \<open>W\<close>.\<close>
definition owned :: "node_id multiset \<Rightarrow> node_id set \<Rightarrow> node list \<Rightarrow> bool" where
  "owned W L N \<longleftrightarrow> finite L \<and> edges N L + W \<subseteq># mset_set L"

lemma edges_remove: "finite L \<Longrightarrow> a \<in> L \<Longrightarrow> edges N L = mset (kids (N ! a)) + edges N (L - {a})"
  unfolding edges_def by (rule sum.remove)

lemma edges_insert: "finite L \<Longrightarrow> a \<notin> L \<Longrightarrow> edges N (insert a L) = mset (kids (N ! a)) + edges N L"
  unfolding edges_def by (rule sum.insert)

lemma edges_cong: "(\<And>a. a \<in> L \<Longrightarrow> kids (N' ! a) = kids (N ! a)) \<Longrightarrow> edges N' L = edges N L"
  unfolding edges_def by (intro sum.cong) auto

lemma owned_count:
  assumes "owned W L N"
  shows "count (edges N L) x + count W x \<le> (if x \<in> L then 1 else 0)"
proof -
  have "count (edges N L + W) x \<le> count (mset_set L) x" using assms unfolding owned_def by (blast intro: mset_subset_eq_count)
  then show ?thesis using assms by (simp add: owned_def count_mset_set')
qed

lemma owned_once: "owned W L N \<Longrightarrow> count (edges N L) x + count W x \<le> 1"
  using owned_count [of W L N x] by (cases "x \<in> L") auto

lemma owned_in: "owned W L N \<Longrightarrow> 1 \<le> count (edges N L) x + count W x \<Longrightarrow> x \<in> L"
  using owned_count [of W L N x] by (cases "x \<in> L") auto

lemma edges_ge:
  assumes "finite L" "a \<in> L"
  shows "count (mset (kids (N ! a))) x \<le> count (edges N L) x"
  using edges_remove [OF assms] by simp

lemma owned_kids:
  assumes "owned W L N" "a \<in> L"
  shows "set (kids (N ! a)) \<subseteq> L" "distinct (kids (N ! a))"
proof -
  have fin: "finite L" using assms(1) by (simp add: owned_def)
  note le = order_trans [OF edges_ge [OF fin assms(2)] add_leD1 [OF owned_count [OF assms(1)]]]
  show "set (kids (N ! a)) \<subseteq> L"
  proof
    fix x assume "x \<in> set (kids (N ! a))"
    then have "1 \<le> count (mset (kids (N ! a))) x" by (simp add: Suc_le_eq)
    then show "x \<in> L" using le [of x] by (auto split: if_splits)
  qed
  show "distinct (kids (N ! a))" unfolding distinct_count_atmost_1
  proof
    fix x
    show "count (mset (kids (N ! a))) x = (if x \<in> set (kids (N ! a)) then 1 else 0)"
      using le [of x] count_greater_zero_iff [of "mset (kids (N ! a))" x] by (auto split: if_splits simp: le_Suc_eq)
  qed
qed

lemma owned_unique:
  assumes "owned W L N" "a \<in> L" "b \<in> L" "x \<in> set (kids (N ! a))" "x \<in> set (kids (N ! b))"
  shows "a = b"
proof (rule ccontr)
  assume "a \<noteq> b"
  have fin: "finite L" using assms(1) by (simp add: owned_def)
  have "count (edges N L) x = count (mset (kids (N ! a))) x + count (mset (kids (N ! b))) x + count (edges N (L - {a} - {b})) x"
    using edges_remove [OF fin assms(2)] edges_remove [of "L - {a}" b] fin assms(3) \<open>a \<noteq> b\<close> by simp
  moreover have "1 \<le> count (mset (kids (N ! a))) x" "1 \<le> count (mset (kids (N ! b))) x" using assms(4,5) by (simp_all add: Suc_le_eq)
  ultimately show False using owned_once [OF assms(1), of x] by linarith
qed

lemma owned_orphan:
  assumes "owned W L N" "x \<in># W"
  shows "x \<in> L" "a \<in> L \<Longrightarrow> x \<notin> set (kids (N ! a))"
proof -
  have fin: "finite L" using assms(1) by (simp add: owned_def)
  have W: "1 \<le> count W x" using assms(2) by (simp add: Suc_le_eq)
  show "x \<in> L" by (rule owned_in [OF assms(1)]) (use W in linarith)
  show "x \<notin> set (kids (N ! a))" if "a \<in> L"
  proof
    assume "x \<in> set (kids (N ! a))"
    then have "1 \<le> count (mset (kids (N ! a))) x" by (simp add: Suc_le_eq)
    then have "1 \<le> count (edges N L) x" using edges_ge [OF fin that, of N x] by linarith
    then show False using W owned_once [OF assms(1), of x] by linarith
  qed
qed

text \<open>Changing one node: its new children come from its old ones and the orphans.\<close>

lemma owned_update:
  assumes "owned W L N" "a \<in> L" "a < length N" "mset (kids n) + W' \<subseteq># mset (kids (N ! a)) + W"
  shows "owned W' L (N[a := n])"
proof -
  have fin: "finite L" using assms(1) by (simp add: owned_def)
  have "edges (N[a := n]) (L - {a}) = edges N (L - {a})" by (rule edges_cong) (auto simp: nth_list_update)
  then have "edges (N[a := n]) L + W' = edges N (L - {a}) + (mset (kids n) + W')"
    using edges_remove [OF fin assms(2), of "N[a := n]"] assms(3) by (simp add: ac_simps)
  also have "\<dots> \<subseteq># edges N (L - {a}) + (mset (kids (N ! a)) + W)" using assms(4) by simp
  also have "\<dots> = edges N L + W" using edges_remove [OF fin assms(2), of N] by (simp add: ac_simps)
  finally show ?thesis using assms(1) by (auto simp: owned_def)
qed

lemma owned_alloc:
  assumes "owned W L N" "\<forall>a\<in>L. a < length N" "mset (kids n) + W' \<subseteq># W + {#length N#}"
  shows "owned W' (insert (length N) L) (N @ [n])"
proof -
  have fin: "finite L" and new: "length N \<notin> L" using assms(1,2) by (auto simp: owned_def)
  have "edges (N @ [n]) L = edges N L" using assms(2) by (intro edges_cong) (auto simp: nth_append)
  then have "edges (N @ [n]) (insert (length N) L) + W' = edges N L + (mset (kids n) + W')"
    using edges_insert [OF fin new] by (simp add: ac_simps)
  also have "\<dots> \<subseteq># edges N L + (W + {#length N#})" using assms(3) by (rule subset_mset.add_left_mono)
  also have "\<dots> = (edges N L + W) + {#length N#}" by simp
  also have "\<dots> \<subseteq># mset_set L + {#length N#}" using assms(1) by (auto simp: owned_def intro: subset_mset.add_right_mono)
  finally show ?thesis using fin new by (simp add: owned_def)
qed

lemma owned_remove:
  assumes "owned (add_mset a W) L N"
  shows "owned W (L - {a}) N"
proof -
  have fin: "finite L" and a: "a \<in> L" using assms owned_orphan(1) [OF assms] by (auto simp: owned_def)
  have "edges N (L - {a}) + W + {#a#} \<subseteq># edges N L + add_mset a W" using edges_remove [OF fin a, of N] by simp
  also have "\<dots> \<subseteq># mset_set L" using assms by (simp add: owned_def)
  also have "\<dots> = mset_set (L - {a}) + {#a#}" using fin a by (simp add: mset_set.remove)
  finally show ?thesis using fin by (simp add: owned_def)
qed

lemma owned_weaken: "owned W L N \<Longrightarrow> W' \<subseteq># W \<Longrightarrow> owned W' L N"
  unfolding owned_def by (meson subset_mset.add_left_mono subset_mset.order_trans)

section \<open>Engines in step\<close>

definition placed :: "(node_id \<Rightarrow> vref) \<Rightarrow> node_id \<Rightarrow> node_id \<Rightarrow> bool" where
  "placed m a nid \<longleftrightarrow> m a = AtSlot nid"

fun node_match :: "(node_id \<Rightarrow> vref) \<Rightarrow> node \<Rightarrow> node \<Rightarrow> bool" where
  "node_match m (Leaf es) n \<longleftrightarrow> n = Leaf es"
| "node_match m (Internal ps as b) n \<longleftrightarrow> (\<exists>cs. n = Internal ps cs b \<and> list_all2 (placed m) as cs)"

text \<open>A policy that does not look at the number of the node, which the two engines choose differently.\<close>
definition blind :: "'p policy \<Rightarrow> bool" where
  "blind pol \<longleftrightarrow> (\<forall>p ctx nid. policy_choose pol p (ctx\<lparr>ctx_node := nid\<rparr>) = policy_choose pol p ctx)"

definition related :: "(nat \<Rightarrow> disk_node option) \<Rightarrow> node_id multiset \<Rightarrow> node_id set \<Rightarrow> ('v, 'p) disk_engine \<Rightarrow> 'p betree \<Rightarrow>
    (node_id \<Rightarrow> vref) \<Rightarrow> bool" where
  "related rd W L s t m \<longleftrightarrow> sim rd L s t m \<and> owned W L (t_nodes t) \<and> blind (t_policy t)"

text \<open>What an operation on resident nodes keeps: the live nodes, their places, and who is resident.\<close>
definition stays :: "node_id set \<Rightarrow> (node_id \<Rightarrow> vref) \<Rightarrow> ('v, 'p) disk_engine \<Rightarrow> node_id set \<Rightarrow> (node_id \<Rightarrow> vref) \<Rightarrow>
    ('v, 'p) disk_engine \<Rightarrow> bool" where
  "stays L m s L' m' s' \<longleftrightarrow> L \<subseteq> L' \<and> (\<forall>a\<in>L. m' a = m a) \<and> outer s' = outer s \<and> (\<forall>i. resident_at s i \<longrightarrow> resident_at s' i)"

lemma stays_refl [simp]: "stays L m s L m s"
  by (simp add: stays_def)

lemma stays_trans: "stays L m s L' m' s' \<Longrightarrow> stays L' m' s' L'' m'' s'' \<Longrightarrow> stays L m s L'' m'' s''"
  by (auto simp: stays_def)

lemma placed_all: "list_all2 (placed m) as cs \<longleftrightarrow> map m as = map AtSlot cs"
  unfolding placed_def [abs_def] by (simp add: list_all2_map1 list_all2_map2 list.rel_eq [symmetric])

lemma mem_view_match: "mem_view n = ren m nd \<longleftrightarrow> node_match m nd n"
  by (cases nd; cases n) (auto simp: placed_all)

lemma match_kids: "node_match m nd n \<Longrightarrow> list_all2 (placed m) (kids nd) (kids n)"
  by (cases nd) auto

lemma placed_cong: "list_all2 (placed m) as cs \<Longrightarrow> (\<And>a. a \<in> set as \<Longrightarrow> m' a = m a) \<Longrightarrow> list_all2 (placed m') as cs"
  by (auto simp: placed_def elim!: list.rel_mono_strong)

lemma related_bound: "related rd W L s t m \<Longrightarrow> a \<in> L \<Longrightarrow> a < length (t_nodes t) \<and> a < length (t_dirty t)"
  unfolding related_def using sim_kids by blast

lemma related_node:
  assumes "related rd W L s t m" "a \<in> L" "m a = AtSlot nid" "loaded s nid = Some n"
  shows "node_match m (t_nodes t ! a) n" "node_at t a = Some (t_nodes t ! a)"
  using assms sim_loaded [of rd L s t m a nid n] by (auto simp: related_def mem_view_match)

lemma mark_dirty_eq: "a < length (t_dirty t) \<Longrightarrow> mark_dirty a t = Some (dirtied a t)"
  by (simp add: mark_dirty_def dirtied_def)

lemma set_dirtied_again [simp]:
  "set_node a nd (dirtied a (set_node a nd' (dirtied a t))) = set_node a nd (dirtied a t)"
  by (simp add: set_node_def dirtied_def)

text \<open>Taking a node for writing and writing it.\<close>

lemma write_sim:
  assumes sim: "sim rd L s t m" and a: "a \<in> L" "m a = AtSlot nid" "loaded s nid = Some n"
    and new: "node_match m nd n'" "set (kids nd) \<subseteq> L"
  shows "\<exists>s1. loaded_mut nid s = Some (n, s1) \<and> sim rd L (put_node nid n' s1) (set_node a nd (dirtied a t)) m \<and>
    stays L m s L m (put_node nid n' s1) \<and> outer s1 = outer s \<and> loaded (put_node nid n' s1) nid = Some n'"
proof -
  obtain s1 where s1: "loaded_mut nid s = Some (n, s1)" "sim rd L s1 (dirtied a t) m" "outer s1 = outer s" "\<forall>i. loaded s1 i = loaded s i"
    using loaded_mut_sim [OF sim a] by blast
  have dirty: "t_dirty (dirtied a t) ! a" using sim_kids [OF sim a(1)] by (simp add: dirtied_def)
  have l1: "loaded s1 nid = Some n" using s1(4) a(3) by simp
  note put = put_node_sim [OF s1(2) a(1,2) dirty l1 new(1) [folded mem_view_match] new(2)]
  have "stays L m s L m (put_node nid n' s1)" using s1(3,4) put(2) by (auto simp: stays_def resident_at_def)
  then show ?thesis using s1 put by simp
qed

lemma rewrite_sim:
  assumes rel: "related rd W L s t m" and a: "a \<in> L" "m a = AtSlot nid" "loaded s nid = Some n" and new: "node_match m nd n'"
    and W': "mset (kids nd) + W' \<subseteq># mset (kids (t_nodes t ! a)) + W"
  shows "\<exists>s1. loaded_mut nid s = Some (n, s1) \<and> related rd W' L (put_node nid n' s1) (set_node a nd (dirtied a t)) m \<and>
    stays L m s L m (put_node nid n' s1) \<and> outer s1 = outer s \<and> mark_dirty a t = Some (dirtied a t)"
proof -
  have own: "owned W L (t_nodes t)" and sim: "sim rd L s t m" and blind: "blind (t_policy t)" using rel by (simp_all add: related_def)
  note b = related_bound [OF rel a(1)]
  have own': "owned W' L ((t_nodes t)[a := nd])" using owned_update [OF own a(1)] b W' by blast
  then have "set (kids nd) \<subseteq> L" using owned_kids(1) [OF own' a(1)] b by simp
  from write_sim [OF sim a new this] show ?thesis using own' b blind
    by (auto simp: related_def set_node_def dirtied_def mark_dirty_eq)
qed

text \<open>The same where the node is emptied in between, as the splitting code does.\<close>

lemma rewrite_twice_sim:
  assumes rel: "related rd W L s t m" and a: "a \<in> L" "m a = AtSlot nid" "loaded s nid = Some n" and new: "node_match m nd n'"
    and W': "mset (kids nd) + W' \<subseteq># mset (kids (t_nodes t ! a)) + W" and e: "node_match m ed e" "kids ed = []"
  shows "\<exists>s1 s2. loaded_mut nid s = Some (n, s1) \<and> loaded_mut nid (put_node nid e s1) = Some (e, s2) \<and>
    related rd W' L (put_node nid n' s2) (set_node a nd (dirtied a t)) m \<and> stays L m s L m (put_node nid n' s2) \<and>
    outer s1 = outer s \<and> outer s2 = outer s \<and> mark_dirty a t = Some (dirtied a t)"
proof -
  have own: "owned W L (t_nodes t)" and sim: "sim rd L s t m" and blind: "blind (t_policy t)" using rel by (simp_all add: related_def)
  note b = related_bound [OF rel a(1)]
  have own': "owned W' L ((t_nodes t)[a := nd])" using owned_update [OF own a(1)] b W' by blast
  then have kids: "set (kids nd) \<subseteq> L" using owned_kids(1) [OF own' a(1)] b by simp
  obtain s1 where s1: "loaded_mut nid s = Some (n, s1)" "sim rd L (put_node nid e s1) (set_node a ed (dirtied a t)) m"
    "stays L m s L m (put_node nid e s1)" "outer s1 = outer s" "loaded (put_node nid e s1) nid = Some e"
    using write_sim [OF sim a e(1)] e(2) by auto
  obtain s2 where s2: "loaded_mut nid (put_node nid e s1) = Some (e, s2)"
    "sim rd L (put_node nid n' s2) (set_node a nd (dirtied a t)) m" "stays L m (put_node nid e s1) L m (put_node nid n' s2)"
    "outer s2 = outer s1"
    using write_sim [OF s1(2) a(1,2) s1(5) new kids] by auto
  show ?thesis using s1 s2 own' b blind stays_trans [OF s1(3) s2(3)]
    by (auto simp: related_def set_node_def dirtied_def mark_dirty_eq)
qed

lemma alloc_sim:
  assumes rel: "related rd (mset (kids nd) + W) L s t m" and new: "node_match m nd n"
  defines "a \<equiv> length (t_nodes t)" and "nid \<equiv> length (d_slots s)"
  shows "\<exists>s'. alloc_dirty n s = Some (nid, s') \<and> related rd (add_mset a W) (insert a L) s' (snd (alloc nd t)) (m(a := AtSlot nid)) \<and>
    stays L m s (insert a L) (m(a := AtSlot nid)) s' \<and> resident_at s' nid \<and> loaded s' nid = Some n"
proof -
  have own: "owned (mset (kids nd) + W) L (t_nodes t)" and sim: "sim rd L s t m" using rel by (simp_all add: related_def)
  have kids: "set (kids nd) \<subseteq> L" using owned_orphan(1) [OF own] by auto
  have bound: "\<forall>x\<in>L. x < length (t_nodes t)" using related_bound [OF rel] by blast
  have "owned (add_mset a W) (insert a L) (t_nodes t @ [nd])"
    using owned_alloc [OF own bound, of nd "add_mset a W"] by (simp add: a_def)
  moreover obtain s' where s': "alloc_dirty n s = Some (nid, s')" "sim rd (insert a L) s' (snd (alloc nd t)) (m(a := AtSlot nid))"
    "outer s' = outer s" "loaded s' = (loaded s)(nid \<mapsto> n)"
    using alloc_dirty_sim [OF sim new [folded mem_view_match] kids] unfolding a_def nid_def by blast
  moreover have "a \<notin> L" "blind (t_policy t)" using bound rel by (auto simp: a_def related_def)
  ultimately show ?thesis by (auto simp: related_def stays_def resident_at_def alloc_def)
qed

section \<open>Splitting\<close>

definition promo :: "(node_id \<Rightarrow> vref) \<Rightarrow> key \<times> node_id \<Rightarrow> key \<times> node_id \<Rightarrow> bool" where
  "promo m = rel_prod (=) (placed m)"

definition fresh_nodes :: "node_id set \<Rightarrow> 'p betree \<Rightarrow> node_id set \<Rightarrow> bool" where
  "fresh_nodes L t L' \<longleftrightarrow> (\<forall>x\<in>L'. x \<in> L \<or> length (t_nodes t) \<le> x)"

lemma fresh_nodes_refl [simp]: "fresh_nodes L t L"
  by (simp add: fresh_nodes_def)

text \<open>What a split gives: new nodes without a parent, promoted alike on both sides.\<close>
definition split_sim :: "(nat \<Rightarrow> disk_node option) \<Rightarrow> node_id multiset \<Rightarrow> node_id set \<Rightarrow> ('v, 'p) disk_engine \<Rightarrow> 'p betree \<Rightarrow>
    (node_id \<Rightarrow> vref) \<Rightarrow> (key \<times> node_id) list \<Rightarrow> 'p betree \<Rightarrow> ((key \<times> node_id) list \<times> ('v, 'p) disk_engine) option \<Rightarrow> bool" where
  "split_sim rd W L s t m promoted t' r \<longleftrightarrow> (\<exists>dp s' L' m'. r = Some (dp, s') \<and>
     related rd (mset (map snd promoted) + W) L' s' t' m' \<and> stays L m s L' m' s' \<and> list_all2 (promo m') promoted dp \<and>
     fresh_nodes L t L')"

lemma split_sim_stays:
  "stays L m s L m' s1 \<Longrightarrow> split_sim rd W L s1 t1 m' promoted t' r \<Longrightarrow> length (t_nodes t1) = length (t_nodes t) \<Longrightarrow>
     split_sim rd W L s t m promoted t' r"
  unfolding split_sim_def fresh_nodes_def by (metis stays_trans)

lemma split_sim_none: "related rd W L s t m \<Longrightarrow> split_sim rd W L s t m [] t (Some ([], s))"
  unfolding split_sim_def by (intro exI [of _ "[]"] exI [of _ s] exI [of _ L] exI [of _ m]) simp

lemma promo_later: "related rd (mset (map snd promoted) + W) L s t m \<Longrightarrow> stays L m s L' m' s' \<Longrightarrow> list_all2 (promo m) promoted dp \<Longrightarrow>
    list_all2 (promo m') promoted dp"
  unfolding related_def by (auto simp: promo_def stays_def placed_def rel_prod_conv elim!: list.rel_mono_strong dest!: owned_orphan(1))

lemma split_sim_cons:
  assumes rel: "related rd (mset (kids nd) + V) L s t m" and match: "node_match m nd n"
    and rest: "\<And>L1 s1 m1. related rd (add_mset (length (t_nodes t)) V) L1 s1 (snd (alloc nd t)) m1 \<Longrightarrow> stays L m s L1 m1 s1 \<Longrightarrow>
      split_sim rd (add_mset (length (t_nodes t)) W) L1 s1 (snd (alloc nd t)) m1 promoted t' (cont s1)"
  shows "split_sim rd W L s t m ((pivot, length (t_nodes t)) # promoted) t' (do {
    (new_id, s) \<leftarrow> alloc_dirty n s; (promoted, s) \<leftarrow> cont s; Some ((pivot, new_id) # promoted, s) })"
proof -
  let ?a = "length (t_nodes t)" and ?nid = "length (d_slots s)"
  let ?L = "insert ?a L" and ?m = "m(?a := AtSlot ?nid)"
  obtain s1 where s1: "alloc_dirty n s = Some (?nid, s1)" "related rd (add_mset ?a V) ?L s1 (snd (alloc nd t)) ?m" "stays L m s ?L ?m s1"
    using alloc_sim [OF rel match] by blast
  obtain dp s' L' m' where r: "cont s1 = Some (dp, s')" "related rd (mset (map snd promoted) + add_mset ?a W) L' s' t' m'"
    "stays ?L ?m s1 L' m' s'" "list_all2 (promo m') promoted dp" "fresh_nodes ?L (snd (alloc nd t)) L'"
    using rest [OF s1(2,3)] unfolding split_sim_def by blast
  have "m' ?a = AtSlot ?nid" using r(3) by (simp add: stays_def)
  then have "list_all2 (promo m') ((pivot, ?a) # promoted) ((pivot, ?nid) # dp)" using r(4) by (simp add: promo_def placed_def)
  moreover have "fresh_nodes L t L'" using r(5) by (auto simp: fresh_nodes_def alloc_def)
  ultimately show ?thesis unfolding split_sim_def using s1 r stays_trans [OF s1(3) r(3)] by auto
qed

lemma alloc_leaves_sim:
  "related rd W L s t m \<Longrightarrow> alloc_leaves pieces t = Some (promoted, t') \<Longrightarrow> split_sim rd W L s t m promoted t' (disk_alloc_leaves pieces s)"
proof (induction pieces arbitrary: W L s t m promoted)
  case Nil
  then show ?case by (auto intro: split_sim_none)
next
  case (Cons piece pieces)
  obtain pivot x es where piece: "piece = (pivot, x) # es" using Cons.prems(2) by (auto split: list.split_asm)
  obtain promoted1 where t': "alloc_leaves pieces (snd (alloc (Leaf piece) t)) = Some (promoted1, t')" "promoted = (pivot, length (t_nodes t)) # promoted1"
    using Cons.prems(2) piece by (auto simp: Let_def alloc_def elim!: bind_SomeE)
  have rel: "related rd (mset (kids (Leaf piece)) + W) L s t m" using Cons.prems(1) by simp
  have "split_sim rd W L s t m ((pivot, length (t_nodes t)) # promoted1) t' (do {
      (new_id, s) \<leftarrow> alloc_dirty (Leaf piece) s; (promoted, s) \<leftarrow> disk_alloc_leaves pieces s; Some ((pivot, new_id) # promoted, s) })"
    by (rule split_sim_cons [OF rel]) (use Cons.IH t' in auto)
  then show ?case using piece t' by simp
qed

lemma related_params: "related rd W L s t m \<Longrightarrow> d_params s = t_params t"
  by (simp add: related_def sim_def same_fields_def)

lemma split_leaf_sim:
  assumes rel: "related rd W L s t m" and a: "a \<in> L" "m a = AtSlot nid" "resident_at s nid"
    and run: "split_leaf a t = Some (promoted, t')"
  shows "split_sim rd W L s t m promoted t' (disk_split_leaf nid s)"
proof -
  obtain n where n: "loaded s nid = Some n" using a(3) by (auto simp: resident_at_def)
  note at_a = related_node [OF rel a(1,2) n]
  have mark: "mark_dirty a t = Some (dirtied a t)" using related_bound [OF rel a(1)] by (simp add: mark_dirty_eq)
  have node: "node_at (dirtied a t) a = Some (t_nodes t ! a)" using at_a(2) by (simp add: node_at_def dirtied_def)
  have par: "t_params (dirtied a t) = t_params t" by (simp add: dirtied_def)
  obtain items sizes first pieces where r: "t_nodes t ! a = Leaf items" "partition_sizes (length items) (leaf_capacity (t_params t)) = Some sizes"
    "map bt_collect (take_pieces sizes items) = first # pieces"
    "alloc_leaves pieces (set_node a (Leaf first) (dirtied a t)) = Some (promoted, t')"
    using run by (auto simp: split_leaf_def mark node par split: node.split_asm list.split_asm elim!: bind_SomeE)
  have n': "n = Leaf items" using at_a(1) r(1) by simp
  have W: "mset (kids (Leaf first)) + W \<subseteq># mset (kids (t_nodes t ! a)) + W" by simp
  obtain s1 s2 where s12: "loaded_mut nid s = Some (n, s1)" "loaded_mut nid (put_node nid (Leaf []) s1) = Some (Leaf [], s2)"
    "related rd W L (put_node nid (Leaf first) s2) (set_node a (Leaf first) (dirtied a t)) m" "stays L m s L m (put_node nid (Leaf first) s2)"
    "outer s1 = outer s"
    using rewrite_twice_sim [OF rel a(1,2) n _ W, of "Leaf first" "Leaf []" "Leaf []"] by auto
  have "d_params (put_node nid (Leaf []) s1) = t_params t" using related_params [OF rel] outerD(1) [of "put_node nid (Leaf []) s1" s] s12(5) by simp
  then have "disk_split_leaf nid s = disk_alloc_leaves pieces (put_node nid (Leaf first) s2)"
    using s12 r n' by (simp add: disk_split_leaf_def)
  then show ?thesis using split_sim_stays [OF s12(4) alloc_leaves_sim [OF s12(3) r(4)]] by (simp add: set_node_def dirtied_def)
qed

definition piece_match :: "(node_id \<Rightarrow> vref) \<Rightarrow> piece \<Rightarrow> piece \<Rightarrow> bool" where
  "piece_match m = rel_prod (=) (rel_prod (=) (rel_prod (list_all2 (placed m)) (=)))"

lemma piece_match_cong:
  assumes "piece_match m p d" "\<And>a. a \<in> set (piece_children p) \<Longrightarrow> m' a = m a"
  shows "piece_match m' p d"
  using assms by (cases p; cases d) (auto simp: piece_match_def intro: placed_cong)

lemma slice_placed:
  assumes "list_all2 R xs ys" "slice xs i j = Some x"
  obtains y where "slice ys i j = Some y" "list_all2 R x y"
  using assms by (auto simp: slice_def list_all2_lengthD list_all2_takeI list_all2_dropI split: if_split_asm)

lemma peel_placed:
  "list_all2 (placed m) cs ds \<Longrightarrow> peel ps cs ss b = Some (pcs, b') \<Longrightarrow> \<exists>dpcs. peel ps ds ss b = Some (dpcs, b') \<and> list_all2 (piece_match m) pcs dpcs"
proof (induction ss arbitrary: b pcs)
  case Nil
  then show ?case by auto
next
  case (Cons x ss)
  obtain start sz where x: "x = (start, sz)" by force
  obtain stop pp pc i pivot pcs1 where r: "checked_sub (start + sz) 1 = Some stop" "slice ps start stop = Some pp"
    "slice cs start (start + sz) = Some pc" "checked_sub start 1 = Some i" "index ps i = Some pivot"
    "peel ps cs ss (fst (bt_split_off pivot b)) = Some (pcs1, b')" "pcs = (pivot, pp, pc, snd (bt_split_off pivot b)) # pcs1"
    using Cons.prems(2) x by (auto simp: split_beta elim!: bind_SomeE)
  obtain dc where dc: "slice ds start (start + sz) = Some dc" "list_all2 (placed m) pc dc" using slice_placed [OF Cons.prems(1) r(3)] .
  obtain dpcs where "peel ps ds ss (fst (bt_split_off pivot b)) = Some (dpcs, b')" "list_all2 (piece_match m) pcs1 dpcs"
    using Cons.IH [OF Cons.prems(1) r(6)] by blast
  then show ?case using r dc x by (auto simp: split_beta piece_match_def)
qed

lemma peel_children:
  "peel ps cs (rev (zip (starts_from acc szs) szs)) b = Some (pcs, b') \<Longrightarrow>
     concat (map piece_children (rev pcs)) = take (sum_list szs) (drop acc cs)"
proof (induction szs arbitrary: b pcs rule: rev_induct)
  case Nil
  then show ?case by simp
next
  case (snoc sz szs)
  let ?st = "acc + sum_list szs"
  have "rev (zip (starts_from acc (szs @ [sz])) (szs @ [sz])) = (?st, sz) # rev (zip (starts_from acc szs) szs)"
    by (simp add: starts_from_snoc)
  then obtain pc pivot pp pb pcs1 where r: "slice cs ?st (?st + sz) = Some pc"
    "peel ps cs (rev (zip (starts_from acc szs) szs)) (fst (bt_split_off pivot b)) = Some (pcs1, b')" "pcs = (pivot, pp, pc, pb) # pcs1"
    using snoc.prems by (auto simp: split_beta elim!: bind_SomeE)
  have "pc = take sz (drop ?st cs)" using r(1) by (auto simp: slice_def split: if_split_asm)
  then show ?case using snoc.IH [OF r(2)] r(3) take_add [of "sum_list szs" sz "drop acc cs"] by (simp add: add.commute)
qed

lemma alloc_internals_sim:
  "related rd (mset (concat (map piece_children pieces)) + W) L s t m \<Longrightarrow> list_all2 (piece_match m) pieces dpieces \<Longrightarrow>
     alloc_internals pieces t = (promoted, t') \<Longrightarrow> split_sim rd W L s t m promoted t' (disk_alloc_internals dpieces s)"
proof (induction pieces arbitrary: W L s t m promoted dpieces)
  case Nil
  then show ?case by (auto intro: split_sim_none)
next
  case (Cons piece pieces)
  obtain pivot pp pc pb where piece: "piece = (pivot, pp, pc, pb)" by (cases piece) auto
  obtain dc dps where d: "dpieces = (pivot, pp, dc, pb) # dps" "list_all2 (placed m) pc dc" "list_all2 (piece_match m) pieces dps"
    using Cons.prems(2) piece by (auto simp: list_all2_Cons1 piece_match_def)
  obtain promoted1 where t': "alloc_internals pieces (snd (alloc (Internal pp pc pb) t)) = (promoted1, t')"
    "promoted = (pivot, length (t_nodes t)) # promoted1"
    using Cons.prems(3) piece by (cases "alloc_internals pieces (snd (alloc (Internal pp pc pb) t))") (auto simp: Let_def alloc_def)
  let ?W = "mset (concat (map piece_children pieces)) + W"
  have rel: "related rd (mset (kids (Internal pp pc pb)) + ?W) L s t m" using Cons.prems(1) piece by (simp add: ac_simps)
  have match: "node_match m (Internal pp pc pb) (Internal pp dc pb)" using d(2) by simp
  have kids: "set (concat (map piece_children pieces)) \<subseteq> L" using owned_orphan(1) rel unfolding related_def by fastforce
  have "split_sim rd W L s t m ((pivot, length (t_nodes t)) # promoted1) t' (do {
      (new_id, s) \<leftarrow> alloc_dirty (Internal pp dc pb) s; (promoted, s) \<leftarrow> disk_alloc_internals dps s; Some ((pivot, new_id) # promoted, s) })"
  proof (rule split_sim_cons [OF rel match])
    fix L1 s1 m1
    assume rel1: "related rd (add_mset (length (t_nodes t)) ?W) L1 s1 (snd (alloc (Internal pp pc pb) t)) m1" and st: "stays L m s L1 m1 s1"
    have "list_all2 (piece_match m1) pieces dps"
    proof (rule list.rel_mono_strong [OF d(3)])
      fix p d assume "p \<in> set pieces" "piece_match m p d"
      then show "piece_match m1 p d" using kids st by (auto simp: stays_def intro: piece_match_cong)
    qed
    then show "split_sim rd (add_mset (length (t_nodes t)) W) L1 s1 (snd (alloc (Internal pp pc pb) t)) m1 promoted1 t' (disk_alloc_internals dps s1)"
      using Cons.IH [of "add_mset (length (t_nodes t)) W" L1 s1 "snd (alloc (Internal pp pc pb) t)" m1] rel1 t'(1) by simp
  qed
  then show ?case using d(1) t' by simp
qed

lemma peel_owned:
  assumes "peel ps cs (rev (tl (zip (starts_from 0 sizes) sizes))) b = Some (pcs, b')" "index sizes 0 = Some sz0" "slice cs 0 sz0 = Some fc"
  shows "mset fc + mset (concat (map piece_children (rev pcs))) \<subseteq># mset cs"
proof -
  obtain szs where sizes: "sizes = sz0 # szs" using assms(2) by (cases sizes) auto
  have fc: "fc = take sz0 cs" using assms(3) by (auto simp: slice_def split: if_split_asm)
  have "concat (map piece_children (rev pcs)) = take (sum_list szs) (drop sz0 cs)"
    using peel_children [of ps cs sz0 szs b pcs b'] assms(1) sizes by simp
  then have "mset fc + mset (concat (map piece_children (rev pcs))) = mset (take (sz0 + sum_list szs) cs)"
    by (simp add: fc take_add)
  also have "\<dots> \<subseteq># mset cs" by (metis append_take_drop_id mset_append mset_subset_eq_add_left)
  finally show ?thesis .
qed

lemma split_internal_sim:
  assumes rel: "related rd W L s t m" and a: "a \<in> L" "m a = AtSlot nid" "resident_at s nid"
    and run: "split_internal a t = Some (promoted, t')"
  shows "split_sim rd W L s t m promoted t' (disk_split_internal nid s)"
proof -
  obtain n where n: "loaded s nid = Some n" using a(3) by (auto simp: resident_at_def)
  note at_a = related_node [OF rel a(1,2) n]
  have mark: "mark_dirty a t = Some (dirtied a t)" using related_bound [OF rel a(1)] by (simp add: mark_dirty_eq)
  have node: "node_at (dirtied a t) a = Some (t_nodes t ! a)" using at_a(2) by (simp add: node_at_def dirtied_def)
  have par: "t_params (dirtied a t) = t_params t" by (simp add: dirtied_def)
  obtain ps as b sizes pcs b' sz0 stop fp fc where r: "t_nodes t ! a = Internal ps as b"
    "partition_sizes (length as) (fanout (t_params t)) = Some sizes"
    "peel ps as (rev (tl (zip (starts_from 0 sizes) sizes))) b = Some (pcs, b')" "index sizes 0 = Some sz0" "checked_sub sz0 1 = Some stop"
    "slice ps 0 stop = Some fp" "slice as 0 sz0 = Some fc"
    "alloc_internals (rev pcs) (set_node a (Internal fp fc b') (dirtied a t)) = (promoted, t')"
    using run by (auto simp: split_internal_def mark node par split: node.split_asm elim!: bind_SomeE)
  obtain cs where n': "n = Internal ps cs b" "list_all2 (placed m) as cs" using at_a(1) r(1) by auto
  obtain dpcs where d: "peel ps cs (rev (tl (zip (starts_from 0 sizes) sizes))) b = Some (dpcs, b')" "list_all2 (piece_match m) pcs dpcs"
    using peel_placed [OF n'(2) r(3)] by blast
  obtain dc where dc: "slice cs 0 sz0 = Some dc" "list_all2 (placed m) fc dc" using slice_placed [OF n'(2) r(7)] .
  let ?W = "mset (concat (map piece_children (rev pcs))) + W"
  have W: "mset (kids (Internal fp fc b')) + ?W \<subseteq># mset (kids (t_nodes t ! a)) + W"
    using subset_mset.add_right_mono [OF peel_owned [OF r(3,4,7)], of W] by (simp add: r(1) ac_simps)
  obtain s1 s2 where s12: "loaded_mut nid s = Some (n, s1)" "loaded_mut nid (put_node nid (Internal [] [] []) s1) = Some (Internal [] [] [], s2)"
    "related rd ?W L (put_node nid (Internal fp dc b') s2) (set_node a (Internal fp fc b') (dirtied a t)) m"
    "stays L m s L m (put_node nid (Internal fp dc b') s2)" "outer s1 = outer s"
    using rewrite_twice_sim [OF rel a(1,2) n _ W, of "Internal fp dc b'" "Internal [] [] []" "Internal [] [] []"] dc by auto
  have "d_params (put_node nid (Internal [] [] []) s1) = t_params t"
    using related_params [OF rel] outerD(1) [of "put_node nid (Internal [] [] []) s1" s] s12(5) by simp
  moreover have "length cs = length as" using n'(2) by (simp add: list_all2_lengthD)
  ultimately have "disk_split_internal nid s = disk_alloc_internals (rev dpcs) (put_node nid (Internal fp dc b') s2)"
    using s12(1,2) r n'(1) d(1) dc(1) by (simp add: disk_split_internal_def)
  moreover have "list_all2 (piece_match m) (rev pcs) (rev dpcs)" using d(2) by simp
  ultimately show ?thesis using split_sim_stays [OF s12(4) alloc_internals_sim [OF s12(3) _ r(8)]] by (simp add: set_node_def dirtied_def)
qed

lemma split_if_needed_sim:
  assumes rel: "related rd W L s t m" and a: "a \<in> L" "m a = AtSlot nid" "resident_at s nid"
    and run: "split_if_needed a t = Some (promoted, t')"
  shows "split_sim rd W L s t m promoted t' (disk_split_if_needed nid s)"
proof -
  obtain n where n: "loaded s nid = Some n" using a(3) by (auto simp: resident_at_def)
  note at_a = related_node [OF rel a(1,2) n]
  note par = related_params [OF rel]
  show ?thesis
  proof (cases "t_nodes t ! a")
    case (Leaf es)
    then have "n = Leaf es" using at_a(1) by simp
    then show ?thesis using run n at_a(2) Leaf par split_leaf_sim [OF rel a] split_sim_none [OF rel]
      by (auto simp: split_if_needed_def disk_split_if_needed_def split: if_split_asm)
  next
    case (Internal ps as b)
    then obtain cs where "n = Internal ps cs b" "length cs = length as" using at_a(1) by (auto dest: list_all2_lengthD)
    then show ?thesis using run n at_a(2) Internal par split_internal_sim [OF rel a] split_sim_none [OF rel]
      by (auto simp: split_if_needed_def disk_split_if_needed_def split: if_split_asm)
  qed
qed

section \<open>Integrating and removing\<close>

lemma vec_insert_placed:
  "list_all2 R xs ys \<Longrightarrow> R x y \<Longrightarrow> vec_insert i x xs = Some zs \<Longrightarrow> \<exists>ws. vec_insert i y ys = Some ws \<and> list_all2 R zs ws"
  by (auto simp: vec_insert_def list_all2_lengthD intro!: list_all2_appendI list_all2_takeI list_all2_dropI split: if_split_asm)

lemma insert_splits_placed:
  "list_all2 (placed m) cs ds \<Longrightarrow> list_all2 (promo m) promoted dp \<Longrightarrow> insert_splits promoted ps cs = Some (ps', cs') \<Longrightarrow>
     \<exists>ds'. insert_splits dp ps ds = Some (ps', ds') \<and> list_all2 (placed m) cs' ds'"
proof (induction promoted arbitrary: ps cs ds dp)
  case Nil
  then show ?case by auto
next
  case (Cons x promoted)
  obtain pivot c d dp1 where x: "x = (pivot, c)" "dp = (pivot, d) # dp1" "placed m c d" "list_all2 (promo m) promoted dp1"
    using Cons.prems(2) by (cases x) (auto simp: list_all2_Cons1 promo_def)
  let ?pos = "partition_point (\<lambda>p. p < pivot) ps"
  obtain ps1 cs1 where r: "vec_insert ?pos pivot ps = Some ps1" "vec_insert (?pos + 1) c cs = Some cs1" "insert_splits promoted ps1 cs1 = Some (ps', cs')"
    using Cons.prems(3) x by (auto simp: Let_def elim!: bind_SomeE)
  obtain ds1 where "vec_insert (?pos + 1) d ds = Some ds1" "list_all2 (placed m) cs1 ds1"
    using vec_insert_placed [OF Cons.prems(1) x(3) r(2)] by blast
  then show ?case using Cons.IH [OF _ x(4) r(3)] r x by (auto simp: Let_def)
qed

lemma insert_splits_mset:
  "insert_splits promoted ps cs = Some (ps', cs') \<Longrightarrow> mset cs' = mset (map snd promoted) + mset cs"
proof (induction promoted arbitrary: ps cs)
  case Nil
  then show ?case by simp
next
  case (Cons x promoted)
  obtain pivot c where x: "x = (pivot, c)" by force
  obtain ps1 cs1 i where "vec_insert i c cs = Some cs1" "insert_splits promoted ps1 cs1 = Some (ps', cs')"
    using Cons.prems x by (auto simp: Let_def elim!: bind_SomeE)
  moreover from this(1) have "mset cs1 = add_mset c (mset cs)"
    by (auto simp: vec_insert_def split: if_split_asm) (metis append_take_drop_id mset_append union_mset_add_mset_right)
  ultimately show ?case using Cons.IH x by fastforce
qed

lemma integrate_splits_sim:
  assumes rel: "related rd (mset (map snd promoted) + W) L s t m" and a: "a \<in> L" "m a = AtSlot nid" "resident_at s nid"
    and p: "list_all2 (promo m) promoted dp" and run: "integrate_splits a promoted t = Some t'"
  shows "\<exists>s'. disk_integrate_splits nid dp s = Some s' \<and> related rd W L s' t' m \<and> stays L m s L m s'"
proof (cases "promoted = []")
  case True
  then show ?thesis using rel run p by (auto simp: integrate_splits_def disk_integrate_splits_def)
next
  case False
  obtain n where n: "loaded s nid = Some n" using a(3) by (auto simp: resident_at_def)
  note at_a = related_node [OF rel a(1,2) n]
  have mark: "mark_dirty a t = Some (dirtied a t)" using related_bound [OF rel a(1)] by (simp add: mark_dirty_eq)
  have node: "node_at (dirtied a t) a = Some (t_nodes t ! a)" using at_a(2) by (simp add: node_at_def dirtied_def)
  obtain ps as b ps' as' where r: "t_nodes t ! a = Internal ps as b" "insert_splits promoted ps as = Some (ps', as')"
    "t' = set_node a (Internal ps' as' b) (dirtied a t)"
    using run False by (auto simp: integrate_splits_def mark node split: node.split_asm elim!: bind_SomeE)
  obtain cs where n': "n = Internal ps cs b" "list_all2 (placed m) as cs" using at_a(1) r(1) by auto
  obtain cs' where d: "insert_splits dp ps cs = Some (ps', cs')" "list_all2 (placed m) as' cs'" using insert_splits_placed [OF n'(2) p r(2)] by blast
  have W: "mset (kids (Internal ps' as' b)) + W \<subseteq># mset (kids (t_nodes t ! a)) + (mset (map snd promoted) + W)"
    using insert_splits_mset [OF r(2)] r(1) by (simp add: ac_simps)
  have "dp \<noteq> []" using p False by auto
  then show ?thesis using rewrite_sim [OF rel a(1,2) n _ W, of "Internal ps' cs' b"] d r(3) n'(1)
    by (auto simp: disk_integrate_splits_def)
qed

definition outcome_match :: "(node_id \<Rightarrow> vref) \<Rightarrow> outcome \<Rightarrow> outcome \<Rightarrow> bool" where
  "outcome_match m o1 o2 \<longleftrightarrow> (case o1 of Removed \<Rightarrow> o2 = Removed | Splits promoted \<Rightarrow> (\<exists>dp. o2 = Splits dp \<and> list_all2 (promo m) promoted dp))"

text \<open>The nodes that an outcome hands to the parent.\<close>
definition outcome_nodes :: "outcome \<Rightarrow> node_id multiset" where
  "outcome_nodes o1 = (case o1 of Removed \<Rightarrow> {#} | Splits promoted \<Rightarrow> mset (map snd promoted))"

lemma settle_sim:
  assumes rel: "related rd W L s t m" and a: "a \<in> L" "m a = AtSlot nid" "resident_at s nid" and run: "settle a t = Some (out, t')"
  shows "\<exists>dout s' L' m'. disk_settle nid s = Some (dout, s') \<and> related rd (outcome_nodes out + W) L' s' t' m' \<and>
    stays L m s L' m' s' \<and> outcome_match m' out dout \<and> fresh_nodes L t L' \<and> (out = Removed \<longrightarrow> t' = t \<and> kids (t_nodes t ! a) = [] \<and> s' = s \<and> m' = m \<and> L' = L)"
proof -
  obtain n where n: "loaded s nid = Some n" using a(3) by (auto simp: resident_at_def)
  note at_a = related_node [OF rel a(1,2) n]
  have empty: "(case n of Internal ps cs b \<Rightarrow> cs = [] | Leaf _ \<Rightarrow> False) = (case t_nodes t ! a of Internal ps cs b \<Rightarrow> cs = [] | Leaf _ \<Rightarrow> False)"
    using at_a(1) by (cases "t_nodes t ! a") (auto dest: list_all2_lengthD)
  show ?thesis
  proof (cases "case t_nodes t ! a of Internal ps cs b \<Rightarrow> cs = [] | Leaf _ \<Rightarrow> False")
    case True
    moreover from this have "kids (t_nodes t ! a) = []" by (cases "t_nodes t ! a") auto
    ultimately show ?thesis using run n at_a(2) empty rel
      by (auto simp: settle_def disk_settle_def outcome_match_def outcome_nodes_def intro!: exI [of _ L] exI [of _ m])
  next
    case False
    then obtain promoted where p: "split_if_needed a t = Some (promoted, t')" "out = Splits promoted"
      using run at_a(2) by (auto simp: settle_def elim!: bind_SomeE)
    show ?thesis using split_if_needed_sim [OF rel a p(1)] p(2) n empty False
      by (auto simp: split_sim_def disk_settle_def outcome_match_def outcome_nodes_def) blast
  qed
qed

lemma position_placed:
  "list_all2 (placed m) as cs \<Longrightarrow> inj_on m L \<Longrightarrow> insert a (set as) \<subseteq> L \<Longrightarrow> placed m a c \<Longrightarrow> position c cs = position a as"
proof (induction as cs rule: list_all2_induct)
  case Nil
  then show ?case by simp
next
  case (Cons x xs y ys)
  have "c = y \<longleftrightarrow> a = x" using Cons.prems Cons.hyps(1) unfolding placed_def inj_on_def by (metis insert_subset list.simps(15) vref.inject(1))
  then show ?case using Cons by simp
qed

lemma vec_remove_placed:
  "list_all2 R xs ys \<Longrightarrow> vec_remove i xs = Some zs \<Longrightarrow> \<exists>ws. vec_remove i ys = Some ws \<and> list_all2 R zs ws"
  by (auto simp: vec_remove_def list_all2_lengthD intro!: list_all2_appendI list_all2_takeI list_all2_dropI split: if_split_asm)

lemma vec_remove_mset:
  assumes "position a as = Some i" "vec_remove i as = Some as'"
  shows "mset as = add_mset a (mset as')"
  using position_Some_split [OF assms(1)] assms(2) by auto

lemma remove_child_sim:
  assumes rel: "related rd W L s t m" and a: "a \<in> L" "m a = AtSlot nid" "resident_at s nid" and c: "c \<in> L" "m c = AtSlot cid" "c \<noteq> a"
    and run: "remove_child a c t = Some t'"
  shows "\<exists>s'. disk_remove_child nid cid s = Some s' \<and> related rd W (L - {c}) s' t' m \<and> outer s' = outer s \<and>
    (\<forall>i. i \<noteq> cid \<longrightarrow> resident_at s i \<longrightarrow> resident_at s' i)"
proof -
  obtain n where n: "loaded s nid = Some n" using a(3) by (auto simp: resident_at_def)
  note at_a = related_node [OF rel a(1,2) n]
  have mark: "mark_dirty a t = Some (dirtied a t)" using related_bound [OF rel a(1)] by (simp add: mark_dirty_eq)
  have node: "node_at (dirtied a t) a = Some (t_nodes t ! a)" using at_a(2) by (simp add: node_at_def dirtied_def)
  let ?pivots = "\<lambda>at ps. if at > 0 then vec_remove (at - 1) ps else if ps \<noteq> [] then vec_remove 0 ps else Some ps"
  obtain ps as b at as' ps' where r: "t_nodes t ! a = Internal ps as b" "position c as = Some at" "vec_remove at as = Some as'"
    "?pivots at ps = Some ps'" "t' = set_node a (Internal ps' as' b) (dirtied a t)"
    using run by (auto simp: remove_child_def mark node split: node.split_asm elim!: bind_SomeE)
  obtain cs where n': "n = Internal ps cs b" "list_all2 (placed m) as cs" using at_a(1) r(1) by auto
  have inj: "inj_on m L" and own: "owned W L (t_nodes t)" using rel by (simp_all add: related_def sim_def)
  have asL: "set as \<subseteq> L" using owned_kids(1) [OF own a(1)] r(1) by simp
  have pos: "position cid cs = Some at" using position_placed [OF n'(2) inj] asL c r(2) by (simp add: placed_def)
  obtain cs' where cs': "vec_remove at cs = Some cs'" "list_all2 (placed m) as' cs'" using vec_remove_placed [OF n'(2) r(3)] by blast
  have W: "mset (kids (Internal ps' as' b)) + add_mset c W \<subseteq># mset (kids (t_nodes t ! a)) + W"
    using vec_remove_mset [OF r(2,3)] r(1) by simp
  obtain s1 where s1: "loaded_mut nid s = Some (n, s1)" "related rd (add_mset c W) L (put_node nid (Internal ps' cs' b) s1) t' m"
    "stays L m s L m (put_node nid (Internal ps' cs' b) s1)"
    using rewrite_sim [OF rel a(1,2) n _ W, of "Internal ps' cs' b"] cs' r(5) by auto
  have own': "owned (add_mset c W) L (t_nodes t')" and sim': "sim rd L (put_node nid (Internal ps' cs' b) s1) t' m" using s1(2) by (simp_all add: related_def)
  obtain s' where s': "release_slot cid (put_node nid (Internal ps' cs' b) s1) = Some s'" "sim rd (L - {c}) s' t' m"
    "outer s' = outer (put_node nid (Internal ps' cs' b) s1)" "loaded s' = (loaded (put_node nid (Internal ps' cs' b) s1))(cid := None)"
    using release_slot_sim [OF sim' c(1,2)] owned_orphan(2) [OF own'] by auto
  have "disk_remove_child nid cid s = Some s'" using s1(1) n' pos cs' r(4) s'(1) by (simp add: disk_remove_child_def)
  moreover have "blind (t_policy t')" using s1(2) by (simp add: related_def)
  ultimately show ?thesis using s' s1(3) owned_remove [OF own'] by (auto simp: related_def stays_def resident_at_def)
qed

end
