(* ===== verification/Disk_Sim_Flush.thy ===== *)
theory Disk_Sim_Flush
  imports Disk_Sim_Tree
begin

text \<open>
  The simulation of flushing and of settling the root. The stack of a flush is a chain of resident nodes,
  each the child of the next; a node that is loaded on the way stays related, and the stack is pinned.
  \<open>grey\<close> says that dirtiness is closed upwards, which flushing keeps unless it drains.
\<close>

section \<open>How the arena changes\<close>

text \<open>One node was rewritten and marked, and new dirty nodes were added, or nothing happened.\<close>
definition reshapes :: "node_id \<Rightarrow> 'p betree \<Rightarrow> 'p betree \<Rightarrow> bool" where
  "reshapes a t t' \<longleftrightarrow> t_root t' = t_root t \<and> (t_nodes t' = t_nodes t \<and> t_dirty t' = t_dirty t \<or>
     (\<exists>nd new. t_nodes t' = (t_nodes t)[a := nd] @ new \<and> t_dirty t' = (t_dirty t)[a := True] @ replicate (length new) True))"

lemma reshapes_refl [simp]: "reshapes a t t"
  by (simp add: reshapes_def)

lemma alloc_leaves_grows: "alloc_leaves pieces t = Some (promoted, t') \<Longrightarrow>
    \<exists>new. t_nodes t' = t_nodes t @ new \<and> t_dirty t' = t_dirty t @ replicate (length new) True \<and> t_root t' = t_root t"
proof (induction pieces arbitrary: t promoted)
  case Nil
  then show ?case by (auto intro!: exI [of _ "[]"])
next
  case (Cons piece pieces)
  then obtain promoted1 where "alloc_leaves pieces (snd (alloc (Leaf piece) t)) = Some (promoted1, t')"
    by (auto simp: Let_def alloc_def split: list.split_asm elim!: bind_SomeE)
  from Cons.IH [OF this] obtain new where "t_nodes t' = t_nodes t @ Leaf piece # new"
    "t_dirty t' = t_dirty t @ replicate (length (Leaf piece # new)) True" "t_root t' = t_root t" by (auto simp: alloc_def)
  then show ?case by blast
qed

lemma alloc_internals_grows: "alloc_internals pieces t = (promoted, t') \<Longrightarrow>
    \<exists>new. t_nodes t' = t_nodes t @ new \<and> t_dirty t' = t_dirty t @ replicate (length new) True \<and> t_root t' = t_root t"
proof (induction pieces arbitrary: t promoted)
  case Nil
  then show ?case by (auto intro!: exI [of _ "[]"])
next
  case (Cons piece pieces)
  obtain pivot pp pc pb where piece: "piece = (pivot, pp, pc, pb)" by (cases piece) auto
  obtain promoted1 where "alloc_internals pieces (snd (alloc (Internal pp pc pb) t)) = (promoted1, t')"
    using Cons.prems piece by (cases "alloc_internals pieces (snd (alloc (Internal pp pc pb) t))") (auto simp: Let_def alloc_def)
  from Cons.IH [OF this] obtain new where "t_nodes t' = t_nodes t @ Internal pp pc pb # new"
    "t_dirty t' = t_dirty t @ replicate (length (Internal pp pc pb # new)) True" "t_root t' = t_root t" by (auto simp: alloc_def)
  then show ?case by blast
qed

lemma rewritten_reshapes:
  assumes "mark_dirty a t = Some t1" "t_nodes t' = (t_nodes t1)[a := nd] @ new" "t_dirty t' = t_dirty t1 @ replicate (length new) True"
    "t_root t' = t_root t1"
  shows "reshapes a t t'"
  using assms by (auto simp: reshapes_def mark_dirty_def split: if_split_asm)

lemma split_if_needed_reshapes:
  assumes "split_if_needed a t = Some (promoted, t')"
  shows "reshapes a t t'"
proof -
  have leaf: "reshapes a t t'" if run: "split_leaf a t = Some (promoted, t')"
  proof -
    obtain t1 pieces first where r: "mark_dirty a t = Some t1" "alloc_leaves pieces (set_node a (Leaf first) t1) = Some (promoted, t')"
      using run by (auto simp: split_leaf_def split: node.split_asm list.split_asm elim!: bind_SomeE)
    show ?thesis using alloc_leaves_grows [OF r(2)] rewritten_reshapes [OF r(1)] by (auto simp: set_node_def)
  qed
  have internal: "reshapes a t t'" if run: "split_internal a t = Some (promoted, t')"
  proof -
    obtain t1 pieces ps cs b where r: "mark_dirty a t = Some t1" "alloc_internals pieces (set_node a (Internal ps cs b) t1) = (promoted, t')"
      using run by (auto simp: split_internal_def split: node.split_asm elim!: bind_SomeE)
    show ?thesis using alloc_internals_grows [OF r(2)] rewritten_reshapes [OF r(1)] by (auto simp: set_node_def)
  qed
  show ?thesis using assms leaf internal
    by (auto simp: split_if_needed_def split: node.split_asm if_split_asm elim!: bind_SomeE)
qed

lemma settle_reshapes: "settle a t = Some (out, t') \<Longrightarrow> reshapes a t t'"
  by (auto simp: settle_def split: if_split_asm elim!: bind_SomeE dest: split_if_needed_reshapes)

lemma set_node_reshapes: "mark_dirty a t = Some t1 \<Longrightarrow> reshapes a t (set_node a nd t1)"
  by (rule rewritten_reshapes [where new = "[]" and nd = nd]) (auto simp: set_node_def)

lemma integrate_splits_reshapes: "integrate_splits a promoted t = Some t' \<Longrightarrow> reshapes a t t'"
  by (auto simp: integrate_splits_def split: if_split_asm node.split_asm elim!: bind_SomeE intro: set_node_reshapes)

lemma remove_child_reshapes: "remove_child a c t = Some t' \<Longrightarrow> reshapes a t t'"
  by (auto simp: remove_child_def split: node.split_asm elim!: bind_SomeE intro: set_node_reshapes)

lemma apply_batch_reshapes: "apply_batch a batch thr t = Some (d, t') \<Longrightarrow> reshapes a t t'"
  by (auto simp: apply_batch_def Let_def split: node.split_asm elim!: bind_SomeE intro: set_node_reshapes)

section \<open>Dirtiness is closed upwards\<close>

definition grey :: "node_id set \<Rightarrow> 'p betree \<Rightarrow> bool" where
  "grey L t \<longleftrightarrow> (\<forall>a\<in>L. \<forall>c\<in>set (kids (t_nodes t ! a)). t_dirty t ! c \<longrightarrow> t_dirty t ! a)"

lemma reshapes_other:
  "reshapes a t t' \<Longrightarrow> x \<noteq> a \<Longrightarrow> x < length (t_nodes t) \<Longrightarrow> length (t_dirty t) = length (t_nodes t) \<Longrightarrow>
     t_nodes t' ! x = t_nodes t ! x \<and> t_dirty t' ! x = t_dirty t ! x"
  by (auto simp: reshapes_def nth_append)

lemma reshapes_dirty:
  "reshapes a t t' \<Longrightarrow> t_dirty t ! x \<Longrightarrow> x < length (t_nodes t) \<Longrightarrow> length (t_dirty t) = length (t_nodes t) \<Longrightarrow> t_dirty t' ! x"
  by (cases "x = a") (auto simp: reshapes_def nth_append)

lemma reshapes_new:
  "reshapes a t t' \<Longrightarrow> length (t_nodes t) \<le> x \<Longrightarrow> x < length (t_nodes t') \<Longrightarrow> length (t_dirty t) = length (t_nodes t) \<Longrightarrow> t_dirty t' ! x"
  by (auto simp: reshapes_def nth_append)

lemma grey_reshapes:
  assumes r: "reshapes a t t'" and g: "grey L t" and len: "length (t_dirty t) = length (t_nodes t)"
    and L: "\<forall>x\<in>L. x < length (t_nodes t) \<and> set (kids (t_nodes t ! x)) \<subseteq> L" and a: "a \<in> L"
    and parents: "\<And>p. p \<in> L \<Longrightarrow> a \<in> set (kids (t_nodes t ! p)) \<Longrightarrow> t_dirty t ! p"
    and L': "\<forall>x\<in>L'. x < length (t_nodes t') \<and> (x \<in> L \<or> length (t_nodes t) \<le> x)"
  shows "grey L' t'"
  unfolding grey_def
proof (intro ballI impI)
  fix x c assume x: "x \<in> L'" and c: "c \<in> set (kids (t_nodes t' ! x))" "t_dirty t' ! c"
  show "t_dirty t' ! x"
  proof (cases "x \<in> L \<and> x \<noteq> a")
    case True
    then have same: "t_nodes t' ! x = t_nodes t ! x" "t_dirty t' ! x = t_dirty t ! x" using reshapes_other [OF r] L len by auto
    then have cx: "c \<in> set (kids (t_nodes t ! x))" "c \<in> L" using c(1) True L by auto
    show ?thesis
    proof (cases "c = a")
      case True
      then show ?thesis using parents cx same \<open>x \<in> L \<and> x \<noteq> a\<close> by auto
    next
      case False
      then have "t_dirty t ! c" using reshapes_other [OF r, of c] L cx(2) len c(2) by auto
      then show ?thesis using g cx same True by (auto simp: grey_def)
    qed
  next
    case False
    then show ?thesis
    proof (cases "x = a")
      case True
      then show ?thesis using r L a len g c x by (auto simp: reshapes_def grey_def nth_append)
    next
      case False
      then show ?thesis using reshapes_new [OF r _ _ len] L' x \<open>\<not> (x \<in> L \<and> x \<noteq> a)\<close> by auto
    qed
  qed
qed

section \<open>The stack of a flush\<close>

definition spine :: "node list \<Rightarrow> node_id multiset \<Rightarrow> node_id list \<Rightarrow> bool" where
  "spine N W xs \<longleftrightarrow> xs \<noteq> [] \<and> distinct xs \<and> last xs \<in># W \<and> successively (\<lambda>x y. x \<in> set (kids (N ! y))) xs"

lemma spine_parent:
  assumes "spine N W (tp # below)" "owned W L N" "set (tp # below) \<subseteq> L" "q \<in> L" "tp \<in> set (kids (N ! q))"
  shows "below \<noteq> []" "q = hd below"
proof -
  show ne: "below \<noteq> []" using assms owned_orphan(2) [OF assms(2), of tp q] by (auto simp: spine_def)
  then obtain p ps where "below = p # ps" by (cases below) auto
  then show "q = hd below" using assms owned_unique [OF assms(2,4), of p tp] by (auto simp: spine_def)
qed

lemma spine_child:
  assumes sp: "spine N W (tp # below)" and own: "owned W L N" and L: "set (tp # below) \<subseteq> L" and c: "c \<in> set (kids (N ! tp))"
  shows "c \<notin> set (tp # below)"
proof
  assume "c \<in> set (tp # below)"
  then obtain ys zs where split: "tp # below = ys @ c # zs" by (meson split_list)
  show False
  proof (cases zs)
    case Nil
    then have "c \<in># W" using sp split by (auto simp: spine_def)
    then show False using owned_orphan(2) [OF own _, of c tp] c L by auto
  next
    case (Cons y zs')
    then have "c \<in> set (kids (N ! y))" "y \<in> L" using sp split L by (auto simp: spine_def successively_append_iff)
    then have "tp = y" using owned_unique [OF own _ _ c] L by auto
    then show False using sp split Cons by (cases ys) (auto simp: spine_def)
  qed
qed

lemma spine_push: "spine N W (tp # below) \<Longrightarrow> c \<in> set (kids (N ! tp)) \<Longrightarrow> c \<notin> set (tp # below) \<Longrightarrow> spine N W (c # tp # below)"
  by (auto simp: spine_def)

lemma spine_pop: "spine N W (tp # p # ps) \<Longrightarrow> spine N W (p # ps)"
  by (auto simp: spine_def)

lemma spine_frame:
  assumes "spine N W (tp # below)" "\<And>y. y \<in> set below \<Longrightarrow> kids (N' ! y) = kids (N ! y)"
  shows "spine N' W (tp # below)"
proof -
  have "successively (\<lambda>x y. x \<in> set (kids (N ! y))) (tp # below) \<Longrightarrow> \<forall>y\<in>set below. kids (N' ! y) = kids (N ! y) \<Longrightarrow>
      successively (\<lambda>x y. x \<in> set (kids (N' ! y))) (tp # below)" for tp below
    by (induction below arbitrary: tp) auto
  then show ?thesis using assms by (auto simp: spine_def)
qed

lemma spine_orphans: "spine N W xs \<Longrightarrow> spine N (V + W) xs"
  by (auto simp: spine_def)

section \<open>Choosing a child\<close>

lemma sim_fields:
  assumes sim: "sim rd L s t m" and s': "d_slots s' = d_slots s" "d_cache s' = d_cache s" "d_offsets s' = d_offsets s" "d_fields s' = t_fields t'"
    and t': "t_nodes t' = t_nodes t" "t_dirty t' = t_dirty t"
  shows "sim rd L s' t' m"
proof -
  have fv: "file_view rd s' = file_view rd s" by (rule file_view_cong [OF s'(3)])
  have "cache_ok s'" "interned s'" using sim s' by (simp_all add: sim_def cache_ok_def interned_def)
  moreover have "node_sim rd L s' t' m a" if "a \<in> L" for a
  proof -
    have "node_sim rd L s t m a" using sim that by (simp add: sim_def)
    then show ?thesis unfolding node_sim_def ref_view_def ref_dirty_def clean_ok_def fv s' t' .
  qed
  ultimately show ?thesis using sim s'(4) t' by (simp add: sim_def same_fields_eq)
qed

lemma is_dirty_placed:
  assumes "sim rd L s t m" "a \<in> L" "placed m a nid"
  shows "is_dirty s nid = index (t_dirty t) a"
proof -
  have "m a = AtSlot nid" using assms(3) by (simp add: placed_def)
  then show ?thesis
    by (rule sim_slot [OF assms(1,2)]) (use sim_kids [OF assms(1,2)] in \<open>simp_all add: is_dirty_def\<close>)
qed

lemma dirty_flags_placed:
  assumes "sim rd L s t m" "list_all2 (placed m) as cs" "set as \<subseteq> L"
  shows "map (is_dirty s) cs = map (index (t_dirty t)) as"
  using assms(2,3) by (induction rule: list_all2_induct) (auto simp: is_dirty_placed [OF assms(1)])

lemma choose_child_sim:
  assumes rel: "related rd W L s t m" and cs: "list_all2 (placed m) as cs" "set as \<subseteq> L"
    and run: "choose_child a depth mode as buf pend bytes t = Some (chosen, t')"
  shows "\<exists>s'. disk_choose_child nid depth mode cs buf pend bytes s = Some (chosen, s') \<and> related rd W L s' t' m \<and>
    kept_frame s s' \<and> d_root s' = d_root s \<and> loaded s' = loaded s \<and> t_nodes t' = t_nodes t \<and> t_dirty t' = t_dirty t \<and> t_root t' = t_root t"
proof (cases mode)
  case False
  then show ?thesis using run rel by (auto simp: choose_child_def disk_choose_child_def)
next
  case True
  have sim: "sim rd L s t m" and blind: "blind (t_policy t)" using rel by (simp_all add: related_def)
  have f: "d_policy s = t_policy t" "d_ops_since_commit s = t_ops_since_commit t" using sim by (simp_all add: sim_def same_fields_def)
  obtain dirty where dirty: "those (map (index (t_dirty t)) as) = Some dirty" using run True by (auto simp: choose_child_def elim!: bind_SomeE)
  let ?ctx = "\<lambda>n. \<lparr>ctx_node = n, ctx_depth = depth, child_pending = pend, child_pending_bytes = bytes, child_dirty = dirty,
    buffer_total = length buf, ctx_ops_since_commit = t_ops_since_commit t\<rparr>"
  obtain st where st: "policy_choose (t_policy t) (policy_state (t_policy t)) (?ctx a) = (chosen, st)"
    "t' = t\<lparr>t_policy := (t_policy t)\<lparr>policy_state := st\<rparr>\<rparr>"
    using run True dirty by (auto simp: choose_child_def split: prod.split_asm)
  have "?ctx nid = (?ctx a)\<lparr>ctx_node := nid\<rparr>" by simp
  then have st': "policy_choose (t_policy t) (policy_state (t_policy t)) (?ctx nid) = (chosen, st)" using blind st(1) unfolding blind_def by metis
  let ?s = "s\<lparr>d_policy := (d_policy s)\<lparr>policy_state := st\<rparr>\<rparr>"
  have "disk_choose_child nid depth mode cs buf pend bytes s = Some (chosen, ?s)"
    using True dirty st' f dirty_flags_placed [OF sim cs] by (simp add: disk_choose_child_def)
  moreover have "sim rd L ?s t' m"
    by (rule sim_fields [OF sim]) (use sim st(2) f in \<open>auto simp: sim_def same_fields_def d_fields_def t_fields_def\<close>)
  moreover have "blind (t_policy t')" using blind st(2) by (simp add: blind_def)
  ultimately show ?thesis using rel st(2) by (auto simp: related_def loaded_def)
qed

lemma outer_kept: "outer s' = outer s \<Longrightarrow> kept_frame s s' \<and> d_root s' = d_root s"
  using outerD [of s' s] by (simp add: kept_frame_def frame_def)

lemma pick_and_extract_sim:
  assumes rel: "related rd W L s t m" and a: "a \<in> L" "m a = AtSlot nid" "resident_at s nid"
    and run: "pick_and_extract a depth mode t = Some (chosen, c, pend, batch, t')"
  shows "\<exists>cid s'. disk_pick_and_extract nid depth mode s = Some (chosen, cid, pend, batch, s') \<and> related rd W L s' t' m \<and>
    m c = AtSlot cid \<and> c \<in> set (kids (t_nodes t' ! a)) \<and> kids (t_nodes t' ! a) = kids (t_nodes t ! a) \<and> t_dirty t' ! a \<and>
    reshapes a t t' \<and> kept_frame s s' \<and> d_root s' = d_root s \<and> (\<forall>i. resident_at s i \<longrightarrow> resident_at s' i)"
proof -
  obtain n where n: "loaded s nid = Some n" using a(3) by (auto simp: resident_at_def)
  note at_a = related_node [OF rel a(1,2) n]
  obtain ps as b bytes t1 t2 b' where r: "t_nodes t ! a = Internal ps as b"
    "tally ps b (replicate (length as) 0) (replicate (length as) 0) = Some (pend, bytes)"
    "choose_child a depth mode as b pend bytes t = Some (chosen, t1)" "chosen < length pend \<and> pend ! chosen > 0" "mark_dirty a t1 = Some t2"
    "extract_batch ps chosen b = Some (b', batch)" "index as chosen = Some c" "t' = set_node a (Internal ps as b') t2"
    using run at_a(2) by (auto simp: pick_and_extract_def split: node.split_asm if_split_asm elim!: bind_SomeE)
  obtain cs where n': "n = Internal ps cs b" "list_all2 (placed m) as cs" using at_a(1) r(1) by auto
  have asL: "set as \<subseteq> L" using owned_kids(1) [of W L "t_nodes t" a] rel a(1) r(1) by (simp add: related_def)
  obtain s1 where s1: "disk_choose_child nid depth mode cs b pend bytes s = Some (chosen, s1)" "related rd W L s1 t1 m" "kept_frame s s1"
    "d_root s1 = d_root s" "loaded s1 = loaded s" "t_nodes t1 = t_nodes t" "t_dirty t1 = t_dirty t" "t_root t1 = t_root t"
    using choose_child_sim [OF rel n'(2) asL r(3)] by blast
  have W: "mset (kids (Internal ps as b')) + W \<subseteq># mset (kids (t_nodes t1 ! a)) + W" using r(1) s1(6) by simp
  have match: "node_match m (Internal ps as b') (Internal ps cs b')" using n'(2) by simp
  obtain s2 where s2: "loaded_mut nid s1 = Some (n, s2)" "related rd W L (put_node nid (Internal ps cs b') s2) t' m"
    "stays L m s1 L m (put_node nid (Internal ps cs b') s2)" "t2 = dirtied a t1"
    using rewrite_sim [OF s1(2) a(1,2) _ match W, of n] n s1(5) r(5,8) by auto
  obtain cid where cid: "index cs chosen = Some cid" "m c = AtSlot cid"
    using n'(2) r(7) by (auto simp: index_eq_Some list_all2_conv_all_nth placed_def)
  have "length cs = length as" using n'(2) by (simp add: list_all2_lengthD)
  then have "disk_pick_and_extract nid depth mode s = Some (chosen, cid, pend, batch, put_node nid (Internal ps cs b') s2)"
    using n n'(1) r(2,4,6) s1(1) s2(1) cid(1) by (simp add: disk_pick_and_extract_def)
  moreover have "kept_frame s1 (put_node nid (Internal ps cs b') s2)" "d_root (put_node nid (Internal ps cs b') s2) = d_root s1"
    using outer_kept s2(3) unfolding stays_def by blast+
  moreover have "reshapes a t t'" using set_node_reshapes [OF r(5), of "Internal ps as b'"] r(8) s1(6-8) by (simp add: reshapes_def)
  moreover have "t_nodes t' ! a = Internal ps as b'" "t_dirty t' ! a"
    using related_bound [OF s1(2) a(1)] r(8) s2(4) by (simp_all add: set_node_def dirtied_def)
  moreover have "c \<in> set as" using r(7) by (auto simp: index_eq_Some)
  ultimately show ?thesis using s1(3-5) s2(2,3) cid(2) r(1) kept_frame_trans [of s s1] by (auto simp: stays_def resident_at_def)
qed

lemma record_flush_sim:
  assumes "related rd W L s t m"
  shows "related rd W L (disk_record_flush b nid pend c s) (record_flush b a pend c t) m"
proof -
  have sim: "sim rd L s t m" using assms by (simp add: related_def)
  then have "sim rd L (disk_record_flush b nid pend c s) (record_flush b a pend c t) m"
    by (intro sim_fields [OF sim]) (auto simp: disk_record_flush_def record_flush_def sim_def same_fields_def d_fields_def t_fields_def)
  then show ?thesis using assms by (auto simp: related_def record_flush_def)
qed

lemma record_flush_same [simp]:
  "t_nodes (record_flush b a pend c t) = t_nodes t" "t_dirty (record_flush b a pend c t) = t_dirty t"
  "t_root (record_flush b a pend c t) = t_root t" "kept_frame s (disk_record_flush b nid pend c s')  = kept_frame s s'"
  "d_root (disk_record_flush b nid pend c s) = d_root s" "loaded (disk_record_flush b nid pend c s) = loaded s"
  "resident_at (disk_record_flush b nid pend c s) = resident_at s"
  by (auto simp: record_flush_def disk_record_flush_def loaded_def resident_at_def)

section \<open>Visiting nodes\<close>

text \<open>What loading nodes keeps: the places of the nodes, and that the pinned ones are resident.\<close>
definition visits :: "node_id set \<Rightarrow> (node_id \<Rightarrow> vref) \<Rightarrow> ('v, 'p) disk_engine \<Rightarrow> (node_id \<Rightarrow> vref) \<Rightarrow> ('v, 'p) disk_engine \<Rightarrow>
    node_id list \<Rightarrow> bool" where
  "visits L m s m' s' pins \<longleftrightarrow> ref_le L m m' \<and> outer s' = outer s \<and> (\<forall>i\<in>set pins. resident_at s i \<longrightarrow> resident_at s' i)"

lemma visits_refl [simp]: "visits L m s m s pins"
  by (simp add: visits_def)

lemma visits_trans: "visits L m s m' s' pins \<Longrightarrow> visits L m' s' m'' s'' pins \<Longrightarrow> visits L m s m'' s'' pins"
  by (auto simp: visits_def intro: ref_le_trans)

lemma visits_placed: "visits L m s m' s' pins \<Longrightarrow> list_all2 (placed m) as cs \<Longrightarrow> set as \<subseteq> L \<Longrightarrow> list_all2 (placed m') as cs"
  by (auto simp: visits_def placed_def ref_le_def elim!: list.rel_mono_strong)

lemma stays_visits: "stays L m s L m' s' \<Longrightarrow> visits L m s m' s' pins"
  by (auto simp: stays_def visits_def ref_le_def)

context node_store
begin

lemma rds_outer:
  assumes "outer s' = outer s"
  shows "rds s' = rds s"
  by (simp add: outerD(2,6) [OF assms])

lemma load_sim:
  assumes rel: "related (rds s) W L s t m" and a: "a \<in> L" "m a = AtSlot nid"
  shows "\<exists>s' m' n. ensure_loaded E nid pins s = ok () s' \<and> related (rds s') W L s' t m' \<and> visits L m s m' s' pins \<and>
    m' a = AtSlot nid \<and> resident_at s' nid \<and> loaded s' nid = Some n \<and> node_match m' (t_nodes t ! a) n \<and> node_at t a = Some (t_nodes t ! a)"
proof -
  have sim: "sim (rds s) L s t m" using rel by (simp add: related_def)
  obtain s' m' where s': "ensure_loaded E nid pins s = ok () s'" "sim (rds s) L s' t m'" "ref_le L m m'" "touched s s' pins" "resident_at s' nid"
    using ensure_loaded_sim [OF sim a] by blast
  have R: "rds s' = rds s" by (rule rds_outer) (use s'(4) in \<open>simp add: touched_def\<close>)
  have rel': "related (rds s') W L s' t m'" using rel s'(2) by (simp add: related_def R)
  have a': "m' a = AtSlot nid" using ref_leD [OF s'(3) a] .
  obtain n where n: "loaded s' nid = Some n" using s'(5) by (auto simp: resident_at_def)
  show ?thesis using s' rel' a' n related_node [OF rel' a(1) a' n] by (auto simp: visits_def touched_def)
qed

lemma has_messages_sim:
  assumes "has_messages_from t stack = Some b" "related (rds s) W L s t m" "set stack \<subseteq> L" "list_all2 (placed m) stack dstack"
  shows "\<exists>s' m'. disk_has_messages_from E pins dstack s = ok b s' \<and> related (rds s') W L s' t m' \<and> visits L m s m' s' pins \<and>
    (dstack \<noteq> [] \<and> hd dstack \<in> set pins \<longrightarrow> resident_at s' (hd dstack))"
proof -
  have "\<forall>s m dstack. related (rds s) W L s t m \<longrightarrow> set stack \<subseteq> L \<longrightarrow> list_all2 (placed m) stack dstack \<longrightarrow>
      (\<exists>s' m'. disk_has_messages_from E pins dstack s = ok b s' \<and> related (rds s') W L s' t m' \<and> visits L m s m' s' pins \<and>
        (dstack \<noteq> [] \<and> hd dstack \<in> set pins \<longrightarrow> resident_at s' (hd dstack)))"
    using assms(1)
  proof (induction t stack b rule: has_messages_from.raw_induct [rotated, consumes 1, case_names step])
    case (step f t stack b)
    show ?case
    proof (intro allI impI)
      fix s m dstack assume rel: "related (rds s) W L s t m" and sub: "set stack \<subseteq> L" and pl: "list_all2 (placed m) stack dstack"
      show "\<exists>s' m'. disk_has_messages_from E pins dstack s = ok b s' \<and> related (rds s') W L s' t m' \<and> visits L m s m' s' pins \<and>
          (dstack \<noteq> [] \<and> hd dstack \<in> set pins \<longrightarrow> resident_at s' (hd dstack))"
      proof (cases stack)
        case Nil
        then show ?thesis using step(2) pl rel by (auto simp: disk_has_messages_from.simps)
      next
        case (Cons a stack1)
        then obtain nid dstack1 where d: "dstack = nid # dstack1" "m a = AtSlot nid" "list_all2 (placed m) stack1 dstack1"
          using pl by (auto simp: list_all2_Cons1 placed_def)
        have a: "a \<in> L" using sub Cons by simp
        obtain s1 m1 n where l: "ensure_loaded E nid pins s = ok () s1" "related (rds s1) W L s1 t m1" "visits L m s m1 s1 pins"
          "loaded s1 nid = Some n" "node_match m1 (t_nodes t ! a) n" "node_at t a = Some (t_nodes t ! a)" "resident_at s1 nid"
          using load_sim [OF rel a d(2)] by blast
        have pl1: "list_all2 (placed m1) stack1 dstack1" using visits_placed [OF l(3) d(3)] sub Cons by simp
        have go: "\<exists>s' m'. disk_has_messages_from E pins dst s1 = ok b s' \<and> related (rds s') W L s' t m' \<and> visits L m s m' s' pins \<and>
            (nid \<in> set pins \<longrightarrow> resident_at s' nid)"
          if st: "f t st = Some b" "set st \<subseteq> L" "list_all2 (placed m1) st dst" for st dst
        proof -
          obtain s' m' where "disk_has_messages_from E pins dst s1 = ok b s'" "related (rds s') W L s' t m'" "visits L m1 s1 m' s' pins"
            using step(1) [OF st(1)] l(2) st(2,3) by blast
          then show ?thesis using visits_trans [OF l(3)] l(7) by (auto simp: visits_def)
        qed
        show ?thesis
        proof (cases "t_nodes t ! a")
          case (Leaf es)
          then have "disk_has_messages_from E pins dstack s = disk_has_messages_from E pins dstack1 s1"
            using l d(1) by (subst disk_has_messages_from.simps) simp
          then show ?thesis using step(2) Cons l(6) Leaf go [of stack1 dstack1] pl1 sub d(1) by simp
        next
          case (Internal ps as bf)
          then obtain cs where cs: "n = Internal ps cs bf" "list_all2 (placed m1) as cs" using l(5) by auto
          have asL: "set as \<subseteq> L" using owned_kids(1) [of W L "t_nodes t" a] rel a Internal by (simp add: related_def)
          have "list_all2 (placed m1) (rev as @ stack1) (rev cs @ dstack1)" using cs(2) pl1 by (simp add: list_all2_appendI)
          moreover have "disk_has_messages_from E pins dstack s = (if bf \<noteq> [] then ok True s1 else disk_has_messages_from E pins (rev cs @ dstack1) s1)"
            using l d(1) cs(1) by (subst disk_has_messages_from.simps) simp
          ultimately show ?thesis using step(2) Cons l(2,3,6,7) d(1) Internal go [of "rev as @ stack1" "rev cs @ dstack1"] asL sub
            by (auto split: if_split_asm)
        qed
      qed
    qed
  qed
  then show ?thesis using assms by blast
qed

lemma visits_pins: "visits L m s m' s' pins \<Longrightarrow> set pins' \<subseteq> set pins \<Longrightarrow> visits L m s m' s' pins'"
  by (auto simp: visits_def)

lemma find_buffered_sim:
  "find_buffered t as = Some r \<Longrightarrow> related (rds s) W L s t m \<Longrightarrow> set as \<subseteq> L \<Longrightarrow> list_all2 (placed m) as cs \<Longrightarrow>
     \<exists>dr s' m'. disk_find_buffered E dfl cs s = ok dr s' \<and> related (rds s') W L s' t m' \<and> visits L m s m' s' dfl \<and>
       rel_option (placed m') r dr \<and> (\<forall>c. r = Some c \<longrightarrow> c \<in> set as) \<and> (\<forall>d. dr = Some d \<longrightarrow> resident_at s' d)"
proof (induction as arbitrary: s m cs)
  case Nil
  then show ?case by (auto intro!: exI [of _ m])
next
  case (Cons a as)
  obtain c cs1 where cs: "cs = c # cs1" "placed m a c" "list_all2 (placed m) as cs1" using Cons.prems(4) by (auto simp: list_all2_Cons1)
  obtain b where b: "has_messages_from t [a] = Some b" "(if b then Some (Some a) else find_buffered t as) = Some r"
    using Cons.prems(1) by (auto simp: subtree_has_messages_def elim!: bind_SomeE)
  have pl: "list_all2 (placed m) [a] [c]" using cs(2) by simp
  obtain s1 m1 where s1: "disk_has_messages_from E (rev dfl @ [c]) [c] s = ok b s1" "related (rds s1) W L s1 t m1"
    "visits L m s m1 s1 (rev dfl @ [c])" "resident_at s1 c"
    using has_messages_sim [OF b(1) Cons.prems(2) _ pl, of "rev dfl @ [c]"] Cons.prems(3) by auto
  have v: "visits L m s m1 s1 dfl" by (rule visits_pins [OF s1(3)]) auto
  have pl1: "list_all2 (placed m1) (a # as) (c # cs1)" using visits_placed [OF v, of "a # as" "c # cs1"] cs Cons.prems(3) by simp
  show ?case
  proof (cases b)
    case True
    then show ?thesis using b(2) s1 v pl1 cs(1) by (auto simp: disk_subtree_has_messages_def)
  next
    case False
    then obtain dr s' m' where "disk_find_buffered E dfl cs1 s1 = ok dr s'" "related (rds s') W L s' t m'" "visits L m1 s1 m' s' dfl"
      "rel_option (placed m') r dr" "\<forall>c. r = Some c \<longrightarrow> c \<in> set as" "\<forall>d. dr = Some d \<longrightarrow> resident_at s' d"
      using Cons.IH [OF _ s1(2) _, of cs1] b(2) pl1 Cons.prems(3) by auto
    then show ?thesis using s1(1) False cs(1) visits_trans [OF v] by (auto simp: disk_subtree_has_messages_def)
  qed
qed

lemma buffered_child_sim:
  assumes rel: "related (rds s) W L s t m" and a: "a \<in> L" "m a = AtSlot nid" "resident_at s nid" and run: "buffered_child t a = Some r"
  shows "\<exists>dr s' m'. disk_buffered_child E dfl nid s = ok dr s' \<and> related (rds s') W L s' t m' \<and> visits L m s m' s' dfl \<and>
    rel_option (placed m') r dr \<and> (\<forall>c. r = Some c \<longrightarrow> c \<in> set (kids (t_nodes t ! a))) \<and> (\<forall>d. dr = Some d \<longrightarrow> resident_at s' d)"
proof -
  obtain n where n: "loaded s nid = Some n" using a(3) by (auto simp: resident_at_def)
  note at_a = related_node [OF rel a(1,2) n]
  have kids: "(case n of Internal ps cs b \<Rightarrow> cs | Leaf _ \<Rightarrow> []) = kids n" "find_buffered t (kids (t_nodes t ! a)) = Some r"
    using run at_a(2) by (cases n; auto simp: buffered_child_def split: node.split_asm)+
  have "set (kids (t_nodes t ! a)) \<subseteq> L" using owned_kids(1) rel a(1) unfolding related_def by blast
  from find_buffered_sim [OF kids(2) rel this match_kids [OF at_a(1)], of dfl] show ?thesis
    using n by (simp add: disk_buffered_child_def kids(1))
qed

lemma apply_batch_sim:
  assumes rel: "related (rds s) W L s t m" and a: "a \<in> L" "m a = AtSlot nid" and run: "apply_batch a batch thr t = Some (d, t')"
  shows "\<exists>s' m'. disk_apply_batch E nid batch pins thr s = ok d s' \<and> related (rds s') W L s' t' m' \<and> visits L m s m' s' pins \<and>
    m' a = AtSlot nid \<and> resident_at s' nid \<and> kids (t_nodes t' ! a) = kids (t_nodes t ! a) \<and> t_dirty t' ! a"
proof -
  obtain s1 m1 n where l: "ensure_loaded E nid pins s = ok () s1" "related (rds s1) W L s1 t m1" "visits L m s m1 s1 pins" "m1 a = AtSlot nid"
    "resident_at s1 nid" "loaded s1 nid = Some n" "node_match m1 (t_nodes t ! a) n" "node_at t a = Some (t_nodes t ! a)"
    using load_sim [OF rel a] by blast
  have b: "a < length (t_nodes t)" "a < length (t_dirty t)" using related_bound [OF rel a(1)] by simp_all
  have mark: "mark_dirty a t = Some (dirtied a t)" by (rule mark_dirty_eq [OF b(2)])
  have node: "node_at (dirtied a t) a = Some (t_nodes t ! a)" using l(8) by (simp add: node_at_def dirtied_def)
  have fin: ?thesis if new: "t' = set_node a nd (dirtied a t)" "kids nd = kids (t_nodes t ! a)" "node_match m1 nd n'"
    and disk: "\<And>s2. loaded_mut nid s1 = Some (n, s2) \<Longrightarrow> disk_apply_batch E nid batch pins thr s = ok d (put_node nid n' s2)" for nd n'
  proof -
    have W: "mset (kids nd) + W \<subseteq># mset (kids (t_nodes t ! a)) + W" using new(2) by simp
    obtain s2 where s2: "loaded_mut nid s1 = Some (n, s2)" "related (rds s1) W L (put_node nid n' s2) t' m1" "stays L m1 s1 L m1 (put_node nid n' s2)"
      using rewrite_sim [OF l(2) a(1) l(4,6) new(3) W] new(1) by blast
    have R: "rds (put_node nid n' s2) = rds s1" by (rule rds_outer) (use s2(3) in \<open>simp add: stays_def\<close>)
    have "resident_at (put_node nid n' s2) nid" using s2(3) l(5) by (simp add: stays_def)
    moreover have "t_nodes t' ! a = nd" "t_dirty t' ! a" using new(1) b by (simp_all add: set_node_def dirtied_def)
    ultimately show ?thesis using disk [OF s2(1)] s2(2) l(4) new(2) visits_trans [OF l(3) stays_visits [OF s2(3)]] unfolding R [symmetric] by blast
  qed
  show ?thesis
  proof (cases "t_nodes t ! a")
    case (Leaf es)
    show ?thesis
      by (rule fin [of "Leaf (fold (\<lambda>(k, m). apply_to_leaf k m) batch es)"]) (use run l Leaf in \<open>auto simp: apply_batch_def mark node disk_apply_batch_def Let_def\<close>)
  next
    case (Internal ps as b)
    then obtain cs where cs: "n = Internal ps cs b" "list_all2 (placed m1) as cs" using l(7) by auto
    show ?thesis
      by (rule fin [of "Internal ps as (fold (\<lambda>(k, m). coalesce_into k m) batch b)" "Internal ps cs (fold (\<lambda>(k, m). coalesce_into k m) batch b)"])
        (use run l Internal cs in \<open>auto simp: apply_batch_def mark node disk_apply_batch_def Let_def\<close>)
  qed
qed

end

end
