(* ===== verification/Disk_Sim_Run.thy ===== *)
theory Disk_Sim_Run
  imports Disk_Sim_Flush
begin

text \<open>
  The simulation of the loops that flush and that settle the root.
\<close>

section \<open>A flush\<close>

text \<open>The state of a flush: the stack of nodes \<open>xs\<close>, its slots \<open>ds\<close>, all resident.\<close>
definition in_flush :: "(nat \<Rightarrow> disk_node option) \<Rightarrow> node_id multiset \<Rightarrow> node_id set \<Rightarrow> ('v, 'p) disk_engine \<Rightarrow> 'p betree \<Rightarrow>
    (node_id \<Rightarrow> vref) \<Rightarrow> nat \<Rightarrow> node_id list \<Rightarrow> node_id list \<Rightarrow> bool" where
  "in_flush rd W L s t m thr xs ds \<longleftrightarrow> related rd W L s t m \<and> list_all2 (placed m) xs ds \<and> set xs \<subseteq> L \<and>
     (\<forall>d\<in>set ds. resident_at s d) \<and> spine (t_nodes t) W xs \<and> (0 < thr \<longrightarrow> grey L t \<and> (\<forall>x\<in>set xs. t_dirty t ! x))"

definition flushed :: "(nat \<Rightarrow> disk_node option) \<Rightarrow> node_id multiset \<Rightarrow> ('v, 'p) disk_engine \<Rightarrow> 'p betree \<Rightarrow> nat \<Rightarrow> node_id \<Rightarrow> node_id \<Rightarrow>
    outcome \<Rightarrow> 'p betree \<Rightarrow> outcome \<Rightarrow> ('v, 'p) disk_engine \<Rightarrow> bool" where
  "flushed rd W s t thr r d out t' dout s' \<longleftrightarrow> (\<exists>L' m'. related rd (outcome_nodes out + W) L' s' t' m' \<and> r \<in> L' \<and> m' r = AtSlot d \<and>
     resident_at s' d \<and> outcome_match m' out dout \<and> (0 < thr \<longrightarrow> grey L' t' \<and> t_dirty t' ! r)) \<and>
     kept_frame s s' \<and> d_root s' = d_root s \<and> t_root t' = t_root t"

lemma flushed_later:
  "flushed rd W s1 t1 thr r d out t' dout s' \<Longrightarrow> kept_frame s s1 \<Longrightarrow> d_root s1 = d_root s \<Longrightarrow> t_root t1 = t_root t \<Longrightarrow>
     flushed rd W s t thr r d out t' dout s'"
  unfolding flushed_def using kept_frame_trans by fastforce

lemma in_flush_top:
  assumes "in_flush rd W L s t m thr (tp # below) ds"
  obtains nid dbelow n where "ds = nid # dbelow" "tp \<in> L" "m tp = AtSlot nid" "resident_at s nid" "loaded s nid = Some n"
    "node_match m (t_nodes t ! tp) n" "node_at t tp = Some (t_nodes t ! tp)" "list_all2 (placed m) below dbelow"
proof -
  obtain nid dbelow where ds: "ds = nid # dbelow" "placed m tp nid" "list_all2 (placed m) below dbelow" "tp \<in> L" "resident_at s nid"
    using assms by (auto simp: in_flush_def list_all2_Cons1)
  then obtain n where n: "loaded s nid = Some n" "m tp = AtSlot nid" by (auto simp: resident_at_def placed_def)
  moreover have "related rd W L s t m" using assms by (simp add: in_flush_def)
  ultimately show ?thesis using that ds related_node [of rd W L s t m tp nid n] by blast
qed

lemma in_flush_visits:
  assumes "in_flush rd W L s t m thr xs ds" "related rd' W L s' t m'" "visits L m s m' s' pins" "set ds \<subseteq> set pins"
  shows "in_flush rd' W L s' t m' thr xs ds"
  using assms visits_placed [OF assms(3)] by (auto simp: in_flush_def visits_def)

lemma in_flush_last: "in_flush rd W L s t m thr xs ds \<Longrightarrow> last xs \<in># W"
  by (simp add: in_flush_def spine_def)

lemma in_flush_push:
  assumes f: "in_flush rd W L s t m thr (tp # below) ds" and c: "c \<in> set (kids (t_nodes t ! tp))" "m c = AtSlot cid" "resident_at s cid"
    "0 < thr \<longrightarrow> t_dirty t ! c"
  shows "in_flush rd W L s t m thr (c # tp # below) (cid # ds)"
proof -
  have own: "owned W L (t_nodes t)" and sp: "spine (t_nodes t) W (tp # below)" and L: "set (tp # below) \<subseteq> L"
    using f by (simp_all add: in_flush_def related_def)
  have "c \<in> L" using owned_kids(1) [OF own, of tp] c(1) L by auto
  moreover note spine_push [OF sp c(1) spine_child [OF sp own L c(1)]]
  ultimately show ?thesis using f c by (auto simp: in_flush_def placed_def)
qed

text \<open>A step that rewrites the top of the stack or a child of it.\<close>

lemma in_flush_step:
  assumes f: "in_flush rd W L s t m thr (tp # below) ds" and r: "reshapes a t t'" and a: "a = tp \<or> a \<in> set (kids (t_nodes t ! tp))"
    and rel: "related rd' W' L' s' t' m'" and fresh: "fresh_nodes L t L'"
    and xs: "list_all2 (placed m') xs ds'" "set xs \<subseteq> L'" "\<forall>d\<in>set ds'. resident_at s' d" "xs = tp # below \<or> xs = below \<and> below \<noteq> []"
    and W': "last (tp # below) \<in># W'"
  shows "in_flush rd' W' L' s' t' m' thr xs ds'"
proof -
  have own: "owned W L (t_nodes t)" and sp: "spine (t_nodes t) W (tp # below)" and L: "set (tp # below) \<subseteq> L" and rel0: "related rd W L s t m"
    using f by (simp_all add: in_flush_def related_def)
  have len: "length (t_dirty t) = length (t_nodes t)" using rel0 by (simp add: related_def sim_def)
  have LL: "\<forall>x\<in>L. x < length (t_nodes t) \<and> set (kids (t_nodes t ! x)) \<subseteq> L" using related_bound [OF rel0] owned_kids(1) [OF own] by blast
  have aL: "a \<in> L" "a \<notin> set below" using a L LL sp spine_child [OF sp own L, of a] by (auto simp: spine_def)
  have "kids (t_nodes t' ! y) = kids (t_nodes t ! y)" if "y \<in> set below" for y
  proof -
    have "y \<noteq> a" "y < length (t_nodes t)" using aL(2) that L LL by auto
    then show ?thesis using reshapes_other [OF r _ _ len] by simp
  qed
  then have "spine (t_nodes t') W (tp # below)" using spine_frame [OF sp] by blast
  then have "spine (t_nodes t') W xs" using xs(4) by (cases below) (auto dest: spine_pop)
  then have sp': "spine (t_nodes t') W' xs" using W' xs(4) by (auto simp: spine_def)
  have "grey L' t' \<and> (\<forall>x\<in>set xs. t_dirty t' ! x)" if thr: "0 < thr"
  proof -
    have g: "grey L t" and d: "\<forall>x\<in>set (tp # below). t_dirty t ! x" using f thr by (simp_all add: in_flush_def)
    have parents: "t_dirty t ! p" if p: "p \<in> L" "a \<in> set (kids (t_nodes t ! p))" for p
      using a
    proof
      assume "a = tp"
      then show ?thesis using spine_parent [OF sp own L p(1)] p(2) d by auto
    next
      assume "a \<in> set (kids (t_nodes t ! tp))"
      then show ?thesis using owned_unique [OF own p(1) _ p(2)] d L by auto
    qed
    have "grey L' t'"
      by (rule grey_reshapes [OF r g len LL aL(1) parents]) (use related_bound [OF rel] fresh in \<open>auto simp: fresh_nodes_def\<close>)
    moreover have "\<forall>x\<in>set (tp # below). t_dirty t' ! x" using reshapes_dirty [OF r] d L LL len by blast
    ultimately show ?thesis using xs(4) by auto
  qed
  then show ?thesis using rel xs sp' by (simp add: in_flush_def)
qed

lemma stays_held:
  assumes "in_flush rd W L s t m thr xs ds" "stays L m s L' m' s'" "list_all2 (placed m) ys es" "set ys \<subseteq> set xs" "set es \<subseteq> set ds"
  shows "list_all2 (placed m') ys es" "set ys \<subseteq> L'" "\<forall>e\<in>set es. resident_at s' e"
proof -
  have "\<And>a. a \<in> set ys \<Longrightarrow> m' a = m a" using assms(1,2,4) by (auto simp: in_flush_def stays_def)
  then show "list_all2 (placed m') ys es" by (rule placed_cong [OF assms(3)])
qed (use assms in \<open>auto simp: in_flush_def stays_def\<close>)

lemma placed_in: "list_all2 (placed m) xs ds \<Longrightarrow> d \<in> set ds \<Longrightarrow> \<exists>x\<in>set xs. m x = AtSlot d"
  by (induction rule: list_all2_induct) (auto simp: placed_def)

section \<open>Settling the root\<close>

text \<open>The engines between two operations; \<open>g\<close> says whether dirtiness is closed upwards.\<close>
definition at_rest :: "bool \<Rightarrow> (nat \<Rightarrow> disk_node option) \<Rightarrow> node_id set \<Rightarrow> ('v, 'p) disk_engine \<Rightarrow> 'p betree \<Rightarrow>
    (node_id \<Rightarrow> vref) \<Rightarrow> bool" where
  "at_rest g rd L s t m \<longleftrightarrow> related rd {#t_root t#} L s t m \<and> m (t_root t) = AtSlot (d_root s) \<and> (g \<longrightarrow> grey L t)"

lemma at_rest_root: "at_rest g rd L s t m \<Longrightarrow> t_root t \<in> L"
  using owned_orphan(1) by (fastforce simp: at_rest_def related_def)

lemma owned_down:
  assumes "owned (add_mset r W) L N"
  shows "owned (mset (kids (N ! r)) + W) (L - {r}) N"
proof -
  have r: "r \<in> L" and fin: "finite L" using assms owned_orphan(1) [OF assms] by (auto simp: owned_def)
  have "edges N (L - {r}) + (mset (kids (N ! r)) + W) + {#r#} = edges N L + add_mset r W"
    using edges_remove [OF fin r, of N] by simp
  also have "\<dots> \<subseteq># mset_set L" using assms by (simp add: owned_def)
  also have "\<dots> = mset_set (L - {r}) + {#r#}" using fin r by (simp add: mset_set.remove)
  finally show ?thesis using fin by (simp add: owned_def)
qed

lemma grey_mono: "grey L t \<Longrightarrow> L' \<subseteq> L \<Longrightarrow> t_nodes t' = t_nodes t \<Longrightarrow> t_dirty t' = t_dirty t \<Longrightarrow> grey L' t'"
  by (auto simp: grey_def)

lemma grey_alloc:
  assumes g: "grey L t" and rel: "related rd W L s t m"
  shows "grey (insert (length (t_nodes t)) L) (snd (alloc nd t))"
proof -
  have len: "length (t_dirty t) = length (t_nodes t)" using rel by (simp add: related_def sim_def)
  have "x < length (t_nodes t) \<and> set (kids (t_nodes t ! x)) \<subseteq> L" if "x \<in> L" for x
    using related_bound [OF rel that] owned_kids(1) [of W L "t_nodes t" x] rel that by (auto simp: related_def)
  then have "\<forall>x\<in>L. x < length (t_nodes t) \<and> (\<forall>c\<in>set (kids (t_nodes t ! x)). c < length (t_nodes t))" by blast
  then show ?thesis using g len by (auto simp: grey_def alloc_def nth_append)
qed

lemma related_fields:
  assumes "related rd W L s t m" "d_slots s' = d_slots s" "d_cache s' = d_cache s" "d_offsets s' = d_offsets s" "d_fields s' = t_fields t'"
    "t_nodes t' = t_nodes t" "t_dirty t' = t_dirty t" "blind (t_policy t')"
  shows "related rd W L s' t' m"
  using assms sim_fields [of rd L s t m s' t'] by (simp add: related_def)

lemma related_root:
  assumes "related rd W L s t m"
  shows "related rd W L (s\<lparr>d_root := d\<rparr>) (t\<lparr>t_root := r\<rparr>) m"
  by (rule related_fields [OF assms]) (use assms in \<open>auto simp: related_def sim_def same_fields_def d_fields_def t_fields_def\<close>)

lemma root_fields [simp]:
  "loaded (s\<lparr>d_root := d\<rparr>) = loaded s" "resident_at (s\<lparr>d_root := d\<rparr>) = resident_at s"
  by (auto simp: loaded_def resident_at_def)

context node_store
begin

lemma settle_round:
  assumes f: "in_flush (rds s) W L s t m thr (tp # below) (nid # dbelow)" and run: "settle tp t = Some (out, t1)"
  shows "\<exists>dout s1 L1 m1. disk_settle nid s = Some (dout, s1) \<and> in_flush (rds s1) (outcome_nodes out + W) L1 s1 t1 m1 thr (tp # below) (nid # dbelow) \<and>
    outcome_match m1 out dout \<and> outer s1 = outer s"
proof -
  obtain rel: "related (rds s) W L s t m" and tp: "tp \<in> L" "m tp = AtSlot nid" "resident_at s nid" and pl: "list_all2 (placed m) (tp # below) (nid # dbelow)"
    using f by (auto simp: in_flush_def placed_def)
  obtain dout s1 L1 m1 where r: "disk_settle nid s = Some (dout, s1)" "related (rds s) (outcome_nodes out + W) L1 s1 t1 m1"
    "stays L m s L1 m1 s1" "outcome_match m1 out dout" "fresh_nodes L t L1"
    using settle_sim [OF rel tp run] by blast
  have R: "rds s1 = rds s" by (rule rds_outer) (use r(3) in \<open>simp add: stays_def\<close>)
  have "in_flush (rds s1) (outcome_nodes out + W) L1 s1 t1 m1 thr (tp # below) (nid # dbelow)"
    by (rule in_flush_step [OF f settle_reshapes [OF run] _ _ r(5) stays_held [OF f r(3) pl]])
      (use r(2) in_flush_last [OF f] R in auto)
  then show ?thesis using r by (auto simp: stays_def)
qed

lemma settle_last:
  assumes f: "in_flush (rds s) W L s t m thr [tp] [nid]" and run: "settle tp t = Some (out, t')"
  shows "\<exists>dout s'. disk_settle nid s = Some (dout, s') \<and> flushed (rds s') W s t thr tp nid out t' dout s'"
proof -
  obtain dout s1 L1 m1 where r: "disk_settle nid s = Some (dout, s1)"
    "in_flush (rds s1) (outcome_nodes out + W) L1 s1 t' m1 thr [tp] [nid]" "outcome_match m1 out dout" "outer s1 = outer s"
    using settle_round [OF f run] by blast
  have "t_root t' = t_root t" using settle_reshapes [OF run] by (simp add: reshapes_def)
  then show ?thesis using r outer_kept [OF r(4)] by (auto simp: in_flush_def flushed_def placed_def)
qed

lemma integrate_round:
  assumes f: "in_flush (rds s) (mset (map snd promoted) + W) L s t m thr (a # below) (nid # dbelow)" and p: "list_all2 (promo m) promoted dp"
    and run: "integrate_splits a promoted t = Some t'" and W: "last (a # below) \<in># W"
  shows "\<exists>s'. disk_integrate_splits nid dp s = Some s' \<and> in_flush (rds s') W L s' t' m thr (a # below) (nid # dbelow) \<and> outer s' = outer s"
proof -
  obtain rel: "related (rds s) (mset (map snd promoted) + W) L s t m" and a: "a \<in> L" "m a = AtSlot nid" "resident_at s nid"
    and pl: "list_all2 (placed m) (a # below) (nid # dbelow)"
    using f by (auto simp: in_flush_def placed_def)
  obtain s' where s': "disk_integrate_splits nid dp s = Some s'" "related (rds s) W L s' t' m" "stays L m s L m s'"
    using integrate_splits_sim [OF rel a p run] by blast
  have R: "rds s' = rds s" by (rule rds_outer) (use s'(3) in \<open>simp add: stays_def\<close>)
  have "in_flush (rds s') W L s' t' m thr (a # below) (nid # dbelow)"
    by (rule in_flush_step [OF f integrate_splits_reshapes [OF run] _ _ _ stays_held [OF f s'(3) pl]]) (use s'(2) R W in auto)
  then show ?thesis using s' by (auto simp: stays_def)
qed

lemma remove_round:
  assumes f: "in_flush (rds s) W L s t m thr (a # below) (nid # dbelow)" and c: "c \<in> L" "m c = AtSlot cid" "c \<notin> set (a # below)"
    and run: "remove_child a c t = Some t'"
  shows "\<exists>s' L'. disk_remove_child nid cid s = Some s' \<and> in_flush (rds s') W L' s' t' m thr (a # below) (nid # dbelow) \<and> outer s' = outer s"
proof -
  obtain rel: "related (rds s) W L s t m" and a: "a \<in> L" "m a = AtSlot nid" "resident_at s nid"
    and pl: "list_all2 (placed m) (a # below) (nid # dbelow)" and L: "set (a # below) \<subseteq> L" and res: "\<forall>d\<in>set (nid # dbelow). resident_at s d"
    using f by (auto simp: in_flush_def placed_def)
  obtain s' where s': "disk_remove_child nid cid s = Some s'" "related (rds s) W (L - {c}) s' t' m" "outer s' = outer s"
    "\<forall>i. i \<noteq> cid \<longrightarrow> resident_at s i \<longrightarrow> resident_at s' i"
    using remove_child_sim [OF rel a c(1,2) _ run] c(3) by auto
  have R: "rds s' = rds s" by (rule rds_outer [OF s'(3)])
  have "cid \<notin> set (nid # dbelow)"
  proof
    assume "cid \<in> set (nid # dbelow)"
    then obtain x where "x \<in> set (a # below)" "m x = AtSlot cid" using placed_in [OF pl] by blast
    then show False using rel c L unfolding related_def sim_def inj_on_def by (metis subsetD)
  qed
  then have "\<forall>d\<in>set (nid # dbelow). resident_at s' d" using res s'(4) by auto
  then have "in_flush (rds s') W (L - {c}) s' t' m thr (a # below) (nid # dbelow)"
    by (intro in_flush_step [OF f remove_child_reshapes [OF run], of "rds s'" W "L - {c}" s' m])
      (use s'(2) R L c(3) pl in_flush_last [OF f] in \<open>auto simp: fresh_nodes_def\<close>)
  then show ?thesis using s' by blast
qed

lemma deliver_round:
  assumes f: "in_flush (rds s) W L s t m thr (tp # below) (nid # dbelow)"
    and pick: "pick_and_extract tp depth tr t = Some (chosen, c, pend, batch, t1)"
    and run: "apply_batch c batch thr (record_flush tr tp pend chosen t1) = Some (d, t2)"
  shows "\<exists>cid s1 s2 m2. disk_pick_and_extract nid depth tr s = Some (chosen, cid, pend, batch, s1) \<and>
    disk_apply_batch E cid batch (rev (nid # dbelow)) thr (disk_record_flush tr nid pend chosen s1) = ok d s2 \<and>
    in_flush (rds s2) W L s2 t2 m2 thr (tp # below) (nid # dbelow) \<and> c \<in> set (kids (t_nodes t2 ! tp)) \<and> m2 c = AtSlot cid \<and>
    resident_at s2 cid \<and> t_dirty t2 ! c \<and> kept_frame s s2 \<and> d_root s2 = d_root s \<and> t_root t2 = t_root t"
proof -
  obtain rel: "related (rds s) W L s t m" and tp: "tp \<in> L" "m tp = AtSlot nid" "resident_at s nid"
    and pl: "list_all2 (placed m) (tp # below) (nid # dbelow)" and L: "set (tp # below) \<subseteq> L" and res: "\<forall>d\<in>set (nid # dbelow). resident_at s d"
    using f by (auto simp: in_flush_def placed_def)
  obtain cid s1 where p: "disk_pick_and_extract nid depth tr s = Some (chosen, cid, pend, batch, s1)" "related (rds s) W L s1 t1 m"
    "m c = AtSlot cid" "c \<in> set (kids (t_nodes t1 ! tp))" "reshapes tp t t1" "kept_frame s s1" "d_root s1 = d_root s"
    "\<forall>i. resident_at s i \<longrightarrow> resident_at s1 i"
    using pick_and_extract_sim [OF rel tp pick] by blast
  let ?s = "disk_record_flush tr nid pend chosen s1" and ?t = "record_flush tr tp pend chosen t1"
  have kf: "kept_frame s ?s" using p(6) by simp
  then have R: "rds ?s = rds s" by (simp add: kept_frame_def frame_def)
  have rel1: "related (rds ?s) W L ?s ?t m" unfolding R by (rule record_flush_sim [OF p(2)])
  have f1: "in_flush (rds ?s) W L ?s ?t m thr (tp # below) (nid # dbelow)"
  proof (rule in_flush_step [OF f _ _ rel1])
    show "reshapes tp t ?t" using p(5) by (simp add: reshapes_def)
  qed (use pl L res p(8) in_flush_last [OF f] in auto)
  have own: "owned W L (t_nodes t1)" using p(2) by (simp add: related_def)
  have cL: "c \<in> L" using owned_kids(1) [OF own tp(1)] p(4) by auto
  obtain s2 m2 where a: "disk_apply_batch E cid batch (rev (nid # dbelow)) thr ?s = ok d s2" "related (rds s2) W L s2 t2 m2"
    "visits L m ?s m2 s2 (rev (nid # dbelow))" "m2 c = AtSlot cid" "resident_at s2 cid" "kids (t_nodes t2 ! c) = kids (t_nodes ?t ! c)" "t_dirty t2 ! c"
    using apply_batch_sim [OF rel1 cL p(3) run] by blast
  note r = apply_batch_reshapes [OF run]
  have pl2: "list_all2 (placed m2) (tp # below) (nid # dbelow)" by (rule visits_placed [OF a(3) pl L])
  have res2: "\<forall>d\<in>set (nid # dbelow). resident_at s2 d" using a(3) res p(8) by (auto simp: visits_def)
  have f2: "in_flush (rds s2) W L s2 t2 m2 thr (tp # below) (nid # dbelow)"
    by (rule in_flush_step [OF f1 r _ a(2) fresh_nodes_refl pl2 L res2]) (use p(4) in_flush_last [OF f] in auto)
  have "tp \<noteq> c" using spine_child [of "t_nodes t1" W tp below L c] f1 own L p(4) by (auto simp: in_flush_def)
  then have "t_nodes t2 ! tp = t_nodes t1 ! tp"
    using reshapes_other [OF r, of tp] related_bound [OF rel1 tp(1)] rel1 by (simp add: related_def sim_def)
  moreover have "kept_frame s s2" "d_root s2 = d_root s"
    using outer_kept [of s2 ?s] a(3) kept_frame_trans [OF kf] p(7) by (auto simp: visits_def)
  moreover have "t_root t2 = t_root t" using r p(5) by (simp add: reshapes_def)
  ultimately show ?thesis using p(1,4) a f2 by auto
qed

lemma split_round:
  assumes f: "in_flush (rds s) W L s t m thr (tp # below) (nid # dbelow)" and c: "c \<in> set (kids (t_nodes t ! tp))" "m c = AtSlot cid" "resident_at s cid"
    and split: "split_if_needed c t = Some (promoted, t1)" and run: "integrate_splits tp promoted t1 = Some t2"
  shows "\<exists>dp s1 s2 L2 m2. disk_split_if_needed cid s = Some (dp, s1) \<and> disk_integrate_splits nid dp s1 = Some s2 \<and>
    in_flush (rds s2) W L2 s2 t2 m2 thr (tp # below) (nid # dbelow) \<and> outer s2 = outer s"
proof -
  obtain rel: "related (rds s) W L s t m" and pl: "list_all2 (placed m) (tp # below) (nid # dbelow)" and L: "set (tp # below) \<subseteq> L"
    using f by (auto simp: in_flush_def)
  have cL: "c \<in> L" using owned_kids(1) [of W L "t_nodes t" tp] rel L c(1) by (auto simp: related_def)
  obtain dp s1 L1 m1 where r: "disk_split_if_needed cid s = Some (dp, s1)" "related (rds s) (mset (map snd promoted) + W) L1 s1 t1 m1"
    "stays L m s L1 m1 s1" "list_all2 (promo m1) promoted dp" "fresh_nodes L t L1"
    using split_if_needed_sim [OF rel cL c(2,3) split] unfolding split_sim_def by blast
  have R: "rds s1 = rds s" by (rule rds_outer) (use r(3) in \<open>simp add: stays_def\<close>)
  have f1: "in_flush (rds s1) (mset (map snd promoted) + W) L1 s1 t1 m1 thr (tp # below) (nid # dbelow)"
    by (rule in_flush_step [OF f split_if_needed_reshapes [OF split] _ _ r(5) stays_held [OF f r(3) pl]]) (use r(2) R c(1) in_flush_last [OF f] in auto)
  show ?thesis using integrate_round [OF f1 r(4) run in_flush_last [OF f]] r(1,3) by (auto simp: stays_def)
qed

text \<open>One round up the stack.\<close>

lemma settle_up:
  assumes f: "in_flush (rds s) W L s t m thr (tp # parent # ps) (nid # pid # pds)" and settle: "settle tp t = Some (out, t1)"
    and run: "(case out of Splits promoted \<Rightarrow> integrate_splits parent promoted t1 | Removed \<Rightarrow> remove_child parent tp t1) = Some t2"
  shows "\<exists>dout s1 s2 L2 m2. disk_settle nid s = Some (dout, s1) \<and>
    (case dout of Splits promoted \<Rightarrow> disk_integrate_splits pid promoted s1 | Removed \<Rightarrow> disk_remove_child pid nid s1) = Some s2 \<and>
    in_flush (rds s2) W L2 s2 t2 m2 thr (parent # ps) (pid # pds) \<and> outer s2 = outer s"
proof -
  obtain dout s1 L1 m1 where r: "disk_settle nid s = Some (dout, s1)"
    "in_flush (rds s1) (outcome_nodes out + W) L1 s1 t1 m1 thr (tp # parent # ps) (nid # pid # pds)" "outcome_match m1 out dout" "outer s1 = outer s"
    using settle_round [OF f settle] by blast
  have W: "last (parent # ps) \<in># W" using in_flush_last [OF f] by simp
  obtain rel: "related (rds s1) (outcome_nodes out + W) L1 s1 t1 m1" and pl: "list_all2 (placed m1) (parent # ps) (pid # pds)"
    and L: "tp \<in> L1" "set (parent # ps) \<subseteq> L1" "m1 tp = AtSlot nid" and res: "\<forall>d\<in>set (pid # pds). resident_at s1 d"
    and tp: "tp \<notin> set (parent # ps)"
    using r(2) by (auto simp: in_flush_def placed_def spine_def)
  have f1: "in_flush (rds s1) (outcome_nodes out + W) L1 s1 t1 m1 thr (parent # ps) (pid # pds)"
    by (rule in_flush_step [OF r(2) reshapes_refl _ rel fresh_nodes_refl pl L(2) res]) (use in_flush_last [OF r(2)] in auto)
  show ?thesis
  proof (cases out)
    case Removed
    then have "in_flush (rds s1) W L1 s1 t1 m1 thr (parent # ps) (pid # pds)" using f1 by (simp add: outcome_nodes_def)
    from remove_round [OF this L(1,3) tp] run Removed r show ?thesis by (auto simp: outcome_match_def)
  next
    case (Splits promoted)
    then obtain dp where dp: "dout = Splits dp" "list_all2 (promo m1) promoted dp" using r(3) by (auto simp: outcome_match_def)
    have "in_flush (rds s1) (mset (map snd promoted) + W) L1 s1 t1 m1 thr (parent # ps) (pid # pds)"
      using f1 Splits by (simp add: outcome_nodes_def)
    from integrate_round [OF this dp(2) _ W] run Splits r dp(1) show ?thesis by auto
  qed
qed

definition flush_ok :: "node_id multiset \<Rightarrow> nat \<Rightarrow> bool \<Rightarrow> node_id list \<Rightarrow> 'p betree \<Rightarrow> outcome \<times> 'p betree \<Rightarrow> bool" where
  "flush_ok W thr tr xs t y \<longleftrightarrow> (\<forall>s L m ds. in_flush (rds s) W L s t m thr xs ds \<longrightarrow>
     (\<exists>dout s'. disk_flush_loop E thr tr ds s = ok dout s' \<and> flushed (rds s') W s t thr (last xs) (last ds) (fst y) (snd y) dout s'))"

lemma flush_okD:
  assumes "flush_ok W thr tr xs t (out, t')" "in_flush (rds s1) W L s1 t m thr xs ds"
    and "kept_frame s s1" "d_root s1 = d_root s" "t_root t = t_root t0" "last xs = x" "last ds = d"
  shows "\<exists>dout s'. disk_flush_loop E thr tr ds s1 = ok dout s' \<and> flushed (rds s') W s t0 thr x d out t' dout s'"
  using assms flushed_later [of _ W s1 t thr x d out t'] unfolding flush_ok_def by fastforce

lemma descend_sim:
  assumes f: "in_flush (rds s) W L s t m thr (tp # below) (nid # dbelow)"
    and run: "(if thr = 0 then buffered_child t tp else Some None) = Some r"
  shows "\<exists>dr s1 m1. (if thr = 0 then disk_buffered_child E (nid # dbelow) nid s else ok None s) = ok dr s1 \<and>
    in_flush (rds s1) W L s1 t m1 thr (tp # below) (nid # dbelow) \<and> outer s1 = outer s \<and> rel_option (placed m1) r dr \<and>
    (\<forall>c. r = Some c \<longrightarrow> thr = 0 \<and> c \<in> set (kids (t_nodes t ! tp))) \<and> (\<forall>d. dr = Some d \<longrightarrow> resident_at s1 d)"
proof (cases "thr = 0")
  case True
  obtain rel: "related (rds s) W L s t m" and tp: "tp \<in> L" "m tp = AtSlot nid" "resident_at s nid" using f by (auto simp: in_flush_def placed_def)
  obtain dr s1 m1 where r: "disk_buffered_child E (nid # dbelow) nid s = ok dr s1" "related (rds s1) W L s1 t m1"
    "visits L m s m1 s1 (nid # dbelow)" "rel_option (placed m1) r dr" "\<forall>c. r = Some c \<longrightarrow> c \<in> set (kids (t_nodes t ! tp))"
    "\<forall>d. dr = Some d \<longrightarrow> resident_at s1 d"
    using buffered_child_sim [OF rel tp, of r "nid # dbelow"] run True by auto
  show ?thesis using r True in_flush_visits [OF f r(2,3)] by (auto simp: visits_def)
next
  case False
  then show ?thesis using run f by auto
qed

lemma flush_loop_quiet:
  assumes IH: "\<And>xs t y. f thr tr xs t = Some y \<Longrightarrow> flush_ok W thr tr xs t y"
    and f: "in_flush (rds s) W L s t m thr (tp # below) (nid # dbelow)"
    and n: "loaded s nid = Some (Internal ps cs b)" "length b \<le> thr"
    and descend: "(if thr = 0 then buffered_child t tp else Some None) = Some r"
    and run: "(case r of Some child \<Rightarrow> f thr tr (child # tp # below) t
      | None \<Rightarrow> do { (outcome, s) \<leftarrow> settle tp t;
          case below of [] \<Rightarrow> Some (outcome, s)
          | parent # _ \<Rightarrow> do { s \<leftarrow> (case outcome of Splits promoted \<Rightarrow> integrate_splits parent promoted s | Removed \<Rightarrow> remove_child parent tp s);
              f thr tr below s } }) = Some (out, t')"
  shows "\<exists>dout s'. disk_flush_loop E thr tr (nid # dbelow) s = ok dout s' \<and>
    flushed (rds s') W s t thr (last (tp # below)) (last (nid # dbelow)) out t' dout s'"
proof -
  obtain dr s1 m1 where d: "(if thr = 0 then disk_buffered_child E (nid # dbelow) nid s else ok None s) = ok dr s1"
    "in_flush (rds s1) W L s1 t m1 thr (tp # below) (nid # dbelow)" "outer s1 = outer s" "rel_option (placed m1) r dr"
    "\<forall>c. r = Some c \<longrightarrow> thr = 0 \<and> c \<in> set (kids (t_nodes t ! tp))" "\<forall>d. dr = Some d \<longrightarrow> resident_at s1 d"
    using descend_sim [OF f descend] by blast
  note k1 = outer_kept [OF d(3)]
  have disk: "disk_flush_loop E thr tr (nid # dbelow) s = (case dr of
      Some child \<Rightarrow> disk_flush_loop E thr tr (child # nid # dbelow) s1
    | None \<Rightarrow> do { (outcome, s) \<leftarrow> disk_settle nid s1;
        case dbelow of [] \<Rightarrow> ok outcome s
        | parent # _ \<Rightarrow> do { s \<leftarrow> (case outcome of Splits promoted \<Rightarrow> disk_integrate_splits parent promoted s | Removed \<Rightarrow> disk_remove_child parent nid s);
            disk_flush_loop E thr tr dbelow s } })"
    using n d(1) by (subst disk_flush_loop.simps) (simp add: disk_buffer_len_def)
  show ?thesis
  proof (cases r)
    case (Some c)
    then obtain cid where c: "dr = Some cid" "m1 c = AtSlot cid" using d(4) by (auto simp: option_rel_Some1 placed_def)
    have f2: "in_flush (rds s1) W L s1 t m1 thr (c # tp # below) (cid # nid # dbelow)"
      by (rule in_flush_push [OF d(2)]) (use Some c d(5,6) in auto)
    have "f thr tr (c # tp # below) t = Some (out, t')" using run Some by simp
    from flush_okD [OF IH [OF this] f2, of s t "last (tp # below)" "last (nid # dbelow)"] k1 disk c(1) show ?thesis by simp
  next
    case None
    then have dr: "dr = None" using d(4) by simp
    obtain out1 t1 where settle: "settle tp t = Some (out1, t1)" using run None by (auto elim!: bind_SomeE)
    show ?thesis
    proof (cases below)
      case Nil
      then have ds: "dbelow = []" using d(2) by (auto simp: in_flush_def)
      have "in_flush (rds s1) W L s1 t m1 thr [tp] [nid]" using d(2) Nil ds by simp
      from settle_last [OF this settle] obtain dout s' where "disk_settle nid s1 = Some (dout, s')" "flushed (rds s') W s1 t thr tp nid out1 t1 dout s'" by blast
      moreover have "out1 = out" "t1 = t'" using run None Nil settle by simp_all
      ultimately show ?thesis using disk dr ds Nil flushed_later k1 by fastforce
    next
      case (Cons parent ps')
      then obtain pid pds where ds: "dbelow = pid # pds" using d(2) by (auto simp: in_flush_def list_all2_Cons1)
      obtain t2 where t2: "(case out1 of Splits promoted \<Rightarrow> integrate_splits parent promoted t1 | Removed \<Rightarrow> remove_child parent tp t1) = Some t2"
        "f thr tr below t2 = Some (out, t')" using run None settle Cons by (auto elim!: bind_SomeE)
      obtain dout s2 s3 L3 m3 where u: "disk_settle nid s1 = Some (dout, s2)"
        "(case dout of Splits promoted \<Rightarrow> disk_integrate_splits pid promoted s2 | Removed \<Rightarrow> disk_remove_child pid nid s2) = Some s3"
        "in_flush (rds s3) W L3 s3 t2 m3 thr below dbelow" "outer s3 = outer s1"
        using settle_up [OF d(2) [unfolded Cons ds] settle t2(1)] unfolding Cons ds by blast
      have "t_root t2 = t_root t"
        using settle_reshapes [OF settle] t2(1) integrate_splits_reshapes remove_child_reshapes by (fastforce simp: reshapes_def split: outcome.split_asm)
      moreover have "kept_frame s s3" "d_root s3 = d_root s" using outer_kept [OF u(4) [unfolded d(3)]] by simp_all
      ultimately show ?thesis
        using flush_okD [OF IH [OF t2(2)] u(3), of s t "last (tp # below)" "last (nid # dbelow)"] disk dr ds Cons u(1,2) by simp
    qed
  qed
qed

lemma flush_loop_busy:
  assumes IH: "\<And>xs t y. f thr tr xs t = Some y \<Longrightarrow> flush_ok W thr tr xs t y"
    and f: "in_flush (rds s) W L s t m thr (tp # below) (nid # dbelow)"
    and n: "loaded s nid = Some (Internal ps cs b)" "\<not> length b \<le> thr"
    and run: "do {
      (chosen, child, pend, batch, s) \<leftarrow> pick_and_extract tp (length (tp # below) - 1) tr t;
      let s = record_flush tr tp pend chosen s;
      (d, s) \<leftarrow> apply_batch child batch thr s;
      if d = DeliveredInternal True then f thr tr (child # tp # below) s
      else if d = DeliveredLeaf True then do { s \<leftarrow> remove_child tp child s; f thr tr (tp # below) s }
      else do { (promoted, s) \<leftarrow> split_if_needed child s; s \<leftarrow> integrate_splits tp promoted s; f thr tr (tp # below) s }
    } = Some (out, t')"
  shows "\<exists>dout s'. disk_flush_loop E thr tr (nid # dbelow) s = ok dout s' \<and>
    flushed (rds s') W s t thr (last (tp # below)) (last (nid # dbelow)) out t' dout s'"
proof -
  obtain chosen c pend batch t1 d t2 where r: "pick_and_extract tp (length (tp # below) - 1) tr t = Some (chosen, c, pend, batch, t1)"
    "apply_batch c batch thr (record_flush tr tp pend chosen t1) = Some (d, t2)"
    "(if d = DeliveredInternal True then f thr tr (c # tp # below) t2
      else if d = DeliveredLeaf True then do { s \<leftarrow> remove_child tp c t2; f thr tr (tp # below) s }
      else do { (promoted, s) \<leftarrow> split_if_needed c t2; s \<leftarrow> integrate_splits tp promoted s; f thr tr (tp # below) s }) = Some (out, t')"
    using run by (auto simp: Let_def elim!: bind_SomeE)
  obtain cid s1 s2 m2 where e: "disk_pick_and_extract nid (length (tp # below) - 1) tr s = Some (chosen, cid, pend, batch, s1)"
    "disk_apply_batch E cid batch (rev (nid # dbelow)) thr (disk_record_flush tr nid pend chosen s1) = ok d s2"
    "in_flush (rds s2) W L s2 t2 m2 thr (tp # below) (nid # dbelow)" "c \<in> set (kids (t_nodes t2 ! tp))" "m2 c = AtSlot cid"
    "resident_at s2 cid" "t_dirty t2 ! c" and k2: "kept_frame s s2" "d_root s2 = d_root s" "t_root t2 = t_root t"
    using deliver_round [OF f r(1,2)] by blast
  have len: "length (tp # below) = length (nid # dbelow)" using f unfolding in_flush_def by (metis list_all2_lengthD)
  have disk: "disk_flush_loop E thr tr (nid # dbelow) s = (if d = DeliveredInternal True then disk_flush_loop E thr tr (cid # nid # dbelow) s2
      else if d = DeliveredLeaf True then do { s \<leftarrow> disk_remove_child nid cid s2; disk_flush_loop E thr tr (nid # dbelow) s }
      else do { (promoted, s) \<leftarrow> disk_split_if_needed cid s2; s \<leftarrow> disk_integrate_splits nid promoted s; disk_flush_loop E thr tr (nid # dbelow) s })"
    using n e(1,2) len by (subst disk_flush_loop.simps) (simp add: disk_buffer_len_def Let_def)
  have rel2: "related (rds s2) W L s2 t2 m2" and L: "set (tp # below) \<subseteq> L" and sp: "spine (t_nodes t2) W (tp # below)" using e(3) by (simp_all add: in_flush_def)
  have own: "owned W L (t_nodes t2)" using rel2 by (simp add: related_def)
  have finish: ?thesis if "in_flush (rds s3) W L3 s3 t3 m3 thr xs ds" "f thr tr xs t3 = Some (out, t')" "outer s3 = outer s2" "t_root t3 = t_root t2"
      "last xs = last (tp # below)" "last ds = last (nid # dbelow)" "disk_flush_loop E thr tr (nid # dbelow) s = disk_flush_loop E thr tr ds s3"
    for L3 s3 t3 m3 xs ds
    using flush_okD [OF IH [OF that(2)] that(1) _ _ _ that(5,6), of s t] that k2 outer_kept [OF that(3)] kept_frame_trans [OF k2(1)] by simp
  consider (internal) "d = DeliveredInternal True" | (leaf) "d = DeliveredLeaf True" | (rest) "d \<noteq> DeliveredInternal True" "d \<noteq> DeliveredLeaf True" by blast
  then show ?thesis
  proof cases
    case internal
    have "in_flush (rds s2) W L s2 t2 m2 thr (c # tp # below) (cid # nid # dbelow)" by (rule in_flush_push [OF e(3-6)]) (use e(7) in simp)
    from finish [OF this] show ?thesis using r(3) internal disk by simp
  next
    case leaf
    obtain t3 where t3: "remove_child tp c t2 = Some t3" "f thr tr (tp # below) t3 = Some (out, t')" using r(3) leaf by (auto elim!: bind_SomeE)
    have cL: "c \<in> L" using owned_kids(1) [OF own, of tp] L e(4) by auto
    obtain s3 L3 where s3: "disk_remove_child nid cid s2 = Some s3" "in_flush (rds s3) W L3 s3 t3 m2 thr (tp # below) (nid # dbelow)" "outer s3 = outer s2"
      using remove_round [OF e(3) cL e(5) spine_child [OF sp own L e(4)] t3(1)] by blast
    from finish [OF s3(2) t3(2) s3(3)] show ?thesis using remove_child_reshapes [OF t3(1)] leaf disk s3(1) by (simp add: reshapes_def)
  next
    case rest
    obtain promoted t3 t4 where t4: "split_if_needed c t2 = Some (promoted, t3)" "integrate_splits tp promoted t3 = Some t4" "f thr tr (tp # below) t4 = Some (out, t')"
      using r(3) rest by (auto elim!: bind_SomeE)
    obtain dp s3 s4 L4 m4 where s4: "disk_split_if_needed cid s2 = Some (dp, s3)" "disk_integrate_splits nid dp s3 = Some s4"
      "in_flush (rds s4) W L4 s4 t4 m4 thr (tp # below) (nid # dbelow)" "outer s4 = outer s2"
      using split_round [OF e(3-6) t4(1,2)] by blast
    from finish [OF s4(3) t4(3) s4(4)] show ?thesis
      using split_if_needed_reshapes [OF t4(1)] integrate_splits_reshapes [OF t4(2)] rest disk s4(1,2) by (simp add: reshapes_def)
  qed
qed

lemma flush_loop_sim:
  assumes "flush_loop thr tr xs t = Some (out, t')" "in_flush (rds s) W L s t m thr xs ds"
  shows "\<exists>dout s'. disk_flush_loop E thr tr ds s = ok dout s' \<and> flushed (rds s') W s t thr (last xs) (last ds) out t' dout s'"
proof -
  have "flush_ok W thr tr xs t y" if "flush_loop thr tr xs t = Some y" for thr tr xs t y
    using that
  proof (induction thr tr xs t y rule: flush_loop.raw_induct [rotated, consumes 1, case_names step])
    case (step f thr tr xs t y)
    obtain out t' where y: "y = (out, t')" by force
    show ?case unfolding flush_ok_def y fst_conv snd_conv
    proof (intro allI impI)
      fix s L m ds assume f: "in_flush (rds s) W L s t m thr xs ds"
      obtain tp below where xs: "xs = tp # below" using step(2) by (cases xs) auto
      obtain nid dbelow n where top: "ds = nid # dbelow" "loaded s nid = Some n" "node_match m (t_nodes t ! tp) n" "node_at t tp = Some (t_nodes t ! tp)"
        using in_flush_top [OF f [unfolded xs]] by metis
      obtain ps as b where nd: "t_nodes t ! tp = Internal ps as b" using step(2) xs top(4) by (cases "t_nodes t ! tp") (auto simp: buffer_len_def)
      then obtain cs where n: "loaded s nid = Some (Internal ps cs b)" using top by auto
      have len: "buffer_len t tp = Some (length b)" using top(4) nd by (simp add: buffer_len_def)
      note f' = f [unfolded xs top(1)]
      show "\<exists>dout s'. disk_flush_loop E thr tr ds s = ok dout s' \<and> flushed (rds s') W s t thr (last xs) (last ds) out t' dout s'"
      proof (cases "length b \<le> thr")
        case True
        then obtain r where r: "(if thr = 0 then buffered_child t tp else Some None) = Some r" using step(2) xs len by (auto elim!: bind_SomeE)
        show ?thesis unfolding xs top(1)
          by (rule flush_loop_quiet [OF step(1) f' n True r]) (use step(2) xs len True r y in auto)
      next
        case False
        show ?thesis unfolding xs top(1)
          by (rule flush_loop_busy [OF step(1) f' n False]) (use step(2) xs len False y in auto)
      qed
    qed
  qed
  from this [OF assms(1)] assms(2) show ?thesis unfolding flush_ok_def by simp
qed

lemma rds_kept: "kept_frame s s' \<Longrightarrow> rds s' = rds s"
  by (simp add: kept_frame_def frame_def)

text \<open>Settling the root node itself, leaf or internal.\<close>

lemma root_flush_sim:
  assumes rest: "at_rest (0 < thr) (rds s) L s t m" and root: "resident_at s (d_root s)" "0 < thr \<longrightarrow> t_dirty t ! t_root t"
    and run: "(case t_nodes t ! t_root t of
         Internal _ _ _ \<Rightarrow> flush_with (t_root t) thr tr t
       | Leaf _ \<Rightarrow> do { (promoted, s) \<leftarrow> split_if_needed (t_root t) t; Some (Splits promoted, s) }) = Some (out, t')"
    and n: "loaded s (d_root s) = Some n"
  shows "\<exists>dout s'. (case n of
         Internal _ _ _ \<Rightarrow> disk_flush_with E (d_root s) thr tr s
       | Leaf _ \<Rightarrow> do { (promoted, s) \<leftarrow> disk_split_if_needed (d_root s) s; ok (Splits promoted) s }) = ok dout s' \<and>
    flushed (rds s') {#t_root t#} s t thr (t_root t) (d_root s) out t' dout s'"
proof -
  have rel: "related (rds s) {#t_root t#} L s t m" and m: "m (t_root t) = AtSlot (d_root s)" using rest by (simp_all add: at_rest_def)
  note rL = at_rest_root [OF rest]
  note match = related_node [OF rel rL m n]
  have f: "in_flush (rds s) {#t_root t#} L s t m thr [t_root t] [d_root s]"
    using rest root rL by (auto simp: in_flush_def at_rest_def placed_def spine_def)
  show ?thesis
  proof (cases "t_nodes t ! t_root t")
    case (Leaf es)
    then have "n = Leaf es" using match(1) by simp
    moreover obtain promoted where p: "settle (t_root t) t = Some (Splits promoted, t')" "out = Splits promoted"
      using run Leaf match(2) by (auto simp: settle_def elim!: bind_SomeE)
    ultimately show ?thesis using settle_last [OF f p(1)] n p(2) by (auto simp: disk_settle_def elim!: bind_SomeE)
  next
    case (Internal ps as b)
    then obtain cs where "n = Internal ps cs b" using match(1) by auto
    then show ?thesis using flush_loop_sim [OF _ f] run Internal by (auto simp: flush_with_def disk_flush_with_def)
  qed
qed

lemma restore_emptied_sim:
  assumes rel: "related (rds s) {#t_root t#} L s t m" and r: "m (t_root t) = AtSlot (d_root s)" "g \<longrightarrow> grey L t"
  defines "t' \<equiv> (snd (alloc (Leaf []) t))\<lparr>t_root := length (t_nodes t)\<rparr>"
  shows "\<exists>s1 s' L' m' nid. alloc_dirty (Leaf []) s = Some (nid, s1) \<and> release_slot (d_root s) (s1\<lparr>d_root := nid\<rparr>) = Some s' \<and>
    at_rest g (rds s') L' s' t' m' \<and> resident_at s' (d_root s') \<and> kept_frame s s' \<and> (g \<longrightarrow> t_dirty t' ! t_root t')"
proof -
  let ?a = "length (t_nodes t)" and ?nid = "length (d_slots s)"
  let ?m = "m(?a := AtSlot ?nid)"
  have rel': "related (rds s) (mset (kids (Leaf [])) + {#t_root t#}) L s t m" using rel by simp
  obtain s1 where s1: "alloc_dirty (Leaf []) s = Some (?nid, s1)" "related (rds s) (add_mset ?a {#t_root t#}) (insert ?a L) s1 (snd (alloc (Leaf []) t)) ?m"
    "stays L m s (insert ?a L) ?m s1" "loaded s1 ?nid = Some (Leaf [])"
    using alloc_sim [OF rel', of "Leaf []"] by auto
  let ?s1 = "s1\<lparr>d_root := ?nid\<rparr>"
  have rel1: "related (rds s) (add_mset (t_root t) {#?a#}) (insert ?a L) ?s1 t' ?m"
    using related_root [OF s1(2), of ?nid ?a] by (simp add: t'_def add_mset_commute)
  then have own: "owned (add_mset (t_root t) {#?a#}) (insert ?a L) (t_nodes t')" and sim: "sim (rds s) (insert ?a L) ?s1 t' ?m" and blind: "blind (t_policy t')"
    by (simp_all add: related_def)
  have rL: "t_root t \<in> L" "t_root t < ?a" using owned_orphan(1) rel related_bound [OF rel] by (auto simp: related_def)
  then have mr: "?m (t_root t) = AtSlot (d_root s)" "t_root t \<in> insert ?a L" using r by auto
  obtain s' where s': "release_slot (d_root s) ?s1 = Some s'" "sim (rds s) (insert ?a L - {t_root t}) s' t' ?m" "outer s' = outer ?s1"
    "loaded s' = (loaded ?s1)(d_root s := None)"
    using release_slot_sim [OF sim mr(2,1) owned_orphan(2) [OF own]] by (meson DiffD1 union_single_eq_member)
  have "d_root s \<noteq> ?nid" using sim_bound [of "rds s" L s t m "t_root t" "d_root s"] rel r(1) rL by (simp add: related_def)
  then have "resident_at s' (d_root s')" using s'(4) s1(4) outer_kept [OF s'(3)] by (simp add: resident_at_def)
  moreover have kf: "kept_frame s s'" using outer_kept [OF s'(3)] outer_kept [of s1 s] s1(3) kept_frame_trans [of s ?s1 s'] by (simp add: stays_def)
  moreover have grey: "grey (insert ?a L - {t_root t}) t'" if g
    by (rule grey_mono [OF grey_alloc [OF mp [OF r(2) that] rel, of "Leaf []"]]) (auto simp: t'_def)
  moreover have "t_dirty t' ! t_root t'" using rel by (simp add: t'_def alloc_def related_def sim_def nth_append)
  moreover have "t_root t' = ?a" "d_root s' = ?nid" using outer_kept [OF s'(3)] by (simp_all add: t'_def)
  then have "at_rest g (rds s') (insert ?a L - {t_root t}) s' t' ?m"
    using s'(2) owned_remove [OF own] blind grey by (simp add: at_rest_def related_def rds_kept [OF kf])
  ultimately show ?thesis using s1(1) s'(1) by blast
qed

lemma restore_grown_sim:
  assumes rel: "related (rds s) (mset (map snd promoted) + {#t_root t#}) L s t m" and r: "m (t_root t) = AtSlot (d_root s)" "g \<longrightarrow> grey L t"
    and p: "list_all2 (promo m) promoted dp"
  defines "nd \<equiv> Internal (map fst promoted) (t_root t # map snd promoted) []"
  defines "t' \<equiv> (snd (alloc nd t))\<lparr>t_root := length (t_nodes t)\<rparr>"
  shows "\<exists>s1 L' m' nid. alloc_dirty (Internal (map fst dp) (d_root s # map snd dp) []) s = Some (nid, s1) \<and>
    at_rest g (rds s1) L' (s1\<lparr>d_root := nid\<rparr>) t' m' \<and> resident_at s1 nid \<and> kept_frame s s1 \<and> (g \<longrightarrow> t_dirty t' ! t_root t')"
proof -
  let ?a = "length (t_nodes t)" and ?nid = "length (d_slots s)"
  let ?m = "m(?a := AtSlot ?nid)"
  have fst: "map fst dp = map fst promoted" "list_all2 (placed m) (map snd promoted) (map snd dp)"
    using p by (induction rule: list_all2_induct) (auto simp: promo_def)
  have match: "node_match m nd (Internal (map fst dp) (d_root s # map snd dp) [])" using fst r(1) by (simp add: nd_def placed_def)
  have rel': "related (rds s) (mset (kids nd) + {#}) L s t m" using rel by (simp add: nd_def)
  obtain s1 where s1: "alloc_dirty (Internal (map fst dp) (d_root s # map snd dp) []) s = Some (?nid, s1)"
    "related (rds s) {#?a#} (insert ?a L) s1 (snd (alloc nd t)) ?m" "stays L m s (insert ?a L) ?m s1" "resident_at s1 ?nid"
    using alloc_sim [OF rel' match] by auto
  have out: "outer s1 = outer s" using s1(3) by (simp add: stays_def)
  have "related (rds s1) {#?a#} (insert ?a L) (s1\<lparr>d_root := ?nid\<rparr>) t' ?m"
    using related_root [OF s1(2), of ?nid ?a] unfolding t'_def rds_outer [OF out] .
  moreover have "grey (insert ?a L) t'" if g
    by (rule grey_mono [OF grey_alloc [OF mp [OF r(2) that] rel, of nd]]) (auto simp: t'_def)
  moreover have "t_dirty t' ! t_root t'" using rel by (simp add: t'_def alloc_def related_def sim_def nth_append)
  moreover have "t_root t' = ?a" by (simp add: t'_def)
  ultimately have "at_rest g (rds s1) (insert ?a L) (s1\<lparr>d_root := ?nid\<rparr>) t' ?m" by (simp add: at_rest_def)
  then show ?thesis using s1(1,4) outer_kept [OF out] \<open>t_dirty t' ! t_root t'\<close> by blast
qed

definition restored :: "nat \<Rightarrow> bool \<Rightarrow> 'p betree \<Rightarrow> 'p betree \<Rightarrow> bool" where
  "restored thr tr t t' \<longleftrightarrow> (\<forall>s L m. at_rest (0 < thr) (rds s) L s t m \<longrightarrow> resident_at s (d_root s) \<longrightarrow> (0 < thr \<longrightarrow> t_dirty t ! t_root t) \<longrightarrow>
     (\<exists>s' L' m'. disk_restore_loop E thr tr s = ok () s' \<and> at_rest (0 < thr) (rds s') L' s' t' m' \<and> resident_at s' (d_root s') \<and> kept_frame s s'))"

lemma restore_loop_sim:
  assumes "restore_loop thr tr t = Some t'"
  shows "restored thr tr t t'"
  using assms
proof (induction thr tr t t' rule: restore_loop.raw_induct [rotated, consumes 1, case_names step])
  case (step f thr tr t t')
  show ?case unfolding restored_def
  proof (intro allI impI)
    fix s L m assume rest: "at_rest (0 < thr) (rds s) L s t m" and root: "resident_at s (d_root s)" "0 < thr \<longrightarrow> t_dirty t ! t_root t"
    obtain n where n: "loaded s (d_root s) = Some n" using root(1) by (auto simp: resident_at_def)
    have node: "node_at t (t_root t) = Some (t_nodes t ! t_root t)"
      using related_node(2) [OF _ at_rest_root [OF rest] _ n] rest by (auto simp: at_rest_def)
    obtain out t1 where run: "(case t_nodes t ! t_root t of
         Internal _ _ _ \<Rightarrow> flush_with (t_root t) thr tr t
       | Leaf _ \<Rightarrow> do { (promoted, s) \<leftarrow> split_if_needed (t_root t) t; Some (Splits promoted, s) }) = Some (out, t1)"
      and cont: "(case out of Removed \<Rightarrow> (let (new_root, s) = alloc (Leaf []) t1 in Some (s\<lparr>t_root := new_root\<rparr>))
        | Splits promoted \<Rightarrow> if promoted = [] then Some t1
            else (let (new_root, s) = alloc (Internal (map fst promoted) (t_root t1 # map snd promoted) []) t1 in f thr tr (s\<lparr>t_root := new_root\<rparr>))) = Some t'"
      using step(2) node by (auto elim!: bind_SomeE)
    obtain dout s1 where fl: "(case n of
         Internal _ _ _ \<Rightarrow> disk_flush_with E (d_root s) thr tr s
       | Leaf _ \<Rightarrow> do { (promoted, s) \<leftarrow> disk_split_if_needed (d_root s) s; ok (Splits promoted) s }) = ok dout s1"
      "flushed (rds s1) {#t_root t#} s t thr (t_root t) (d_root s) out t1 dout s1"
      using root_flush_sim [OF rest root run n] by blast
    obtain L1 m1 where r: "related (rds s1) (outcome_nodes out + {#t_root t#}) L1 s1 t1 m1" "m1 (t_root t) = AtSlot (d_root s)"
      "resident_at s1 (d_root s)" "outcome_match m1 out dout" "0 < thr \<longrightarrow> grey L1 t1 \<and> t_dirty t1 ! t_root t" "kept_frame s s1" "d_root s1 = d_root s" "t_root t1 = t_root t"
      using fl(2) unfolding flushed_def by blast
    have g: "0 < thr \<longrightarrow> grey L1 t1" using r(5) by simp
    have disk: "disk_restore_loop E thr tr s = (case dout of
        Removed \<Rightarrow> do { let old_root = d_root s1; (new_root, s) \<leftarrow> alloc_dirty (Leaf []) s1; s \<leftarrow> release_slot old_root (s\<lparr>d_root := new_root\<rparr>); ok () s }
      | Splits promoted \<Rightarrow> if promoted = [] then ok () s1
          else do { (new_root, s) \<leftarrow> alloc_dirty (Internal (map fst promoted) (d_root s1 # map snd promoted) []) s1;
            disk_restore_loop E thr tr (s\<lparr>d_root := new_root\<rparr>) })"
      using n fl(1) by (subst disk_restore_loop.simps) simp
    show "\<exists>s' L' m'. disk_restore_loop E thr tr s = ok () s' \<and> at_rest (0 < thr) (rds s') L' s' t' m' \<and> resident_at s' (d_root s') \<and> kept_frame s s'"
    proof (cases out)
      case Removed
      have "related (rds s1) {#t_root t1#} L1 s1 t1 m1" using r(1,8) Removed by (simp add: outcome_nodes_def)
      then obtain s2 s' L' m' nid where e: "alloc_dirty (Leaf []) s1 = Some (nid, s2)" "release_slot (d_root s1) (s2\<lparr>d_root := nid\<rparr>) = Some s'"
        "at_rest (0 < thr) (rds s') L' s' ((snd (alloc (Leaf []) t1))\<lparr>t_root := length (t_nodes t1)\<rparr>) m'" "resident_at s' (d_root s')" "kept_frame s1 s'"
        using restore_emptied_sim [OF _ _ g] r(2,7,8) by force
      have "t' = (snd (alloc (Leaf []) t1))\<lparr>t_root := length (t_nodes t1)\<rparr>" using cont Removed by (simp add: alloc_def)
      moreover have "disk_restore_loop E thr tr s = ok () s'" using disk r(4) Removed e(1,2) by (simp add: outcome_match_def)
      ultimately show ?thesis using e(3-5) kept_frame_trans [OF r(6)] by blast
    next
      case (Splits promoted)
      then obtain dp where dp: "dout = Splits dp" "list_all2 (promo m1) promoted dp" using r(4) by (auto simp: outcome_match_def)
      have rel1: "related (rds s1) (mset (map snd promoted) + {#t_root t1#}) L1 s1 t1 m1" using r(1,8) Splits by (simp add: outcome_nodes_def)
      show ?thesis
      proof (cases "promoted = []")
        case True
        then have "disk_restore_loop E thr tr s = ok () s1" "t' = t1" using disk dp cont Splits by simp_all
        moreover have "at_rest (0 < thr) (rds s1) L1 s1 t1 m1" using rel1 r(2,7,8) g True by (simp add: at_rest_def)
        ultimately show ?thesis using r(3,6,7) by auto
      next
        case False
        let ?t = "(snd (alloc (Internal (map fst promoted) (t_root t1 # map snd promoted) []) t1))\<lparr>t_root := length (t_nodes t1)\<rparr>"
        obtain s2 L2 m2 nid where g2: "alloc_dirty (Internal (map fst dp) (d_root s1 # map snd dp) []) s1 = Some (nid, s2)"
          "at_rest (0 < thr) (rds s2) L2 (s2\<lparr>d_root := nid\<rparr>) ?t m2" "resident_at s2 nid" "kept_frame s1 s2" "0 < thr \<longrightarrow> t_dirty ?t ! t_root ?t"
          using restore_grown_sim [OF rel1 _ g dp(2)] r(2,7,8) by auto
        have "f thr tr ?t = Some t'" using cont Splits False by (simp add: alloc_def)
        note IH = step(1) [OF this, unfolded restored_def, rule_format, of "s2\<lparr>d_root := nid\<rparr>" L2 m2]
        obtain s' L' m' where s': "disk_restore_loop E thr tr (s2\<lparr>d_root := nid\<rparr>) = ok () s'" "at_rest (0 < thr) (rds s') L' s' t' m'"
          "resident_at s' (d_root s')" "kept_frame (s2\<lparr>d_root := nid\<rparr>) s'" using IH g2(2,3,5) by auto
        have "dp \<noteq> []" using dp(2) False by auto
        then have "disk_restore_loop E thr tr s = ok () s'" using disk dp(1) g2(1) s'(1) by simp
        moreover have "kept_frame s (s2\<lparr>d_root := nid\<rparr>)" using kept_frame_trans [OF r(6) g2(4)] by simp
        ultimately show ?thesis using s'(2-4) kept_frame_trans by blast
      qed
    qed
  qed
qed

end

end
