(* ===== verification/Disk_Sim_Ops.thy ===== *)
theory Disk_Sim_Ops
  imports Disk_Sim_Run
begin

text \<open>
  The simulation of the operations: collapsing the root, the mutating operations and draining, and the
  walks of point reads and range scans. Where the arena's operation returns, the disk engine's returns
  the same without a storage error, and the engines are in step again.
\<close>

section \<open>Mutations\<close>

text \<open>The engines in step, on whatever live nodes and places.\<close>
definition in_step :: "bool \<Rightarrow> (nat \<Rightarrow> disk_node option) \<Rightarrow> ('v, 'p) disk_engine \<Rightarrow> 'p betree \<Rightarrow> bool" where
  "in_step g rd s t \<longleftrightarrow> (\<exists>L m. at_rest g rd L s t m)"

context node_store
begin

lemma collapse_step:
  assumes rest: "at_rest g (rds s) L s t m" and n: "t_nodes t ! t_root t = Internal ps [c] b" "loaded s (d_root s) = Some (Internal ps [cid] b)"
    "m c = AtSlot cid"
  shows "\<exists>s1 s2 L' m'. release_slot (d_root s) (s\<lparr>d_root := cid\<rparr>) = Some s1 \<and> d_root s1 = cid \<and> ensure_loaded E cid [] s1 = ok () s2 \<and>
    at_rest g (rds s2) L' s2 (t\<lparr>t_root := c\<rparr>) m' \<and> resident_at s2 (d_root s2) \<and> kept_frame s s2"
proof -
  let ?r = "t_root t" and ?s = "s\<lparr>d_root := cid\<rparr>" and ?t = "t\<lparr>t_root := c\<rparr>"
  have rel: "related (rds s) {#?r#} L s t m" and m: "m ?r = AtSlot (d_root s)" and g: "g \<longrightarrow> grey L t" using rest by (simp_all add: at_rest_def)
  note rL = at_rest_root [OF rest]
  have rel0: "related (rds s) {#?r#} L ?s ?t m" by (rule related_root [OF rel])
  then have own: "owned {#?r#} L (t_nodes t)" and sim: "sim (rds s) L ?s ?t m" and blind: "blind (t_policy t)" by (simp_all add: related_def)
  have alone: "x \<in> L - {?r} \<Longrightarrow> ?r \<notin> set (kids (t_nodes ?t ! x))" for x using owned_orphan(2) [OF own, of ?r x] by simp
  obtain s1 where s1: "release_slot (d_root s) ?s = Some s1" "sim (rds s) (L - {?r}) s1 ?t m" "outer s1 = outer ?s"
    using release_slot_sim [OF sim rL m alone] by auto
  note k1 = outer_kept [OF s1(3)]
  have k1': "kept_frame s s1" using k1 kept_frame_trans [of s ?s s1] by simp
  have own1: "owned {#c#} (L - {?r}) (t_nodes ?t)" using owned_down [OF own] n(1) by simp
  have rel1: "related (rds s1) {#c#} (L - {?r}) s1 ?t m" using s1(2) own1 blind by (simp add: related_def rds_kept [OF k1'])
  have cL: "c \<in> L - {?r}" using owned_orphan(1) [OF own1] by simp
  obtain s2 m2 where s2: "ensure_loaded E cid [] s1 = ok () s2" "related (rds s2) {#c#} (L - {?r}) s2 ?t m2" "visits (L - {?r}) m s1 m2 s2 []"
    "m2 c = AtSlot cid" "resident_at s2 cid"
    using load_sim [OF rel1 cL n(3)] by blast
  have k2: "kept_frame s1 s2" "d_root s2 = cid" using outer_kept [of s2 s1] s2(3) k1 by (auto simp: visits_def)
  have "grey (L - {?r}) ?t" if g using grey_mono [of L t "L - {?r}" ?t] g that by auto
  then have "at_rest g (rds s2) (L - {?r}) s2 ?t m2" using s2(2,4) k2(2) by (simp add: at_rest_def)
  then show ?thesis using s1(1) s2(1,5) k1 k2 kept_frame_trans [OF k1'] by auto
qed

definition collapsed :: "'p betree \<Rightarrow> 'p betree \<Rightarrow> bool" where
  "collapsed t t' \<longleftrightarrow> (\<forall>g s L m. at_rest g (rds s) L s t m \<longrightarrow> resident_at s (d_root s) \<longrightarrow>
     (\<exists>s'. disk_collapse_root E s = ok () s' \<and> in_step g (rds s') s' t' \<and> resident_at s' (d_root s') \<and> kept_frame s s'))"

lemma collapse_root_sim:
  assumes "collapse_root t = Some t'"
  shows "collapsed t t'"
  using assms
proof (induction t t' rule: collapse_root.raw_induct [rotated, consumes 1, case_names step])
  case (step f t t')
  show ?case unfolding collapsed_def
  proof (intro allI impI)
    fix g s L m assume rest: "at_rest g (rds s) L s t m" and res: "resident_at s (d_root s)"
    have rel: "related (rds s) {#t_root t#} L s t m" "m (t_root t) = AtSlot (d_root s)" using rest by (simp_all add: at_rest_def)
    obtain n where n: "loaded s (d_root s) = Some n" using res by (auto simp: resident_at_def)
    note node = related_node [OF rel(1) at_rest_root [OF rest] rel(2) n]
    show "\<exists>s'. disk_collapse_root E s = ok () s' \<and> in_step g (rds s') s' t' \<and> resident_at s' (d_root s') \<and> kept_frame s s'"
    proof (cases "\<exists>ps c. t_nodes t ! t_root t = Internal ps [c] []")
      case False
      then have "t' = t" using step(2) node(2) by (auto simp: length_Suc_conv split: node.split_asm if_split_asm)
      moreover have "disk_collapse_root E s = ok () s"
        using n node(1) False by (subst disk_collapse_root.simps) (cases "t_nodes t ! t_root t"; auto simp: list_all2_lengthD length_Suc_conv list_all2_Cons2 split: node.split)
      ultimately show ?thesis using rest res by (auto simp: in_step_def)
    next
      case True
      then obtain ps c where nd: "t_nodes t ! t_root t = Internal ps [c] []" by blast
      then obtain cid where cid: "n = Internal ps [cid] []" "m c = AtSlot cid" using node(1) by (auto simp: list_all2_Cons1 placed_def)
      obtain s1 s2 L' m' where c: "release_slot (d_root s) (s\<lparr>d_root := cid\<rparr>) = Some s1" "d_root s1 = cid" "ensure_loaded E cid [] s1 = ok () s2"
        "at_rest g (rds s2) L' s2 (t\<lparr>t_root := c\<rparr>) m'" "resident_at s2 (d_root s2)" "kept_frame s s2"
        using collapse_step [OF rest nd n [unfolded cid(1)] cid(2)] by blast
      have "f (t\<lparr>t_root := c\<rparr>) = Some t'" using step(2) node(2) nd by simp
      from step(1) [OF this] c(4,5) obtain s' where s': "disk_collapse_root E s2 = ok () s'" "in_step g (rds s') s' t'" "resident_at s' (d_root s')" "kept_frame s2 s'"
        unfolding collapsed_def by blast
      have "disk_collapse_root E s = ok () s'" using n cid(1) c(1-3) s'(1) by (subst disk_collapse_root.simps) simp
      then show ?thesis using s' kept_frame_trans [OF c(6)] by blast
    qed
  qed
qed

lemma restore_root_with_sim:
  assumes run: "restore_root_with thr tr t = Some t'" and rest: "at_rest (0 < thr) (rds s) L s t m"
    and root: "resident_at s (d_root s)" "0 < thr \<longrightarrow> t_dirty t ! t_root t"
  shows "\<exists>s'. disk_restore_root_with E thr tr s = ok () s' \<and> in_step (0 < thr) (rds s') s' t' \<and> kept_frame s s'"
proof -
  obtain t1 where t1: "restore_loop thr tr t = Some t1" "collapse_root t1 = Some t'" using run by (auto simp: restore_root_with_def elim!: bind_SomeE)
  obtain s1 L1 m1 where s1: "disk_restore_loop E thr tr s = ok () s1" "at_rest (0 < thr) (rds s1) L1 s1 t1 m1" "resident_at s1 (d_root s1)" "kept_frame s s1"
    using restore_loop_sim [OF t1(1)] rest root unfolding restored_def by blast
  obtain s' where "disk_collapse_root E s1 = ok () s'" "in_step (0 < thr) (rds s') s' t'" "kept_frame s1 s'"
    using collapse_root_sim [OF t1(2)] s1(2,3) unfolding collapsed_def by blast
  then show ?thesis using s1(1) kept_frame_trans [OF s1(4)] by (auto simp: disk_restore_root_with_def)
qed

lemma grey_root:
  assumes rest: "at_rest True R L s t m" and r: "reshapes (t_root t) t t'" and rel: "related R' W L s' t' m'"
  shows "grey L t'"
proof (rule grey_reshapes [OF r])
  have rel0: "related R {#t_root t#} L s t m" and g: "grey L t" using rest by (simp_all add: at_rest_def)
  then have own: "owned {#t_root t#} L (t_nodes t)" by (simp add: related_def)
  show "grey L t" by (rule g)
  show "length (t_dirty t) = length (t_nodes t)" using rel0 by (simp add: related_def sim_def)
  show "\<forall>x\<in>L. x < length (t_nodes t) \<and> set (kids (t_nodes t ! x)) \<subseteq> L" using related_bound [OF rel0] owned_kids(1) [OF own] by blast
  show "t_root t \<in> L" by (rule at_rest_root [OF rest])
  show "t_dirty t ! p" if "p \<in> L" "t_root t \<in> set (kids (t_nodes t ! p))" for p using owned_orphan(2) [OF own, of "t_root t" p] that by simp
  show "\<forall>x\<in>L. x < length (t_nodes t') \<and> (x \<in> L \<or> length (t_nodes t) \<le> x)" using related_bound [OF rel] by blast
qed

lemma apply_root_sim:
  assumes run: "apply_root k msg t = Some t'" and rest: "at_rest True (rds s) L s t m" and root: "resident_at s (d_root s)"
    and cap: "0 < buffer_capacity (t_params t)"
  shows "\<exists>s'. disk_apply_root E k msg s = ok () s' \<and> in_step True (rds s') s' t' \<and> kept_frame s s'"
proof -
  let ?r = "t_root t"
  have rel: "related (rds s) {#?r#} L s t m" and m: "m ?r = AtSlot (d_root s)" using rest by (simp_all add: at_rest_def)
  note rL = at_rest_root [OF rest]
  note b = related_bound [OF rel rL]
  obtain n where n: "loaded s (d_root s) = Some n" using root by (auto simp: resident_at_def)
  note node = related_node [OF rel rL m n]
  define wr where "wr n = (case n of Leaf es \<Rightarrow> Leaf (apply_to_leaf k msg es) | Internal ps cs b \<Rightarrow> Internal ps cs (coalesce_into k msg b))" for n
  have match: "node_match m (wr (t_nodes t ! ?r)) (wr n)" "kids (wr (t_nodes t ! ?r)) = kids (t_nodes t ! ?r)"
    using node(1) by (cases "t_nodes t ! ?r"; auto simp: wr_def)+
  then have W: "mset (kids (wr (t_nodes t ! ?r))) + {#?r#} \<subseteq># mset (kids (t_nodes t ! ?r)) + {#?r#}" by simp
  let ?t = "set_node ?r (wr (t_nodes t ! ?r)) (dirtied ?r t)"
  obtain s1 where s1: "loaded_mut (d_root s) s = Some (n, s1)" "related (rds s) {#?r#} L (put_node (d_root s) (wr n) s1) ?t m"
    "stays L m s L m (put_node (d_root s) (wr n) s1)" "outer s1 = outer s" "mark_dirty ?r t = Some (dirtied ?r t)"
    using rewrite_sim [OF rel rL m n match(1) W] by blast
  let ?s = "put_node (d_root s) (wr n) s1"
  have out: "outer ?s = outer s" and res: "resident_at ?s (d_root s)" using s1(3) root by (simp_all add: stays_def)
  note kf = outer_kept [OF out]
  have root': "t_root ?t = ?r" "t_params ?t = t_params t" "d_params ?s = t_params t" "d_root s1 = d_root s"
    using related_params [OF rel] outerD(1) [OF out] outerD(3) [OF s1(4)] by (simp_all add: set_node_def dirtied_def)
  have "grey L ?t" by (rule grey_root [OF rest set_node_reshapes [OF s1(5)] s1(2)])
  then have rest': "at_rest True (rds ?s) L ?s ?t m" using s1(2) m kf root' by (simp add: at_rest_def rds_outer [OF out])
  have t': "restore_root_with (buffer_capacity (t_params t)) True ?t = Some t'"
    using run s1(5) node(2) root'(2) by (cases "t_nodes t ! ?r") (simp_all add: apply_root_def restore_root_def wr_def node_at_def dirtied_def)
  have dirty: "t_dirty ?t ! t_root ?t" using b root'(1) by (simp add: set_node_def dirtied_def)
  obtain s' where "disk_restore_root_with E (buffer_capacity (t_params t)) True ?s = ok () s'" "in_step True (rds s') s' t'" "kept_frame ?s s'"
    using restore_root_with_sim [OF t', of ?s L m] rest' res dirty kf cap by auto
  then show ?thesis using s1(1) kept_frame_trans [OF conjunct1 [OF kf]] root'(3,4)
    by (auto simp: disk_apply_root_def disk_restore_root_def wr_def poison_on_error_def)
qed

end

text \<open>A mutating operation of the disk engine.\<close>
fun disk_write :: "'v env \<Rightarrow> op_kind2 \<Rightarrow> ('v, 'p) disk_engine \<Rightarrow> (unit, ('v, 'p) disk_engine) dio" where
  "disk_write E (Insert2 k v) s = try_insert E k v s"
| "disk_write E (Delete2 k) s = try_delete E k s"
| "disk_write E (Upsert2 k op) s = try_upsert E k op s"

definition disk_stamped :: "op_kind2 \<Rightarrow> ('v, 'p) disk_engine \<Rightarrow> ('v, 'p) disk_engine" where
  "disk_stamped op s = s\<lparr>d_next_seq := d_next_seq s + 1, d_ops_since_commit := d_ops_since_commit s + 1,
     d_trace := rec_op (d_next_seq s + 1) op (d_trace s)\<rparr>"

fun op_message :: "u64 \<Rightarrow> op_kind2 \<Rightarrow> key \<times> message" where
  "op_message seq (Insert2 k v) = (k, Put seq v)"
| "op_message seq (Delete2 k) = (k, Delete seq)"
| "op_message seq (Upsert2 k op) = (k, Upsert seq op)"

lemma disk_write_stamped:
  "disk_write E op s = and_then (ensure_loaded E (d_root s) [] s)
     (\<lambda>_ s. disk_apply_root E (fst (op_message (d_next_seq s + 1) op)) (snd (op_message (d_next_seq s + 1) op)) (disk_stamped op s))"
  by (cases op) (auto simp: try_insert_def try_delete_def try_upsert_def disk_stamped_def Let_def intro!: arg_cong2 [of _ _ _ _ and_then])

lemma betree_write_stamped:
  "kv_apply (BeTree pol) op t = apply_root (fst (op_message (t_next_seq t + 1) op)) (snd (op_message (t_next_seq t + 1) op)) (stamped op t)"
  by (cases op) (simp_all add: BeTree_def betree_ops_stamped)

context node_store
begin

lemma disk_write_sim:
  assumes step: "in_step True (rds s) s t" and cap: "0 < buffer_capacity (t_params t)" and run: "kv_apply (BeTree pol) op t = Some t'"
  shows "\<exists>s'. disk_write E op s = ok () s' \<and> in_step True (rds s') s' t' \<and> kept_frame s s'"
proof -
  obtain L m where rest: "at_rest True (rds s) L s t m" using step by (auto simp: in_step_def)
  have rel: "related (rds s) {#t_root t#} L s t m" and m: "m (t_root t) = AtSlot (d_root s)" and g: "grey L t" using rest by (simp_all add: at_rest_def)
  note rL = at_rest_root [OF rest]
  obtain s1 m1 where s1: "ensure_loaded E (d_root s) [] s = ok () s1" "related (rds s1) {#t_root t#} L s1 t m1" "visits L m s m1 s1 []"
    "m1 (t_root t) = AtSlot (d_root s)" "resident_at s1 (d_root s)"
    using load_sim [OF rel rL m] by blast
  note k1 = outer_kept [of s1 s]
  have out: "outer s1 = outer s" using s1(3) by (simp add: visits_def)
  have f: "d_next_seq s1 = t_next_seq t" "d_ops_since_commit s1 = t_ops_since_commit t" "d_params s1 = t_params t" "d_policy s1 = t_policy t"
    using s1(2) by (simp_all add: related_def sim_def same_fields_def)
  let ?s = "disk_stamped op s1" and ?t = "stamped op t"
  have "related (rds s1) {#t_root t#} L ?s ?t m1"
    by (rule related_fields [OF s1(2)])
      (use f s1(2) in \<open>auto simp: disk_stamped_def stamped_def d_fields_def t_fields_def related_def\<close>)
  then have rest': "at_rest True (rds ?s) L ?s ?t m1"
    using s1(4) g outer_kept [OF out] by (simp add: at_rest_def disk_stamped_def stamped_def grey_def)
  have res: "resident_at ?s (d_root ?s)" using s1(5) outer_kept [OF out] by (simp add: resident_at_def loaded_def disk_stamped_def)
  have t': "apply_root (fst (op_message (t_next_seq t + 1) op)) (snd (op_message (t_next_seq t + 1) op)) ?t = Some t'"
    using run by (simp add: betree_write_stamped)
  obtain s' where s': "disk_apply_root E (fst (op_message (t_next_seq t + 1) op)) (snd (op_message (t_next_seq t + 1) op)) ?s = ok () s'"
    "in_step True (rds s') s' t'" "kept_frame ?s s'"
    using apply_root_sim [OF t' rest' res] cap by (auto simp: stamped_def)
  have "kept_frame s ?s" using outer_kept [OF out] by (simp add: disk_stamped_def kept_frame_def frame_def)
  then show ?thesis using s' s1(1) f(1) kept_frame_trans by (auto simp: disk_write_stamped)
qed

lemma drain_sim:
  assumes step: "in_step g (rds s) s t" and run: "drain t = Some t'"
  shows "\<exists>s'. disk_drain E s = ok () s' \<and> in_step False (rds s') s' t' \<and> kept_frame s s'"
proof -
  obtain L m where rest: "at_rest g (rds s) L s t m" using step by (auto simp: in_step_def)
  have rel: "related (rds s) {#t_root t#} L s t m" and m: "m (t_root t) = AtSlot (d_root s)" using rest by (simp_all add: at_rest_def)
  obtain s1 m1 where s1: "ensure_loaded E (d_root s) [] s = ok () s1" "related (rds s1) {#t_root t#} L s1 t m1" "visits L m s m1 s1 []"
    "m1 (t_root t) = AtSlot (d_root s)" "resident_at s1 (d_root s)"
    using load_sim [OF rel at_rest_root [OF rest] m] by blast
  have out: "outer s1 = outer s" using s1(3) by (simp add: visits_def)
  note k1 = outer_kept [OF out]
  have "at_rest (0 < (0 :: nat)) (rds s1) L s1 t m1" using s1(2,4) k1 by (simp add: at_rest_def)
  then obtain s' where "disk_restore_root_with E 0 False s1 = ok () s'" "in_step False (rds s') s' t'" "kept_frame s1 s'"
    using restore_root_with_sim [of 0 False t t' s1 L m1] run s1(5) k1 by (auto simp: drain_def)
  then show ?thesis using s1(1) k1 kept_frame_trans [OF conjunct1 [OF k1]] by (auto simp: disk_drain_def poison_on_error_def)
qed

section \<open>Point reads\<close>

lemma get_from_sim:
  assumes "get_from t k chain a = Some v" "related (rds s) W L s t m" "a \<in> L" "m a = AtSlot nid"
  shows "\<exists>s' m'. disk_get_from E k chain nid s = ok v s' \<and> related (rds s') W L s' t m' \<and> visits L m s m' s' []"
proof -
  have "\<forall>s m nid. related (rds s) W L s t m \<longrightarrow> a \<in> L \<longrightarrow> m a = AtSlot nid \<longrightarrow>
      (\<exists>s' m'. disk_get_from E k chain nid s = ok v s' \<and> related (rds s') W L s' t m' \<and> visits L m s m' s' [])"
    using assms(1)
  proof (induction t k chain a v rule: get_from.raw_induct [rotated, consumes 1, case_names step])
    case (step f t k chain a v)
    show ?case
    proof (intro allI impI)
      fix s m nid assume rel: "related (rds s) W L s t m" and a: "a \<in> L" "m a = AtSlot nid"
      obtain s1 m1 n where l: "ensure_loaded E nid [] s = ok () s1" "related (rds s1) W L s1 t m1" "visits L m s m1 s1 []"
        "loaded s1 nid = Some n" "node_match m1 (t_nodes t ! a) n" "node_at t a = Some (t_nodes t ! a)"
        using load_sim [OF rel a] by blast
      show "\<exists>s' m'. disk_get_from E k chain nid s = ok v s' \<and> related (rds s') W L s' t m' \<and> visits L m s m' s' []"
      proof (cases "t_nodes t ! a")
        case (Leaf es)
        then have "disk_get_from E k chain nid s = ok v s1" using l step(2) by (subst disk_get_from.simps) simp
        then show ?thesis using l(2,3) by blast
      next
        case (Internal ps as b)
        then obtain cs where cs: "n = Internal ps cs b" "list_all2 (placed m1) as cs" using l(5) by auto
        have asL: "set as \<subseteq> L" using owned_kids(1) [of W L "t_nodes t" a] rel a Internal by (simp add: related_def)
        have go: "\<exists>s' m'. (do { c \<leftarrow> index cs (route ps k); disk_get_from E k ch c s1 }) = ok v s' \<and> related (rds s') W L s' t m' \<and> visits L m s m' s' []"
          if run: "(do { c \<leftarrow> index as (route ps k); f t k ch c }) = Some v" for ch
        proof -
          obtain c where c: "index as (route ps k) = Some c" "f t k ch c = Some v" using run by (auto elim!: bind_SomeE)
          obtain cid where cid: "index cs (route ps k) = Some cid" "m1 c = AtSlot cid"
            using cs(2) c(1) by (auto simp: index_eq_Some list_all2_conv_all_nth placed_def)
          have "c \<in> L" using c(1) asL by (auto simp: index_eq_Some)
          then show ?thesis using step(1) [OF c(2)] l(2) cid visits_trans [OF l(3)] by fastforce
        qed
        have disk: "disk_get_from E k chain nid s = (case bt_get b k of
              Some (Put seq v) \<Rightarrow> ok (apply_chain chain (Some v)) s1
            | Some (Delete seq) \<Rightarrow> ok (apply_chain chain None) s1
            | Some (Upsert seq op) \<Rightarrow>
                (case op of Add delta \<Rightarrow> do { c \<leftarrow> index cs (route ps k); disk_get_from E k (Some ((case chain of None \<Rightarrow> 0 | Some c \<Rightarrow> c) + delta)) c s1 })
            | None \<Rightarrow> do { c \<leftarrow> index cs (route ps k); disk_get_from E k chain c s1 })"
          using l(1,4) cs(1) by (subst disk_get_from.simps) simp
        show ?thesis unfolding disk using step(2) l(2,3,6) Internal go
          by (auto split: option.split message.split upsert_op.split)
      qed
    qed
  qed
  then show ?thesis using assms by blast
qed

lemma visits_at_rest:
  assumes "at_rest g (rds s) L s t m" "related (rds s') {#t_root t#} L s' t m'" "visits L m s m' s' pins"
  shows "at_rest g (rds s') L s' t m'" "kept_frame s s'"
  using assms outer_kept [of s' s] at_rest_root [OF assms(1)] by (auto simp: at_rest_def visits_def ref_le_def)

lemma try_get_sim:
  assumes step: "in_step g (rds s) s t" and run: "betree_get k t = Some (v, t')"
  shows "\<exists>s'. try_get E k s = ok v s' \<and> in_step g (rds s') s' t' \<and> kept_frame s s'"
proof -
  obtain L m where rest: "at_rest g (rds s) L s t m" using step by (auto simp: in_step_def)
  have rel: "related (rds s) {#t_root t#} L s t m" and m: "m (t_root t) = AtSlot (d_root s)" using rest by (simp_all add: at_rest_def)
  let ?s = "s\<lparr>d_trace := rec_get k (d_trace s)\<rparr>" and ?t = "t\<lparr>t_trace := rec_get k (t_trace t)\<rparr>"
  have r: "get_from ?t k None (t_root t) = Some v" "t' = ?t" using run by (auto simp: betree_get_def Let_def elim!: bind_SomeE)
  have rel1: "related (rds ?s) {#t_root t#} L ?s ?t m"
    using related_fields [OF rel, of ?s ?t] rel by (auto simp: related_def sim_def same_fields_def d_fields_def t_fields_def)
  then have rest1: "at_rest g (rds ?s) L ?s ?t m" using rest by (auto simp: at_rest_def grey_def)
  obtain s' m' where s': "disk_get_from E k None (d_root s) ?s = ok v s'" "related (rds s') {#t_root t#} L s' ?t m'" "visits L m ?s m' s' []"
    using get_from_sim [OF r(1) rel1 at_rest_root [OF rest] m] by blast
  have "at_rest g (rds s') L s' ?t m'" "kept_frame ?s s'" using visits_at_rest [OF rest1 _ s'(3)] s'(2) by simp_all
  then show ?thesis using s'(1) r(2) kept_frame_trans [of s ?s s'] by (auto simp: try_get_def in_step_def)
qed

section \<open>Range scans\<close>

definition frame_match :: "(node_id \<Rightarrow> vref) \<Rightarrow> scan_frame \<Rightarrow> scan_frame \<Rightarrow> bool" where
  "frame_match m fr dfr \<longleftrightarrow> (\<exists>nid. m (f_id fr) = AtSlot nid \<and> dfr = fr\<lparr>f_id := nid\<rparr>)"

definition frames_held :: "node_id set \<Rightarrow> ('v, 'p) disk_engine \<Rightarrow> (node_id \<Rightarrow> vref) \<Rightarrow> scan_frame list \<Rightarrow> scan_frame list \<Rightarrow> bool" where
  "frames_held L s m stack dstack \<longleftrightarrow> list_all2 (frame_match m) stack dstack \<and> f_id ` set stack \<subseteq> L \<and> (\<forall>d\<in>set dstack. resident_at s (f_id d))"

lemma frames_visits:
  assumes "frames_held L s m stack dstack" "visits L m s m' s' pins" "f_id ` set dstack \<subseteq> set pins"
  shows "frames_held L s' m' stack dstack"
proof -
  have "list_all2 (frame_match m') stack dstack"
    using assms(1,2) by (auto simp: frames_held_def frame_match_def visits_def ref_le_def image_subset_iff elim!: list.rel_mono_strong)
  then show ?thesis using assms by (auto simp: frames_held_def visits_def)
qed

definition scan_ok :: "node_id multiset \<Rightarrow> node_id set \<Rightarrow> 'p betree \<Rightarrow> scan_frame list \<Rightarrow> (key, val) btmap \<Rightarrow> bool" where
  "scan_ok W L t stack r \<longleftrightarrow> (\<forall>s m dstack. related (rds s) W L s t m \<longrightarrow> frames_held L s m stack dstack \<longrightarrow>
     (\<exists>s' m'. disk_scan_loop E dstack s = ok r s' \<and> related (rds s') W L s' t m' \<and> visits L m s m' s' []))"

lemma scan_okD:
  assumes "scan_ok W L t stack r" "related (rds s1) W L s1 t m1" "frames_held L s1 m1 stack dstack" "visits L m s m1 s1 pins"
  shows "\<exists>s' m'. disk_scan_loop E dstack s1 = ok r s' \<and> related (rds s') W L s' t m' \<and> visits L m s m' s' []"
proof -
  obtain s' m' where "disk_scan_loop E dstack s1 = ok r s'" "related (rds s') W L s' t m'" "visits L m1 s1 m' s' []"
    using assms(1-3) unfolding scan_ok_def by blast
  then show ?thesis using visits_trans [OF visits_pins [OF assms(4)], of "[]"] by auto
qed

lemma scan_child_sim:
  assumes IH: "\<And>stack r. f t stack = Some r \<Longrightarrow> scan_ok W L t stack r" and rel: "related (rds s) W L s t m"
    and held: "frames_held L s m (fr # frs) (dfr # dfrs)" and c: "c \<in> L" "m c = AtSlot cid"
    and run: "do { cn \<leftarrow> node_at t c; case cn of
        Leaf es \<Rightarrow> do { es \<leftarrow> bt_range (bound_as_slice lo) (bound_as_slice hi) es; f t (fr\<lparr>f_acc := fold_entries es (f_acc fr)\<rparr> # frs) }
      | Internal _ _ _ \<Rightarrow> f t (\<lparr>f_id = c, f_lo = lo, f_hi = hi, f_next_child = 0, f_acc = []\<rparr> # fr # frs) } = Some r"
  shows "\<exists>s' m'. and_then (ensure_loaded E cid (rev (map f_id (dfr # dfrs))) s) (\<lambda>_ s. do { cn \<leftarrow> loaded s cid; case cn of
        Leaf es \<Rightarrow> do { es \<leftarrow> bt_range (bound_as_slice lo) (bound_as_slice hi) es; disk_scan_loop E (dfr\<lparr>f_acc := fold_entries es (f_acc dfr)\<rparr> # dfrs) s }
      | Internal _ _ _ \<Rightarrow> disk_scan_loop E (\<lparr>f_id = cid, f_lo = lo, f_hi = hi, f_next_child = 0, f_acc = []\<rparr> # dfr # dfrs) s }) = ok r s' \<and>
    related (rds s') W L s' t m' \<and> visits L m s m' s' []"
proof -
  let ?pins = "rev (map f_id (dfr # dfrs))"
  obtain s1 m1 n where l: "ensure_loaded E cid ?pins s = ok () s1" "related (rds s1) W L s1 t m1" "visits L m s m1 s1 ?pins" "m1 c = AtSlot cid"
    "resident_at s1 cid" "loaded s1 cid = Some n" "node_match m1 (t_nodes t ! c) n" "node_at t c = Some (t_nodes t ! c)"
    using load_sim [OF rel c] by blast
  have held1: "frames_held L s1 m1 (fr # frs) (dfr # dfrs)" by (rule frames_visits [OF held l(3)]) auto
  have acc: "f_acc dfr = f_acc fr" using held by (auto simp: frames_held_def frame_match_def)
  show ?thesis
  proof (cases "t_nodes t ! c")
    case (Leaf es)
    obtain es' where es: "bt_range (bound_as_slice lo) (bound_as_slice hi) es = Some es'" "f t (fr\<lparr>f_acc := fold_entries es' (f_acc fr)\<rparr> # frs) = Some r"
      using run l(8) Leaf by (auto elim!: bind_SomeE)
    have "frames_held L s1 m1 (fr\<lparr>f_acc := fold_entries es' (f_acc fr)\<rparr> # frs) (dfr\<lparr>f_acc := fold_entries es' (f_acc dfr)\<rparr> # dfrs)"
      using held1 acc by (auto simp: frames_held_def frame_match_def)
    from scan_okD [OF IH [OF es(2)] l(2) this l(3)] show ?thesis using l(1,6,7) Leaf es(1) by simp
  next
    case (Internal ps as b)
    then obtain cs where cs: "n = Internal ps cs b" using l(7) by auto
    have "frames_held L s1 m1 (\<lparr>f_id = c, f_lo = lo, f_hi = hi, f_next_child = 0, f_acc = []\<rparr> # fr # frs)
        (\<lparr>f_id = cid, f_lo = lo, f_hi = hi, f_next_child = 0, f_acc = []\<rparr> # dfr # dfrs)"
      using held1 l(4,5) c(1) by (auto simp: frames_held_def frame_match_def)
    moreover have "f t (\<lparr>f_id = c, f_lo = lo, f_hi = hi, f_next_child = 0, f_acc = []\<rparr> # fr # frs) = Some r" using run l(8) Internal by simp
    ultimately show ?thesis using scan_okD [OF IH l(2) _ l(3)] l(1,6) cs by simp
  qed
qed

lemma scan_loop_sim:
  assumes "scan_loop t stack = Some r"
  shows "scan_ok W L t stack r"
  using assms
proof (induction t stack r rule: scan_loop.raw_induct [rotated, consumes 1, case_names step])
  case (step f t stack r)
  show ?case unfolding scan_ok_def
  proof (intro allI impI)
    fix s m dstack assume rel: "related (rds s) W L s t m" and held: "frames_held L s m stack dstack"
    obtain fr frs where stack: "stack = fr # frs" using step(2) by (cases stack) auto
    then obtain nid dfrs where d: "dstack = fr\<lparr>f_id := nid\<rparr> # dfrs" "m (f_id fr) = AtSlot nid" "f_id fr \<in> L" "resident_at s nid"
      using held by (auto simp: frames_held_def list_all2_Cons1 frame_match_def)
    obtain n where n: "loaded s nid = Some n" using d(4) by (auto simp: resident_at_def)
    note node = related_node [OF rel d(3,2) n]
    obtain ps as b where nd: "t_nodes t ! f_id fr = Internal ps as b" using step(2) stack node(2) by (cases "t_nodes t ! f_id fr") auto
    then obtain cs where cs: "n = Internal ps cs b" "list_all2 (placed m) as cs" using node(1) by auto
    then have len: "length cs = length as" by (simp add: list_all2_lengthD)
    have asL: "set as \<subseteq> L" using owned_kids(1) [of W L "t_nodes t" "f_id fr"] rel d(3) nd by (simp add: related_def)
    note held' = held [unfolded stack d(1)]
    show "\<exists>s' m'. disk_scan_loop E dstack s = ok r s' \<and> related (rds s') W L s' t m' \<and> visits L m s m' s' []"
    proof (cases "f_next_child fr < length as")
      case True
      let ?i = "f_next_child fr"
      let ?fr = "fr\<lparr>f_next_child := ?i + 1\<rparr>" and ?dfr = "fr\<lparr>f_id := nid, f_next_child := ?i + 1\<rparr>"
      obtain lo hi where b: "child_lo (f_lo fr) ps ?i = Some lo" "child_hi (f_hi fr) ps ?i = Some hi"
        using step(2) stack node(2) nd True by (auto simp: Let_def elim!: bind_SomeE)
      have held1: "frames_held L s m (?fr # frs) (?dfr # dfrs)" using held' d(2) by (cases fr) (auto simp: frames_held_def frame_match_def)
      obtain c cid where c: "index as ?i = Some c" "index cs ?i = Some cid" "m c = AtSlot cid" "c \<in> L"
      proof -
        have "as ! ?i \<in> L" using asL nth_mem [OF True] by blast
        moreover have "m (as ! ?i) = AtSlot (cs ! ?i)" using cs(2) True by (simp add: list_all2_conv_all_nth placed_def)
        ultimately show ?thesis using that [of "as ! ?i" "cs ! ?i"] True len by simp
      qed
      have disk: "disk_scan_loop E dstack s = (if range_is_empty lo hi then disk_scan_loop E (?dfr # dfrs) s
        else and_then (ensure_loaded E cid (rev (map f_id (?dfr # dfrs))) s) (\<lambda>_ s. do { cn \<leftarrow> loaded s cid; case cn of
            Leaf es \<Rightarrow> do { es \<leftarrow> bt_range (bound_as_slice lo) (bound_as_slice hi) es;
              disk_scan_loop E (?dfr\<lparr>f_acc := fold_entries es (f_acc ?dfr)\<rparr> # dfrs) s }
          | Internal _ _ _ \<Rightarrow> disk_scan_loop E (\<lparr>f_id = cid, f_lo = lo, f_hi = hi, f_next_child = 0, f_acc = []\<rparr> # ?dfr # dfrs) s }))"
        using n cs(1) len True b c(2) unfolding d(1) by (subst disk_scan_loop.simps) (simp add: Let_def)
      show ?thesis
      proof (cases "range_is_empty lo hi")
        case empty: True
        have "f t (?fr # frs) = Some r" using step(2) stack node(2) nd True b empty by (simp add: Let_def)
        from scan_okD [OF step(1) [OF this] rel held1 visits_refl] disk empty show ?thesis by simp
      next
        case False
        show ?thesis unfolding disk using False
          by (simp only: if_False) (rule scan_child_sim [where f = f, OF step(1) rel held1 c(4,3)], simp, use step(2) stack node(2) nd True b False c(1) in \<open>simp add: Let_def\<close>)
      qed
    next
      case False
      obtain ms where ms: "bt_range (bound_as_slice (f_lo fr)) (bound_as_slice (f_hi fr)) b = Some ms"
        using step(2) stack node(2) nd False by (auto simp: Let_def elim!: bind_SomeE)
      let ?acc = "fold (\<lambda>(k, m). fold_message k m) ms (f_acc fr)"
      have disk: "disk_scan_loop E dstack s = (case dfrs of [] \<Rightarrow> ok ?acc s | parent # dfrs \<Rightarrow> disk_scan_loop E (parent\<lparr>f_acc := bt_append (f_acc parent) ?acc\<rparr> # dfrs) s)"
        using n cs(1) len False ms unfolding d(1) by (subst disk_scan_loop.simps) (simp add: Let_def)
      show ?thesis
      proof (cases frs)
        case Nil
        then have "dfrs = []" using held' by (simp add: frames_held_def)
        then show ?thesis using disk step(2) stack node(2) nd False ms Nil rel by (auto simp: Let_def)
      next
        case (Cons parent frs')
        then obtain pid dfrs' where dp: "dfrs = parent\<lparr>f_id := pid\<rparr> # dfrs'" "m (f_id parent) = AtSlot pid" using held' by (auto simp: frames_held_def list_all2_Cons1 frame_match_def)
        have "frames_held L s m (parent\<lparr>f_acc := bt_append (f_acc parent) ?acc\<rparr> # frs') ((parent\<lparr>f_id := pid\<rparr>)\<lparr>f_acc := bt_append (f_acc parent) ?acc\<rparr> # dfrs')"
          using held' Cons dp by (auto simp: frames_held_def frame_match_def)
        moreover have "f t (parent\<lparr>f_acc := bt_append (f_acc parent) ?acc\<rparr> # frs') = Some r"
          using step(2) stack node(2) nd False ms Cons by (simp add: Let_def)
        ultimately show ?thesis using scan_okD [OF step(1) rel _ visits_refl] disk dp by simp
      qed
    qed
  qed
qed

lemma try_scan_sim:
  assumes step: "in_step g (rds s) s t" and run: "betree_scan lo hi t = Some (Inr r, t')"
  shows "\<exists>s'. try_scan E lo hi s = ok r s' \<and> in_step g (rds s') s' t' \<and> kept_frame s s'"
proof -
  obtain L m where rest: "at_rest g (rds s) L s t m" using step by (auto simp: in_step_def)
  have rel: "related (rds s) {#t_root t#} L s t m" and m: "m (t_root t) = AtSlot (d_root s)" using rest by (simp_all add: at_rest_def)
  let ?s = "s\<lparr>d_trace := rec_scan lo hi (d_trace s)\<rparr>" and ?t = "t\<lparr>t_trace := rec_scan lo hi (t_trace t)\<rparr>"
  have rel1: "related (rds ?s) {#t_root t#} L ?s ?t m"
    using related_fields [OF rel, of ?s ?t] rel by (auto simp: related_def sim_def same_fields_def d_fields_def t_fields_def)
  then have rest1: "at_rest g (rds ?s) L ?s ?t m" using rest by (auto simp: at_rest_def grey_def)
  have fin: ?thesis if "try_scan E lo hi s = ok r s'" "related (rds s') {#t_root t#} L s' ?t m'" "visits L m ?s m' s' []" "t' = ?t" for s' m'
    using visits_at_rest [OF rest1 _ that(3)] that kept_frame_trans [of s ?s s'] by (auto simp: in_step_def)
  show ?thesis
  proof (cases "range_is_empty lo hi")
    case True
    show ?thesis by (rule fin [OF _ rel1 visits_refl]) (use run True in \<open>auto simp: betree_scan_def try_scan_def Let_def\<close>)
  next
    case False
    obtain s1 m1 n where l: "ensure_loaded E (d_root s) [] ?s = ok () s1" "related (rds s1) {#t_root t#} L s1 ?t m1" "visits L m ?s m1 s1 []"
      "m1 (t_root t) = AtSlot (d_root s)" "resident_at s1 (d_root s)" "loaded s1 (d_root s) = Some n" "node_match m1 (t_nodes t ! t_root t) n"
      "node_at ?t (t_root t) = Some (t_nodes t ! t_root t)"
      using load_sim [OF rel1 at_rest_root [OF rest] m, of "[]"] by auto
    have root: "d_root s1 = d_root s" using outer_kept [of s1 ?s] l(3) by (simp add: visits_def)
    show ?thesis
    proof (cases "t_nodes t ! t_root t")
      case (Leaf es)
      show ?thesis by (rule fin [OF _ l(2,3)])
          (use run False l(1,6,7,8) Leaf root in \<open>auto simp: betree_scan_def try_scan_def Let_def elim!: bind_SomeE\<close>)
    next
      case (Internal ps as b)
      then obtain cs where cs: "n = Internal ps cs b" using l(7) by auto
      let ?fr = "\<lambda>i. \<lparr>f_id = i, f_lo = lo, f_hi = hi, f_next_child = 0, f_acc = []\<rparr>"
      have sc: "scan_loop ?t [?fr (t_root t)] = Some r" "t' = ?t"
        using run False l(8) Internal by (auto simp: betree_scan_def Let_def elim!: bind_SomeE)
      have "frames_held L s1 m1 [?fr (t_root t)] [?fr (d_root s)]" using l(4,5) at_rest_root [OF rest] by (simp add: frames_held_def frame_match_def)
      from scan_okD [OF scan_loop_sim [OF sc(1)] l(2) this l(3)] obtain s' m' where
        "disk_scan_loop E [?fr (d_root s)] s1 = ok r s'" "related (rds s') {#t_root t#} L s' ?t m'" "visits L m ?s m' s' []" by blast
      then show ?thesis using fin sc(2) False l(1,6) cs root by (auto simp: try_scan_def Let_def)
    qed
  qed
qed

end

end
