(* ===== verification/Disk_Commit.thy ===== *)
theory Disk_Commit
  imports Disk_File Vfs_Crash
begin

text \<open>
  The commit protocol on the crash-injection device. The file of an engine that committed once holds
  two superblock slots: the newest generation in the slot of its parity, and in the other slot nothing
  or an older one (\<open>image_ok\<close>). A commit appends records behind the watermark, syncs, writes the
  other slot and syncs again; at every point in between, whatever a crash does to the writes that are
  not yet synced, the file still recovers to the old generation or to the new one.
\<close>

section \<open>Crash images\<close>

text \<open>The files that a crash now can leave.\<close>
definition crash_images :: "faulty_state \<Rightarrow> bytes set" where
  "crash_images v = {img. \<exists>fates. crash_image_at v (log_len v) fates = Some img}"

lemma crash_images_eq:
  "faulty_ok v \<Longrightarrow> crash_images v = range (\<lambda>fates. fold fated (with_fates (window v) fates False) (fs_durable v))"
  by (auto simp: crash_images_def crash_image_window)

lemma crash_images_settled: "faulty_ok v \<Longrightarrow> window v = [] \<Longrightarrow> crash_images v = {fs_durable v}"
  by (auto simp: crash_images_eq)

text \<open>Every crash between two states of the device leaves a file with the property.\<close>
definition safe_run :: "(bytes \<Rightarrow> bool) \<Rightarrow> faulty_state \<Rightarrow> faulty_state \<Rightarrow> bool" where
  "safe_run P v v' \<longleftrightarrow> (\<exists>es. fs_log v' = fs_log v @ es) \<and> fs_initial v' = fs_initial v \<and> faulty_ok v' \<and>
     (\<forall>pos fates. log_len v \<le> pos \<and> pos \<le> log_len v' \<longrightarrow> (\<exists>img. crash_image_at v' pos fates = Some img \<and> P img))"

lemma crash_image_prefix:
  "fs_log v' = fs_log v @ es \<Longrightarrow> fs_initial v' = fs_initial v \<Longrightarrow> pos \<le> log_len v \<Longrightarrow>
     crash_image_at v' pos fates = crash_image_at v pos fates"
  by (simp add: crash_image_eq log_len_def)

lemma safe_run_trans:
  assumes "safe_run P va vb" "safe_run P vb vc"
  shows "safe_run P va vc"
proof -
  obtain es fs where log: "fs_log vb = fs_log va @ es" "fs_log vc = fs_log vb @ fs"
    and ini: "fs_initial vc = fs_initial vb" using assms by (auto simp: safe_run_def)
  have "\<exists>img. crash_image_at vc pos fates = Some img \<and> P img" if "log_len va \<le> pos" "pos \<le> log_len vc" for pos fates
  proof (cases "pos \<le> log_len vb")
    case True
    then show ?thesis using assms(1) that crash_image_prefix [OF log(2) ini True] by (simp add: safe_run_def)
  qed (use assms(2) that in \<open>auto simp: safe_run_def\<close>)
  then show ?thesis using assms log by (auto simp: safe_run_def)
qed

lemma safe_run_now:
  assumes "safe_run P v v'" "img \<in> crash_images v'"
  shows "P img"
proof -
  obtain fates where "crash_image_at v' (log_len v') fates = Some img" using assms(2) by (auto simp: crash_images_def)
  moreover have "log_len v \<le> log_len v'" using assms(1) by (auto simp: safe_run_def log_len_def)
  ultimately show ?thesis using assms(1) unfolding safe_run_def by (metis le_refl option.inject)
qed

lemma safe_run_refl: "faulty_ok v \<Longrightarrow> \<forall>img\<in>crash_images v. P img \<Longrightarrow> safe_run P v v"
  by (auto simp: safe_run_def crash_images_eq crash_image_window dest!: le_antisym)

lemma safe_run_mono: "safe_run P v v' \<Longrightarrow> (\<And>img. P img \<Longrightarrow> Q img) \<Longrightarrow> safe_run Q v v'"
  unfolding safe_run_def by meson

lemma safe_run_step:
  assumes "faulty_ok v" "faulty_ok v'" "fs_log v' = fs_log v @ [e]" "fs_initial v' = fs_initial v"
    and "\<forall>img\<in>crash_images v. P img" "\<forall>img\<in>crash_images v'. P img"
  shows "safe_run P v v'"
proof -
  have "\<exists>img. crash_image_at v' pos fates = Some img \<and> P img" if "log_len v \<le> pos" "pos \<le> log_len v'" for pos fates
  proof (cases "pos = log_len v'")
    case True
    then show ?thesis using assms(2,6) by (auto simp: crash_images_def crash_image_window)
  next
    case False
    then have "pos = log_len v" using that assms(3) by (simp add: log_len_def)
    then show ?thesis using assms(1,5) crash_image_prefix [OF assms(3,4)] by (auto simp: crash_images_def crash_image_window)
  qed
  then show ?thesis using assms by (auto simp: safe_run_def)
qed

text \<open>A sync decides one of the possible images, whether it succeeds or fails.\<close>

lemma sync_outcome:
  assumes "faulty_ok v"
  shows "\<exists>r v'. faulty_sync v = Some (r, v') \<and> faulty_ok v' \<and> window v' = [] \<and> fs_durable v' \<in> crash_images v \<and>
    fs_initial v' = fs_initial v \<and> (fs_fail_sync v = None \<longrightarrow> r = Inr () \<and> fs_fail_sync v' = None) \<and>
    (case r of Inr _ \<Rightarrow> fs_log v' = fs_log v @ [SyncOk] \<and> fs_view v' = fs_view v \<and>
        fs_durable v' = fold fated (with_fates (window v) [] True) (fs_durable v)
     | Inl e \<Rightarrow> (\<exists>fates. fs_log v' = fs_log v @ [SyncFailed fates]))"
proof (cases "\<exists>fates. fs_fail_sync v = Some (0, fates)")
  case True
  then show ?thesis using sync_failed_ok [OF assms] by (fastforce simp: crash_images_eq [OF assms])
next
  case False
  define t where "t = (case fs_fail_sync v of None \<Rightarrow> v | Some (skip, fates) \<Rightarrow> v\<lparr>fs_fail_sync := Some (skip - 1, fates)\<rparr>)"
  have t: "faulty_ok t" "window t = window v" "fs_durable t = fs_durable v" "fs_view t = fs_view v"
    "fs_log t = fs_log v" "fs_initial t = fs_initial v" "fs_fail_sync v = None \<Longrightarrow> fs_fail_sync t = None"
    using assms by (auto simp: t_def faulty_ok_fail split: option.split)
  have run: "faulty_sync v = sync_window t" using False by (auto simp: faulty_sync_def t_def split: option.split)
  have "fold fated (with_fates (window v) [] True) (fs_durable v) \<in> crash_images v"
    unfolding crash_images_eq [OF assms] by (rule image_eqI [of _ _ "[]"]) (simp_all add: with_fates_none)
  then show ?thesis using sync_window_ok [OF t(1)] run t by (auto intro!: exI [of _ "Inr ()"])
qed

definition no_failed_sync :: "faulty_state \<Rightarrow> bool" where
  "no_failed_sync v \<longleftrightarrow> (\<forall>e\<in>set (fs_log v). \<forall>fates. e \<noteq> SyncFailed fates)"

text \<open>One write and one sync: a crash leaves a file as before the write or one with the write under a fate.\<close>

lemma write_sync_safe:
  assumes ok: "faulty_ok v" "no_failed_sync v" and free: "\<forall>e\<in>set (window v). \<not> overlaps off bs e"
    and P: "\<forall>img\<in>crash_images v. \<forall>f. P (apply_write f img off bs)"
  obtains va r vb where "faulty_write off bs v = Some (Inr (), va)" "faulty_sync va = Some (r, vb)" "safe_run P v vb"
    "window vb = []" "r = Inr () \<Longrightarrow> no_failed_sync vb \<and> fs_view vb = write_at (fs_view v) off bs \<and> fs_durable vb = fs_view vb"
    "fs_fail_sync v = None \<Longrightarrow> r = Inr () \<and> fs_fail_sync vb = None"
proof -
  define va where "va = v\<lparr>fs_view := write_at (fs_view v) off bs, fs_log := fs_log v @ [LogWrite off bs]\<rparr>"
  have w: "faulty_write off bs v = Some (Inr (), va)" using free by (simp add: faulty_write_def va_def window_def)
  have ok1: "faulty_ok va" by (rule faulty_ok_append [OF ok(1), of "LogWrite off bs"]) (use free in \<open>auto simp: va_def\<close>)
  have win: "window va = window v @ [LogWrite off bs]" by (rule window_append [OF ok(1)]) (simp_all add: va_def)
  have P0: "\<forall>img\<in>crash_images v. P img" using P by (metis apply_write.simps(1))
  have P1: "\<forall>img\<in>crash_images va. P img"
  proof
    fix img assume "img \<in> crash_images va"
    then obtain fates where "img = fold fated (with_fates (window v @ [LogWrite off bs]) fates False) (fs_durable v)"
      unfolding crash_images_eq [OF ok1] win by (auto simp: va_def)
    then have "img = apply_write (fate_at fates False (length (window v))) (fold fated (with_fates (window v) fates False) (fs_durable v)) off bs"
      by (simp add: with_fates_snoc)
    then show "P img" using P by (auto simp: crash_images_eq [OF ok(1)])
  qed
  have safe1: "safe_run P v va" by (rule safe_run_step [OF ok(1) ok1 _ _ P0 P1]) (simp_all add: va_def)
  obtain r vb where s: "faulty_sync va = Some (r, vb)" "faulty_ok vb" "window vb = []" "fs_durable vb \<in> crash_images va"
    "fs_initial vb = fs_initial va" "fs_fail_sync va = None \<longrightarrow> r = Inr () \<and> fs_fail_sync vb = None" and log: "\<exists>e. fs_log vb = fs_log va @ [e]"
    and good: "r = Inr () \<Longrightarrow> fs_log vb = fs_log va @ [SyncOk] \<and> fs_view vb = fs_view va \<and>
      fs_durable vb = fold fated (with_fates (window va) [] True) (fs_durable va)"
  proof -
    obtain r vb where o': "faulty_sync va = Some (r, vb)" "faulty_ok vb" "window vb = []" "fs_durable vb \<in> crash_images va"
      "fs_initial vb = fs_initial va" "fs_fail_sync va = None \<longrightarrow> r = Inr () \<and> fs_fail_sync vb = None" and c: "case r of Inr _ \<Rightarrow> fs_log vb = fs_log va @ [SyncOk] \<and> fs_view vb = fs_view va \<and>
        fs_durable vb = fold fated (with_fates (window va) [] True) (fs_durable va)
      | Inl e \<Rightarrow> (\<exists>fates. fs_log vb = fs_log va @ [SyncFailed fates])"
      using sync_outcome [OF ok1] by metis
    show thesis by (rule that [OF o']) (use c in \<open>cases r; auto\<close>)+
  qed
  have "\<forall>img\<in>crash_images vb. P img" using P1 s(4) by (simp add: crash_images_settled [OF s(2,3)])
  then have "safe_run P va vb" using log safe_run_step [OF ok1 s(2) _ s(5) P1] by blast
  with safe1 have "safe_run P v vb" by (rule safe_run_trans)
  moreover have "no_failed_sync vb \<and> fs_view vb = write_at (fs_view v) off bs \<and> fs_durable vb = fs_view vb" if "r = Inr ()"
    using good [OF that] ok s(2,3) by (auto simp: no_failed_sync_def va_def faulty_ok_def)
  moreover have "fs_fail_sync v = None \<Longrightarrow> r = Inr () \<and> fs_fail_sync vb = None" using s(6) by (simp add: va_def)
  ultimately show thesis by (intro that [OF w s(1) _ s(3)]) simp_all
qed

section \<open>Superblock slots of a file\<close>

definition slot_at :: "codec \<Rightarrow> bytes \<Rightarrow> nat \<Rightarrow> slot_status" where
  "slot_at cd img off =
     (if length img < off + SUPERBLOCK_SLOT_SIZE then Invalid else decode_slot cd (take SUPERBLOCK_SLOT_SIZE (drop off img)))"

text \<open>The slot that the generation before and the generation after use.\<close>
definition other_slot :: "u64 \<Rightarrow> nat" where
  "other_slot g = publish_slot (g + 1)"

lemma publish_slot_eq: "publish_slot g = (if even g then 0 else 4096)"
  by (simp add: publish_slot_def SUPERBLOCK_SLOTS_def SUPERBLOCK_SLOT_SIZE_def mod2_eq_if)

lemma other_slot_eq: "other_slot g = 4096 - publish_slot g"
  by (simp add: other_slot_def publish_slot_eq)

lemma other_slot_next: "other_slot (g + 1) = publish_slot g"
  by (simp add: other_slot_eq publish_slot_eq)

text \<open>A file from which a generation is recovered: it is in its slot, its data region is there, and
  the other slot holds nothing or something older.\<close>
definition image_ok :: "codec \<Rightarrow> bytes \<Rightarrow> superblock \<Rightarrow> bool" where
  "image_ok cd img sb \<longleftrightarrow> slot_at cd img (publish_slot (sb_generation sb)) = Valid sb \<and>
     unat (sb_watermark sb) \<le> length img \<and>
     (case slot_at cd img (other_slot (sb_generation sb)) of
        Valid old \<Rightarrow> sb_generation old < sb_generation sb | WrongVersion w \<Rightarrow> False | Invalid \<Rightarrow> True)"

lemma image_ok_superblock: "image_ok cd img sb \<Longrightarrow> superblock_ok sb"
  by (auto simp: image_ok_def slot_at_def split: if_split_asm dest: decode_slot_valid)

lemma superblock_ok_bounds:
  assumes "superblock_ok sb"
  shows "DATA_START \<le> unat (sb_root_offset sb)" "unat (sb_root_offset sb) + RECORD_HEADER_SIZE \<le> unat (sb_watermark sb)"
    "8192 \<le> unat (sb_watermark sb)"
  using assms geometry_ok_nat [of sb] by (auto simp: superblock_ok_def DATA_START_def SUPERBLOCK_SLOT_SIZE_def)

text \<open>Recovery opens such a file at that generation and cuts it at the watermark.\<close>

lemma open_image:
  assumes "image_ok cd img sb"
  shows "\<exists>v. open_on_with (faulty_env cd) (from_image img) bud pol = Some (Inr (opened sb bud pol v), v) \<and>
    v = (from_image img)\<lparr>fs_view := take (unat (sb_watermark sb)) img, fs_log := [LogSetLen (unat (sb_watermark sb))]\<rparr>"
proof -
  have len: "8192 \<le> length img" "unat (sb_watermark sb) \<le> length img"
    using superblock_ok_bounds(3) [OF image_ok_superblock [OF assms]] assms by (auto simp: image_ok_def)
  have rd: "faulty_read o' 4096 (from_image img) = Some (Inr (take 4096 (drop o' img)), from_image img)" if "o' \<le> 4096" for o'
    using that len by (simp add: faulty_read_def from_image_def faulty_new_def)
  have st: "slot_at cd img o' = decode_slot cd (take 4096 (drop o' img))" if "o' \<le> 4096" for o'
    using that len by (simp add: slot_at_def SUPERBLOCK_SLOT_SIZE_def)
  have scan: "scan_slots (faulty_env cd) (length img) SUPERBLOCK_SLOTS None None (from_image img) = Some (Inr (Some sb, None), from_image img)"
  proof (cases "even (sb_generation sb)")
    case True
    then show ?thesis using assms len rd [of 0] rd [of 4096] st [of 0] st [of 4096]
      by (auto simp: image_ok_def publish_slot_eq other_slot_eq SUPERBLOCK_SLOTS_def SUPERBLOCK_SLOT_SIZE_def FaultyVfs_def
          split: slot_status.split_asm)
  next
    case False
    then show ?thesis using assms len rd [of 0] rd [of 4096] st [of 0] st [of 4096]
      by (auto simp: image_ok_def publish_slot_eq other_slot_eq SUPERBLOCK_SLOTS_def SUPERBLOCK_SLOT_SIZE_def FaultyVfs_def
          split: slot_status.split_asm)
  qed
  have l: "vfs_len FaultyVfs (from_image img) = Some (Inr (length img), from_image img)"
    by (simp add: FaultyVfs_def faulty_len_def from_image_def faulty_new_def)
  have c: "set_len FaultyVfs n (from_image img) = Some (Inr (), (from_image img)\<lparr>fs_view := take n img, fs_log := [LogSetLen n]\<rparr>)"
    if "n \<le> length img" for n
    using that by (simp add: FaultyVfs_def faulty_set_len_def from_image_def faulty_new_def resize_def)
  show ?thesis using scan l c [OF len(2)] by (simp add: open_on_with_def)
qed

text \<open>Only the bytes below the watermark matter.\<close>

lemma image_ok_take:
  assumes "image_ok cd img sb" "take wm img' = take wm img" "wm \<le> length img'" "unat (sb_watermark sb) \<le> wm" "wm \<le> length img"
  shows "image_ok cd img' sb"
proof -
  have wm: "8192 \<le> wm" using superblock_ok_bounds(3) [OF image_ok_superblock [OF assms(1)]] assms(4) by simp
  have "take 4096 (drop o' img') = take 4096 (drop o' img)" if "o' \<le> 4096" for o'
  proof -
    have "take 4096 (drop o' (take wm f)) = take 4096 (drop o' f)" for f :: bytes
      using that wm by (simp add: drop_take min_def)
    then show ?thesis using assms(2) by metis
  qed
  then have "slot_at cd img' o' = slot_at cd img o'" if "o' \<le> 4096" for o'
    using that wm assms(3,5) by (simp add: slot_at_def SUPERBLOCK_SLOT_SIZE_def)
  then show ?thesis using assms(1,3,4) by (simp add: image_ok_def publish_slot_eq other_slot_eq)
qed

text \<open>Operations behind the watermark leave everything below it alone, whatever their fate.\<close>
fun beyond :: "nat \<Rightarrow> log_entry \<Rightarrow> bool" where
  "beyond wm (LogWrite off bs) = (wm \<le> off)"
| "beyond wm (LogSetLen n) = (wm \<le> n)"
| "beyond wm _ = False"

lemma write_at_beyond: "wm \<le> off \<Longrightarrow> wm \<le> length buf \<Longrightarrow> take wm (write_at buf off bs) = take wm buf"
  by (rule nth_equalityI) (auto simp: length_write_at nth_write_at)

lemma apply_write_beyond:
  "wm \<le> off \<Longrightarrow> wm \<le> length buf \<Longrightarrow> take wm (apply_write f buf off bs) = take wm buf \<and> wm \<le> length (apply_write f buf off bs)"
  by (cases f) (auto simp: write_at_beyond length_write_at)

lemma fated_beyond:
  "beyond wm e \<Longrightarrow> wm \<le> length buf \<Longrightarrow> take wm (fated (e, f) buf) = take wm buf \<and> wm \<le> length (fated (e, f) buf)"
  by (cases e) (auto simp: apply_write_beyond resize_def min_def)

lemma fold_beyond:
  "\<forall>(e, f)\<in>set es. beyond wm e \<Longrightarrow> wm \<le> length buf \<Longrightarrow>
     take wm (fold fated es buf) = take wm buf \<and> wm \<le> length (fold fated es buf)"
proof (induction es arbitrary: buf)
  case (Cons a es)
  then show ?case using fated_beyond [of wm "fst a" buf "snd a"] by (cases a) auto
qed simp

lemma crash_images_beyond:
  assumes "faulty_ok v" "\<forall>e\<in>set (window v). beyond wm e" "wm \<le> length (fs_durable v)" "img \<in> crash_images v"
  shows "take wm img = take wm (fs_durable v) \<and> wm \<le> length img"
proof -
  obtain fates where "img = fold fated (with_fates (window v) fates False) (fs_durable v)"
    using assms(4) by (auto simp: crash_images_eq [OF assms(1)])
  moreover have "\<forall>(e, f)\<in>set (with_fates (window v) fates False). beyond wm e" using assms(2) by (auto simp: with_fates_def)
  ultimately show ?thesis using fold_beyond assms(3) by blast
qed

section \<open>Publishing a slot\<close>

text \<open>The checksum detects a torn slot: a slot written over another one, of which a crash kept only a
  prefix or zeros, decodes to nothing, unless it decodes to what was there or to what was written.\<close>
definition torn_detected :: "codec \<Rightarrow> bytes \<Rightarrow> bytes \<Rightarrow> bool" where
  "torn_detected cd old new \<longleftrightarrow> decode_slot cd (replicate SUPERBLOCK_SLOT_SIZE 0) = Invalid \<and>
     (\<forall>k. decode_slot cd (take k new @ drop k old) \<in> {Invalid, decode_slot cd old, decode_slot cd new})"

definition slot_region :: "bytes \<Rightarrow> nat \<Rightarrow> bytes" where
  "slot_region img off = take SUPERBLOCK_SLOT_SIZE (drop off img)"

lemma slot_region_take: "off \<le> 4096 \<Longrightarrow> 8192 \<le> wm \<Longrightarrow> slot_region (take wm img) off = slot_region img off"
  by (simp add: slot_region_def SUPERBLOCK_SLOT_SIZE_def drop_take min_def)

lemma slot_at_bytes: "8192 \<le> length img \<Longrightarrow> off \<le> 4096 \<Longrightarrow> slot_at cd img off = decode_slot cd (slot_region img off)"
  by (simp add: slot_at_def slot_region_def SUPERBLOCK_SLOT_SIZE_def)

lemma publish_range: "publish_slot g \<le> 4096" "other_slot g \<le> 4096"
  by (simp_all add: publish_slot_eq other_slot_eq)

lemma write_at_inside:
  assumes "off + length bs \<le> length img"
  shows "write_at img off bs = take off img @ bs @ drop (off + length bs) img"
  using assms by (simp add: write_at_def)

lemma slot_write:
  assumes "8192 \<le> length img" "length bs \<le> 4096"
  shows "length (write_at img (publish_slot g) bs) = length img"
    "drop 8192 (write_at img (publish_slot g) bs) = drop 8192 img"
    "slot_region (write_at img (publish_slot g) bs) (other_slot g) = slot_region img (other_slot g)"
    "slot_region (write_at img (publish_slot g) bs) (publish_slot g) = bs @ drop (length bs) (slot_region img (publish_slot g))"
proof -
  have w: "write_at img (publish_slot g) bs = take (publish_slot g) img @ bs @ drop (publish_slot g + length bs) img"
    using assms publish_range(1) [of g] by (intro write_at_inside) simp
  show "length (write_at img (publish_slot g) bs) = length img"
    using assms publish_range(1) [of g] by (simp add: length_write_at)
  show "drop 8192 (write_at img (publish_slot g) bs) = drop 8192 img"
    using assms publish_range(1) [of g] by (simp add: w min_def)
  show "slot_region (write_at img (publish_slot g) bs) (other_slot g) = slot_region img (other_slot g)"
    unfolding slot_region_def
    by (rule take_drop_write_other) (use assms in \<open>auto simp: SUPERBLOCK_SLOT_SIZE_def publish_slot_eq other_slot_eq disjoint_ranges_def\<close>)
  show "slot_region (write_at img (publish_slot g) bs) (publish_slot g) = bs @ drop (length bs) (slot_region img (publish_slot g))"
    using assms publish_range(1) [of g]
    by (simp add: w slot_region_def SUPERBLOCK_SLOT_SIZE_def min_def drop_take add.commute)
qed

text \<open>Under any fate, a slot write changes only its slot.\<close>

lemma slot_write_fated:
  assumes "8192 \<le> length img" "length bs = SUPERBLOCK_SLOT_SIZE" "torn_detected cd (slot_region img (publish_slot g)) bs"
  shows "length (apply_write f img (publish_slot g) bs) = length img"
    "drop 8192 (apply_write f img (publish_slot g) bs) = drop 8192 img"
    "slot_at cd (apply_write f img (publish_slot g) bs) (other_slot g) = slot_at cd img (other_slot g)"
    "slot_at cd (apply_write f img (publish_slot g) bs) (publish_slot g) \<in> {Invalid, slot_at cd img (publish_slot g), decode_slot cd bs}"
proof -
  have len: "length bs = 4096" using assms(2) by (simp add: SUPERBLOCK_SLOT_SIZE_def)
  define ds where "ds = (case f of Drop \<Rightarrow> [] | Apply \<Rightarrow> bs | Zero \<Rightarrow> replicate 4096 0 | Tear seed \<Rightarrow> take (unat seed mod 4097) bs)"
  have km: "n mod 4097 \<le> 4096" for n :: nat using mod_less_divisor [of 4097 n] by linarith
  then have le: "length ds \<le> 4096" using len by (simp add: ds_def split: fate.split)
  have same: "apply_write f img (publish_slot g) bs = write_at img (publish_slot g) ds"
    using len assms(1) publish_range(1) [of g] by (cases f) (auto simp: ds_def write_at_def)
  note w = slot_write [OF assms(1) le, of g]
  show "length (apply_write f img (publish_slot g) bs) = length img" "drop 8192 (apply_write f img (publish_slot g) bs) = drop 8192 img"
    using w same by auto
  show "slot_at cd (apply_write f img (publish_slot g) bs) (other_slot g) = slot_at cd img (other_slot g)"
    using w(1,3) same assms(1) publish_range by (simp add: slot_at_bytes)
  let ?old = "slot_region img (publish_slot g)"
  have old: "length ?old = 4096" using assms(1) publish_range(1) [of g] by (simp add: slot_region_def SUPERBLOCK_SLOT_SIZE_def)
  have "decode_slot cd (ds @ drop (length ds) ?old) \<in> {Invalid, decode_slot cd ?old, decode_slot cd bs}"
  proof (cases f)
    case (Tear seed)
    let ?k = "unat seed mod 4097"
    have "length ds = ?k" using len Tear km by (simp add: ds_def)
    then show ?thesis using assms(3) Tear by (simp add: ds_def torn_detected_def)
  qed (use assms(3) old len in \<open>auto simp: ds_def torn_detected_def SUPERBLOCK_SLOT_SIZE_def\<close>)
  then show "slot_at cd (apply_write f img (publish_slot g) bs) (publish_slot g) \<in> {Invalid, slot_at cd img (publish_slot g), decode_slot cd bs}"
    using w(1,4) same assms(1) publish_range by (simp add: slot_at_bytes)
qed

lemma next_generation_less: "(g :: u64) + 1 \<noteq> 0 \<Longrightarrow> g < g + 1"
  by unat_arith

text \<open>The old generation stays recoverable until the new slot is complete, and then the new one is.\<close>

lemma publish_fated:
  assumes img: "image_ok cd img sb" and len: "length bs = SUPERBLOCK_SLOT_SIZE" and new: "decode_slot cd bs = Valid sb'"
    and gen: "sb_generation sb' = sb_generation sb + 1" "sb_generation sb' \<noteq> 0" and wm: "unat (sb_watermark sb') \<le> length img"
    and torn: "torn_detected cd (slot_region img (publish_slot (sb_generation sb'))) bs"
  defines "after \<equiv> \<lambda>f. apply_write f img (publish_slot (sb_generation sb')) bs"
  shows "image_ok cd (after f) sb \<or> image_ok cd (after f) sb'" "image_ok cd (after Apply) sb'" "drop 8192 (after f) = drop 8192 img"
    "length (after f) = length img"
proof -
  let ?g = "sb_generation sb"
  have big: "8192 \<le> length img" using img superblock_ok_bounds(3) [OF image_ok_superblock [OF img]] by (simp add: image_ok_def)
  have slots: "publish_slot (sb_generation sb') = other_slot ?g" "other_slot (sb_generation sb') = publish_slot ?g"
    by (simp_all add: gen other_slot_next) (simp add: other_slot_def)
  note w = slot_write_fated [OF big len torn]
  have same: "length (after f) = length img" for f by (simp add: after_def w)
  then show "drop 8192 (after f) = drop 8192 img" "length (after f) = length img" by (simp_all add: after_def w)
  have lt: "?g < sb_generation sb'" using gen next_generation_less by simp
  have old: "slot_at cd (after f) (publish_slot ?g) = Valid sb" for f
    using w(3) img slots by (simp add: after_def image_ok_def)
  have new_ok: "image_ok cd (after f) sb'" if "slot_at cd (after f) (other_slot ?g) = Valid sb'" for f
    using that old lt wm same by (simp add: image_ok_def slots)
  have st: "slot_at cd (after f) (other_slot ?g) \<in> {Invalid, slot_at cd img (other_slot ?g), Valid sb'}" for f
    using w(4) new slots by (simp add: after_def)
  show "image_ok cd (after f) sb \<or> image_ok cd (after f) sb'"
    using st [of f] new_ok [of f] old [of f] img same by (auto simp: image_ok_def split: slot_status.split_asm)
  have "slot_at cd (after Apply) (other_slot ?g) = Valid sb'"
    using slot_write(1,4) [OF big, of bs "sb_generation sb'"] len new slots big publish_range
    by (simp add: after_def slot_at_bytes SUPERBLOCK_SLOT_SIZE_def slot_region_def)
  then show "image_ok cd (after Apply) sb'" by (rule new_ok)
qed

section \<open>Commit\<close>

text \<open>The part of a commit that does not touch the device.\<close>
definition commit_plan :: "'v env \<Rightarrow> ('v, 'p) disk_engine \<Rightarrow>
    (disk_error + bytes \<times> (node_id, nat) btmap \<times> (node_id, nat) btmap) option" where
  "commit_plan E s = do {
     d \<leftarrow> is_dirty s (d_root s);
     pre \<leftarrow> (if d then disk_dirty_walk s [d_root s] else Some []);
     serialize_nodes E s (rev pre) [] [] []
   }"

lemma commit_inner_plan:
  "commit_inner E s = do {
     r \<leftarrow> commit_plan E s;
     case r of
       Inl e \<Rightarrow> err e s
     | Inr (buf, assigned, record_lens) \<Rightarrow>
         and_then (commit_data E buf s) (\<lambda>_ s. do {
           root_offset \<leftarrow> resolve_offset s assigned (d_root s);
           and_then (commit_publish E (new_superblock s root_offset (d_watermark s + length buf)) s)
             (\<lambda>_ s. commit_adopt buf assigned record_lens s)
         })
   }"
  by (simp add: commit_inner_def commit_plan_def)

text \<open>An engine whose device holds a committed generation: nothing but a cut of the file behind the
  watermark is pending.\<close>
definition durable :: "codec \<Rightarrow> (faulty_state, 'p) disk_engine \<Rightarrow> superblock \<Rightarrow> bool" where
  "durable cd s sb \<longleftrightarrow> faulty_ok (d_vfs s) \<and> no_failed_sync (d_vfs s) \<and>
     (\<forall>e\<in>set (window (d_vfs s)). \<exists>n. e = LogSetLen n \<and> d_watermark s \<le> n) \<and>
     image_ok cd (fs_durable (d_vfs s)) sb \<and> d_watermark s = unat (sb_watermark sb) \<and>
     d_next_generation s = sb_generation sb + 1 \<and> d_params s = sb_params sb"

text \<open>What a crash leaves: the old generation with its records, or the new one with the records of the commit.\<close>
definition recovers_old :: "codec \<Rightarrow> (faulty_state, 'p) disk_engine \<Rightarrow> superblock \<Rightarrow> bytes \<Rightarrow> bool" where
  "recovers_old cd s sb img \<longleftrightarrow> image_ok cd img sb \<and> data (d_watermark s) img = data (d_watermark s) (fs_view (d_vfs s))"

definition recovers_new :: "codec \<Rightarrow> (faulty_state, 'p) disk_engine \<Rightarrow> bytes \<Rightarrow> superblock \<Rightarrow> bytes \<Rightarrow> bool" where
  "recovers_new cd s buf sb' img \<longleftrightarrow> image_ok cd img sb' \<and>
     extends (fs_view (d_vfs s)) (d_watermark s) buf img (unat (sb_watermark sb'))"

lemma durableD:
  assumes "durable cd s sb"
  shows "faulty_ok (d_vfs s)" "no_failed_sync (d_vfs s)" "\<forall>e\<in>set (window (d_vfs s)). beyond (d_watermark s) e"
    "\<forall>e\<in>set (window (d_vfs s)). \<not> overlaps off bs e" "8192 \<le> d_watermark s" "d_watermark s \<le> length (fs_durable (d_vfs s))"
    "superblock_ok sb"
  using assms superblock_ok_bounds(3) image_ok_superblock [of cd "fs_durable (d_vfs s)" sb]
  by (auto simp: durable_def image_ok_def)

lemma durable_images:
  assumes "durable cd s sb" "img \<in> crash_images (d_vfs s)"
  shows "image_ok cd img sb \<and> d_watermark s \<le> length img \<and> take (d_watermark s) img = take (d_watermark s) (fs_durable (d_vfs s))"
proof -
  note d = durableD [OF assms(1)]
  have t: "take (d_watermark s) img = take (d_watermark s) (fs_durable (d_vfs s)) \<and> d_watermark s \<le> length img"
    by (rule crash_images_beyond [OF d(1,3,6) assms(2)])
  then show ?thesis using image_ok_take [of cd "fs_durable (d_vfs s)" sb "d_watermark s" img] assms(1) d(6) by (simp add: durable_def)
qed

lemma durable_view:
  assumes "durable cd s sb"
  shows "fs_view (d_vfs s) \<in> crash_images (d_vfs s)"
    "take (d_watermark s) (fs_view (d_vfs s)) = take (d_watermark s) (fs_durable (d_vfs s))" "d_watermark s \<le> length (fs_view (d_vfs s))"
proof -
  note d = durableD [OF assms]
  have "fs_view (d_vfs s) = fold fated (with_fates (window (d_vfs s)) [] True) (fs_durable (d_vfs s))"
    using d(1,2) by (simp add: faulty_ok_def no_failed_sync_def)
  then show view: "fs_view (d_vfs s) \<in> crash_images (d_vfs s)"
    unfolding crash_images_eq [OF d(1)] by (intro image_eqI [of _ _ "[]"]) (simp_all add: with_fates_none with_fates_all)
  show "take (d_watermark s) (fs_view (d_vfs s)) = take (d_watermark s) (fs_durable (d_vfs s))" "d_watermark s \<le> length (fs_view (d_vfs s))"
    using durable_images [OF assms view] by auto
qed

text \<open>Steps 1 and 2.\<close>

lemma data_stage:
  assumes "durable cd s sb"
  shows "\<exists>r v. commit_data (faulty_env cd) buf s = Some (r, s\<lparr>d_vfs := v\<rparr>) \<and> safe_run (recovers_old cd s sb) (d_vfs s) v \<and>
    window v = [] \<and> (fs_fail_sync (d_vfs s) = None \<longrightarrow> r = Inr () \<and> fs_fail_sync v = None) \<and>
    (r = Inr () \<longrightarrow> no_failed_sync v \<and> fs_durable v = fs_view v \<and>
      fs_view v = (if buf = [] then fs_view (d_vfs s) else write_at (fs_view (d_vfs s)) (d_watermark s) buf))"
proof -
  note d = durableD [OF assms]
  let ?v = "d_vfs s" and ?wm = "d_watermark s"
  have old: "recovers_old cd s sb img'" if "take ?wm img' = take ?wm (fs_durable ?v)" "?wm \<le> length img'" for img'
    using that durable_view(2) [OF assms] image_ok_take [of cd "fs_durable ?v" sb ?wm img'] assms d(6)
    by (simp add: recovers_old_def durable_def data_def)
  have now: "\<forall>img\<in>crash_images ?v. recovers_old cd s sb img" using durable_images [OF assms] old by blast
  show ?thesis
  proof (cases "buf = []")
    case True
    obtain r v where v: "faulty_sync ?v = Some (r, v)" "faulty_ok v" "window v = []" "fs_durable v \<in> crash_images ?v"
      "fs_initial v = fs_initial ?v" "fs_fail_sync ?v = None \<longrightarrow> r = Inr () \<and> fs_fail_sync v = None" and c: "case r of Inr _ \<Rightarrow> fs_log v = fs_log ?v @ [SyncOk] \<and> fs_view v = fs_view ?v \<and>
        fs_durable v = fold fated (with_fates (window ?v) [] True) (fs_durable ?v)
      | Inl e \<Rightarrow> (\<exists>fates. fs_log v = fs_log ?v @ [SyncFailed fates])"
      using sync_outcome [OF d(1)] by metis
    obtain e where "fs_log v = fs_log ?v @ [e]" using c by (cases r) auto
    then have "safe_run (recovers_old cd s sb) ?v v"
      using now v by (intro safe_run_step [OF d(1) v(2)]) (auto simp: crash_images_settled)
    moreover have "no_failed_sync v \<and> fs_durable v = fs_view v \<and> fs_view v = fs_view ?v" if "r = Inr ()"
      using that c d(1,2) by (auto simp: no_failed_sync_def faulty_ok_def)
    ultimately show ?thesis using True v(1,3,6) by (auto simp: commit_data_def on_vfs_def FaultyVfs_def split: sum.split)
  next
    case False
    have P: "\<forall>img\<in>crash_images ?v. \<forall>f. recovers_old cd s sb (apply_write f img ?wm buf)"
    proof (intro ballI allI)
      fix img f assume "img \<in> crash_images ?v"
      then have "take ?wm img = take ?wm (fs_durable ?v)" "?wm \<le> length img" using durable_images [OF assms] by blast+
      with apply_write_beyond [of ?wm ?wm img f buf] show "recovers_old cd s sb (apply_write f img ?wm buf)" by (intro old) auto
    qed
    obtain v1' r v2' where w: "faulty_write ?wm buf ?v = Some (Inr (), v1')" "faulty_sync v1' = Some (r, v2')"
      "safe_run (recovers_old cd s sb) ?v v2'" "window v2' = []"
      "r = Inr () \<Longrightarrow> no_failed_sync v2' \<and> fs_view v2' = write_at (fs_view ?v) ?wm buf \<and> fs_durable v2' = fs_view v2'"
      "fs_fail_sync ?v = None \<Longrightarrow> r = Inr () \<and> fs_fail_sync v2' = None"
      by (rule write_sync_safe [OF d(1,2,4) P]) (rule that; simp)
    then show ?thesis using False by (auto simp: commit_data_def on_vfs_def FaultyVfs_def split: sum.split)
  qed
qed

lemma data_stage_file:
  assumes "durable cd s sb" "F' = (if buf = [] then fs_view (d_vfs s) else write_at (fs_view (d_vfs s)) (d_watermark s) buf)"
  shows "extends (fs_view (d_vfs s)) (d_watermark s) buf F' (d_watermark s + length buf)" "image_ok cd F' sb"
proof -
  let ?wm = "d_watermark s" and ?F = "fs_view (d_vfs s)"
  note v = durable_view [OF assms(1)]
  have t: "take ?wm F' = take ?wm ?F" "?wm + length buf \<le> length F'"
    using v(3) assms(2) write_at_beyond [of ?wm ?wm ?F buf] by (auto simp: length_write_at)
  then show "extends ?F ?wm buf F' (?wm + length buf)"
    using assms(2) take_drop_write_at [of "length buf" buf ?wm ?F] by (simp add: extends_def data_def)
  have "image_ok cd ?F sb" using durable_images [OF assms(1) v(1)] by simp
  from image_ok_take [OF this t(1)] t(2) v(3) show "image_ok cd F' sb" using assms(1) by (simp add: durable_def)
qed

lemma extends_tail:
  assumes "extends F wm buf img wm'" "drop 8192 img' = drop 8192 img" "length img' = length img" "8192 \<le> wm"
  shows "extends F wm buf img' wm'"
proof -
  have "take n (drop wm img') = take n (drop wm img)" for n
  proof -
    have "drop wm x = drop (wm - 8192) (drop 8192 x)" for x :: bytes using assms(4) by simp
    then show ?thesis using assms(2) by metis
  qed
  moreover have "data wm img' = data wm img"
    using assms(2) by (simp add: data_def DATA_START_def SUPERBLOCK_SLOT_SIZE_def drop_take)
  ultimately show ?thesis using assms(1,3) by (simp add: extends_def)
qed

lemma new_superblock_ok:
  assumes "params_legal (d_params s)" "DATA_START \<le> root" "root + RECORD_HEADER_SIZE \<le> wm" "wm < 2 ^ 64"
  shows "superblock_ok (new_superblock s root wm)" "unat (sb_watermark (new_superblock s root wm)) = wm"
    "unat (sb_root_offset (new_superblock s root wm)) = root"
proof -
  show "superblock_ok (new_superblock s root wm)"
    using assms geometry_ok_of_nat [of root wm "new_superblock s root wm"] by (simp add: superblock_ok_def new_superblock_def)
  show "unat (sb_watermark (new_superblock s root wm)) = wm" "unat (sb_root_offset (new_superblock s root wm)) = root"
    using assms by (simp_all add: new_superblock_def unat_of_nat take_bit_nat_eq_self)
qed

text \<open>Steps 3 and 4.\<close>

lemma publish_stage:
  assumes "durable cd s sb" and v: "faulty_ok v" "window v = []" "no_failed_sync v" "fs_durable v = F'" "fs_view v = F'"
    and F': "F' = (if buf = [] then fs_view (d_vfs s) else write_at (fs_view (d_vfs s)) (d_watermark s) buf)"
    and sb': "superblock_ok sb'" "sb_generation sb' = d_next_generation s" "d_next_generation s \<noteq> 0"
      "unat (sb_watermark sb') = d_watermark s + length buf" "superblock_codec_ok cd sb'"
    and torn: "\<forall>bs. encode_slot cd sb' = Inr bs \<longrightarrow> torn_detected cd (slot_region (fs_view (d_vfs s)) (publish_slot (d_next_generation s))) bs"
  shows "\<exists>r v'. commit_publish (faulty_env cd) sb' (s\<lparr>d_vfs := v\<rparr>) = Some (r, s\<lparr>d_vfs := v'\<rparr>) \<and>
    safe_run (\<lambda>img. recovers_old cd s sb img \<or> recovers_new cd s buf sb' img) v v' \<and> window v' = [] \<and>
    (fs_fail_sync v = None \<longrightarrow> r = Inr () \<and> fs_fail_sync v' = None) \<and> (r = Inr () \<longrightarrow> no_failed_sync v' \<and> fs_durable v' = fs_view v' \<and> recovers_new cd s buf sb' (fs_view v'))"
proof -
  let ?F = "fs_view (d_vfs s)" and ?wm = "d_watermark s" and ?slot = "publish_slot (d_next_generation s)"
  note d = durableD [OF assms(1)] and fl = data_stage_file [OF assms(1) F']
  obtain bs where bs: "encode_slot cd sb' = Inr bs" "length bs = SUPERBLOCK_SLOT_SIZE" "decode_slot cd bs = Valid sb'"
    using encode_slot_ok [OF sb'(5)] sb'(1) by (auto simp: superblock_ok_def)
  have "take ?wm F' = take ?wm ?F" using durable_view(3) [OF assms(1)] F' write_at_beyond [of ?wm ?wm ?F buf] by auto
  then have "slot_region F' ?slot = slot_region ?F ?slot"
    using d(5) slot_region_take [of ?slot ?wm] publish_range(1) [of "d_next_generation s"] by metis
  then have torn': "torn_detected cd (slot_region F' (publish_slot (sb_generation sb'))) bs" using torn bs(1) sb'(2) by simp
  have gen: "sb_generation sb' = sb_generation sb + 1" "sb_generation sb' \<noteq> 0" using assms(1) sb'(2,3) by (simp_all add: durable_def)
  have wm: "unat (sb_watermark sb') \<le> length F'" using fl(1) sb'(4) by (simp add: extends_def)
  note p = publish_fated [OF fl(2) bs(2,3) gen wm torn']
  have slot: "publish_slot (sb_generation sb') = ?slot" using sb'(2) by simp
  have new: "recovers_new cd s buf sb' (apply_write f F' ?slot bs)" if "image_ok cd (apply_write f F' ?slot bs) sb'" for f
    using that extends_tail [OF fl(1) _ _ d(5)] p(3,4) [of f] sb'(4) by (simp add: recovers_new_def slot)
  have old: "recovers_old cd s sb (apply_write f F' ?slot bs)" if "image_ok cd (apply_write f F' ?slot bs) sb" for f
    using that extends_tail [OF fl(1) _ _ d(5)] p(3,4) [of f] by (simp add: recovers_old_def slot extends_def)
  have P: "\<forall>img\<in>crash_images v. \<forall>f. recovers_old cd s sb (apply_write f img ?slot bs) \<or> recovers_new cd s buf sb' (apply_write f img ?slot bs)"
    using p(1) new old v(4) by (simp add: crash_images_settled [OF v(1,2)] slot) blast
  have free: "\<forall>e\<in>set (window v). \<not> overlaps ?slot bs e" using v(2) by simp
  obtain va r vb where w: "faulty_write ?slot bs v = Some (Inr (), va)" "faulty_sync va = Some (r, vb)"
    "safe_run (\<lambda>img. recovers_old cd s sb img \<or> recovers_new cd s buf sb' img) v vb" "window vb = []"
    "r = Inr () \<Longrightarrow> no_failed_sync vb \<and> fs_view vb = write_at (fs_view v) ?slot bs \<and> fs_durable vb = fs_view vb"
    "fs_fail_sync v = None \<Longrightarrow> r = Inr () \<and> fs_fail_sync vb = None"
    by (rule write_sync_safe [OF v(1,3) free P]) (rule that; simp)
  have "recovers_new cd s buf sb' (write_at F' ?slot bs)" using new [of Apply] p(2) by (simp add: slot)
  then show ?thesis using w bs(1) v(5) by (auto simp: commit_publish_def on_vfs_def FaultyVfs_def split: sum.split)
qed

section \<open>Adopting a commit\<close>

lemma adopt_records_frame: "adopt_records assigned lens s = Some s' \<Longrightarrow> kept_frame s s'"
proof (induction assigned arbitrary: s)
  case (Cons a assigned)
  obtain nid off where a: "a = (nid, off)" by fastforce
  obtain t where "adopt_records assigned lens t = Some s'" "kept_frame s t"
    using Cons.prems by (auto simp: a Let_def split: node_slot.split_asm elim!: bind_SomeE)
  with Cons.IH show ?case by (blast intro: kept_frame_trans)
qed simp

lemma commit_adopt_frame:
  assumes "commit_adopt buf assigned lens s = Some (r, s')"
  shows "r = Inr \<lparr>nodes_written = length assigned, bytes_written = length buf + SUPERBLOCK_SLOT_SIZE\<rparr>"
    "d_vfs s' = d_vfs s" "d_params s' = d_params s" "d_poisoned s' = d_poisoned s"
    "d_watermark s' = d_watermark s + length buf" "d_next_generation s' = d_next_generation s + 1"
proof -
  let ?s = "s\<lparr>d_watermark := d_watermark s + length buf, d_next_generation := d_next_generation s + 1\<rparr>"
  obtain sa sb where "adopt_records assigned lens ?s = Some sa" and b: "enforce_budget [] None sa = Some sb"
    and s': "s' = sb\<lparr>d_ops_since_commit := 0\<rparr>"
    and r: "r = Inr \<lparr>nodes_written = length assigned, bytes_written = length buf + SUPERBLOCK_SLOT_SIZE\<rparr>"
    using assms by (auto simp: commit_adopt_def elim!: bind_SomeE)
  then have "kept_frame ?s sb" using adopt_records_frame enforce_budget_frame [OF b, of ?s] by simp
  then show "r = Inr \<lparr>nodes_written = length assigned, bytes_written = length buf + SUPERBLOCK_SLOT_SIZE\<rparr>"
    "d_vfs s' = d_vfs s" "d_params s' = d_params s" "d_poisoned s' = d_poisoned s"
    "d_watermark s' = d_watermark s + length buf" "d_next_generation s' = d_next_generation s + 1"
    using r by (simp_all add: s' kept_frame_def frame_def)
qed

text \<open>Where the records of a commit lie.\<close>

lemma serialize_range:
  assumes "serialize_nodes E s nids buf assigned lens = Some (Inr (buf', assigned', lens'))" "DATA_START \<le> d_watermark s"
    and "\<forall>(nid, off)\<in>set assigned. DATA_START \<le> off \<and> off + RECORD_HEADER_SIZE \<le> d_watermark s + length buf"
  shows "\<forall>(nid, off)\<in>set assigned'. DATA_START \<le> off \<and> off + RECORD_HEADER_SIZE \<le> d_watermark s + length buf'"
  using assms(1,3)
proof (induction nids arbitrary: buf assigned lens)
  case (Cons nid nids)
  let ?off = "d_watermark s + length buf"
  obtain payload where go: "serialize_nodes E s nids (buf @ record_bytes (env_codec E) payload) (bt_insert nid ?off assigned)
      (bt_insert nid (RECORD_HEADER_SIZE + length payload) lens) = Some (Inr (buf', assigned', lens'))"
    using Cons.prems(1) by (auto simp: Let_def split: sum.split_asm if_split_asm elim!: bind_SomeE)
  have "\<forall>(nid, off)\<in>set (bt_insert nid ?off assigned). DATA_START \<le> off \<and>
      off + RECORD_HEADER_SIZE \<le> d_watermark s + length (buf @ record_bytes (env_codec E) payload)"
    using Cons.prems(2) assms(2) by (fastforce simp: record_bytes_split RECORD_HEADER_SIZE_def dest!: bt_insert_in)
  from Cons.IH [OF go this] show ?case .
qed simp

lemma plan_range:
  assumes "commit_plan E s = Some (Inr (buf, assigned, lens))" "DATA_START \<le> d_watermark s"
  shows "\<forall>(nid, off)\<in>set assigned. DATA_START \<le> off \<and> off + RECORD_HEADER_SIZE \<le> d_watermark s + length buf"
  using assms by (auto simp: commit_plan_def elim!: bind_SomeE dest!: serialize_range)

lemma resolve_in_file:
  assumes "resolve_offset s assigned nid = Some off" "offsets_ok s"
    and "\<forall>(nid, off)\<in>set assigned. DATA_START \<le> off \<and> off + RECORD_HEADER_SIZE \<le> d_watermark s + n"
  shows "DATA_START \<le> off \<and> off + RECORD_HEADER_SIZE \<le> d_watermark s + n"
proof -
  obtain slot where slot: "index (d_slots s) nid = Some slot" using assms(1) by (auto simp: resolve_offset_def elim!: bind_SomeE)
  have "offset_ok (d_watermark s) slot" by (rule offsets_ok_slot [OF assms(2) slot])
  then show ?thesis using assms(1,3) slot
    by (cases slot) (auto simp: resolve_offset_def split: if_split_asm dest!: bt_get_Some_in)
qed

lemma adopt_records_offsets:
  "adopt_records assigned lens s = Some s' \<Longrightarrow> offsets_ok s \<Longrightarrow>
     \<forall>(nid, off)\<in>set assigned. DATA_START \<le> off \<and> off + RECORD_HEADER_SIZE \<le> d_watermark s \<Longrightarrow> offsets_ok s'"
proof (induction assigned arbitrary: s)
  case (Cons a assigned)
  obtain nid off where a: "a = (nid, off)" by fastforce
  obtain n t exact c offs where go: "adopt_records assigned lens (set_slot nid (Loaded n False (Some off) exact t)
      (s\<lparr>d_cache := c, d_offsets := offs\<rparr>)) = Some s'"
    using Cons.prems(1) by (auto simp: a Let_def split: node_slot.split_asm elim!: bind_SomeE)
  have "offsets_ok (set_slot nid (Loaded n False (Some off) exact t) (s\<lparr>d_cache := c, d_offsets := offs\<rparr>))"
    using Cons.prems(2,3) by (intro offsets_ok_set_slot) (auto simp: a offsets_ok_def)
  from Cons.IH [OF go this] Cons.prems(3) show ?case by (simp add: set_slot_def)
qed simp

lemma offset_ok_mono: "offset_ok wm slot \<Longrightarrow> wm \<le> wm' \<Longrightarrow> offset_ok wm' slot"
  by (cases slot) auto

lemma commit_adopt_offsets:
  assumes "commit_adopt buf assigned lens s = Some (r, s')" "offsets_ok s"
    and "\<forall>(nid, off)\<in>set assigned. DATA_START \<le> off \<and> off + RECORD_HEADER_SIZE \<le> d_watermark s + length buf"
  shows "offsets_ok s'"
proof -
  let ?s = "s\<lparr>d_watermark := d_watermark s + length buf, d_next_generation := d_next_generation s + 1\<rparr>"
  have "offsets_ok ?s" using assms(2) offset_ok_mono by (auto simp: offsets_ok_def)
  then show ?thesis using assms(1,3)
    by (auto simp: commit_adopt_def elim!: bind_SomeE dest!: adopt_records_offsets enforce_budget_offsets)
qed

section \<open>Crash safety\<close>

text \<open>The bytes that a commit appends and the superblock that it publishes.\<close>
definition next_superblock :: "'v env \<Rightarrow> ('v, 'p) disk_engine \<Rightarrow> (bytes \<times> superblock) option" where
  "next_superblock E s = do {
     r \<leftarrow> commit_plan E s;
     case r of
       Inl e \<Rightarrow> None
     | Inr (buf, assigned, lens) \<Rightarrow> do {
         root \<leftarrow> resolve_offset s assigned (d_root s);
         Some (buf, new_superblock s root (d_watermark s + length buf))
       }
   }"

text \<open>What a commit relies on outside the crate: the serialiser round trips the superblock, the checksum
  detects a torn slot, and neither the file length nor the generation counter reaches \<open>2 ^ 64\<close>.\<close>
definition commit_trusted :: "codec \<Rightarrow> (faulty_state, 'p) disk_engine \<Rightarrow> bool" where
  "commit_trusted cd s \<longleftrightarrow> d_next_generation s \<noteq> 0 \<and>
     (\<forall>buf sb'. next_superblock (faulty_env cd) s = Some (buf, sb') \<longrightarrow>
        superblock_codec_ok cd sb' \<and> d_watermark s + length buf < 2 ^ 64 \<and>
        (\<forall>bs. encode_slot cd sb' = Inr bs \<longrightarrow>
           torn_detected cd (slot_region (fs_view (d_vfs s)) (publish_slot (d_next_generation s))) bs))"

definition commit_image :: "codec \<Rightarrow> (faulty_state, 'p) disk_engine \<Rightarrow> superblock \<Rightarrow> bytes \<Rightarrow> bool" where
  "commit_image cd s sb img \<longleftrightarrow> recovers_old cd s sb img \<or>
     (\<exists>buf sb'. next_superblock (faulty_env cd) s = Some (buf, sb') \<and> recovers_new cd s buf sb' img)"

lemma resolve_offset_vfs [simp]: "resolve_offset (s\<lparr>d_vfs := v\<rparr>) assigned nid = resolve_offset s assigned nid"
  by (simp add: resolve_offset_def)

lemma new_superblock_vfs [simp]: "new_superblock (s\<lparr>d_vfs := v\<rparr>) root wm = new_superblock s root wm"
  by (simp add: new_superblock_def)

lemma durable_now: "durable cd s sb \<Longrightarrow> safe_run (commit_image cd s sb) (d_vfs s) (d_vfs s)"
proof -
  assume d: "durable cd s sb"
  have "recovers_old cd s sb img" if "img \<in> crash_images (d_vfs s)" for img
    using durable_images [OF d that] durable_view(2) [OF d] by (simp add: recovers_old_def data_def)
  then show ?thesis using durableD(1) [OF d] by (intro safe_run_refl) (auto simp: commit_image_def)
qed

text \<open>The outcome of a commit: every crash on the way recovers the old or the new generation, and an
  acknowledged commit made the new one durable.\<close>
definition commit_outcome :: "codec \<Rightarrow> (faulty_state, 'p) disk_engine \<Rightarrow> superblock \<Rightarrow> disk_error + commit_stats \<Rightarrow>
    (faulty_state, 'p) disk_engine \<Rightarrow> bool" where
  "commit_outcome cd s sb r s' \<longleftrightarrow> safe_run (commit_image cd s sb) (d_vfs s) (d_vfs s') \<and>
     (\<forall>st. r = Inr st \<longrightarrow> (\<exists>buf sb'. next_superblock (faulty_env cd) s = Some (buf, sb') \<and>
        recovers_new cd s buf sb' (fs_view (d_vfs s')) \<and> durable cd s' sb' \<and> offsets_ok s' \<and>
        d_poisoned s' = d_poisoned s \<and> window (d_vfs s') = [] \<and> bytes_written st = length buf + SUPERBLOCK_SLOT_SIZE))"

lemma publish_outcome:
  assumes d: "durable cd s sb" and offs: "offsets_ok s" and t: "commit_trusted cd s"
    and plan: "commit_plan (faulty_env cd) s = Some (Inr (buf, assigned, lens))"
    and safe1: "safe_run (commit_image cd s sb) (d_vfs s) va"
    and va: "window va = []" "no_failed_sync va" "fs_durable va = fs_view va"
      "fs_view va = (if buf = [] then fs_view (d_vfs s) else write_at (fs_view (d_vfs s)) (d_watermark s) buf)"
    and root: "resolve_offset s assigned (d_root s) = Some root"
    and rest: "and_then (commit_publish (faulty_env cd) (new_superblock s root (d_watermark s + length buf)) (s\<lparr>d_vfs := va\<rparr>))
      (\<lambda>_ s. commit_adopt buf assigned lens s) = Some (r, s')"
  shows "commit_outcome cd s sb r s'"
proof -
  note dd = durableD [OF d]
  let ?E = "faulty_env cd"
  define sb' where "sb' = new_superblock s root (d_watermark s + length buf)"
  have next': "next_superblock ?E s = Some (buf, sb')" using plan root by (simp add: next_superblock_def sb'_def)
  have tr: "superblock_codec_ok cd sb'" "d_watermark s + length buf < 2 ^ 64" "d_next_generation s \<noteq> 0"
    "\<forall>bs. encode_slot cd sb' = Inr bs \<longrightarrow> torn_detected cd (slot_region (fs_view (d_vfs s)) (publish_slot (d_next_generation s))) bs"
    using t next' by (auto simp: commit_trusted_def)
  have wm: "DATA_START \<le> d_watermark s" using dd(5) by (simp add: DATA_START_def SUPERBLOCK_SLOT_SIZE_def)
  have pl: "params_legal (d_params s)" using d dd(7) by (simp add: durable_def superblock_ok_def)
  note range = plan_range [OF plan wm]
  have sb': "superblock_ok sb'" "unat (sb_watermark sb') = d_watermark s + length buf" "sb_generation sb' = d_next_generation s"
    "sb_params sb' = d_params s"
    using new_superblock_ok [OF pl _ _ tr(2)] resolve_in_file [OF root offs range] by (auto simp: sb'_def new_superblock_def)
  have ok_va: "faulty_ok va" using safe1 by (simp add: safe_run_def)
  obtain r2 vb where vb: "commit_publish ?E sb' (s\<lparr>d_vfs := va\<rparr>) = Some (r2, s\<lparr>d_vfs := vb\<rparr>)"
    "safe_run (\<lambda>img. recovers_old cd s sb img \<or> recovers_new cd s buf sb' img) va vb" "window vb = []"
    and ok2: "r2 = Inr () \<Longrightarrow> no_failed_sync vb \<and> fs_durable vb = fs_view vb \<and> recovers_new cd s buf sb' (fs_view vb)"
    using publish_stage [OF d ok_va va(1), of "fs_view va" buf sb'] va sb' tr by auto
  have "safe_run (commit_image cd s sb) va vb" using vb(2) by (rule safe_run_mono) (auto simp: commit_image_def next')
  with safe1 have safe: "safe_run (commit_image cd s sb) (d_vfs s) vb" by (rule safe_run_trans)
  show ?thesis
  proof (cases r2)
    case (Inl e)
    then show ?thesis using rest vb(1) safe by (auto simp: sb'_def commit_outcome_def)
  next
    case (Inr u)
    then have good: "r2 = Inr ()" by simp
    then have adopt: "commit_adopt buf assigned lens (s\<lparr>d_vfs := vb\<rparr>) = Some (r, s')" using rest vb(1) by (simp add: sb'_def)
    note fr = commit_adopt_frame [OF adopt]
    have "offsets_ok s'" by (rule commit_adopt_offsets [OF adopt]) (use offs range in simp_all)
    moreover have "durable cd s' sb'"
      using ok2 [OF good] vb(2,3) fr sb' by (simp add: durable_def safe_run_def recovers_new_def)
    ultimately show ?thesis using next' safe fr ok2 [OF good] vb(3) by (auto simp: commit_outcome_def)
  qed
qed

lemma commit_inner_outcome:
  assumes d: "durable cd s sb" and offs: "offsets_ok s" and t: "commit_trusted cd s"
    and run: "commit_inner (faulty_env cd) s = Some (r, s')"
  shows "commit_outcome cd s sb r s'"
proof -
  let ?E = "faulty_env cd"
  obtain p where p: "commit_plan ?E s = Some p" using run by (auto simp: commit_inner_plan elim!: bind_SomeE)
  show ?thesis
  proof (cases p)
    case (Inl e)
    then show ?thesis using run p durable_now [OF d] by (auto simp: commit_inner_plan commit_outcome_def)
  next
    case (Inr q)
    obtain buf assigned lens where q: "p = Inr (buf, assigned, lens)" using Inr by (cases q) auto
    obtain r1 va where va: "commit_data ?E buf s = Some (r1, s\<lparr>d_vfs := va\<rparr>)" "safe_run (recovers_old cd s sb) (d_vfs s) va"
      "window va = []" and ok1: "r1 = Inr () \<Longrightarrow> no_failed_sync va \<and> fs_durable va = fs_view va \<and>
        fs_view va = (if buf = [] then fs_view (d_vfs s) else write_at (fs_view (d_vfs s)) (d_watermark s) buf)"
      using data_stage [OF d, of buf] by blast
    have safe: "safe_run (commit_image cd s sb) (d_vfs s) va" using va(2) by (rule safe_run_mono) (simp add: commit_image_def)
    show ?thesis
    proof (cases r1)
      case (Inl e)
      then show ?thesis using run p va(1) safe by (auto simp: commit_inner_plan q commit_outcome_def)
    next
      case (Inr u)
      then obtain root where "resolve_offset s assigned (d_root s) = Some root"
        "and_then (commit_publish ?E (new_superblock s root (d_watermark s + length buf)) (s\<lparr>d_vfs := va\<rparr>))
          (\<lambda>_ s. commit_adopt buf assigned lens s) = Some (r, s')"
        using run p va(1) by (auto simp: commit_inner_plan q elim!: bind_SomeE)
      with Inr p ok1 show ?thesis by (intro publish_outcome [OF d offs t _ safe va(3)]) (auto simp: q)
    qed
  qed
qed

text \<open>The outcome of a call: an unacknowledged commit poisons the engine.\<close>

lemma commit_call:
  assumes "durable cd s sb" "offsets_ok s" "commit_trusted cd s" "\<not> d_poisoned s" "commit (faulty_env cd) s = Some (r, s')"
  shows "commit_outcome cd s sb r s'" "r = Inl e \<Longrightarrow> d_poisoned s'"
proof -
  obtain t where t: "commit_inner (faulty_env cd) s = Some (r, t)" "r = Inr st \<Longrightarrow> s' = t" "d_vfs s' = d_vfs t"
    "r = Inl e \<Longrightarrow> d_poisoned s'" for st
    using assms(4,5) by (auto simp: commit_def elim!: poisonE)
  show "r = Inl e \<Longrightarrow> d_poisoned s'" by (rule t)
  have "commit_outcome cd s sb r t" by (rule commit_inner_outcome [OF assms(1-3) t(1)])
  then show "commit_outcome cd s sb r s'" using t(2,3) by (auto simp: commit_outcome_def)
qed

end
