(* ===== verification/Disk_Sim_Walk.thy ===== *)
theory Disk_Sim_Walk
  imports Disk_Sim_Ops Disk_Commit
begin

text \<open>
  What a commit writes. Restricted to the nodes that the root reaches, the dirty walk returns, meets
  every dirty node once and every parent before its children, so that each record can name the final
  offsets of its children.
\<close>

section \<open>The live nodes\<close>

definition live :: "'p betree \<Rightarrow> node_id set" where
  "live t = {a. (\<lambda>x y. y \<in> set (kids (t_nodes t ! x)))\<^sup>*\<^sup>* (t_root t) a}"

lemma live_root [simp]: "t_root t \<in> live t"
  by (simp add: live_def)

lemma live_kids: "a \<in> live t \<Longrightarrow> set (kids (t_nodes t ! a)) \<subseteq> live t"
  by (auto simp: live_def intro: rtranclp.rtrancl_into_rtrancl)

lemma live_least:
  assumes "t_root t \<in> L" "\<And>a. a \<in> L \<Longrightarrow> set (kids (t_nodes t ! a)) \<subseteq> L"
  shows "live t \<subseteq> L"
proof
  fix a assume "a \<in> live t"
  then have "(\<lambda>x y. y \<in> set (kids (t_nodes t ! x)))\<^sup>*\<^sup>* (t_root t) a" by (simp add: live_def)
  then show "a \<in> L" by (induction rule: rtranclp_induct) (use assms in auto)
qed

lemma edges_mono: "finite L \<Longrightarrow> K \<subseteq> L \<Longrightarrow> edges N K \<subseteq># edges N L"
  by (metis edges_def mset_subset_eq_add_left sum.subset_diff add.commute)

lemma owned_closed:
  assumes own: "owned W L N" and K: "K \<subseteq> L" "set_mset W \<subseteq> K" "\<And>a. a \<in> K \<Longrightarrow> set (kids (N ! a)) \<subseteq> K"
  shows "owned W K N"
proof -
  have fin: "finite L" "finite K" using own K(1) finite_subset by (auto simp: owned_def)
  have "count (edges N K + W) x \<le> count (mset_set K) x" for x
  proof (cases "x \<in> K")
    case True
    have "count (edges N K) x \<le> count (edges N L) x" by (rule mset_subset_eq_count [OF edges_mono [OF fin(1) K(1)]])
    then show ?thesis using owned_once [OF own, of x] True fin(2) by simp
  next
    case False
    then have "count (edges N K) x = 0" using K(3) by (force simp: edges_def count_sum count_eq_zero_iff intro: sum.neutral)
    moreover have "count W x = 0" using False K(2) by (auto simp: count_eq_zero_iff)
    ultimately show ?thesis by simp
  qed
  then show ?thesis using fin(2) by (simp add: owned_def subseteq_mset_def)
qed

lemma sim_closed:
  assumes "sim rd L s t m" "K \<subseteq> L" "\<And>a. a \<in> K \<Longrightarrow> set (kids (t_nodes t ! a)) \<subseteq> K"
  shows "sim rd K s t m"
  using assms by (auto simp: sim_def node_sim_def subset_iff intro: inj_on_subset)

lemma at_rest_live:
  assumes rest: "at_rest g rd L s t m"
  shows "at_rest g rd (live t) s t m"
proof -
  have sim: "sim rd L s t m" and own: "owned {#t_root t#} L (t_nodes t)" using rest by (simp_all add: at_rest_def related_def)
  have sub: "live t \<subseteq> L" by (rule live_least) (use at_rest_root [OF rest] sim_kids [OF sim] in auto)
  have "sim rd (live t) s t m" by (rule sim_closed [OF sim sub live_kids])
  moreover have "owned {#t_root t#} (live t) (t_nodes t)" by (rule owned_closed [OF own sub _ live_kids]) simp
  ultimately show ?thesis using rest grey_mono [OF _ sub] by (auto simp: at_rest_def related_def)
qed

section \<open>The walk over dirty nodes\<close>

text \<open>Every dirty child of a node comes behind it.\<close>
fun parents_first :: "'p betree \<Rightarrow> node_id list \<Rightarrow> bool" where
  "parents_first t [] \<longleftrightarrow> True"
| "parents_first t (a # pre) \<longleftrightarrow> (\<forall>c\<in>set (kids (t_nodes t ! a)). t_dirty t ! c \<longrightarrow> c \<in> set pre) \<and> parents_first t pre"

lemma placed_filter:
  assumes "list_all2 (placed m) as cs"
  shows "list_all2 (placed m) (filter p as) (map fst (filter snd (zip cs (map p as))))"
  using assms by (induction rule: list_all2_induct) auto

lemma dirty_kids_placed:
  assumes sim: "sim rd L s t m" and cs: "list_all2 (placed m) as cs" "set as \<subseteq> L"
  shows "those (map (is_dirty s) cs) = Some (map ((!) (t_dirty t)) as)"
proof -
  have "index (t_dirty t) a = Some (t_dirty t ! a)" if "a \<in> set as" for a
    using sim_kids [OF sim, of a] cs(2) that by (auto simp: index_eq_Some)
  then have "those (map (index (t_dirty t)) xs) = Some (map ((!) (t_dirty t)) xs)" if "set xs \<subseteq> set as" for xs
    using that by (induction xs) auto
  then show ?thesis by (simp add: dirty_flags_placed [OF sim cs])
qed

lemma dirty_slot:
  assumes "sim rd L s t m" "a \<in> L" "t_dirty t ! a"
  obtains nid n off b tk where "m a = AtSlot nid" "index (d_slots s) nid = Some (Loaded n True off b tk)" "node_match m (t_nodes t ! a) n"
proof (cases "m a")
  case (AtSlot nid)
  show ?thesis by (rule sim_slot [OF assms(1,2) AtSlot]) (use assms(3) that AtSlot in \<open>auto simp: mem_view_match\<close>)
next
  case (AtFile off)
  then show ?thesis using assms by (simp add: sim_def node_sim_def ref_dirty_def)
qed

lemma dirty_walk_sim:
  assumes sim: "sim rd L s t m"
  shows "owned (mset visit) K (t_nodes t) \<Longrightarrow> K \<subseteq> L \<Longrightarrow> list_all2 (placed m) visit ds \<Longrightarrow> \<forall>a\<in>set visit. t_dirty t ! a \<Longrightarrow>
    \<exists>pre dpre. disk_dirty_walk s ds = Some dpre \<and> list_all2 (placed m) pre dpre \<and> distinct pre \<and> set visit \<subseteq> set pre \<and>
      set pre \<subseteq> K \<and> (\<forall>a\<in>set pre. t_dirty t ! a) \<and> parents_first t pre"
proof (induction "card K" arbitrary: K visit ds rule: less_induct)
  case less
  show ?case
  proof (cases visit)
    case Nil
    then have "disk_dirty_walk s ds = Some []" using less.prems(3) by (simp add: disk_dirty_walk.simps)
    then show ?thesis using Nil by (intro exI [of _ "[]"]) simp
  next
    case (Cons a visit')
    obtain d ds' where ds: "ds = d # ds'" "placed m a d" "list_all2 (placed m) visit' ds'" using less.prems(3) Cons by (auto simp: list_all2_Cons1)
    have own: "owned (add_mset a (mset visit')) K (t_nodes t)" using less.prems(1) Cons by simp
    have a: "a \<in> K" "a \<in> L" "t_dirty t ! a" "finite K" using owned_orphan(1) [OF own, of a] less.prems Cons by (auto simp: owned_def)
    define more where "more = filter ((!) (t_dirty t)) (kids (t_nodes t ! a))"
    have own': "owned (mset (rev more @ visit')) (K - {a}) (t_nodes t)"
      by (rule owned_weaken [OF owned_down [OF own]]) (simp add: more_def multiset_filter_subset)
    obtain n off b tk where n: "index (d_slots s) d = Some (Loaded n True off b tk)" "node_match m (t_nodes t ! a) n"
      by (rule dirty_slot [OF sim a(2,3)]) (use ds(2) in \<open>auto simp: placed_def\<close>)
    have ks: "list_all2 (placed m) (kids (t_nodes t ! a)) (kids n)" by (rule match_kids [OF n(2)])
    let ?dmore = "map fst (filter snd (zip (kids n) (map ((!) (t_dirty t)) (kids (t_nodes t ! a)))))"
    have dm: "list_all2 (placed m) (rev more @ visit') (rev ?dmore @ ds')"
      using placed_filter [OF ks, of "(!) (t_dirty t)"] ds(3) by (auto simp: more_def intro!: list_all2_appendI list_all2_rev)
    have "card (K - {a}) < card K" by (rule psubset_card_mono) (use a in auto)
    have "K - {a} \<subseteq> L" "\<forall>x\<in>set (rev more @ visit'). t_dirty t ! x" using less.prems(2,4) Cons by (auto simp: more_def)
    from less.hyps [OF \<open>card (K - {a}) < card K\<close> own' this(1) dm this(2)] obtain pre dpre where w: "disk_dirty_walk s (rev ?dmore @ ds') = Some dpre"
      "list_all2 (placed m) pre dpre" "distinct pre" "set (rev more @ visit') \<subseteq> set pre" "set pre \<subseteq> K - {a}" "\<forall>a\<in>set pre. t_dirty t ! a"
      "parents_first t pre" by blast
    have flags: "those (map (is_dirty s) (kids n)) = Some (map ((!) (t_dirty t)) (kids (t_nodes t ! a)))"
      using dirty_kids_placed [OF sim ks] sim_kids [OF sim a(2)] by simp
    have "disk_dirty_walk s ds = Some (d # dpre)"
      using w(1) flags n(1) ds(1) by (subst disk_dirty_walk.simps) (cases n, simp_all add: loaded_def)
    then show ?thesis using w ds(2) a Cons by (intro exI [of _ "a # pre"] exI [of _ "d # dpre"]) (auto simp: more_def)
  qed
qed

lemma parents_first_split:
  "parents_first t (xs @ a # ys) \<Longrightarrow> c \<in> set (kids (t_nodes t ! a)) \<Longrightarrow> t_dirty t ! c \<Longrightarrow> c \<in> set ys"
  by (induction xs) auto

section \<open>Serialising\<close>

text \<open>Where one record lies: behind everything that was written before it, with its children resolved by
  the offsets that were known then, which are those of the finished map.\<close>

definition written_at :: "'v env \<Rightarrow> ('v, 'p) disk_engine \<Rightarrow> node_id list \<Rightarrow> bytes \<Rightarrow> (node_id, nat) btmap \<Rightarrow> (node_id, nat) btmap \<Rightarrow>
    node_id \<Rightarrow> bool" where
  "written_at E s later buf assigned lens nid \<longleftrightarrow> (\<exists>before payload behind known.
     node_payload E s known nid = Some (Inr payload) \<and> length payload < 2 ^ 32 \<and>
     buf = before @ record_bytes (env_codec E) payload @ behind \<and> bt_get assigned nid = Some (d_watermark s + length before) \<and>
     bt_get lens nid \<noteq> None \<and> (\<forall>i. i \<noteq> nid \<longrightarrow> i \<notin> set later \<longrightarrow> bt_get known i = bt_get assigned i) \<and>
     (\<forall>i off. bt_get known i = Some off \<longrightarrow> d_watermark s \<le> off \<and> off < d_watermark s + length before))"

lemma serialize_step:
  assumes "serialize_nodes E s (nid # nids) buf assigned lens = Some (Inr (buf', assigned', lens'))"
  obtains payload where "node_payload E s assigned nid = Some (Inr payload)" "length payload < 2 ^ 32"
    "serialize_nodes E s nids (buf @ record_bytes (env_codec E) payload) (bt_insert nid (d_watermark s + length buf) assigned)
      (bt_insert nid (RECORD_HEADER_SIZE + length payload) lens) = Some (Inr (buf', assigned', lens'))"
  using assms that by (auto simp: Let_def not_less split: sum.split_asm if_split_asm elim!: bind_SomeE)

lemma serialize_keeps:
  assumes "serialize_nodes E s nids buf assigned lens = Some (Inr (buf', assigned', lens'))"
  shows "\<exists>behind. buf' = buf @ behind" "i \<notin> set nids \<Longrightarrow> bt_get assigned' i = bt_get assigned i \<and> bt_get lens' i = bt_get lens i"
proof -
  have "(\<exists>behind. buf' = buf @ behind) \<and> (i \<notin> set nids \<longrightarrow> bt_get assigned' i = bt_get assigned i \<and> bt_get lens' i = bt_get lens i)"
    using assms
  proof (induction nids arbitrary: buf assigned lens)
    case (Cons nid nids)
    obtain payload where "serialize_nodes E s nids (buf @ record_bytes (env_codec E) payload) (bt_insert nid (d_watermark s + length buf) assigned)
      (bt_insert nid (RECORD_HEADER_SIZE + length payload) lens) = Some (Inr (buf', assigned', lens'))"
      by (rule serialize_step [OF Cons.prems])
    from Cons.IH [OF this] show ?case by (auto simp: bt_get_insert)
  qed simp
  then show "\<exists>behind. buf' = buf @ behind" "i \<notin> set nids \<Longrightarrow> bt_get assigned' i = bt_get assigned i \<and> bt_get lens' i = bt_get lens i" by auto
qed

lemma serialize_written:
  assumes "serialize_nodes E s (xs @ nid # ys) buf assigned lens = Some (Inr (buf', assigned', lens'))" "distinct (xs @ nid # ys)"
    and "\<And>i off. bt_get assigned i = Some off \<Longrightarrow> d_watermark s \<le> off \<and> off < d_watermark s + length buf"
  shows "written_at E s ys buf' assigned' lens' nid"
  using assms
proof (induction xs arbitrary: buf assigned lens)
  case Nil
  obtain payload where pay: "node_payload E s assigned nid = Some (Inr payload)" "length payload < 2 ^ 32"
    and go: "serialize_nodes E s ys (buf @ record_bytes (env_codec E) payload) (bt_insert nid (d_watermark s + length buf) assigned)
      (bt_insert nid (RECORD_HEADER_SIZE + length payload) lens) = Some (Inr (buf', assigned', lens'))"
    using serialize_step Nil.prems(1) by (metis append_Nil)
  obtain behind where "buf' = (buf @ record_bytes (env_codec E) payload) @ behind" using serialize_keeps(1) [OF go] by blast
  then show ?case using pay serialize_keeps(2) [OF go] Nil.prems(2,3) unfolding written_at_def
    by (intro exI [of _ buf] exI [of _ payload] exI [of _ behind] exI [of _ assigned]) (auto simp: bt_get_insert)
next
  case (Cons x xs)
  obtain payload where "serialize_nodes E s (xs @ nid # ys) (buf @ record_bytes (env_codec E) payload) (bt_insert x (d_watermark s + length buf) assigned)
      (bt_insert x (RECORD_HEADER_SIZE + length payload) lens) = Some (Inr (buf', assigned', lens'))"
    using serialize_step Cons.prems(1) by (metis append_Cons)
  moreover have "d_watermark s \<le> off \<and> off < d_watermark s + length (buf @ record_bytes (env_codec E) payload)"
    if "bt_get (bt_insert x (d_watermark s + length buf) assigned) i = Some off" for i off
    using that Cons.prems(3) [of i off] by (auto simp: bt_get_insert record_bytes_split split: if_split_asm)
  ultimately show ?case using Cons.prems(2) by (intro Cons.IH) auto
qed

lemma serialize_total:
  assumes "\<And>xs nid ys known. nids = xs @ nid # ys \<Longrightarrow> \<forall>i\<in>set xs \<union> D. bt_get known i \<noteq> None \<Longrightarrow> node_payload E s known nid \<noteq> None"
    and "\<forall>i\<in>D. bt_get assigned i \<noteq> None"
  shows "serialize_nodes E s nids buf assigned lens \<noteq> None"
  using assms
proof (induction nids arbitrary: buf assigned lens D)
  case (Cons nid nids)
  obtain p where p: "node_payload E s assigned nid = Some p" using Cons.prems(1) [of "[]" nid nids assigned] Cons.prems(2) by auto
  have "serialize_nodes E s nids buf1 (bt_insert nid off assigned) lens1 \<noteq> None" for buf1 off lens1
  proof (rule Cons.IH [of "insert nid D"])
    fix xs nid' ys and known :: "(node_id, nat) btmap" assume "nids = xs @ nid' # ys" "\<forall>i\<in>set xs \<union> insert nid D. bt_get known i \<noteq> None"
    then show "node_payload E s known nid' \<noteq> None" using Cons.prems(1) [of "nid # xs" nid' ys known] by auto
  qed (use Cons.prems(2) in \<open>auto simp: bt_get_insert\<close>)
  then show ?case using p by (auto simp: Let_def split: sum.split)
qed simp

section \<open>The plan of a commit\<close>

lemma walk_complete:
  assumes grey: "grey (live t) t" and pre: "parents_first t pre" "t_dirty t ! t_root t \<longrightarrow> t_root t \<in> set pre" and a: "a \<in> live t"
  shows "t_dirty t ! a \<longrightarrow> a \<in> set pre"
proof -
  have "(\<lambda>x y. y \<in> set (kids (t_nodes t ! x)))\<^sup>*\<^sup>* (t_root t) a" using a by (simp add: live_def)
  then show ?thesis
  proof (induction rule: rtranclp_induct)
    case (step x y)
    have "x \<in> live t" using step.hyps(1) by (simp add: live_def)
    show ?case
    proof
      assume y: "t_dirty t ! y"
      then have "x \<in> set pre" using step grey \<open>x \<in> live t\<close> unfolding grey_def by blast
      then obtain us vs where "pre = us @ x # vs" by (meson split_list)
      then show "y \<in> set pre" using parents_first_split [of t us x vs y] pre(1) step.hyps(2) y by simp
    qed
  qed (use pre(2) in simp)
qed

lemma resolve_known:
  assumes sim: "sim rd L s t m" and c: "c \<in> L" "m c = AtSlot cid" "t_dirty t ! c \<longrightarrow> bt_get known cid \<noteq> None"
  shows "\<exists>off. resolve_offset s known cid = Some off"
proof -
  have ok: "\<forall>slot\<in>set (d_slots s). slot_ok slot" using sim by (simp add: sim_def cache_ok_def)
  show ?thesis
    by (rule sim_slot [OF sim c(1,2)]) (use c(3) ok in \<open>auto simp: resolve_offset_def index_eq_Some dest!: nth_mem\<close>)
qed

lemma those_total: "\<forall>x\<in>set xs. \<exists>y. f x = Some y \<Longrightarrow> \<exists>ys. those (map f xs) = Some ys"
  by (induction xs) auto

lemma placed_from: "list_all2 (placed m) as cs \<Longrightarrow> cid \<in> set cs \<Longrightarrow> \<exists>a\<in>set as. m a = AtSlot cid"
  by (induction rule: list_all2_induct) (auto simp: placed_def)

lemma payload_known:
  assumes sim: "sim rd L s t m" and a: "a \<in> L" "m a = AtSlot nid" "t_dirty t ! a"
    and known: "\<And>c cid. c \<in> set (kids (t_nodes t ! a)) \<Longrightarrow> m c = AtSlot cid \<Longrightarrow> t_dirty t ! c \<Longrightarrow> bt_get known cid \<noteq> None"
  shows "node_payload E s known nid \<noteq> None"
proof -
  obtain n off b tk where n: "index (d_slots s) nid = Some (Loaded n True off b tk)" "node_match m (t_nodes t ! a) n"
    by (rule dirty_slot [OF sim a(1,3)]) (use a(2) in auto)
  have "\<exists>off. resolve_offset s known cid = Some off" if cid: "cid \<in> set (kids n)" for cid
  proof -
    obtain c where "c \<in> set (kids (t_nodes t ! a))" "m c = AtSlot cid"
      using placed_from [OF match_kids [OF n(2)] cid] by blast
    then show ?thesis using resolve_known [OF sim] sim_kids [OF sim a(1)] known by blast
  qed
  then obtain offs where "those (map (resolve_offset s known) (kids n)) = Some offs"
    using those_total [of "kids n" "resolve_offset s known"] by blast
  then show ?thesis using n(1) by (cases n) (simp_all add: node_payload_def loaded_def)
qed

text \<open>The plan: the dirty live nodes, and only they, have an offset; a record is written behind the
  records of its dirty children.\<close>

definition planned :: "'v env \<Rightarrow> ('v, 'p) disk_engine \<Rightarrow> 'p betree \<Rightarrow> (node_id \<Rightarrow> vref) \<Rightarrow> bytes \<Rightarrow> (node_id, nat) btmap \<Rightarrow>
    (node_id, nat) btmap \<Rightarrow> bool" where
  "planned E s t m buf assigned lens \<longleftrightarrow> bt_ok assigned \<and>
     (\<forall>a\<in>live t. t_dirty t ! a \<longrightarrow> (\<exists>nid later. m a = AtSlot nid \<and> written_at E s later buf assigned lens nid \<and>
        (\<forall>c\<in>set (kids (t_nodes t ! a)). t_dirty t ! c \<longrightarrow> m c \<noteq> AtSlot nid \<and> m c \<notin> AtSlot ` set later))) \<and>
     (\<forall>nid off. bt_get assigned nid = Some off \<longrightarrow> (\<exists>a\<in>live t. t_dirty t ! a \<and> m a = AtSlot nid)) \<and>
     (\<forall>i j off. bt_get assigned i = Some off \<longrightarrow> bt_get assigned j = Some off \<longrightarrow> i = j)"

lemma serialize_before:
  assumes run: "serialize_nodes E s (xs @ i # ys) [] [] [] = Some (Inr (buf, assigned, lens))" "distinct (xs @ i # ys)" and j: "j \<in> set xs"
    and off: "bt_get assigned i = Some off" "bt_get assigned j = Some off'"
  shows "off' < off"
proof -
  have w: "written_at E s ys buf assigned lens i" by (rule serialize_written [OF run]) simp
  have "j \<noteq> i" "j \<notin> set ys" using run(2) j by auto
  with w off show ?thesis unfolding written_at_def by fastforce
qed

lemma serialize_inj:
  assumes run: "serialize_nodes E s nids [] [] [] = Some (Inr (buf, assigned, lens))" "distinct nids"
    and off: "bt_get assigned i = Some off" "bt_get assigned j = Some off"
  shows "i = j"
proof (rule ccontr)
  assume ne: "i \<noteq> j"
  have dom: "k \<in> set nids" if "bt_get assigned k = Some off" for k
    using serialize_keeps(2) [OF run(1), of k] that by (cases "k \<in> set nids") auto
  obtain xs ys where nids: "nids = xs @ i # ys" using dom [OF off(1)] by (meson split_list)
  then consider "j \<in> set xs" | "j \<in> set ys" using dom [OF off(2)] ne by auto
  then show False
  proof cases
    case 1
    then show ?thesis using serialize_before [of E s xs i ys] run nids off by blast
  next
    case 2
    then obtain us vs where "ys = us @ j # vs" by (meson split_list)
    then show ?thesis using serialize_before [of E s "xs @ i # us" j vs buf assigned lens i off off] run nids off by auto
  qed
qed

lemma serialize_bt_ok: "serialize_nodes E s nids buf assigned lens = Some (Inr (buf', assigned', lens')) \<Longrightarrow> bt_ok assigned \<Longrightarrow> bt_ok assigned'"
proof (induction nids arbitrary: buf assigned lens)
  case (Cons nid nids)
  show ?case by (rule serialize_step [OF Cons.prems(1)]) (rule Cons.IH, assumption, use Cons.prems(2) in \<open>simp add: bt_ok_insert\<close>)
qed simp

lemma walk_planned:
  assumes sim: "sim rd (live t) s t m" and grey: "grey (live t) t" and pre: "list_all2 (placed m) pre dpre" "distinct pre" "set pre \<subseteq> live t"
      "\<forall>a\<in>set pre. t_dirty t ! a" "parents_first t pre" "t_dirty t ! t_root t \<longrightarrow> t_root t \<in> set pre"
  shows "\<exists>r. serialize_nodes E s (rev dpre) [] [] [] = Some r"
    and "serialize_nodes E s (rev dpre) [] [] [] = Some (Inr (buf, assigned, lens)) \<Longrightarrow> planned E s t m buf assigned lens"
proof -
  define sl where "sl a = (case m a of AtSlot nid \<Rightarrow> nid | AtFile off \<Rightarrow> off)" for a
  have at: "m a = AtSlot (sl a)" if "a \<in> set pre" for a
    by (rule dirty_slot [OF sim, of a]) (use pre(3,4) that in \<open>auto simp: sl_def\<close>)
  have "dpre = map sl pre"
    using pre(1) by (induction rule: list_all2_induct) (simp_all add: sl_def placed_def)
  then have dpre: "rev dpre = map sl (rev pre)" by (simp add: rev_map)
  have "inj_on sl (set pre)" using sim pre(3) at unfolding sim_def inj_on_def by (metis subsetD)
  then have dist: "distinct (map sl (rev pre))" using pre(2) by (simp add: distinct_map)
  have later: "c \<in> set as" if "rev pre = as @ a # bs" "c \<in> set (kids (t_nodes t ! a))" "t_dirty t ! c" for as a bs c
    using parents_first_split [of t "rev bs" a "rev as" c] pre(5) that by (simp add: rev_swap)
  have "serialize_nodes E s (map sl (rev pre)) [] [] [] \<noteq> None"
  proof (rule serialize_total [where D = "{}"])
    fix xs nid ys and known :: "(node_id, nat) btmap"
    assume split: "map sl (rev pre) = xs @ nid # ys" and known: "\<forall>i\<in>set xs \<union> {}. bt_get known i \<noteq> None"
    obtain as a bs where s1: "rev pre = as @ a # bs" "xs = map sl as" "nid = sl a"
      using split by (auto simp: map_eq_append_conv Cons_eq_map_conv map_eq_Cons_conv)
    have a: "a \<in> set pre" using s1(1) by (metis in_set_conv_decomp set_rev)
    show "node_payload E s known nid \<noteq> None"
    proof (rule payload_known [OF sim, of a])
      fix c cid assume c: "c \<in> set (kids (t_nodes t ! a))" "m c = AtSlot cid" "t_dirty t ! c"
      have "c \<in> set as" by (rule later [OF s1(1) c(1,3)])
      then show "bt_get known cid \<noteq> None" using known s1(2) c(2) by (auto simp: sl_def)
    qed (use a pre(3,4) at s1(3) in auto)
  qed simp
  then show "\<exists>r. serialize_nodes E s (rev dpre) [] [] [] = Some r" by (auto simp: dpre)
  assume run: "serialize_nodes E s (rev dpre) [] [] [] = Some (Inr (buf, assigned, lens))"
  have "\<exists>nid later. m a = AtSlot nid \<and> written_at E s later buf assigned lens nid \<and>
        (\<forall>c\<in>set (kids (t_nodes t ! a)). t_dirty t ! c \<longrightarrow> m c \<noteq> AtSlot nid \<and> m c \<notin> AtSlot ` set later)"
    if "a \<in> live t" "t_dirty t ! a" for a
  proof -
    have a: "a \<in> set (rev pre)" using walk_complete [OF grey pre(5,6) that(1)] that(2) by simp
    then obtain as bs where s1: "rev pre = as @ a # bs" by (meson split_list)
    have "written_at E s (map sl bs) buf assigned lens (sl a)"
      by (rule serialize_written [of E s "map sl as" "sl a" "map sl bs" "[]" "[]" "[]"]) (use run dist s1 dpre in auto)
    moreover have "m c \<noteq> AtSlot (sl a) \<and> m c \<notin> AtSlot ` set (map sl bs)" if "c \<in> set (kids (t_nodes t ! a))" "t_dirty t ! c" for c
    proof -
      have c: "c \<in> set as" by (rule later [OF s1 that])
      then have "sl c \<in> set (map sl as)" by simp
      then have "sl c \<notin> set (map sl (a # bs))" using dist s1 by (auto simp del: set_map)
      moreover have "c \<in> set pre" using c s1 by (metis UnI1 set_append set_rev)
      ultimately show ?thesis using at [of c] by auto
    qed
    ultimately show ?thesis using at a by (intro exI [of _ "sl a"] exI [of _ "map sl bs"]) auto
  qed
  moreover have "\<exists>a\<in>live t. t_dirty t ! a \<and> m a = AtSlot nid" if "bt_get assigned nid = Some off" for nid off
  proof -
    have "nid \<in> set (rev dpre)" using serialize_keeps(2) [OF run, of nid] that by (cases "nid \<in> set (rev dpre)") auto
    then show ?thesis using dpre at pre(3,4) by auto
  qed
  ultimately show "planned E s t m buf assigned lens"
    using serialize_bt_ok [OF run] serialize_inj [OF run] dist dpre unfolding planned_def by auto
qed

text \<open>A commit can always be planned: it fails to plan only with an error of the encoder.\<close>

lemma plan_sim:
  assumes rest: "at_rest True rd (live t) s t m"
  shows "\<exists>r. commit_plan E s = Some r"
    and "commit_plan E s = Some (Inr (buf, assigned, lens)) \<Longrightarrow> planned E s t m buf assigned lens"
proof -
  have sim: "sim rd (live t) s t m" and own: "owned {#t_root t#} (live t) (t_nodes t)" and grey: "grey (live t) t"
    and root: "placed m (t_root t) (d_root s)"
    using rest by (simp_all add: at_rest_def related_def placed_def)
  have d: "is_dirty s (d_root s) = Some (t_dirty t ! t_root t)"
    using is_dirty_placed [OF sim live_root root] sim_kids [OF sim live_root] by (simp add: index_eq_Some)
  have "\<exists>pre dpre. (if t_dirty t ! t_root t then disk_dirty_walk s [d_root s] else Some []) = Some dpre \<and> list_all2 (placed m) pre dpre \<and>
    distinct pre \<and> set pre \<subseteq> live t \<and> (\<forall>a\<in>set pre. t_dirty t ! a) \<and> parents_first t pre \<and> (t_dirty t ! t_root t \<longrightarrow> t_root t \<in> set pre)"
  proof (cases "t_dirty t ! t_root t")
    case True
    then show ?thesis using dirty_walk_sim [OF sim, of "[t_root t]" "live t" "[d_root s]"] own root by auto
  next
    case False
    then show ?thesis by (intro exI [of _ "[]"]) simp
  qed
  then obtain pre dpre where w: "(if t_dirty t ! t_root t then disk_dirty_walk s [d_root s] else Some []) = Some dpre"
    and p: "list_all2 (placed m) pre dpre" "distinct pre" "set pre \<subseteq> live t" "\<forall>a\<in>set pre. t_dirty t ! a" "parents_first t pre"
      "t_dirty t ! t_root t \<longrightarrow> t_root t \<in> set pre" by blast
  have plan: "commit_plan E s = serialize_nodes E s (rev dpre) [] [] []" using w d by (auto simp: commit_plan_def)
  show "\<exists>r. commit_plan E s = Some r"
    and "commit_plan E s = Some (Inr (buf, assigned, lens)) \<Longrightarrow> planned E s t m buf assigned lens"
    using walk_planned [OF sim grey p] by (simp_all add: plan)
qed

end
