(* ===== verification/Disk_Sim_Commit.thy ===== *)
theory Disk_Sim_Commit
  imports Disk_Sim_Walk
begin

text \<open>
  A commit in step with the in-memory tree. Each live node has one offset in the committed file, the
  record there is the node with its children's offsets (\<open>imaged\<close>), and an engine that adopts those
  offsets, or that opens the file, is in step with the same tree, now clean.
\<close>

section \<open>The image of a tree\<close>

fun node_record :: "(node_id \<Rightarrow> nat) \<Rightarrow> node \<Rightarrow> disk_node" where
  "node_record off (Leaf es) = DiskLeaf es"
| "node_record off (Internal ps cs b) = DiskInternal ps (map off cs) b"

definition imaged :: "(nat \<Rightarrow> disk_node option) \<Rightarrow> 'p betree \<Rightarrow> (node_id \<Rightarrow> nat) \<Rightarrow> bool" where
  "imaged rd t off \<longleftrightarrow> inj_on off (live t) \<and> owned {#t_root t#} (live t) (t_nodes t) \<and>
     (\<forall>a\<in>live t. a < length (t_nodes t) \<and> rd (off a) = Some (node_record off (t_nodes t ! a)))"

lemma imaged_mono: "imaged rd t off \<Longrightarrow> (\<And>o' n. rd o' = Some n \<Longrightarrow> rd' o' = Some n) \<Longrightarrow> imaged rd' t off"
  by (simp add: imaged_def)

text \<open>Where a commit puts the node that a place refers to.\<close>
fun place :: "('v, 'p) disk_engine \<Rightarrow> (node_id, nat) btmap \<Rightarrow> vref \<Rightarrow> nat" where
  "place s assigned (AtFile off) = off"
| "place s assigned (AtSlot nid) = the (resolve_offset s assigned nid)"

lemma place_ref_of:
  assumes "interned s" "\<not> ref_dirty s (ref_of s off)"
  shows "place s assigned (ref_of s off) = off"
proof (cases "bt_get (d_offsets s) off")
  case (Some nid)
  then obtain slot where slot: "index (d_slots s) nid = Some slot" "slot_off slot = Some off" using assms(1) by (auto simp: interned_def)
  then have "\<not> slot_dirty slot" using assms(2) Some by (simp add: ref_of_def ref_dirty_def)
  then show ?thesis using slot Some by (cases slot) (auto simp: ref_of_def resolve_offset_def)
qed (simp add: ref_of_def)

lemma clean_place:
  assumes sim: "sim rd L s t m" and a: "a \<in> L" "\<not> t_dirty t ! a"
  shows "ref_of s (place s assigned (m a)) = m a" "file_view rd s (place s assigned (m a)) = Some (ren m (t_nodes t ! a))"
proof -
  have n: "node_sim rd L s t m a" and int: "interned s" and slots: "\<forall>slot\<in>set (d_slots s). slot_ok slot"
    using sim a(1) by (simp_all add: sim_def cache_ok_def)
  have "ref_of s (place s assigned (m a)) = m a \<and> file_view rd s (place s assigned (m a)) = Some (ren m (t_nodes t ! a))"
  proof (cases "m a")
    case (AtFile off)
    then show ?thesis using n by (simp add: node_sim_def ref_of_def ref_view_def)
  next
    case (AtSlot nid)
    have "\<exists>slot off. index (d_slots s) nid = Some slot \<and> slot_off slot = Some off \<and> resolve_offset s assigned nid = Some off \<and>
      file_view rd s off = Some (ren m (t_nodes t ! a))"
    proof (rule sim_slot [OF sim a(1) AtSlot])
      fix n d off b tk
      assume l: "index (d_slots s) nid = Some (Loaded n d off b tk)" "mem_view n = ren m (t_nodes t ! a)" "t_dirty t ! a = d"
      then have "Loaded n d off b tk \<in> set (d_slots s)" by (metis index_eq_Some nth_mem)
      then obtain o' where "off = Some o'" using slots l(3) a(2) by fastforce
      then show ?thesis using l a(2) n AtSlot by (auto simp: node_sim_def clean_ok_def resolve_offset_def)
    qed (auto simp: resolve_offset_def)
    then obtain slot off where slot: "index (d_slots s) nid = Some slot" "slot_off slot = Some off" "resolve_offset s assigned nid = Some off"
      "file_view rd s off = Some (ren m (t_nodes t ! a))" by blast
    then have "bt_get (d_offsets s) off = Some nid" using int by (auto simp: interned_def)
    then show ?thesis using slot AtSlot by (simp add: ref_of_def)
  qed
  then show "ref_of s (place s assigned (m a)) = m a" "file_view rd s (place s assigned (m a)) = Some (ren m (t_nodes t ! a))" by auto
qed

lemma clean_imaged:
  assumes sim: "sim rd L s t m" and a: "a \<in> L" "\<not> t_dirty t ! a" and grey: "grey L t"
  shows "rd (place s assigned (m a)) = Some (node_record (place s assigned \<circ> m) (t_nodes t ! a))"
proof -
  have kid: "place s assigned (m c) = o'" if "c \<in> set (kids (t_nodes t ! a))" "ref_of s o' = m c" for c o'
  proof -
    have c: "c \<in> L" "\<not> t_dirty t ! c" using that(1) sim_kids [OF sim a(1)] grey a unfolding grey_def by auto
    then have "\<not> ref_dirty s (ref_of s o')" using sim that(2) by (simp add: sim_def node_sim_def)
    then show ?thesis using place_ref_of [of s o' assigned] sim that(2) by (simp add: sim_def)
  qed
  have kids: "offs = map (place s assigned \<circ> m) cs" if "map (ref_of s) offs = map m cs" "set cs \<subseteq> set (kids (t_nodes t ! a))" for offs cs
    using that
  proof (induction cs arbitrary: offs)
    case (Cons c cs)
    then obtain o' offs' where "offs = o' # offs'" "ref_of s o' = m c" "map (ref_of s) offs' = map m cs" by (auto simp: map_eq_Cons_conv)
    then show ?case using Cons.IH [of offs'] Cons.prems kid [of c o'] by simp
  qed simp
  show ?thesis using clean_place(2) [OF sim a, of assigned] kids
    by (cases "t_nodes t ! a") (auto simp: file_view_def split: option.split_asm disk_node.split_asm)
qed

section \<open>The records of the dirty nodes\<close>

lemma record_stored:
  assumes enc: "encode_node cd dn = Inr payload" "length payload < 2 ^ 32" "node_codec_ok cd dn"
    and at: "extends F wm (before @ record_bytes cd payload @ behind) file wm'" "DATA_START \<le> wm" and ok: "record_ok (wm + length before) dn"
  shows "stored_node cd file wm' (wm + length before) = Some dn"
proof -
  have "drop (length before) (take (length (before @ record_bytes cd payload @ behind)) (drop wm file)) = record_bytes cd payload @ behind"
    using at(1) by (simp add: extends_def)
  then have taken: "take (8 + length payload) (drop (wm + length before) file) = record_bytes cd payload"
    by (simp add: drop_take record_bytes_split add.commute) (metis append_eq_conv_conj record_bytes_split(4) take_take min.absorb1 le_add1 add.commute)
  have "stored_record cd file wm' (wm + length before) = Some (dn, length payload)"
    by (rule stored_record_written [OF _ _ _ enc(2) taken decode_encode_node [OF enc(3,1)]])
      (use at in \<open>auto simp: extends_def record_bytes_split\<close>)
  then show ?thesis using ok by (simp add: stored_node_def)
qed

lemma resolve_same:
  assumes "is_dirty s cid = Some True \<longrightarrow> bt_get known cid = bt_get assigned cid"
  shows "resolve_offset s known cid = resolve_offset s assigned cid"
  using assms by (cases "index (d_slots s) cid") (auto simp: resolve_offset_def is_dirty_def split: node_slot.split)

lemma resolve_below:
  assumes "resolve_offset s known cid = Some off" "offsets_ok s" "\<And>i o'. bt_get known i = Some o' \<Longrightarrow> DATA_START \<le> o' \<and> o' < d_watermark s + n"
  shows "DATA_START \<le> off \<and> off < d_watermark s + n"
  using assms offsets_ok_slot [OF assms(2), of cid]
  by (auto simp: resolve_offset_def RECORD_HEADER_SIZE_def split: node_slot.split_asm if_split_asm elim!: bind_SomeE)

lemma kids_resolved:
  assumes sim: "sim rd L s t m" and cs: "list_all2 (placed m) as cs" "set as \<subseteq> L"
    and known: "\<And>a cid. a \<in> set as \<Longrightarrow> m a = AtSlot cid \<Longrightarrow> t_dirty t ! a \<Longrightarrow> bt_get known cid = bt_get assigned cid"
    and offs: "those (map (resolve_offset s known) cs) = Some offs"
  shows "offs = map (place s assigned \<circ> m) as"
  using cs known offs
proof (induction arbitrary: offs rule: list_all2_induct)
  case (Cons a as c cs)
  have m: "m a = AtSlot c" using Cons.hyps by (simp add: placed_def)
  have "is_dirty s c = Some (t_dirty t ! a)"
    using is_dirty_placed [OF sim, of a c] Cons.hyps Cons.prems(1) sim_kids [OF sim, of a] by (simp add: index_eq_Some)
  then have "resolve_offset s known c = resolve_offset s assigned c"
    using Cons.prems(2) [of a c] m by (intro resolve_same) auto
  moreover obtain o' offs' where "resolve_offset s known c = Some o'" "those (map (resolve_offset s known) cs) = Some offs'" "offs = o' # offs'"
    using Cons.prems(3) by (auto split: option.split_asm)
  moreover have "offs' = map (place s assigned \<circ> m) as" using Cons.prems(1,2) calculation(3) by (intro Cons.IH) auto
  ultimately show ?case using m by (simp add: eq_commute [of "Some _"])
qed simp

definition arities_ok :: "'p betree \<Rightarrow> bool" where
  "arities_ok t \<longleftrightarrow> (\<forall>a\<in>live t. \<forall>ps cs b. t_nodes t ! a = Internal ps cs b \<longrightarrow> length cs = length ps + 1)"

lemma betree_arities:
  assumes "betree_inv t"
  shows "arities_ok t"
proof -
  obtain h where h: "root_tree (t_params t) (t_nodes t) h (t_root t)" using assms by (auto simp: betree_inv_def)
  let ?ok = "\<lambda>a. (\<exists>es. t_nodes t ! a = Leaf es) \<or> (\<exists>h lo hi. tree (t_params t) (t_nodes t) h lo hi a)"
  have shape: "length cs = length ps + 1 \<and> (\<forall>c\<in>set cs. ?ok c)" if ok: "?ok a" and int: "t_nodes t ! a = Internal ps cs b" for a ps cs b
  proof -
    obtain h lo hi where tr: "tree (t_params t) (t_nodes t) h lo hi a" using ok unfolding int by blast
    then obtain h' where "h = Suc h'" using int by (cases h) (auto simp: index_eq_Some split: option.split_asm node.split_asm)
    with tr int have n: "length cs = Suc (length ps)" "\<forall>(l, c, u)\<in>set (segs lo hi ps cs). tree (t_params t) (t_nodes t) h' l u c"
      by (auto simp: tree.simps index_eq_Some split: option.split_asm node.split_asm)
    then show ?thesis using segs_child [OF n(1)] by fastforce
  qed
  have "?ok (t_root t)" using h by (auto simp: root_tree_def index_eq_Some split: if_split_asm option.split_asm node.split_asm)
  moreover have "set (kids (t_nodes t ! a)) \<subseteq> Collect ?ok" if "?ok a" for a
    using shape [OF that] by (cases "t_nodes t ! a") auto
  ultimately have "live t \<subseteq> Collect ?ok" by (intro live_least) auto
  then show ?thesis using shape unfolding arities_ok_def by blast
qed

lemma dirty_imaged:
  assumes sim: "sim rd (live t) s t m" and plan: "planned E s t m buf assigned lens" and a: "a \<in> live t" "t_dirty t ! a"
    and cd: "env_codec E = cd" "\<forall>n. node_codec_ok cd n" and wm: "DATA_START \<le> d_watermark s" "offsets_ok s" and ar: "arities_ok t"
    and e: "extends F (d_watermark s) buf file wm'"
  shows "stored_node cd file wm' (place s assigned (m a)) = Some (node_record (place s assigned \<circ> m) (t_nodes t ! a))"
    "d_watermark s \<le> place s assigned (m a)" "\<exists>nid. m a = AtSlot nid \<and> bt_get assigned nid = Some (place s assigned (m a)) \<and> bt_get lens nid \<noteq> None"
proof -
  obtain nid later where nid: "m a = AtSlot nid" "written_at E s later buf assigned lens nid"
    "\<forall>c\<in>set (kids (t_nodes t ! a)). t_dirty t ! c \<longrightarrow> m c \<noteq> AtSlot nid \<and> m c \<notin> AtSlot ` set later"
    using plan a unfolding planned_def by blast
  obtain n off b tk where slot: "index (d_slots s) nid = Some (Loaded n True off b tk)" "node_match m (t_nodes t ! a) n"
    by (rule dirty_slot [OF sim a]) (use nid(1) in auto)
  obtain before payload behind known where w: "node_payload E s known nid = Some (Inr payload)" "length payload < 2 ^ 32"
    "buf = before @ record_bytes cd payload @ behind" "bt_get assigned nid = Some (d_watermark s + length before)" "bt_get lens nid \<noteq> None"
    "\<forall>i. i \<noteq> nid \<longrightarrow> i \<notin> set later \<longrightarrow> bt_get known i = bt_get assigned i"
    "\<forall>i off. bt_get known i = Some off \<longrightarrow> d_watermark s \<le> off \<and> off < d_watermark s + length before"
    using nid(2) cd(1) unfolding written_at_def by blast
  have pl: "place s assigned (m a) = d_watermark s + length before" using nid(1) slot(1) w(4) by (simp add: resolve_offset_def)
  then show "d_watermark s \<le> place s assigned (m a)"
    "\<exists>nid. m a = AtSlot nid \<and> bt_get assigned nid = Some (place s assigned (m a)) \<and> bt_get lens nid \<noteq> None"
    using nid(1) w(4,5) by simp_all
  have ld: "loaded s nid = Some n" using slot(1) by (simp add: loaded_def)
  have "\<exists>dn. encode_node cd dn = Inr payload \<and> record_ok (d_watermark s + length before) dn \<and> dn = node_record (place s assigned \<circ> m) (t_nodes t ! a)"
  proof (cases "t_nodes t ! a")
    case (Leaf es)
    then show ?thesis using w(1) ld slot(2) cd(1) by (auto simp: node_payload_def split: sum.split_asm)
  next
    case (Internal ps as bf)
    then obtain cs where n: "n = Internal ps cs bf" "list_all2 (placed m) as cs" using slot(2) by auto
    obtain offs where offs: "those (map (resolve_offset s known) cs) = Some offs" "encode_node cd (DiskInternal ps offs bf) = Inr payload"
      using w(1) ld cd(1) n(1) by (auto simp: node_payload_def split: sum.split_asm elim!: bind_SomeE)
    have "offs = map (place s assigned \<circ> m) as"
      by (rule kids_resolved [OF sim n(2) _ _ offs(1)]) (use live_kids [OF a(1)] nid(3) w(6) Internal in fastforce)+
    moreover have "\<forall>c\<in>set offs. DATA_START \<le> c \<and> c < d_watermark s + length before"
    proof
      fix c assume "c \<in> set offs"
      then obtain i where "i < length cs" "resolve_offset s known (cs ! i) = Some c" using those_map_nth [OF offs(1)] by (auto simp: in_set_conv_nth)
      then show "DATA_START \<le> c \<and> c < d_watermark s + length before"
        using resolve_below [OF _ wm(2), of known "cs ! i" c "length before"] w(7) wm(1) by force
    qed
    moreover have "length as = length ps + 1" using ar a(1) Internal unfolding arities_ok_def by blast
    ultimately show ?thesis using offs(2) Internal by auto
  qed
  then show "stored_node cd file wm' (place s assigned (m a)) = Some (node_record (place s assigned \<circ> m) (t_nodes t ! a))"
    using record_stored [OF _ w(2), where F = F and wm = "d_watermark s" and before = before and behind = behind] e w(3) wm(1) cd(2) pl by auto
qed

lemma commit_imaged:
  assumes rest: "at_rest True (stored_node cd F (d_watermark s)) (live t) s t m" and plan: "planned E s t m buf assigned lens"
    and cd: "env_codec E = cd" "\<forall>n. node_codec_ok cd n" and wm: "DATA_START \<le> d_watermark s" "offsets_ok s" and ar: "arities_ok t"
    and e: "extends F (d_watermark s) buf file wm'"
  shows "imaged (stored_node cd file wm') t (place s assigned \<circ> m)"
proof -
  let ?off = "place s assigned \<circ> m" and ?rd = "stored_node cd F (d_watermark s)"
  have sim: "sim ?rd (live t) s t m" and own: "owned {#t_root t#} (live t) (t_nodes t)" and grey: "grey (live t) t"
    using rest by (simp_all add: at_rest_def related_def)
  note dirty = dirty_imaged [OF sim plan _ _ cd wm ar e]
  have low: "?off a < d_watermark s" if "a \<in> live t" "\<not> t_dirty t ! a" for a
    using clean_imaged [OF sim that grey, of assigned]
    by (auto simp: stored_node_def stored_record_def RECORD_HEADER_SIZE_def Let_def split: option.split_asm if_split_asm)
  have "inj_on ?off (live t)"
  proof (rule inj_onI)
    fix a b assume ab: "a \<in> live t" "b \<in> live t" "?off a = ?off b"
    have "t_dirty t ! a = t_dirty t ! b" using ab low dirty(2) by (metis comp_apply not_less)
    then have "m a = m b"
    proof (cases "t_dirty t ! a")
      case True
      then show ?thesis using ab dirty(3) [of a] dirty(3) [of b] plan \<open>t_dirty t ! a = t_dirty t ! b\<close> unfolding planned_def by (metis comp_apply)
    next
      case False
      then show ?thesis using ab clean_place(1) [OF sim, of a assigned] clean_place(1) [OF sim, of b assigned] \<open>t_dirty t ! a = t_dirty t ! b\<close>
        by (metis comp_apply)
    qed
    then show "a = b" using sim ab unfolding sim_def inj_on_def by blast
  qed
  moreover have "stored_node cd file wm' (?off a) = Some (node_record ?off (t_nodes t ! a))" if "a \<in> live t" for a
    using dirty(1) [OF that] extends_mono [OF e] clean_imaged [OF sim that _ grey, of assigned] by (cases "t_dirty t ! a") auto
  ultimately show ?thesis using own sim_kids [OF sim] by (simp add: imaged_def)
qed

section \<open>A clean engine\<close>

lemma clean_sim:
  assumes img: "imaged rd t off" and s: "cache_ok s" "interned s" "same_fields s t" "blind (t_policy t)"
    and clean: "length (t_dirty t) = length (t_nodes t)" "\<forall>a\<in>live t. \<not> t_dirty t ! a"
    and root: "bt_get (d_offsets s) (off (t_root t)) = Some (d_root s)"
    and slots: "\<And>a n d b tk nid. a \<in> live t \<Longrightarrow> index (d_slots s) nid = Some (Loaded n d (Some (off a)) b tk) \<Longrightarrow>
      \<not> d \<and> file_view rd s (off a) = Some (mem_view n)"
  shows "at_rest True rd (live t) s t (ref_of s \<circ> off)"
proof -
  let ?m = "ref_of s \<circ> off"
  have int: "bt_get (d_offsets s) o' = Some nid \<longleftrightarrow> (\<exists>slot. index (d_slots s) nid = Some slot \<and> slot_off slot = Some o')" for o' nid
    using s(2) by (simp add: interned_def)
  have same: "x = y" if "ref_of s x = ref_of s y" for x y
    using that int by (auto simp: ref_of_def split: option.split_asm)
  have inj: "inj_on ?m (live t)" using img same unfolding imaged_def inj_on_def by (metis comp_apply)
  have view: "file_view rd s (off a) = Some (ren ?m (t_nodes t ! a))" if "a \<in> live t" for a
    using img that by (cases "t_nodes t ! a") (auto simp: imaged_def file_view_def)
  have "node_sim rd (live t) s t ?m a" if a: "a \<in> live t" for a
  proof (cases "bt_get (d_offsets s) (off a)")
    case None
    then show ?thesis using a img view [OF a] live_kids [OF a] clean(2)
      by (simp add: node_sim_def imaged_def ref_of_def ref_view_def ref_dirty_def)
  next
    case (Some nid)
    then obtain slot where slot: "index (d_slots s) nid = Some slot" "slot_off slot = Some (off a)" using int by blast
    then show ?thesis using a img view [OF a] live_kids [OF a] clean(2) slots [OF a, of nid] Some
      by (cases slot) (auto simp: node_sim_def imaged_def ref_of_def ref_view_def ref_dirty_def clean_ok_def)
  qed
  then have "sim rd (live t) s t ?m" using s clean inj by (simp add: sim_def)
  moreover have "grey (live t) t" using clean(2) live_kids unfolding grey_def by blast
  ultimately show ?thesis using s(4) img root by (simp add: at_rest_def related_def imaged_def ref_of_def)
qed

section \<open>Adopting the records\<close>

text \<open>What adoption does to a slot: a written node is clean and lies at its new offset.\<close>
fun adopted :: "nat option \<Rightarrow> node_slot option \<Rightarrow> node_slot option \<Rightarrow> bool" where
  "adopted (Some off) (Some (Loaded n d old b t)) slot' \<longleftrightarrow> (\<exists>e. slot' = Some (Loaded n False (Some off) e t))"
| "adopted _ slot slot' \<longleftrightarrow> slot' = slot"

definition adoptable :: "(node_id \<times> nat) list \<Rightarrow> (node_id, nat) btmap \<Rightarrow> ('v, 'p) disk_engine \<Rightarrow> bool" where
  "adoptable xs lens s \<longleftrightarrow> cache_ok s \<and> interned s \<and> distinct (map fst xs) \<and> distinct (map snd xs) \<and>
     (\<forall>(i, off)\<in>set xs. bt_get (d_offsets s) off = None \<and> bt_get lens i \<noteq> None \<and> (\<exists>n d old b t. index (d_slots s) i = Some (Loaded n d old b t)))"

definition adopt_one :: "node_id \<Rightarrow> nat \<Rightarrow> nat \<Rightarrow> ('v, 'p) disk_engine \<Rightarrow> ('v, 'p) disk_engine option" where
  "adopt_one nid off exact s = (case index (d_slots s) nid of
     Some (Loaded n d old b t) \<Rightarrow> do {
       c \<leftarrow> recount b exact (d_cache s);
       Some (set_slot nid (Loaded n False (Some off) exact t)
         (s\<lparr>d_cache := c, d_offsets := bt_insert off nid (case old of None \<Rightarrow> d_offsets s | Some o' \<Rightarrow> bt_remove o' (d_offsets s))\<rparr>))
     }
   | _ \<Rightarrow> None)"

lemma adopt_records_one:
  "adopt_records ((nid, off) # xs) lens s = do { exact \<leftarrow> bt_get lens nid; s \<leftarrow> adopt_one nid off exact s; adopt_records xs lens s }"
  if "\<exists>n d old b t. index (d_slots s) nid = Some (Loaded n d old b t)"
  using that by (cases "bt_get lens nid") (auto simp: adopt_one_def Let_def split: Option.bind_split)

lemma adopt_one_ok:
  assumes s: "cache_ok s" "interned s" and slot: "index (d_slots s) nid = Some (Loaded n d old b t)" and new: "bt_get (d_offsets s) off = None"
  obtains s' where "adopt_one nid off exact s = Some s'" "cache_ok s'" "interned s'" "outer s' = outer s"
    "d_slots s' = (d_slots s)[nid := Loaded n False (Some off) exact t]"
    "bt_get (d_offsets s') = (case old of None \<Rightarrow> bt_get (d_offsets s) | Some o' \<Rightarrow> (bt_get (d_offsets s))(o' := None))(off \<mapsto> nid)"
proof -
  have b: "b \<le> cache_bytes (d_cache s)" using cache_enough(1) [OF s(1) slot] by simp
  obtain s' where s': "adopt_one nid off exact s = Some s'" using slot by (simp add: adopt_one_def recount_ok [OF b])
  have "adopt_records [(nid, off)] [(nid, exact)] s = Some s'"
    using s' slot by (auto simp: adopt_one_def Let_def split: option.split_asm elim!: bind_SomeE)
  then have cache: "cache_ok s'" using adopt_records_cache s(1) by blast
  have ok: "bt_ok (d_offsets s)" using s(2) by (simp add: interned_def)
  have offs: "d_offsets s' = bt_insert off nid (case old of None \<Rightarrow> d_offsets s | Some o' \<Rightarrow> bt_remove o' (d_offsets s))"
    and slots: "d_slots s' = (d_slots s)[nid := Loaded n False (Some off) exact t]" and out: "outer s' = outer s"
    using s' slot by (auto simp: adopt_one_def set_slot_def recount_ok [OF b])
  have get: "bt_get (d_offsets s') = (case old of None \<Rightarrow> bt_get (d_offsets s) | Some o' \<Rightarrow> (bt_get (d_offsets s))(o' := None))(off \<mapsto> nid)"
    using ok by (auto simp: offs bt_get_insert bt_get_remove split: option.split)
  have nid: "nid < length (d_slots s)" "d_slots s ! nid = Loaded n d old b t" using slot by (auto simp: index_eq_Some)
  have int: "bt_get (d_offsets s) o' = Some i \<longleftrightarrow> (\<exists>slot. index (d_slots s) i = Some slot \<and> slot_off slot = Some o')" for o' i
    using s(2) by (simp add: interned_def)
  have "bt_get (d_offsets s') o' = Some i \<longleftrightarrow> (\<exists>slot. index (d_slots s') i = Some slot \<and> slot_off slot = Some o')" for o' i
  proof (cases "i = nid")
    case True
    have "bt_get (d_offsets s) o' = Some nid \<longleftrightarrow> old = Some o'" using int [of o' nid] slot by auto
    then show ?thesis using True nid new by (auto simp: get slots index_def split: option.split)
  next
    case False
    have "bt_get (d_offsets s) o' = Some nid" if "old = Some o'" for o' using int [of o' nid] slot that by auto
    moreover have "index (d_slots s') i = index (d_slots s) i" using False by (simp add: slots index_def)
    ultimately show ?thesis using False int [of o' i] new by (cases old) (auto simp: get)
  qed
  moreover have "bt_ok (d_offsets s')" using ok by (auto simp: offs bt_ok_insert bt_ok_remove split: option.split)
  ultimately have "interned s'" by (simp add: interned_def)
  then show thesis using that s' cache out slots get by blast
qed

lemma adopt_records_sim:
  assumes "adoptable xs lens s"
  shows "\<exists>s'. adopt_records xs lens s = Some s' \<and> cache_ok s' \<and> interned s' \<and> outer s' = outer s \<and>
    (\<forall>i. adopted (map_of xs i) (index (d_slots s) i) (index (d_slots s') i))"
  using assms
proof (induction xs arbitrary: s)
  case Nil
  then show ?case by (simp add: adoptable_def)
next
  case (Cons x xs)
  obtain nid off where x: "x = (nid, off)" by fastforce
  obtain n d old b t exact where slot: "index (d_slots s) nid = Some (Loaded n d old b t)" and len: "bt_get lens nid = Some exact"
    using Cons.prems x by (auto simp: adoptable_def)
  obtain s1 where s1: "adopt_one nid off exact s = Some s1" "cache_ok s1" "interned s1" "outer s1 = outer s"
    "d_slots s1 = (d_slots s)[nid := Loaded n False (Some off) exact t]"
    "bt_get (d_offsets s1) = (case old of None \<Rightarrow> bt_get (d_offsets s) | Some o' \<Rightarrow> (bt_get (d_offsets s))(o' := None))(off \<mapsto> nid)"
    by (rule adopt_one_ok [of s nid n d old b t off exact]) (use Cons.prems x slot in \<open>auto simp: adoptable_def\<close>)
  have idx: "index (d_slots s1) i = (if i = nid then Some (Loaded n False (Some off) exact t) else index (d_slots s) i)" for i
    using slot by (auto simp: s1(5) index_def split: if_split_asm)
  have "adoptable xs lens s1" using Cons.prems x s1(2,3) unfolding adoptable_def
    by (auto simp: idx s1(6) image_iff split: option.split)
  from Cons.IH [OF this] obtain s' where s': "adopt_records xs lens s1 = Some s'" "cache_ok s'" "interned s'" "outer s' = outer s1"
    "\<forall>i. adopted (map_of xs i) (index (d_slots s1) i) (index (d_slots s') i)" by blast
  have nid: "map_of xs nid = None" using Cons.prems x by (auto simp: adoptable_def map_of_eq_None_iff)
  have "adopted (map_of (x # xs) i) (index (d_slots s) i) (index (d_slots s') i)" for i
    using s'(5) [rule_format, of i] nid slot x by (cases "i = nid") (auto simp: idx)
  moreover have "adopt_records (x # xs) lens s = Some s'" using s1(1) s'(1) slot len x by (simp add: adopt_records_one del: adopt_records.simps)
  ultimately show ?case using s' s1(4) by auto
qed

section \<open>A commit, in step\<close>

definition cleaned :: "'p betree \<Rightarrow> 'p betree" where
  "cleaned t = t\<lparr>t_dirty := replicate (length (t_nodes t)) False\<rparr>"

lemma cleaned_simps [simp]:
  "t_nodes (cleaned t) = t_nodes t" "t_root (cleaned t) = t_root t" "live (cleaned t) = live t" "t_policy (cleaned t) = t_policy t"
  "length (t_dirty (cleaned t)) = length (t_nodes t)" "imaged rd (cleaned t) off = imaged rd t off" "same_fields s (cleaned t) = same_fields s t"
  by (simp_all add: cleaned_def live_def imaged_def same_fields_def)

text \<open>Before the commit: an engine in step, and a plan of what to write, whose records are in the file.\<close>
definition committing :: "codec \<Rightarrow> bytes \<Rightarrow> 'v env \<Rightarrow> ('v, 'p) disk_engine \<Rightarrow> 'p betree \<Rightarrow> (node_id \<Rightarrow> vref) \<Rightarrow> bytes \<Rightarrow> (node_id, nat) btmap \<Rightarrow>
    (node_id, nat) btmap \<Rightarrow> bool" where
  "committing cd F E s t m buf assigned lens \<longleftrightarrow> at_rest True (stored_node cd F (d_watermark s)) (live t) s t m \<and>
     planned E s t m buf assigned lens \<and> env_codec E = cd \<and> (\<forall>n. node_codec_ok cd n) \<and> DATA_START \<le> d_watermark s \<and> offsets_ok s \<and> arities_ok t"

lemma committing_imaged:
  assumes "committing cd F E s t m buf assigned lens" "extends F (d_watermark s) buf file wm'"
  shows "imaged (stored_node cd file wm') t (place s assigned \<circ> m)"
  using assms commit_imaged [of cd F s t m E buf assigned lens] by (simp add: committing_def)

lemma committing_assigned:
  assumes c: "committing cd F E s t m buf assigned lens" and e: "extends F (d_watermark s) buf file wm'" and get: "bt_get assigned nid = Some off"
  obtains a where "a \<in> live t" "t_dirty t ! a" "m a = AtSlot nid" "off = place s assigned (m a)" "d_watermark s \<le> off" "bt_get lens nid \<noteq> None"
proof -
  have sim: "sim (stored_node cd F (d_watermark s)) (live t) s t m" using c by (simp add: committing_def at_rest_def related_def)
  obtain a where a: "a \<in> live t" "t_dirty t ! a" "m a = AtSlot nid" using c get unfolding committing_def planned_def by blast
  have "d_watermark s \<le> place s assigned (m a)" "\<exists>nid. m a = AtSlot nid \<and> bt_get assigned nid = Some (place s assigned (m a)) \<and> bt_get lens nid \<noteq> None"
    using c dirty_imaged(2,3) [OF sim _ a(1,2) _ _ _ _ _ e, of E assigned lens] unfolding committing_def by blast+
  then show thesis using that [OF a] get a(3) by simp
qed

lemma committing_adoptable:
  assumes c: "committing cd F E s t m buf assigned lens" and e: "extends F (d_watermark s) buf file wm'"
  shows "adoptable assigned lens s"
proof -
  have sim: "sim (stored_node cd F (d_watermark s)) (live t) s t m" and ok: "bt_ok assigned" "offsets_ok s"
    and inj: "\<And>i j off. bt_get assigned i = Some off \<Longrightarrow> bt_get assigned j = Some off \<Longrightarrow> i = j"
    using c by (auto simp: committing_def at_rest_def related_def planned_def)
  have fst: "distinct (map fst assigned)" using ok(1) by (simp add: bt_ok_def strict_sorted_iff)
  have "inj_on snd (set assigned)"
    using inj bt_get_in [OF ok(1)] unfolding inj_on_def by (metis prod.collapse)
  then have "distinct (map snd assigned)" using fst by (simp add: distinct_map)
  moreover have "bt_get (d_offsets s) off = None \<and> bt_get lens i \<noteq> None \<and> (\<exists>n d old b t. index (d_slots s) i = Some (Loaded n d old b t))"
    if i: "(i, off) \<in> set assigned" for i off
  proof -
    obtain a where a: "a \<in> live t" "t_dirty t ! a" "m a = AtSlot i" "d_watermark s \<le> off" "bt_get lens i \<noteq> None"
      by (rule committing_assigned [OF c e bt_get_in [OF ok(1) i]])
    have "bt_get (d_offsets s) off \<noteq> Some j" for j
    proof
      assume "bt_get (d_offsets s) off = Some j"
      then obtain slot where "index (d_slots s) j = Some slot" "slot_off slot = Some off" using sim by (auto simp: sim_def interned_def)
      then show False using offsets_ok_slot [OF ok(2), of j slot] a(4) by (cases slot) (auto simp: RECORD_HEADER_SIZE_def)
    qed
    then show ?thesis using a(3,5) dirty_slot [OF sim a(1,2)] by (metis not_None_eq vref.inject(1))
  qed
  ultimately show ?thesis using sim fst by (auto simp: adoptable_def sim_def)
qed

lemma at_rest_places:
  assumes "at_rest g rd L s t m"
  shows "sim rd L s t m" "interned s" "inj_on m L"
  using assms by (simp_all add: at_rest_def related_def sim_def)

text \<open>An adopted slot holds what it held, and a written node lies where the commit put it.\<close>
lemma adopted_written:
  assumes c: "committing cd F E s t m buf assigned lens" and e: "extends F (d_watermark s) buf file wm'"
    and ad: "\<forall>i. adopted (bt_get assigned i) (index (d_slots s) i) (index (d_slots s') i)" and off: "bt_get assigned nid = Some off"
  obtains a n x tk where "a \<in> live t" "t_dirty t ! a" "m a = AtSlot nid" "off = place s assigned (m a)"
    "index (d_slots s') nid = Some (Loaded n False (Some off) x tk)" "node_match m (t_nodes t ! a) n"
proof -
  have sim: "sim (stored_node cd F (d_watermark s)) (live t) s t m" using c at_rest_places unfolding committing_def by blast
  obtain a where a: "a \<in> live t" "t_dirty t ! a" "m a = AtSlot nid" "off = place s assigned (m a)"
    by (rule committing_assigned [OF c e off])
  obtain n old bts tk where "index (d_slots s) nid = Some (Loaded n True old bts tk)" "node_match m (t_nodes t ! a) n"
    by (rule dirty_slot [OF sim a(1,2)]) (use a(3) in auto)
  then show thesis using ad [rule_format, of nid] off that [OF a] by auto
qed

lemma adopted_slot:
  assumes c: "committing cd F E s t m buf assigned lens" and e: "extends F (d_watermark s) buf file wm'" and a: "a \<in> live t" "m a = AtSlot nid"
    and ad: "\<forall>i. adopted (bt_get assigned i) (index (d_slots s) i) (index (d_slots s') i)"
  shows "\<exists>slot. index (d_slots s') nid = Some slot \<and> slot_off slot = Some (place s assigned (m a)) \<and>
    (\<forall>n d off b tk. slot = Loaded n d off b tk \<longrightarrow> \<not> d \<and> node_match m (t_nodes t ! a) n)"
proof (cases "bt_get assigned nid")
  case None
  have rest: "at_rest True (stored_node cd F (d_watermark s)) (live t) s t m" using c by (simp add: committing_def)
  note sim = at_rest_places(1) [OF rest] and int = at_rest_places(2) [OF rest]
  have clean: "\<not> t_dirty t ! a" using c a None by (auto simp: committing_def planned_def written_at_def)
  then have "bt_get (d_offsets s) (place s assigned (m a)) = Some nid"
    using clean_place(1) [OF sim a(1), of assigned] a(2) by (simp add: ref_of_def split: option.split_asm)
  then obtain slot where slot: "index (d_slots s) nid = Some slot" "slot_off slot = Some (place s assigned (m a))" using int by (auto simp: interned_def)
  moreover have "index (d_slots s') nid = index (d_slots s) nid" using ad None by (metis adopted.simps(2))
  moreover have "\<not> d \<and> node_match m (t_nodes t ! a) n" if "slot = Loaded n d off b tk" for n d off b tk
    by (rule sim_slot [OF sim a]) (use slot(1) that clean in \<open>auto simp: mem_view_match\<close>)
  ultimately show ?thesis by auto
next
  case (Some off)
  obtain b n x tk where b: "b \<in> live t" "m b = AtSlot nid" "off = place s assigned (m b)"
    "index (d_slots s') nid = Some (Loaded n False (Some off) x tk)" "node_match m (t_nodes t ! b) n"
    by (rule adopted_written [OF c e ad Some])
  have "inj_on m (live t)" using c at_rest_places unfolding committing_def by blast
  then have "b = a" using a b(1,2) unfolding inj_on_def by metis
  then show ?thesis using b by auto
qed

lemma adopted_file:
  assumes c: "committing cd F E s t m buf assigned lens" and e: "extends F (d_watermark s) buf file wm'" and a: "a \<in> live t" "m a = AtFile off"
    and s': "interned s'" "\<forall>i. adopted (bt_get assigned i) (index (d_slots s) i) (index (d_slots s') i)"
  shows "bt_get (d_offsets s') off \<noteq> Some i"
proof
  have rest: "at_rest True (stored_node cd F (d_watermark s)) (live t) s t m" using c by (simp add: committing_def)
  note sim = at_rest_places(1) [OF rest] and int = at_rest_places(2) [OF rest]
  have clean: "\<not> t_dirty t ! a" and none: "bt_get (d_offsets s) off = None"
    using sim a by (auto simp: sim_def node_sim_def ref_dirty_def)
  assume "bt_get (d_offsets s') off = Some i"
  then obtain slot where slot: "index (d_slots s') i = Some slot" "slot_off slot = Some off" using s'(1) by (auto simp: interned_def)
  show False
  proof (cases "bt_get assigned i")
    case None
    then have "index (d_slots s) i = Some slot" using s'(2) slot(1) by (metis adopted.simps(2))
    then have "bt_get (d_offsets s) off = Some i" using int slot(2) by (auto simp: interned_def)
    then show False using none by simp
  next
    case (Some off')
    obtain b n x tk where b: "b \<in> live t" "t_dirty t ! b" "m b = AtSlot i" "off' = place s assigned (m b)"
      "index (d_slots s') i = Some (Loaded n False (Some off') x tk)" by (rule adopted_written [OF c e s'(2) Some])
    then have "place s assigned (m b) = place s assigned (m a)" using slot a(2) by simp
    then have "b = a" using committing_imaged [OF c e] a(1) b(1) unfolding imaged_def inj_on_def by (metis comp_apply)
    then show False using clean b(2) by simp
  qed
qed

lemma adopted_place:
  assumes c: "committing cd F E s t m buf assigned lens" and e: "extends F (d_watermark s) buf file wm'" and a: "a \<in> live t"
    and s': "interned s'" "\<forall>i. adopted (bt_get assigned i) (index (d_slots s) i) (index (d_slots s') i)"
  shows "ref_of s' (place s assigned (m a)) = m a"
proof (cases "m a")
  case (AtSlot nid)
  then have "bt_get (d_offsets s') (place s assigned (m a)) = Some nid"
    using adopted_slot [OF c e a AtSlot s'(2)] s'(1) by (auto simp: interned_def)
  then show ?thesis using AtSlot by (simp add: ref_of_def)
next
  case (AtFile off)
  then have "bt_get (d_offsets s') off = None" using adopted_file [OF c e a AtFile s'] by auto
  then show ?thesis using AtFile by (simp add: ref_of_def)
qed

text \<open>The state after adoption is in step with the same tree, now clean, over the new file.\<close>

lemma adopted_sim:
  assumes c: "committing cd F E s t m buf assigned lens" and e: "extends F (d_watermark s) buf file wm'"
    and s': "cache_ok s'" "interned s'" "same_fields s' t" "d_root s' = d_root s"
      "\<forall>i. adopted (bt_get assigned i) (index (d_slots s) i) (index (d_slots s') i)"
  shows "at_rest True (stored_node cd file wm') (live t) s' (cleaned t) (ref_of s' \<circ> (place s assigned \<circ> m))"
proof -
  have rest: "at_rest True (stored_node cd F (d_watermark s)) (live t) s t m" using c by (simp add: committing_def)
  have bound: "\<forall>a\<in>live t. a < length (t_nodes t)" using sim_kids [OF at_rest_places(1) [OF rest]] by blast
  note place = adopted_place [OF c e _ s'(2,5)]
  show ?thesis
  proof (rule clean_sim [of _ "cleaned t", unfolded cleaned_simps])
    show "imaged (stored_node cd file wm') t (place s assigned \<circ> m)" by (rule committing_imaged [OF c e])
    then have img: "\<forall>a\<in>live t. stored_node cd file wm' ((place s assigned \<circ> m) a) = Some (node_record (place s assigned \<circ> m) (t_nodes t ! a))"
      by (simp add: imaged_def)
    show "bt_get (d_offsets s') ((place s assigned \<circ> m) (t_root t)) = Some (d_root s')"
      using place [OF live_root] rest s'(4) by (auto simp: at_rest_def ref_of_def split: option.split_asm)
    fix a n d b tk nid
    assume a: "a \<in> live t" and slot: "index (d_slots s') nid = Some (Loaded n d (Some ((place s assigned \<circ> m) a)) b tk)"
    then have "bt_get (d_offsets s') (place s assigned (m a)) = Some nid" using s'(2) by (auto simp: interned_def)
    then have "m a = AtSlot nid" using place [OF a] by (simp add: ref_of_def)
    then have n: "\<not> d" "mem_view n = ren m (t_nodes t ! a)"
      using adopted_slot [OF c e a _ s'(5)] slot by (auto simp: mem_view_match)
    have "file_view (stored_node cd file wm') s' ((place s assigned \<circ> m) a) = Some (ren m (t_nodes t ! a))"
      using img a place live_kids [OF a] by (cases "t_nodes t ! a") (auto simp: file_view_def)
    then show "\<not> d \<and> file_view (stored_node cd file wm') s' ((place s assigned \<circ> m) a) = Some (mem_view n)" using n by simp
  qed (use s' rest bound in \<open>auto simp: at_rest_def related_def cleaned_def\<close>)
qed

lemma at_rest_fields:
  assumes "at_rest g rd L s t m" "d_slots s' = d_slots s" "d_cache s' = d_cache s" "d_offsets s' = d_offsets s" "d_root s' = d_root s"
    "same_fields s' t'" "t_nodes t' = t_nodes t" "t_dirty t' = t_dirty t" "t_root t' = t_root t" "t_policy t' = t_policy t"
  shows "at_rest g rd L s' t' m"
proof -
  have v: "ref_view rd s' = ref_view rd s" "ref_dirty s' = ref_dirty s" "clean_ok rd s' = clean_ok rd s"
    unfolding ref_view_def [abs_def] ref_dirty_def [abs_def] clean_ok_def [abs_def] assms(2) file_view_cong [OF assms(4)] by simp_all
  have "node_sim rd L s' t' m a = node_sim rd L s t m a" for a
    using v assms(4,7,8) by (cases "m a") (simp_all add: node_sim_def)
  moreover have "cache_ok s' = cache_ok s" "interned s' = interned s" using assms(2-4) by (simp_all add: cache_ok_def interned_def)
  ultimately show ?thesis using assms by (simp add: at_rest_def related_def sim_def grey_def)
qed

lemma commit_adopt_sim:
  assumes c: "committing cd F E s t m buf assigned lens" and e: "extends F (d_watermark s) buf file (d_watermark s + length buf)"
  shows "\<exists>st s'. commit_adopt buf assigned lens (s\<lparr>d_vfs := v\<rparr>) = ok st s' \<and> d_vfs s' = v \<and> d_watermark s' = d_watermark s + length buf \<and>
    in_step True (stored_node cd file (d_watermark s')) s' ((cleaned t)\<lparr>t_ops_since_commit := 0\<rparr>)"
proof -
  define s1 where "s1 = s\<lparr>d_vfs := v, d_watermark := d_watermark s + length buf, d_next_generation := d_next_generation s + 1\<rparr>"
  have rest: "at_rest True (stored_node cd F (d_watermark s)) (live t) s t m" using c by (simp add: committing_def)
  have "adoptable assigned lens s1" using committing_adoptable [OF c e]
    by (simp add: adoptable_def s1_def cache_ok_def interned_def)
  from adopt_records_sim [OF this] obtain s2 where s2: "adopt_records assigned lens s1 = Some s2" "cache_ok s2" "interned s2" "outer s2 = outer s1"
    "\<forall>i. adopted (bt_get assigned i) (index (d_slots s) i) (index (d_slots s2) i)" by (auto simp: s1_def)
  note out = outerD [OF s2(4)]
  have "same_fields s2 t" using rest out by (simp add: at_rest_def related_def sim_def same_fields_def s1_def)
  moreover have "d_root s2 = d_root s" using out by (simp add: s1_def)
  ultimately have r2: "at_rest True (stored_node cd file (d_watermark s + length buf)) (live t) s2 (cleaned t) (ref_of s2 \<circ> (place s assigned \<circ> m))"
    using adopted_sim [OF c e s2(2,3) _ _ s2(5)] by blast
  obtain s3 where s3: "enforce_budget [] None s2 = Some s3" "sim (stored_node cd file (d_watermark s + length buf)) (live t) s3 (cleaned t) (ref_of s2 \<circ> (place s assigned \<circ> m))"
    "same_rest s2 s3" using enforce_budget_sim [OF at_rest_places(1) [OF r2], of "[]" None] by blast
  have "at_rest True (stored_node cd file (d_watermark s + length buf)) (live t) s3 (cleaned t) (ref_of s2 \<circ> (place s assigned \<circ> m))"
    using r2 s3(2) outerD [OF same_rest_outer [OF s3(3)]] by (simp add: at_rest_def related_def)
  then have "at_rest True (stored_node cd file (d_watermark s + length buf)) (live t) (s3\<lparr>d_ops_since_commit := 0\<rparr>)
      ((cleaned t)\<lparr>t_ops_since_commit := 0\<rparr>) (ref_of s2 \<circ> (place s assigned \<circ> m))"
    by (rule at_rest_fields) (use s3(2) in \<open>simp_all add: sim_def same_fields_def\<close>)
  moreover have "d_watermark s3 = d_watermark s + length buf" "d_vfs s3 = v"
    using outerD [OF same_rest_outer [OF s3(3)]] out by (simp_all add: s1_def)
  ultimately show ?thesis using s2(1) s3(1) by (auto simp: commit_adopt_def s1_def in_step_def)
qed

section \<open>Clean trees and opened files\<close>

text \<open>The same nodes under another policy, all clean.\<close>
definition reopened :: "u64 \<Rightarrow> 'q policy \<Rightarrow> 'p betree \<Rightarrow> 'q betree" where
  "reopened q pol t = \<lparr>t_params = t_params t, t_nodes = t_nodes t, t_dirty = replicate (length (t_nodes t)) False, t_root = t_root t,
     t_next_seq = q, t_ops_since_commit = 0, t_policy = pol, t_trace = recorder_default\<rparr>"

lemma betree_abs_cong:
  assumes "betree_inv t" "t_params t' = t_params t" "t_nodes t' = t_nodes t" "t_root t' = t_root t"
  shows "betree_abs t' = betree_abs t"
proof -
  obtain h where h: "root_tree (t_params t) (t_nodes t) h (t_root t)" using assms(1) by (auto simp: betree_inv_def)
  then show ?thesis using betree_path_eq [of t' h] betree_path_eq [OF h] assms unfolding betree_abs_def [abs_def] by simp
qed

lemma betree_inv_cong:
  assumes "betree_inv t" "t_params t' = t_params t" "t_nodes t' = t_nodes t" "t_root t' = t_root t"
    "length (t_dirty t') = length (t_nodes t')" "policy_legal (t_policy t')" "v1_view (t_trace t')"
  shows "betree_inv t'"
  using assms by (auto simp: betree_inv_def arena_ok_def)

lemma cleaned_inv:
  assumes "betree_inv t"
  shows "betree_inv ((cleaned t)\<lparr>t_ops_since_commit := n\<rparr>)" "betree_abs ((cleaned t)\<lparr>t_ops_since_commit := n\<rparr>) = betree_abs t"
  by (rule betree_inv_cong [OF assms], use assms in \<open>simp_all add: cleaned_def betree_inv_def arena_ok_def\<close>)
    (rule betree_abs_cong [OF assms], simp_all add: cleaned_def)

lemma reopened_inv:
  assumes "betree_inv t" "policy_legal pol"
  shows "betree_inv (reopened q pol t)" "betree_abs (reopened q pol t) = betree_abs t"
  by (rule betree_inv_cong [OF assms(1)], use assms(2) in \<open>simp_all add: reopened_def v1_view_intros\<close>)
    (rule betree_abs_cong [OF assms(1)], simp_all add: reopened_def)

lemma reopened_image: "live (reopened q pol t) = live t" "imaged rd (reopened q pol t) off = imaged rd t off"
  by (simp_all add: live_def imaged_def reopened_def)

lemma opened_sim:
  assumes img: "imaged rd t off" "off (t_root t) = unat (sb_root_offset sb)" and bl: "blind pol"
    and t: "t_params t = sb_params sb"
  shows "in_step True rd (opened sb bud pol v) (reopened (sb_last_seq sb) pol t)"
proof -
  let ?s = "opened sb bud pol v" and ?t = "reopened (sb_last_seq sb) pol t"
  have "at_rest True rd (live ?t) ?s ?t (ref_of ?s \<circ> off)"
  proof (rule clean_sim)
    show "imaged rd ?t off" using img(1) by (simp add: reopened_image)
    show "interned ?s" by (auto simp: interned_def opened_def index_def bt_ok_def)
    show "cache_ok ?s" by (simp add: cache_ok_def opened_def cache_default_def total_def)
    show "\<forall>a\<in>live ?t. \<not> t_dirty ?t ! a" unfolding reopened_image using img(1) by (auto simp: imaged_def reopened_def)
  qed (use img(2) bl t in \<open>auto simp: opened_def same_fields_def reopened_def index_def split: if_split_asm\<close>)
  then show ?thesis by (auto simp: in_step_def)
qed

end
