(* ===== verification/Disk_Crash.thy ===== *)
theory Disk_Crash
  imports Disk_Commit
begin

text \<open>
  Crash safety over the life of an engine: opened or created on the crash-injection device, driven by
  any operations and commits, with any sync made to fail. \<open>disk_life\<close> carries the newest acknowledged
  generation and the device as it was when that generation was acknowledged; from then on, whenever
  and however the machine crashes, the file recovers to that generation or to the one after it, with
  every record of the acknowledged one intact.
\<close>

section \<open>Opening\<close>

lemma open_durable:
  assumes "image_ok cd img sb" "open_on_with (faulty_env cd) (from_image img) bud pol = Some (Inr s, v)"
  shows "durable cd s sb" "offsets_ok s" "\<not> d_poisoned s" "d_vfs s = v" "s = opened sb bud pol v"
    "fs_view v = take (unat (sb_watermark sb)) img"
proof -
  let ?wm = "unat (sb_watermark sb)"
  have v: "v = (from_image img)\<lparr>fs_view := take ?wm img, fs_log := [LogSetLen ?wm]\<rparr>" and s: "s = opened sb bud pol v"
    using open_image [OF assms(1), of bud pol] assms(2) by auto
  have len: "?wm \<le> length img" using assms(1) by (simp add: image_ok_def)
  have win: "window v = [LogSetLen ?wm]" by (simp add: v window_def from_image_def faulty_new_def)
  have "faulty_ok v"
    by (rule faulty_ok_append [OF faulty_ok_image [of img], of "LogSetLen ?wm"])
      (use len in \<open>auto simp: v from_image_def faulty_new_def resize_def\<close>)
  then show "durable cd s sb" using assms(1) win
    by (simp add: durable_def s opened_def no_failed_sync_def v from_image_def faulty_new_def)
  show "offsets_ok s" using superblock_ok_bounds [OF image_ok_superblock [OF assms(1)]] by (simp add: offsets_ok_def s opened_def)
  show "\<not> d_poisoned s" "d_vfs s = v" "s = opened sb bud pol v" "fs_view v = take ?wm img" by (simp_all add: s opened_def v)
qed

section \<open>Creating\<close>

text \<open>What creation relies on: the first superblock round trips, and a slot of zeros is no superblock.\<close>
definition create_trusted :: "codec \<Rightarrow> params \<Rightarrow> bool" where
  "create_trusted cd p \<longleftrightarrow> decode_slot cd (replicate SUPERBLOCK_SLOT_SIZE 0) = Invalid \<and>
     (\<forall>root wm. superblock_codec_ok cd \<lparr>sb_magic = MAGIC, sb_format_version = FORMAT_VERSION, sb_params = p, sb_last_seq = 0,
        sb_generation = 0, sb_root_offset = root, sb_watermark = wm\<rparr>) \<and>
     (\<exists>payload. enc_node cd (DiskLeaf []) = Some payload \<and> length payload < 2 ^ 32)"

definition fresh_engine :: "'v \<Rightarrow> params \<Rightarrow> nat option \<Rightarrow> 'p policy \<Rightarrow> ('v, 'p) disk_engine" where
  "fresh_engine v p bud pol = \<lparr>d_params = p, d_vfs = v, d_slots = [Loaded (Leaf []) True None (est_bytes (Leaf [])) 0], d_root = 0,
     d_next_seq = 0, d_next_generation = 0, d_watermark = DATA_START, d_poisoned = False,
     d_cache = cache_default\<lparr>budget := bud, cache_bytes := est_bytes (Leaf []), resident := 1\<rparr>,
     d_offsets = [], d_ops_since_commit = 0, d_policy = pol, d_trace = recorder_default\<rparr>"

lemma disk_dirty_walk_leaf:
  "loaded s nid = Some (Leaf es) \<Longrightarrow> disk_dirty_walk s [nid] = Some [nid]"
  by (simp add: disk_dirty_walk.simps)

text \<open>The plan of the first commit: one empty leaf.\<close>

lemma fresh_plan:
  assumes "loaded s 0 = Some (Leaf [])" "is_dirty s 0 = Some True" "d_root s = 0" "enc_node (env_codec E) (DiskLeaf []) = Some payload"
    "length payload < 2 ^ 32"
  shows "commit_plan E s = Some (Inr (record_bytes (env_codec E) payload, [(0, d_watermark s)], [(0, RECORD_HEADER_SIZE + length payload)]))"
  using assms by (simp add: commit_plan_def disk_dirty_walk_leaf node_payload_def encode_node_def)

lemma slot_of_zeros: "slot_region (write_at [] 8192 buf) 4096 = replicate 4096 0" "8192 \<le> length (write_at [] 8192 buf)"
proof -
  show "8192 \<le> length (write_at [] 8192 buf)" by (simp add: length_write_at)
  show "slot_region (write_at [] 8192 buf) 4096 = replicate 4096 0"
    by (rule nth_equalityI) (auto simp: slot_region_def SUPERBLOCK_SLOT_SIZE_def length_write_at nth_write_at)
qed

text \<open>The device of the first commit, both syncs succeeding.\<close>

lemma first_device:
  assumes "length bs = SUPERBLOCK_SLOT_SIZE" "decode_slot cd bs = Valid sb" "sb_generation sb = 0"
    "unat (sb_watermark sb) = DATA_START + length buf" "decode_slot cd (replicate SUPERBLOCK_SLOT_SIZE 0) = Invalid"
  obtains va vb vc vd where "faulty_write DATA_START buf (from_image []) = Some (Inr (), va)" "faulty_sync va = Some (Inr (), vb)"
    "faulty_write 0 bs vb = Some (Inr (), vc)" "faulty_sync vc = Some (Inr (), vd)"
    "faulty_ok vd" "no_failed_sync vd" "window vd = []" "image_ok cd (fs_durable vd) sb" "fs_fail_sync vd = None"
    "fs_view vd = fs_durable vd" "fs_view vd = write_at (write_at [] DATA_START buf) 0 bs"
proof -
  let ?v = "from_image []"
  have v: "faulty_ok ?v" "no_failed_sync ?v" "window ?v = []" "fs_view ?v = []" "fs_fail_sync ?v = None"
    by (rule faulty_ok_image) (simp_all add: no_failed_sync_def from_image_def faulty_new_def window_def)
  obtain va ra vb where a: "faulty_write 8192 buf ?v = Some (Inr (), va)" "faulty_sync va = Some (ra, vb)" "safe_run (\<lambda>_. True) ?v vb"
    "window vb = []" "ra = Inr () \<Longrightarrow> no_failed_sync vb \<and> fs_view vb = write_at [] 8192 buf \<and> fs_durable vb = fs_view vb"
    "ra = Inr ()" "fs_fail_sync vb = None"
    by (rule write_sync_safe [OF v(1,2), of 8192 buf "\<lambda>_. True"]) (use v that in auto)
  let ?F = "write_at [] 8192 buf"
  have vb: "faulty_ok vb" "no_failed_sync vb" "fs_view vb = ?F" using a by (auto simp: safe_run_def)
  obtain vc rc vd where c: "faulty_write 0 bs vb = Some (Inr (), vc)" "faulty_sync vc = Some (rc, vd)" "safe_run (\<lambda>_. True) vb vd"
    "window vd = []" "rc = Inr () \<Longrightarrow> no_failed_sync vd \<and> fs_view vd = write_at ?F 0 bs \<and> fs_durable vd = fs_view vd"
    "rc = Inr ()" "fs_fail_sync vd = None"
    by (rule write_sync_safe [OF vb(1,2), of 0 bs "\<lambda>_. True"]) (use vb(3) a(4,7) that in auto)
  have len: "length bs = 4096" using assms(1) by (simp add: SUPERBLOCK_SLOT_SIZE_def)
  have slots: "publish_slot 0 = 0" "other_slot 0 = 4096" by (simp_all add: publish_slot_eq other_slot_eq)
  note w = slot_write [OF slot_of_zeros(2) [of buf], of bs 0, unfolded slots]
  have "slot_at cd (write_at ?F 0 bs) 0 = Valid sb" "slot_at cd (write_at ?F 0 bs) 4096 = Invalid"
    using w len slot_of_zeros assms(2,5) by (simp_all add: slot_at_bytes slot_region_def SUPERBLOCK_SLOT_SIZE_def)
  then have "image_ok cd (write_at ?F 0 bs) sb"
    using assms(3,4) w(1) len by (simp add: image_ok_def slots length_write_at DATA_START_def SUPERBLOCK_SLOT_SIZE_def)
  then show thesis using a c that [of va vb vc vd] by (simp add: safe_run_def DATA_START_def SUPERBLOCK_SLOT_SIZE_def)
qed

lemma fresh_touched:
  obtains s t where "touch 0 (fresh_engine v p bud pol) = Some s" "cache_ok s" "same_rest (fresh_engine v p bud pol) s"
    "d_slots s = [Loaded (Leaf []) True None 16 t]"
proof -
  have "cache_ok (fresh_engine v p bud pol)" by (simp add: cache_ok_def fresh_engine_def cache_default_def)
  then obtain s where s: "touch 0 (fresh_engine v p bud pol) = Some s" "cache_ok s" "cores s = cores (fresh_engine v p bud pol)"
    "same_rest (fresh_engine v p bud pol) s" using touch_ok [of "fresh_engine v p bud pol" 0] by (auto simp: fresh_engine_def)
  have "\<exists>t. d_slots s = [Loaded (Leaf []) True None 16 t]"
    using s(3) by (auto simp: cores_def fresh_engine_def stamp_Loaded)
  with s that show thesis by blast
qed

text \<open>Creation succeeds on an empty device, and the first generation is durable.\<close>

lemma same_rest_policy: "same_rest s s' \<Longrightarrow> d_policy s' = d_policy s"
proof -
  assume "same_rest s s'"
  then have "d_policy (rest s') = d_policy (rest s)" by (simp add: same_rest_def)
  then show ?thesis by (simp add: rest_def)
qed

lemma create_durable:
  assumes "create_trusted cd p" "params_legal p"
  obtains s v sb where "create_on_with (faulty_env cd) (from_image []) p bud pol = Some (Inr s, v)" "durable cd s sb" "offsets_ok s"
    "\<not> d_poisoned s" "d_vfs s = v" "sb_generation sb = 0" "sb_params sb = p" "sb_last_seq sb = 0" "fs_fail_sync v = None"
    "d_root s = 0" "d_next_seq s = 0" "cache_ok s" "slot_region (fs_view v) 4096 = replicate 4096 0"
    "\<exists>payload t. enc_node cd (DiskLeaf []) = Some payload \<and>
       settled [] None (s\<lparr>d_slots := [Loaded (Leaf []) False (Some DATA_START) (RECORD_HEADER_SIZE + length payload) t]\<rparr>) s \<and>
       (bud = None \<longrightarrow> d_slots s = [Loaded (Leaf []) False (Some DATA_START) (RECORD_HEADER_SIZE + length payload) t] \<and> budget (d_cache s) = None) \<and>
       length (d_slots s) = 1 \<and> d_watermark s = DATA_START + 8 + length payload \<and> take (8 + length payload) (drop DATA_START (fs_view v)) = record_bytes cd payload"
    "unat (sb_root_offset sb) = DATA_START" "d_offsets s = [(DATA_START, 0)]" "d_policy s = pol" "d_ops_since_commit s = 0"
    "fs_durable v = fs_view v"
proof -
  let ?E = "faulty_env cd" and ?v = "from_image []"
  obtain payload where pay: "enc_node cd (DiskLeaf []) = Some payload" "length payload < 2 ^ 32"
    using assms(1) by (auto simp: create_trusted_def)
  let ?buf = "record_bytes cd payload" and ?lens = "[(0 :: node_id, RECORD_HEADER_SIZE + length payload)]"
  have buf: "length ?buf = 8 + length payload" by (simp add: record_bytes_split)
  then have ne: "?buf \<noteq> []" by (metis add_is_0 list.size(3) zero_neq_numeral)
  obtain s0 t where s0: "touch 0 (fresh_engine ?v p bud pol) = Some s0" "cache_ok s0" "same_rest (fresh_engine ?v p bud pol) s0"
    "d_slots s0 = [Loaded (Leaf []) True None 16 t]" by (rule fresh_touched)
  note fr = same_rest_fields [OF s0(3), unfolded fresh_engine_def, simplified]
  define sb where "sb = new_superblock s0 DATA_START (DATA_START + length ?buf)"
  have "DATA_START + length ?buf < 2 ^ 64" using pay(2) buf by (simp add: DATA_START_def SUPERBLOCK_SLOT_SIZE_def)
  then have sb: "superblock_ok sb" "unat (sb_watermark sb) = DATA_START + length ?buf" "sb_generation sb = 0" "sb_params sb = p"
    "sb_last_seq sb = 0" "unat (sb_root_offset sb) = DATA_START"
    using new_superblock_ok [of s0 DATA_START "DATA_START + length ?buf"] assms(2) buf fr
    by (auto simp: sb_def RECORD_HEADER_SIZE_def new_superblock_def)
  have "superblock_codec_ok cd sb" using assms(1) fr by (simp add: create_trusted_def sb_def new_superblock_def)
  then obtain bs where bs: "encode_slot cd sb = Inr bs" "length bs = SUPERBLOCK_SLOT_SIZE" "decode_slot cd bs = Valid sb"
    using encode_slot_ok sb(1) unfolding superblock_ok_def by metis
  have zero: "decode_slot cd (replicate SUPERBLOCK_SLOT_SIZE 0) = Invalid" using assms(1) by (simp add: create_trusted_def)
  obtain va vb vc vd where dev: "faulty_write DATA_START ?buf ?v = Some (Inr (), va)" "faulty_sync va = Some (Inr (), vb)"
    "faulty_write 0 bs vb = Some (Inr (), vc)" "faulty_sync vc = Some (Inr (), vd)"
    "faulty_ok vd" "no_failed_sync vd" "window vd = []" "image_ok cd (fs_durable vd) sb" "fs_fail_sync vd = None"
    "fs_view vd = fs_durable vd" "fs_view vd = write_at (write_at [] DATA_START ?buf) 0 bs"
    by (rule first_device [OF bs(2,3) sb(3,2) zero])
  have plan: "commit_plan ?E s0 = Some (Inr (?buf, [(0, DATA_START)], ?lens))"
    using fresh_plan [of s0 ?E payload] pay s0(4) fr by (simp add: loaded_def is_dirty_def)
  let ?s1 = "s0\<lparr>d_vfs := vd, d_watermark := DATA_START + length ?buf, d_next_generation := 1\<rparr>"
  let ?slot = "Loaded (Leaf []) False (Some DATA_START) (RECORD_HEADER_SIZE + length payload) t"
  have "16 \<le> cache_bytes (d_cache s0)" using s0(2,4) by (simp add: cache_ok_def)
  then obtain c where c: "recount 16 (RECORD_HEADER_SIZE + length payload) (d_cache s0) = Some c" by (simp add: recount_def checked_sub_def)
  let ?s2 = "set_slot 0 ?slot (?s1\<lparr>d_cache := c, d_offsets := [(DATA_START, 0)]\<rparr>)"
  have adopt: "adopt_records [(0, DATA_START)] ?lens ?s1 = Some ?s2" using s0(4) fr c by simp
  have "cache_ok ?s1" using s0(2) by (simp add: cache_ok_def)
  from adopt_records_cache [OF adopt this] have "cache_ok ?s2" .
  then obtain s3 where s3: "enforce_budget [] None ?s2 = Some s3" "cache_ok s3" "same_rest ?s2 s3" "settled [] None ?s2 s3"
    using enforce_budget_ok by blast
  note fr3 = same_rest_fields [OF s3(3)]
  let ?s = "s3\<lparr>d_ops_since_commit := 0\<rparr>"
  have root: "resolve_offset s0 [(0, DATA_START)] 0 = Some DATA_START" using s0(4) by (simp add: resolve_offset_def)
  have ad: "commit_adopt ?buf [(0, DATA_START)] ?lens (s0\<lparr>d_vfs := vd\<rparr>) =
      ok \<lparr>nodes_written = 1, bytes_written = length ?buf + SUPERBLOCK_SLOT_SIZE\<rparr> ?s"
    using adopt s3(1) fr by (simp add: commit_adopt_def del: adopt_records.simps)
  have "commit ?E s0 = Some (Inr \<lparr>nodes_written = 1, bytes_written = length ?buf + SUPERBLOCK_SLOT_SIZE\<rparr>, ?s)"
    using plan dev root bs(1) ad fr ne
    by (simp add: commit_def poison_on_error_def commit_inner_plan commit_data_def commit_publish_def on_vfs_def FaultyVfs_def
        publish_slot_eq sb_def)
  then have run: "create_on_with ?E ?v p bud pol = Some (Inr ?s, vd)"
    using assms(2) s0(1) fr3 by (simp add: create_on_with_def params_legal_def FaultyVfs_def faulty_len_def fresh_engine_def
        from_image_def faulty_new_def set_slot_def)
  have dur: "durable cd ?s sb" using dev sb fr fr3 by (simp add: durable_def set_slot_def)
  have "offsets_ok ?s2" using s0(4) buf by (simp add: offsets_ok_def set_slot_def RECORD_HEADER_SIZE_def)
  then have offs: "offsets_ok ?s" using enforce_budget_offsets [OF s3(1)] by simp
  have "take (8 + length payload) (drop DATA_START (write_at (write_at [] DATA_START ?buf) 0 bs)) = ?buf"
    using slot_write(2) [OF slot_of_zeros(2) [of ?buf], of bs 0] bs(2) buf take_drop_write_at [of "8 + length payload" ?buf 8192 "[]"]
    by (simp add: publish_slot_eq DATA_START_def SUPERBLOCK_SLOT_SIZE_def)
  moreover have "slot_region (fs_view vd) 4096 = replicate 4096 0"
    using slot_write(3) [OF slot_of_zeros(2) [of ?buf], of bs 0] slot_of_zeros(1) [of ?buf] bs(2) dev(11)
    by (simp add: publish_slot_eq other_slot_eq DATA_START_def SUPERBLOCK_SLOT_SIZE_def)
  moreover have "budget c = bud" using s0(3) c by (auto simp: same_rest_def fresh_engine_def recount_def cache_default_def elim!: bind_SomeE)
  then have "s3 = ?s2 \<and> budget (d_cache s3) = None" if "bud = None" using that s3(1) by (auto simp: enforce_budget_def set_slot_def)
  moreover have "d_policy s3 = pol"
    using same_rest_policy [OF s3(3)] same_rest_policy [OF s0(3)] by (simp add: set_slot_def fresh_engine_def)
  ultimately show thesis using s3 fr fr3 sb dev pay(1) s0(4) buf
    by (intro that [OF run dur offs]) (auto simp: set_slot_def cache_ok_def settled_def same_rest_def)
qed

section \<open>The life of an engine\<close>

text \<open>\<open>disk_life cd v0 s sb\<close>: the engine \<open>s\<close> can be reached, \<open>sb\<close> is the newest generation that an open, a
  create or a commit acknowledged, and \<open>v0\<close> is the device at that moment.\<close>
inductive disk_life :: "codec \<Rightarrow> faulty_state \<Rightarrow> (faulty_state, 'p) disk_engine \<Rightarrow> superblock \<Rightarrow> bool" for cd where
  life_created: "create_trusted cd p \<Longrightarrow> create_on_with (faulty_env cd) (from_image []) p bud pol = Some (Inr s, v) \<Longrightarrow>
    slot_at cd (fs_view v) 0 = Valid sb \<Longrightarrow> disk_life cd v s sb"
| life_opened: "image_ok cd img sb \<Longrightarrow> open_on_with (faulty_env cd) (from_image img) bud pol = Some (Inr s, v) \<Longrightarrow>
    disk_life cd v s sb"
| life_operated: "disk_life cd v0 s sb \<Longrightarrow> disk_op (faulty_env cd) s s' \<Longrightarrow> disk_life cd v0 s' sb"
| life_armed: "disk_life cd v0 s sb \<Longrightarrow> disk_life cd v0 (s\<lparr>d_vfs := fail_nth_sync skip fates (d_vfs s)\<rparr>) sb"
| life_committed: "disk_life cd v0 s sb \<Longrightarrow> commit_trusted cd s \<Longrightarrow> commit (faulty_env cd) s = Some (Inr st, s') \<Longrightarrow>
    next_superblock (faulty_env cd) s = Some (buf, sb') \<Longrightarrow> disk_life cd (d_vfs s') s' sb'"
| life_failed: "disk_life cd v0 s sb \<Longrightarrow> commit_trusted cd s \<Longrightarrow> commit (faulty_env cd) s = Some (Inl e, s') \<Longrightarrow>
    disk_life cd v0 s' sb"

text \<open>A file of that life: the acknowledged generation or the next one, over the acknowledged records.\<close>
definition life_image :: "codec \<Rightarrow> faulty_state \<Rightarrow> superblock \<Rightarrow> bytes \<Rightarrow> bool" where
  "life_image cd v0 sb img \<longleftrightarrow> data (unat (sb_watermark sb)) img = data (unat (sb_watermark sb)) (fs_view v0) \<and>
     (image_ok cd img sb \<or> (\<exists>sb'. image_ok cd img sb' \<and> sb_generation sb' = sb_generation sb + 1 \<and>
        unat (sb_watermark sb) \<le> unat (sb_watermark sb')))"

definition life_ok :: "codec \<Rightarrow> faulty_state \<Rightarrow> (faulty_state, 'p) disk_engine \<Rightarrow> superblock \<Rightarrow> bool" where
  "life_ok cd v0 s sb \<longleftrightarrow> safe_run (life_image cd v0 sb) v0 (d_vfs s) \<and> unat (sb_watermark sb) \<le> length (fs_view v0) \<and>
     (d_poisoned s \<or> durable cd s sb \<and> offsets_ok s \<and>
       data (unat (sb_watermark sb)) (fs_view (d_vfs s)) = data (unat (sb_watermark sb)) (fs_view v0))"

lemma durable_life:
  assumes "durable cd s sb" "offsets_ok s"
  shows "life_ok cd (d_vfs s) s sb"
proof -
  have wm: "d_watermark s = unat (sb_watermark sb)" using assms(1) by (simp add: durable_def)
  have "life_image cd (d_vfs s) sb img" if "img \<in> crash_images (d_vfs s)" for img
    using durable_images [OF assms(1) that] durable_view(2) [OF assms(1)] wm by (simp add: life_image_def data_def)
  then show ?thesis using assms durableD(1) [OF assms(1)] durable_view(3) [OF assms(1)] wm
    by (auto simp: life_ok_def intro!: safe_run_refl)
qed

lemma safe_run_armed: "safe_run P v0 (v\<lparr>fs_fail_sync := x\<rparr>) = safe_run P v0 v"
  by (simp add: safe_run_def log_len_def faulty_ok_fail crash_image_at_def)

lemma commit_image_life:
  assumes d: "durable cd s sb" and offs: "offsets_ok s" and t: "commit_trusted cd s"
    and same: "data (unat (sb_watermark sb)) (fs_view (d_vfs s)) = data (unat (sb_watermark sb)) (fs_view v0)"
    and img: "commit_image cd s sb img"
  shows "life_image cd v0 sb img"
proof -
  have wm: "d_watermark s = unat (sb_watermark sb)" and gen: "d_next_generation s = sb_generation sb + 1"
    using d by (simp_all add: durable_def)
  show ?thesis
  proof (cases "recovers_old cd s sb img")
    case True
    then show ?thesis using same wm by (simp add: life_image_def recovers_old_def)
  next
    case False
    then obtain buf sb' where sb': "next_superblock (faulty_env cd) s = Some (buf, sb')" "recovers_new cd s buf sb' img"
      using img by (auto simp: commit_image_def)
    then have "sb_generation sb' = sb_generation sb + 1"
      by (auto simp: next_superblock_def new_superblock_def gen split: sum.split_asm elim!: bind_SomeE)
    then show ?thesis using sb'(2) same wm by (auto simp: life_image_def recovers_new_def extends_def)
  qed
qed

lemma life_invariant: "disk_life cd v0 s sb \<Longrightarrow> life_ok cd v0 s sb"
proof (induction rule: disk_life.induct)
  case (life_created p bud pol s v sb)
  obtain s' v' sb' where c: "create_on_with (faulty_env cd) (from_image []) p bud pol = Some (Inr s', v')"
    "durable cd s' sb'" "offsets_ok s'" "d_vfs s' = v'" "sb_generation sb' = 0"
  proof (cases "params_legal p")
    case True
    show thesis by (rule create_durable [OF life_created(1) True, of bud pol]) (rule that)
  next
    case False
    then show thesis using life_created(2) by (auto simp: create_on_with_def params_legal_def)
  qed
  then have eq: "s' = s" "v' = v" using life_created(2) by auto
  have "image_ok cd (fs_view v) sb'" using durable_images [OF c(2) durable_view(1) [OF c(2)]] c(4) eq by simp
  then have "slot_at cd (fs_view v) 0 = Valid sb'" using c(5) by (simp add: image_ok_def publish_slot_eq)
  then show ?case using durable_life [OF c(2,3)] life_created(3) c(4) eq by simp
next
  case (life_opened img sb bud pol s v)
  then show ?case using durable_life [of cd s sb] open_durable [OF life_opened] by simp
next
  case (life_operated v0 s sb s')
  have q: "file_is (d_vfs s) (d_params s) (d_watermark s) (d_next_generation s) s'"
    by (rule quiet.disk_op_I [OF life_operated(2)]) (simp add: file_is_def)
  have "offsets_ok s \<Longrightarrow> offsets_ok s'" by (rule offsets.disk_op_I [OF life_operated(2)])
  moreover have "d_poisoned s \<Longrightarrow> d_poisoned s'" by (rule poisoned.disk_op_I [OF life_operated(2)])
  ultimately show ?case using life_operated(3) q by (auto simp: life_ok_def file_is_def durable_def)
next
  case (life_armed v0 s sb skip fates)
  then show ?case
    by (auto simp: life_ok_def fail_nth_sync_def safe_run_armed durable_def faulty_ok_fail no_failed_sync_def)
next
  case (life_committed v0 s sb st s' buf sb')
  have np: "\<not> d_poisoned s" using life_committed(3) by (auto simp: commit_def)
  then have ok: "durable cd s sb" "offsets_ok s" using life_committed(5) by (auto simp: life_ok_def)
  from commit_call(1) [OF ok life_committed(2) np life_committed(3)] life_committed(4)
  have "durable cd s' sb'" "offsets_ok s'" by (auto simp: commit_outcome_def)
  then show ?case by (rule durable_life)
next
  case (life_failed v0 s sb e s')
  show ?case
  proof (cases "d_poisoned s")
    case True
    then show ?thesis using life_failed(3,4) by (simp add: commit_def)
  next
    case False
    then have ok: "durable cd s sb" "offsets_ok s" "safe_run (life_image cd v0 sb) v0 (d_vfs s)"
      and same: "data (unat (sb_watermark sb)) (fs_view (d_vfs s)) = data (unat (sb_watermark sb)) (fs_view v0)"
      using life_failed(4) by (auto simp: life_ok_def)
    note c = commit_call [OF ok(1,2) life_failed(2) False life_failed(3)]
    have "safe_run (commit_image cd s sb) (d_vfs s) (d_vfs s')" using c(1) by (simp add: commit_outcome_def)
    then have "safe_run (life_image cd v0 sb) (d_vfs s) (d_vfs s')"
      by (rule safe_run_mono) (rule commit_image_life [OF ok(1,2) life_failed(2) same])
    with ok(3) have "safe_run (life_image cd v0 sb) v0 (d_vfs s')" by (rule safe_run_trans)
    then show ?thesis using c(2) life_failed(4) by (simp add: life_ok_def)
  qed
qed

end
