(* ===== verification/Codec_Example.thy ===== *)
theory Codec_Example
  imports Disk_Crash
begin

text \<open>
  A small concrete codec, on which the theorems about the disk engine are instantiated. Byte strings
  and lists are self-delimiting (every element is preceded by a one, a zero ends the sequence), integers
  have fixed width, leaves and internal nodes carry a tag, a child offset that does not fit in 64 bits is
  refused, and the checksum is a sum that is never zero.
\<close>

section \<open>Byte strings and entries\<close>

fun enc_bytes :: "bytes \<Rightarrow> bytes" where
  "enc_bytes [] = [0]"
| "enc_bytes (b # bs) = 1 # b # enc_bytes bs"

fun dec_bytes :: "bytes \<Rightarrow> (bytes \<times> bytes) option" where
  "dec_bytes (t # b # r) = (if t = 0 then Some ([], b # r) else map_option (\<lambda>(bs, r). (b # bs, r)) (dec_bytes r))"
| "dec_bytes [t] = (if t = 0 then Some ([], []) else None)"
| "dec_bytes [] = None"

fun enc_list :: "('a \<Rightarrow> bytes) \<Rightarrow> 'a list \<Rightarrow> bytes" where
  "enc_list enc [] = [0]"
| "enc_list enc (x # xs) = 1 # enc x @ enc_list enc xs"

fun dec_list :: "(bytes \<Rightarrow> ('a \<times> bytes) option) \<Rightarrow> nat \<Rightarrow> bytes \<Rightarrow> ('a list \<times> bytes) option" where
  "dec_list dec 0 bs = None"
| "dec_list dec (Suc n) [] = None"
| "dec_list dec (Suc n) (t # r) =
     (if t = 0 then Some ([], r)
      else do { (x, r) \<leftarrow> dec r; (xs, r) \<leftarrow> dec_list dec n r; Some (x # xs, r) })"

text \<open>A list has fewer elements than the bytes it takes, so their number bounds the recursion.\<close>
definition dec_seq :: "(bytes \<Rightarrow> ('a \<times> bytes) option) \<Rightarrow> bytes \<Rightarrow> ('a list \<times> bytes) option" where
  "dec_seq dec bs = dec_list dec (length bs) bs"

definition dec_u64 :: "bytes \<Rightarrow> (u64 \<times> bytes) option" where
  "dec_u64 bs = (if length bs < 8 then None else Some (from_le (take 8 bs), drop 8 bs))"

definition enc_offset :: "nat \<Rightarrow> bytes" where
  "enc_offset off = to_le 8 (of_nat off :: u64)"

definition dec_offset :: "bytes \<Rightarrow> (nat \<times> bytes) option" where
  "dec_offset bs = map_option (\<lambda>(w, r). (unat w, r)) (dec_u64 bs)"

fun enc_entry :: "key \<times> leaf_entry \<Rightarrow> bytes" where
  "enc_entry (k, e) = enc_bytes k @ enc_bytes (entry_value e) @ to_le 8 (entry_seq e)"

definition dec_entry :: "bytes \<Rightarrow> ((key \<times> leaf_entry) \<times> bytes) option" where
  "dec_entry bs = do {
     (k, r) \<leftarrow> dec_bytes bs;
     (v, r) \<leftarrow> dec_bytes r;
     (seq, r) \<leftarrow> dec_u64 r;
     Some ((k, \<lparr>entry_seq = seq, entry_value = v\<rparr>), r)
   }"

fun enc_message :: "key \<times> message \<Rightarrow> bytes" where
  "enc_message (k, Put seq v) = 0 # enc_bytes k @ to_le 8 seq @ enc_bytes v"
| "enc_message (k, Delete seq) = 1 # enc_bytes k @ to_le 8 seq"
| "enc_message (k, Upsert seq (Add d)) = 2 # enc_bytes k @ to_le 8 seq @ to_le 8 d"

fun dec_message :: "bytes \<Rightarrow> ((key \<times> message) \<times> bytes) option" where
  "dec_message [] = None"
| "dec_message (t # r) = do {
     (k, r) \<leftarrow> dec_bytes r;
     (seq, r) \<leftarrow> dec_u64 r;
     if t = 0 then do { (v, r) \<leftarrow> dec_bytes r; Some ((k, Put seq v), r) }
     else if t = 1 then Some ((k, Delete seq), r)
     else do { (d, r) \<leftarrow> dec_u64 r; Some ((k, Upsert seq (Add d)), r) }
   }"

lemma dec_enc_bytes: "dec_bytes (enc_bytes bs @ r) = Some (bs, r)"
proof (induction bs)
  case Nil
  show ?case by (cases r) auto
qed simp

lemma from_to_le_64 [simp]: "from_le (to_le 8 (w :: 64 word)) = w"
  by (rule from_to_le) simp

lemma length_enc_list: "length xs < length (enc_list enc xs)"
  by (induction xs) auto

lemma dec_enc_list:
  "\<forall>x\<in>set xs. \<forall>r. dec (enc x @ r) = Some (x, r) \<Longrightarrow> length xs < n \<Longrightarrow> dec_list dec n (enc_list enc xs @ r) = Some (xs, r)"
proof (induction xs arbitrary: n)
  case Nil
  then show ?case by (cases n) auto
next
  case (Cons x xs)
  obtain m where m: "n = Suc m" "length xs < m" using Cons.prems(2) by (cases n) auto
  show ?case using Cons.IH [OF _ m(2)] Cons.prems(1) by (simp add: m(1))
qed

lemma dec_enc_seq: "\<forall>x\<in>set xs. \<forall>r. dec (enc x @ r) = Some (x, r) \<Longrightarrow> dec_seq dec (enc_list enc xs @ r) = Some (xs, r)"
  unfolding dec_seq_def by (rule dec_enc_list) (use length_enc_list [of xs enc] in auto)

lemma dec_enc_u64: "dec_u64 (to_le 8 w @ r) = Some (w, r)"
  by (simp add: dec_u64_def)

lemma dec_enc_offset: "off < 2 ^ 64 \<Longrightarrow> dec_offset (enc_offset off @ r) = Some (off, r)"
  by (simp add: dec_offset_def enc_offset_def dec_enc_u64 unsigned_of_nat take_bit_nat_eq_self)

lemma dec_enc_entry: "dec_entry (enc_entry x @ r) = Some (x, r)"
  by (cases x) (simp add: dec_entry_def dec_enc_bytes dec_enc_u64)

lemma dec_enc_message: "dec_message (enc_message x @ r) = Some (x, r)"
  by (cases x rule: enc_message.cases) (simp_all add: dec_enc_bytes dec_enc_u64)

section \<open>The codec\<close>

definition sum_crc :: "bytes \<Rightarrow> u32" where
  "sum_crc bs = (let c = fold (\<lambda>b c. c + ucast b) bs 0 in if c = 0 then 1 else c)"

fun sample_dec_node :: "bytes \<Rightarrow> (disk_node \<times> bytes) option" where
  "sample_dec_node [] = None"
| "sample_dec_node (t # r) =
     (if t = 0 then do { (es, r) \<leftarrow> dec_seq dec_entry r; Some (DiskLeaf es, r) }
      else do {
        (ps, r) \<leftarrow> dec_seq dec_bytes r;
        (offs, r) \<leftarrow> dec_seq dec_offset r;
        (b, r) \<leftarrow> dec_seq dec_message r;
        Some (DiskInternal ps offs b, r)
      })"

definition sample_codec :: codec where
  "sample_codec = \<lparr>
     enc_superblock = (\<lambda>sb. Some (to_le 8 (sb_last_seq sb) @ to_le 8 (sb_generation sb) @
       to_le 8 (sb_root_offset sb) @ to_le 8 (sb_watermark sb))),
     dec_superblock = (\<lambda>bs. if length bs < 32 then None
       else Some (\<lparr>sb_magic = MAGIC, sb_format_version = FORMAT_VERSION, sb_params = default_params,
         sb_last_seq = from_le (take 8 bs), sb_generation = from_le (take 8 (drop 8 bs)),
         sb_root_offset = from_le (take 8 (drop 16 bs)), sb_watermark = from_le (take 8 (drop 24 bs))\<rparr>, 32)),
     enc_node = (\<lambda>n. case n of DiskLeaf es \<Rightarrow> Some (0 # enc_list enc_entry es)
       | DiskInternal ps offs b \<Rightarrow> if \<forall>off\<in>set offs. off < 2 ^ 64
           then Some (1 # enc_list enc_bytes ps @ enc_list enc_offset offs @ enc_list enc_message b) else None),
     dec_node = (\<lambda>bs. case sample_dec_node bs of None \<Rightarrow> Inl ''node'' | Some (n, r) \<Rightarrow> Inr (n, length bs - length r)),
     crc32 = sum_crc\<rparr>"

lemma sample_node_codec: "\<forall>n. node_codec_ok sample_codec n"
proof
  fix n
  show "node_codec_ok sample_codec n"
  proof (cases n)
    case (DiskLeaf es)
    have "dec_seq dec_entry (enc_list enc_entry es) = Some (es, [])"
      using dec_enc_seq [of es dec_entry enc_entry "[]"] by (simp add: dec_enc_entry)
    then show ?thesis using DiskLeaf by (simp add: node_codec_ok_def sample_codec_def)
  next
    case (DiskInternal ps offs b)
    have "dec_seq dec_message (enc_list enc_message b) = Some (b, [])"
      using dec_enc_seq [of b dec_message enc_message "[]"] by (simp add: dec_enc_message)
    moreover have "dec_seq dec_bytes (enc_list enc_bytes ps @ r) = Some (ps, r)" for r
      by (rule dec_enc_seq) (simp add: dec_enc_bytes)
    moreover have "dec_seq dec_offset (enc_list enc_offset offs @ r) = Some (offs, r)" if "\<forall>off\<in>set offs. off < 2 ^ 64" for r
      by (rule dec_enc_seq) (use that dec_enc_offset in blast)
    ultimately show ?thesis using DiskInternal by (auto simp: node_codec_ok_def sample_codec_def split: if_split_asm)
  qed
qed

lemma sample_enc_leaf: "enc_node sample_codec (DiskLeaf es) = Some (0 # enc_list enc_entry es)"
  by (simp add: sample_codec_def)

lemma sample_superblock_codec:
  "sb_magic sb = MAGIC \<Longrightarrow> sb_format_version sb = FORMAT_VERSION \<Longrightarrow> sb_params sb = default_params \<Longrightarrow>
     superblock_codec_ok sample_codec sb"
  by (simp add: superblock_codec_ok_def sample_codec_def SUPERBLOCK_SLOT_SIZE_def)

lemma sum_crc_pos: "sum_crc bs \<noteq> 0"
  by (simp add: sum_crc_def Let_def)

lemma from_le_zeros: "from_le (replicate n 0) = 0"
  by (induction n) auto

text \<open>A slot whose checksum bytes are still zero is never valid.\<close>

lemma sample_crc_zero: "length slot = SUPERBLOCK_SLOT_SIZE \<Longrightarrow> drop 4092 slot = replicate 4 0 \<Longrightarrow> decode_slot sample_codec slot = Invalid"
  using sum_crc_pos [of "take 4092 slot"]
  by (simp add: decode_slot_def SUPERBLOCK_SLOT_SIZE_def Let_def sample_codec_def from_le_zeros)

lemma sample_zeros: "decode_slot sample_codec (replicate SUPERBLOCK_SLOT_SIZE 0) = Invalid"
  by (rule sample_crc_zero) (simp_all add: SUPERBLOCK_SLOT_SIZE_def)

lemma sample_torn:
  assumes "length new = SUPERBLOCK_SLOT_SIZE" "decode_slot sample_codec new = Valid sb"
  shows "torn_detected sample_codec (replicate 4096 0) new"
  unfolding torn_detected_def
proof (intro conjI allI sample_zeros)
  fix k
  let ?mix = "take k new @ drop k (replicate 4096 0)"
  have len: "length ?mix = 4096" using assms(1) by (simp add: SUPERBLOCK_SLOT_SIZE_def)
  show "decode_slot sample_codec ?mix \<in> {Invalid, decode_slot sample_codec (replicate 4096 0), decode_slot sample_codec new}"
  proof (cases "k \<le> 4092")
    case True
    then have "drop 4092 ?mix = replicate 4 0" using assms(1) by (simp add: SUPERBLOCK_SLOT_SIZE_def)
    then show ?thesis using sample_crc_zero len by (simp add: SUPERBLOCK_SLOT_SIZE_def)
  next
    case False
    then have body: "take 4092 ?mix = take 4092 new" using assms(1) by (simp add: SUPERBLOCK_SLOT_SIZE_def min_def)
    have crc: "sum_crc (take 4092 new) = from_le (drop 4092 new)"
      using assms by (auto simp: decode_slot_def SUPERBLOCK_SLOT_SIZE_def Let_def sample_codec_def split: if_split_asm)
    show ?thesis
    proof (cases "sum_crc (take 4092 new) = from_le (drop 4092 ?mix)")
      case True
      then have "decode_slot sample_codec ?mix = decode_slot sample_codec new"
        using len assms(1) body crc unfolding decode_slot_def Let_def
        by (simp add: SUPERBLOCK_SLOT_SIZE_def sample_codec_def del: take_append drop_append take_replicate drop_replicate)
      then show ?thesis by simp
    next
      case False
      then have "decode_slot sample_codec ?mix = Invalid"
        using len body unfolding decode_slot_def Let_def
        by (simp add: SUPERBLOCK_SLOT_SIZE_def sample_codec_def del: take_append drop_append take_replicate drop_replicate)
      then show ?thesis by simp
    qed
  qed
qed

lemma sample_create: "create_trusted sample_codec default_params"
  unfolding create_trusted_def
proof (intro conjI allI sample_zeros sample_superblock_codec)
  show "\<exists>payload. enc_node sample_codec (DiskLeaf []) = Some payload \<and> length payload < 2 ^ 32" by (simp add: sample_codec_def)
qed simp_all

end
