(* ===== verification/Disk_Properties.thy ===== *)
theory Disk_Properties
  imports Codec_Example
begin

text \<open>
  The properties of the on-disk format and of the disk engine: slots and records round trip or are
  reported, opening and reading never panic on any file, the cache accounts for what it holds, nothing
  is written between commits, a poisoned engine never commits, and a crash at any moment loses nothing
  that was acknowledged.
\<close>

section \<open>A concrete engine\<close>

text \<open>The engine that the properties are instantiated on: created on an empty device with the sample codec.\<close>

lemma sample_engine:
  obtains s v sb where "create_on_with (faulty_env sample_codec) (from_image []) default_params None GreedyFullest = Some (Inr s, v)"
    "durable sample_codec s sb" "offsets_ok s" "\<not> d_poisoned s" "d_vfs s = v" "sb_generation sb = 0" "sb_params sb = default_params"
    "fs_fail_sync v = None" "d_root s = 0" "cache_ok s" "slot_region (fs_view v) 4096 = replicate 4096 0"
    "\<exists>b t. d_slots s = [Loaded (Leaf []) False (Some DATA_START) b t]" "budget (d_cache s) = None" "is_dirty s 0 = Some False" "resolve_offset s [] 0 = Some DATA_START"
    "stored_node sample_codec (fs_view v) (d_watermark s) DATA_START = Some (DiskLeaf [])" "d_watermark s = DATA_START + 10" "unat (sb_root_offset sb) = DATA_START"
proof -
  obtain s v sb where s: "create_on_with (faulty_env sample_codec) (from_image []) default_params None GreedyFullest = Some (Inr s, v)"
    "durable sample_codec s sb" "offsets_ok s" "\<not> d_poisoned s" "d_vfs s = v" "sb_generation sb = 0" "sb_params sb = default_params"
    "fs_fail_sync v = None" "d_root s = 0" "cache_ok s" "slot_region (fs_view v) 4096 = replicate 4096 0"
    "unat (sb_root_offset sb) = DATA_START"
    and slots: "\<exists>payload t. enc_node sample_codec (DiskLeaf []) = Some payload \<and>
       settled [] None (s\<lparr>d_slots := [Loaded (Leaf []) False (Some DATA_START) (RECORD_HEADER_SIZE + length payload) t]\<rparr>) s \<and>
       ((None :: nat option) = None \<longrightarrow> d_slots s = [Loaded (Leaf []) False (Some DATA_START) (RECORD_HEADER_SIZE + length payload) t] \<and> budget (d_cache s) = None) \<and>
       length (d_slots s) = 1 \<and> d_watermark s = DATA_START + 8 + length payload \<and> take (8 + length payload) (drop DATA_START (fs_view v)) = record_bytes sample_codec payload"
    by (rule create_durable [OF sample_create params_legal_default, of None GreedyFullest]) (rule that)
  obtain payload t where pay: "enc_node sample_codec (DiskLeaf []) = Some payload" "budget (d_cache s) = None"
    "d_slots s = [Loaded (Leaf []) False (Some DATA_START) (RECORD_HEADER_SIZE + length payload) t]"
    "take (8 + length payload) (drop DATA_START (fs_view v)) = record_bytes sample_codec payload"
    "d_watermark s = DATA_START + 8 + length payload"
    using slots by auto
  then have "is_dirty s 0 = Some False" "resolve_offset s [] 0 = Some DATA_START"
    by (auto simp: is_dirty_def resolve_offset_def)
  moreover have "d_watermark s = DATA_START + 10" using pay(1,5) by (auto simp: sample_enc_leaf)
  moreover have rec: "stored_record sample_codec (fs_view v) (d_watermark s) DATA_START = Some (DiskLeaf [], length payload)"
    using pay durable_view(3) [OF s(2)] s(5) decode_encode_node [of sample_codec "DiskLeaf []" payload] sample_node_codec
    by (intro stored_record_written) (auto simp: encode_node_def sample_enc_leaf)
  moreover have "stored_node sample_codec (fs_view v) (d_watermark s) DATA_START = Some (DiskLeaf [])"
    using rec by (simp add: stored_node_def)
  ultimately show thesis using that s pay(2,3) by blast
qed

text \<open>The same engine after an insert, with its root leaf dirty.\<close>

abbreviation sample_leaf :: "u64 \<Rightarrow> entries" where
  "sample_leaf seq \<equiv> [([1], \<lparr>entry_seq = seq, entry_value = [2]\<rparr>)]"

lemma sample_restore:
  assumes "d_slots s = [Loaded (Leaf es) d off b t]" "d_root s = 0" "length es \<le> leaf_capacity (d_params s)"
  shows "disk_restore_root E s = ok () s"
  using assms by (simp add: disk_restore_root_def disk_restore_root_with_def disk_restore_loop.simps [of E _ True s] disk_collapse_root.simps [of E s]
      loaded_def disk_split_if_needed_def)

lemma sample_apply:
  assumes "d_slots s = [Loaded (Leaf []) d off b t]" "d_root s = 0" "cache_bytes (d_cache s) = b" "1 \<le> leaf_capacity (d_params s)"
  shows "\<exists>s' b'. disk_apply_root E [1] (Put seq [2]) s = Some (Inr (), s') \<and> d_slots s' = [Loaded (Leaf (sample_leaf seq)) True off b' t] \<and>
    d_root s' = 0 \<and> budget (d_cache s') = budget (d_cache s) \<and> d_poisoned s' = d_poisoned s"
proof -
  let ?s = "s\<lparr>d_cache := (d_cache s)\<lparr>cache_bytes := est_bytes (Leaf [])\<rparr>,
    d_slots := [Loaded (Leaf (sample_leaf seq)) True off (est_bytes (Leaf [])) t]\<rparr>"
  have "loaded_mut (d_root s) s = Some (Leaf [], s\<lparr>d_cache := (d_cache s)\<lparr>cache_bytes := est_bytes (Leaf [])\<rparr>,
      d_slots := [Loaded (Leaf []) True off (est_bytes (Leaf [])) t]\<rparr>)"
    using assms(1-3) by (simp add: loaded_mut_def recount_def checked_sub_def set_slot_def)
  moreover have "disk_restore_root E ?s = ok () ?s" 
    by (rule sample_restore [of ?s "sample_leaf seq" True off "est_bytes (Leaf [])" t]) (use assms(2,4) in simp_all)
  ultimately have "disk_apply_root E [1] (Put seq [2]) s = ok () ?s"
    using assms(2) by (simp add: disk_apply_root_def put_node_def set_slot_def poison_on_error_def Let_def)
  then show ?thesis using assms(2) by simp
qed

lemma sample_insert:
  assumes s: "d_slots s = [Loaded (Leaf []) False (Some DATA_START) b t]" "budget (d_cache s) = None" "d_root s = 0" "cache_ok s"
    "d_params s = default_params"
  shows "\<exists>s' seq b'. try_insert E [1] [2] s = Some (Inr (), s') \<and> d_slots s' = [Loaded (Leaf (sample_leaf seq)) True (Some DATA_START) b' t] \<and>
    d_root s' = 0 \<and> budget (d_cache s') = None \<and> d_poisoned s' = d_poisoned s"
proof -
  let ?q = "d_next_seq s + 1"
  let ?s = "s\<lparr>d_cache := (d_cache s)\<lparr>hits := hits (d_cache s) + 1\<rparr>, d_next_seq := ?q, d_ops_since_commit := d_ops_since_commit s + 1,
    d_trace := rec_op ?q (Insert2 [1] [2]) (d_trace s)\<rparr>"
  have "try_insert E [1] [2] s = disk_apply_root E [1] (Put ?q [2]) ?s"
    using s(1-3) by (simp add: try_insert_def ensure_loaded_def touch_def Let_def)
  moreover have "cache_bytes (d_cache ?s) = b" using s(1,4) by (simp add: cache_ok_def total_def)
  ultimately show ?thesis using sample_apply [of ?s False "Some DATA_START" b t E ?q] s(1-3,5) by (auto simp: default_params_def)
qed

text \<open>A commit of that engine: nothing is dirty, so it only publishes generation 1.\<close>

lemma sample_next:
  assumes "is_dirty s 0 = Some False" "d_root s = 0" "resolve_offset s [] 0 = Some DATA_START"
  shows "commit_plan E s = Some (Inr ([], [], []))"
    "next_superblock E s = Some ([], new_superblock s DATA_START (d_watermark s))"
  using assms by (simp_all add: commit_plan_def next_superblock_def)

text \<open>A commit of the engine after an insert: it writes the leaf behind the old watermark.\<close>

lemma sample_plan:
  assumes "d_slots s = [Loaded (Leaf (sample_leaf seq)) True off b t]" "d_root s = 0"
  obtains payload where "enc_node sample_codec (DiskLeaf (sample_leaf seq)) = Some payload" "length payload = 17"
    "commit_plan (faulty_env sample_codec) s = Some (Inr (record_bytes sample_codec payload, [(0, d_watermark s)], [(0, RECORD_HEADER_SIZE + 17)]))"
proof -
  let ?p = "0 # enc_list enc_entry (sample_leaf seq)"
  have walk: "disk_dirty_walk s [0] = Some [0]"
    using assms by (simp add: disk_dirty_walk.simps [of s "[0]"] disk_dirty_walk.simps [of s "[]"] loaded_def)
  have "node_payload (faulty_env sample_codec) s [] 0 = Some (Inr ?p)"
    using assms by (simp add: node_payload_def loaded_def encode_node_def sample_enc_leaf)
  then have "commit_plan (faulty_env sample_codec) s = Some (Inr (record_bytes sample_codec ?p, [(0, d_watermark s)], [(0, RECORD_HEADER_SIZE + 17)]))"
    using assms walk by (simp add: commit_plan_def is_dirty_def)
  then show thesis using that [OF sample_enc_leaf] by simp
qed

lemma sample_trusted:
  assumes d: "durable sample_codec s sb" "sb_generation sb = 0" "sb_params sb = default_params"
    and plan: "commit_plan (faulty_env sample_codec) s = Some (Inr (buf, assigned, lens))" "resolve_offset s assigned (d_root s) = Some root"
    and zeros: "slot_region (fs_view (d_vfs s)) 4096 = replicate 4096 0" and offs: "offsets_ok s"
    and wm: "d_watermark s + length buf < 2 ^ 64"
  shows "commit_trusted sample_codec s"
proof -
  let ?sb = "new_superblock s root (d_watermark s + length buf)"
  have gen: "d_next_generation s = 1" "d_params s = default_params" using d by (simp_all add: durable_def)
  have codec: "superblock_codec_ok sample_codec ?sb"
    by (rule sample_superblock_codec) (simp_all add: new_superblock_def gen)
  have "DATA_START \<le> d_watermark s" using durableD(5) [OF d(1)] by (simp add: DATA_START_def SUPERBLOCK_SLOT_SIZE_def)
  then have "superblock_ok ?sb" using new_superblock_ok(1) [of s root "d_watermark s + length buf"] wm gen(2)
      resolve_in_file [OF plan(2) offs plan_range [OF plan(1)]] by simp
  then have "torn_detected sample_codec (replicate 4096 0) bs" if "encode_slot sample_codec ?sb = Inr bs" for bs
    using sample_torn [of bs ?sb] encode_slot_ok [OF codec] that by (auto simp: superblock_ok_def)
  then show ?thesis using plan codec wm zeros
    by (simp add: commit_trusted_def next_superblock_def gen(1) publish_slot_eq)
qed

text \<open>The engine after the insert, ready to commit.\<close>

lemma sample_inserted:
  obtains s0 v s sb seq b t where
    "create_on_with (faulty_env sample_codec) (from_image []) default_params None GreedyFullest = Some (Inr s0, v)"
    "try_insert (faulty_env sample_codec) [1] [2] s0 = Some (Inr (), s)" "durable sample_codec s sb" "offsets_ok s" "\<not> d_poisoned s"
    "d_vfs s = v" "fs_fail_sync v = None" "d_root s = 0" "cache_ok s" "commit_trusted sample_codec s" "budget (d_cache s) = None"
    "d_slots s = [Loaded (Leaf (sample_leaf seq)) True (Some DATA_START) b t]" "d_watermark s = DATA_START + 10"
    "stored_node sample_codec (fs_view v) (d_watermark s) DATA_START = Some (DiskLeaf [])"
proof -
  let ?E = "faulty_env sample_codec"
  obtain s0 v sb b0 t where s0: "create_on_with ?E (from_image []) default_params None GreedyFullest = Some (Inr s0, v)"
    "durable sample_codec s0 sb" "offsets_ok s0" "\<not> d_poisoned s0" "d_vfs s0 = v" "sb_generation sb = 0" "sb_params sb = default_params"
    "fs_fail_sync v = None" "d_root s0 = 0" "cache_ok s0" "slot_region (fs_view v) 4096 = replicate 4096 0"
    "d_slots s0 = [Loaded (Leaf []) False (Some DATA_START) b0 t]" "budget (d_cache s0) = None"
    "stored_node sample_codec (fs_view v) (d_watermark s0) DATA_START = Some (DiskLeaf [])" "d_watermark s0 = DATA_START + 10"
    by (rule sample_engine) blast
  have par: "d_params s0 = default_params" using s0(2,7) by (simp add: durable_def)
  obtain s seq b where s: "try_insert ?E [1] [2] s0 = Some (Inr (), s)" "d_slots s = [Loaded (Leaf (sample_leaf seq)) True (Some DATA_START) b t]"
    "d_root s = 0" "budget (d_cache s) = None" "\<not> d_poisoned s"
    using sample_insert [OF s0(12,13,9,10) par, of ?E] s0(4,9,13) by auto
  have op: "disk_op ?E s0 s" using s(1) by (rule op_insert)
  have kept: "d_vfs s = v" "d_watermark s = d_watermark s0" "d_next_generation s = d_next_generation s0" "d_params s = d_params s0"
    using quiet.disk_op_I [OF op, of v "d_params s0" "d_watermark s0" "d_next_generation s0"] s0(5) by (simp_all add: file_is_def)
  have d: "durable sample_codec s sb" 
    using s0(2) unfolding durable_def kept s0(5) .
  have offs: "offsets_ok s" and cache: "cache_ok s"
    using offsets.disk_op_I [OF op s0(3)] cache.disk_op_I [OF op s0(10)] by simp_all
  obtain payload where plan: "length payload = 17"
    "commit_plan ?E s = Some (Inr (record_bytes sample_codec payload, [(0, d_watermark s)], [(0, RECORD_HEADER_SIZE + 17)]))"
    by (rule sample_plan [OF s(2,3)])
  have "commit_trusted sample_codec s"
    by (rule sample_trusted [OF d s0(6,7) plan(2), of "d_watermark s"])
      (use s(2,3) s0(11,15) kept offs plan(1) in \<open>simp_all add: resolve_offset_def record_bytes_def DATA_START_def SUPERBLOCK_SLOT_SIZE_def\<close>)
  then show thesis using that [OF s0(1) s(1) d offs s(5) kept(1) s0(8) s(3) cache _ s(4,2)] s0(14,15) kept(2) by simp
qed

section \<open>The format\<close>

text \<open>C32. A superblock slot round trips: what \<open>encode_slot\<close> wrote for a legal superblock, \<open>decode_slot\<close>
  reads back.\<close>

theorem slot_round_trip:
  assumes "superblock_codec_ok cd sb" "superblock_ok sb"
  shows "\<exists>slot. encode_slot cd sb = Inr slot \<and> length slot = SUPERBLOCK_SLOT_SIZE \<and> decode_slot cd slot = Valid sb"
  using encode_slot_ok [OF assms(1)] assms(2) by (simp add: superblock_ok_def)

definition sample_superblock :: superblock where
  "sample_superblock = \<lparr>sb_magic = MAGIC, sb_format_version = FORMAT_VERSION, sb_params = default_params,
     sb_last_seq = 7, sb_generation = 3, sb_root_offset = 8200, sb_watermark = 8300\<rparr>"

lemma sample_superblock_ok: "superblock_ok sample_superblock"
  by (simp add: superblock_ok_def sample_superblock_def geometry_ok_def DATA_START_def SUPERBLOCK_SLOT_SIZE_def RECORD_HEADER_SIZE_def)

theorem slot_round_trip_witness:
  "\<exists>slot. encode_slot sample_codec sample_superblock = Inr slot \<and> length slot = SUPERBLOCK_SLOT_SIZE \<and>
     decode_slot sample_codec slot = Valid sample_superblock"
  by (rule slot_round_trip [OF sample_superblock_codec sample_superblock_ok]) (simp_all add: sample_superblock_def)

text \<open>C33. A slot that is accepted is well-formed: its superblock has the magic, the version, legal
  parameters, and a root record whose header lies, in natural numbers, between the start of the data
  region and the watermark; no subtraction in the check wraps.\<close>

theorem accepted_slot_well_formed:
  assumes "decode_slot cd slot = Valid sb"
  shows "length slot = SUPERBLOCK_SLOT_SIZE \<and> sb_magic sb = MAGIC \<and> sb_format_version sb = FORMAT_VERSION \<and>
    params_legal (sb_params sb) \<and> DATA_START \<le> unat (sb_root_offset sb) \<and>
    unat (sb_root_offset sb) + RECORD_HEADER_SIZE \<le> unat (sb_watermark sb)"
  using decode_slot_valid [OF assms] superblock_ok_bounds(1,2) by (auto simp: superblock_ok_def)

theorem accepted_slot_well_formed_witness:
  "\<exists>slot. decode_slot sample_codec slot = Valid sample_superblock \<and> params_legal (sb_params sample_superblock) \<and>
     unat (sb_root_offset sample_superblock) + RECORD_HEADER_SIZE \<le> unat (sb_watermark sample_superblock)"
proof -
  have "superblock_codec_ok sample_codec sample_superblock" by (rule sample_superblock_codec) (simp_all add: sample_superblock_def)
  then obtain slot where "decode_slot sample_codec slot = Valid sample_superblock"
    using encode_slot_ok sample_superblock_ok unfolding superblock_ok_def by metis
  with accepted_slot_well_formed [OF this] show ?thesis by blast
qed

text \<open>C31. Reading a record never panics, whatever the offset, the watermark and the bytes: it gives the
  record that the file stores there, or a typed error, and leaves the engine as it was.\<close>

theorem read_record_total:
  "\<exists>e. read_record (faulty_env cd) off s =
     (case stored_record cd (fs_view (d_vfs s)) (d_watermark s) off of
        Some (n, len) \<Rightarrow> ok (n, len) s | None \<Rightarrow> err e s)"
  using read_record_faulty [of cd off s] by (cases "stored_record cd (fs_view (d_vfs s)) (d_watermark s) off") auto

section \<open>Opening\<close>

lemma scan_slots_faulty:
  assumes "\<forall>o'\<in>set offs. len < o' + SUPERBLOCK_SLOT_SIZE \<or> o' + SUPERBLOCK_SLOT_SIZE \<le> length (fs_view v)"
    and "\<forall>b. best = Some b \<longrightarrow> superblock_ok b \<and> unat (sb_watermark b) \<le> len"
  shows "\<exists>best' wrong'. scan_slots (faulty_env cd) len offs best wrong v = Some (Inr (best', wrong'), v) \<and>
    (\<forall>b. best' = Some b \<longrightarrow> superblock_ok b \<and> unat (sb_watermark b) \<le> len) \<and>
    ((wrong \<noteq> None \<or> (\<exists>o'\<in>set offs. \<exists>w. len \<ge> o' + SUPERBLOCK_SLOT_SIZE \<and> slot_at cd (fs_view v) o' = WrongVersion w)) \<longrightarrow> wrong' \<noteq> None)"
  using assms
proof (induction offs arbitrary: best wrong)
  case (Cons off offs)
  show ?case
  proof (cases "len < off + SUPERBLOCK_SLOT_SIZE")
    case True
    then show ?thesis using Cons.IH [of best wrong] Cons.prems by auto
  next
    case False
    let ?slot = "take SUPERBLOCK_SLOT_SIZE (drop off (fs_view v))"
    have rd: "read_exact_at FaultyVfs off SUPERBLOCK_SLOT_SIZE v = Some (Inr ?slot, v)"
      using False Cons.prems(1) by (auto simp: FaultyVfs_def faulty_read_def)
    have st: "slot_at cd (fs_view v) off = decode_slot cd ?slot" using False Cons.prems(1) by (auto simp: slot_at_def)
    show ?thesis
    proof (cases "decode_slot cd ?slot")
      case (Valid sb)
      let ?best = "if unat (sb_watermark sb) \<le> len \<and> (case best of None \<Rightarrow> True | Some b \<Rightarrow> sb_generation sb > sb_generation b) then Some sb else best"
      have "\<forall>b. ?best = Some b \<longrightarrow> superblock_ok b \<and> unat (sb_watermark b) \<le> len"
        using Cons.prems(2) decode_slot_valid [OF Valid] by auto
      from Cons.IH [OF _ this, of wrong] show ?thesis using False rd Valid st Cons.prems(1) by simp
    next
      case (WrongVersion w)
      obtain best' w' where "scan_slots (faulty_env cd) len offs best (Some w) v = Some (Inr (best', Some w'), v)"
        "\<forall>b. best' = Some b \<longrightarrow> superblock_ok b \<and> unat (sb_watermark b) \<le> len"
        using Cons.IH [OF _ Cons.prems(2), of "Some w"] Cons.prems(1) by auto
      then show ?thesis using False rd WrongVersion by simp
    next
      case Invalid
      from Cons.IH [OF _ Cons.prems(2), of wrong] show ?thesis using False rd Invalid st Cons.prems(1) by simp
    qed
  qed
qed auto

text \<open>C30. Opening never panics, on any file whatsoever: it either reports that there is no valid superblock
  or that a slot has a foreign version, and then leaves the file untouched, or it yields the engine of a
  well-formed superblock whose data region is in the file, cut at the watermark. A slot of a foreign
  version always makes it refuse.\<close>

theorem open_never_panics:
  "\<exists>r v. open_on_with (faulty_env cd) (from_image img) bud pol = Some (r, v) \<and>
     (case r of
        Inl e \<Rightarrow> v = from_image img \<and> (e = NoValidSuperblock \<or> (\<exists>w. e = UnsupportedVersion w))
      | Inr s \<Rightarrow> (\<exists>sb. superblock_ok sb \<and> unat (sb_watermark sb) \<le> length img \<and> s = opened sb bud pol v \<and>
          fs_view v = take (unat (sb_watermark sb)) img) \<and>
          (\<forall>w. slot_at cd img 0 \<noteq> WrongVersion w \<and> slot_at cd img SUPERBLOCK_SLOT_SIZE \<noteq> WrongVersion w))"
proof -
  have view: "fs_view (from_image img) = img" by (simp add: from_image_def)
  have pre: "\<forall>o'\<in>set SUPERBLOCK_SLOTS. length img < o' + SUPERBLOCK_SLOT_SIZE \<or> o' + SUPERBLOCK_SLOT_SIZE \<le> length (fs_view (from_image img))"
    by (auto simp: view)
  obtain best wrong where scan: "scan_slots (faulty_env cd) (length img) SUPERBLOCK_SLOTS None None (from_image img) = Some (Inr (best, wrong), from_image img)"
    and best: "\<forall>b. best = Some b \<longrightarrow> superblock_ok b \<and> unat (sb_watermark b) \<le> length img"
    and wrong: "(\<exists>o'\<in>set SUPERBLOCK_SLOTS. \<exists>w. length img \<ge> o' + SUPERBLOCK_SLOT_SIZE \<and> slot_at cd img o' = WrongVersion w) \<longrightarrow> wrong \<noteq> None"
    using scan_slots_faulty [OF pre, of None cd None] unfolding view by blast
  have none: "\<forall>o'\<in>set SUPERBLOCK_SLOTS. \<forall>w. slot_at cd img o' \<noteq> WrongVersion w" if "wrong = None"
    using wrong that by (auto simp: slot_at_def)
  have l: "vfs_len FaultyVfs (from_image img) = Some (Inr (length img), from_image img)"
    by (simp add: FaultyVfs_def faulty_len_def view)
  show ?thesis
  proof (cases wrong)
    case (Some w)
    then show ?thesis using scan l by (simp add: open_on_with_def)
  next
    case None
    show ?thesis
    proof (cases best)
      case None
      then show ?thesis using scan l \<open>wrong = None\<close> by (simp add: open_on_with_def)
    next
      case (Some sb)
      have "set_len FaultyVfs n (from_image img) = Some (Inr (), (from_image img)\<lparr>fs_view := take n img, fs_log := [LogSetLen n]\<rparr>)"
        if "n \<le> length img" for n
        using that by (simp add: FaultyVfs_def faulty_set_len_def from_image_def faulty_new_def resize_def)
      then show ?thesis using scan l None Some best none by (auto simp: open_on_with_def SUPERBLOCK_SLOTS_def)
    qed
  qed
qed

section \<open>The cache\<close>

text \<open>C34. The cache accounts exactly for what is resident: in every reachable engine, the resident bytes
  it reports are the sum over the loaded nodes, its count is their number, every clean resident node has
  a record to go back to, and neither the eviction queue nor the offset interning names a slot that does
  not exist.\<close>

theorem cache_accounting:
  assumes "disk_reachable E s"
  shows "st_resident_bytes (cache_stats s) = sum_list (map slot_bytes (d_slots s)) \<and>
    resident (d_cache s) = length (filter (\<lambda>slot. slot_count slot = 1) (d_slots s)) \<and>
    (\<forall>slot\<in>set (d_slots s). slot_ok slot) \<and>
    (\<forall>(nid, t)\<in>set (lru (d_cache s)). nid < length (d_slots s)) \<and> (\<forall>(off, nid)\<in>set (d_offsets s). nid < length (d_slots s))"
proof -
  have "sum_list (map slot_count slots) = length (filter (\<lambda>slot. slot_count slot = 1) slots)" for slots
  proof (induction slots)
    case (Cons slot slots)
    then show ?case by (cases slot) auto
  qed simp
  then show ?thesis using reachable_cache [OF assms] by (simp add: cache_ok_def cache_stats_def total_def)
qed

theorem cache_accounting_witness:
  "\<exists>s v. create_on_with (faulty_env sample_codec) (from_image []) default_params None GreedyFullest = Some (Inr s, v) \<and>
     st_resident_bytes (cache_stats s) = sum_list (map slot_bytes (d_slots s)) \<and> resident (d_cache s) = 1"
proof -
  obtain s v b t where s: "create_on_with (faulty_env sample_codec) (from_image []) default_params None GreedyFullest = Some (Inr s, v)"
    "d_slots s = [Loaded (Leaf []) False (Some DATA_START) b t]" by (rule sample_engine) blast
  from cache_accounting [OF created [OF s(1)]] s show ?thesis by auto
qed

text \<open>C35. Enforcing the budget always returns and never loses anything: every slot is as it was but for its
  tick, or it was a clean, unpinned node and is now the record it came from; nothing else of the engine
  changes.\<close>

theorem enforce_budget_safe:
  assumes "disk_reachable E s"
  shows "\<exists>s'. enforce_budget pins just_loaded s = Some s' \<and> length (d_slots s') = length (d_slots s) \<and>
    rest s' = rest s \<and>
    (\<forall>i<length (d_slots s). stamp 0 (d_slots s' ! i) = stamp 0 (d_slots s ! i) \<or>
       (\<exists>n off b t. d_slots s ! i = Loaded n False (Some off) b t \<and> d_slots s' ! i = OnDisk off \<and>
          i \<notin> set pins \<and> just_loaded \<noteq> Some i))"
  using enforce_budget_ok [OF reachable_cache [OF assms], of pins just_loaded]
  by (auto simp: same_rest_def settled_def reverts_def)

text \<open>An engine opened without a byte of budget keeps the leaf it has just loaded.\<close>

lemma sample_load:
  assumes "stored_node cd (fs_view v) (unat (sb_watermark sb)) (unat (sb_root_offset sb)) = Some (DiskLeaf [])"
  shows "\<exists>s' b t. try_get (faulty_env cd) k (opened sb (Some 0) pol v) = Some (Inr None, s') \<and>
    d_slots s' = [Loaded (Leaf []) False (Some (unat (sb_root_offset sb))) b t] \<and> lru (d_cache s') = [(0, t)] \<and>
    cache_bytes (d_cache s') = b \<and> 0 < b \<and> budget (d_cache s') = Some 0 \<and> resident (d_cache s') = 1"
proof -
  obtain len where "stored_record cd (fs_view v) (unat (sb_watermark sb)) (unat (sb_root_offset sb)) = Some (DiskLeaf [], len)"
    using assms by (auto simp: stored_node_def split: option.split_asm if_split_asm)
  then have "read_record (faulty_env cd) (unat (sb_root_offset sb)) s = ok (DiskLeaf [], len) s"
    if "d_vfs s = v" "d_watermark s = unat (sb_watermark sb)" for s :: "(faulty_state, 'a) disk_engine"
    using read_record_faulty [of cd "unat (sb_root_offset sb)" s] that by simp
  then show ?thesis
    by (simp add: try_get_def disk_get_from.simps ensure_loaded_def opened_def node_of_record_def finish_load_def touch_def set_slot_def
        enforce_budget_def loaded_def apply_chain_def Let_def cache_default_def RECORD_HEADER_SIZE_def)
qed

theorem enforce_budget_safe_witness:
  "\<exists>(s0 :: (faulty_state, unit) disk_engine) v (s :: (faulty_state, unit) disk_engine) v' s1 s2 b t.
     create_on_with (faulty_env sample_codec) (from_image []) default_params None GreedyFullest = Some (Inr s0, v) \<and>
     open_on_with (faulty_env sample_codec) (from_image (fs_view v)) (Some 0) GreedyFullest = Some (Inr s, v') \<and>
     try_get (faulty_env sample_codec) [1] s = Some (Inr None, s1) \<and> d_slots s1 = [Loaded (Leaf []) False (Some DATA_START) b t] \<and>
     enforce_budget [] None s1 = Some s2 \<and> d_slots s2 = [OnDisk DATA_START] \<and> rest s2 = rest s1"
proof -
  obtain s0 v sb where s0: "create_on_with (faulty_env sample_codec) (from_image []) default_params None GreedyFullest = Some (Inr s0, v)"
    "durable sample_codec s0 sb" "d_vfs s0 = v" "stored_node sample_codec (fs_view v) (d_watermark s0) DATA_START = Some (DiskLeaf [])"
    "unat (sb_root_offset sb) = DATA_START" by (rule sample_engine) blast
  have wm: "d_watermark s0 = unat (sb_watermark sb)" using s0(2) by (simp add: durable_def)
  have "image_ok sample_codec (fs_view v) sb" using durable_images [OF s0(2) durable_view(1) [OF s0(2)]] s0(3) by simp
  from open_image [OF this, of "Some 0" GreedyFullest] obtain v' where v':
    "open_on_with (faulty_env sample_codec) (from_image (fs_view v)) (Some 0) GreedyFullest = Some (Inr (opened sb (Some 0) GreedyFullest v'), v')"
    "fs_view v' = take (unat (sb_watermark sb)) (fs_view v)" by auto
  let ?s = "opened sb (Some 0) GreedyFullest v'"
  have "stored_node sample_codec (fs_view v') (unat (sb_watermark sb)) DATA_START = Some (DiskLeaf [])"
    using stored_node_mono [OF s0(4), of "fs_view v'"] v'(2) wm durable_view(3) [OF s0(2)] s0(3) by (simp add: data_def drop_take)
  then obtain s1 b t where s1: "try_get (faulty_env sample_codec) [1] ?s = Some (Inr None, s1)"
    "d_slots s1 = [Loaded (Leaf []) False (Some DATA_START) b t]" "lru (d_cache s1) = [(0, t)]" "cache_bytes (d_cache s1) = b" "0 < b"
    "budget (d_cache s1) = Some 0" "resident (d_cache s1) = 1"
    using sample_load [of sample_codec v' sb "[1]" GreedyFullest] s0(5) by auto
  have "disk_reachable (faulty_env sample_codec) s1" using operated [OF opened [OF v'(1)] op_get [OF s1(1)]] .
  from enforce_budget_safe [OF this, of "[]" None] obtain s2 where s2: "enforce_budget [] None s1 = Some s2" "rest s2 = rest s1" by blast
  then have "d_slots s2 = [OnDisk DATA_START]"
    using s1(2-7) by (auto simp: enforce_budget_def set_slot_def forget_def checked_sub_def)
  with s0(1) v'(1) s1(1,2) s2 show ?thesis by blast
qed

section \<open>Between commits\<close>

text \<open>C36. Nothing is written between commits: whatever operations run, on success and on error, the device,
  the watermark, the next generation and the parameters stay as they are.\<close>

theorem quiet_between_commits:
  assumes "(disk_op (faulty_env cd))\<^sup>*\<^sup>* s s'"
  shows "d_vfs s' = d_vfs s \<and> d_watermark s' = d_watermark s \<and> d_next_generation s' = d_next_generation s \<and> d_params s' = d_params s"
  using quiet.disk_ops_I [OF assms, of "d_vfs s" "d_params s" "d_watermark s" "d_next_generation s"] by (simp add: file_is_def)

lemma sample_get:
  assumes "d_slots s = [Loaded (Leaf []) d off b t]" "budget (d_cache s) = None" "d_root s = 0"
  shows "\<exists>s'. try_get E k s = Some (Inr None, s')"
  using assms by (simp add: try_get_def disk_get_from.simps ensure_loaded_def touch_def loaded_def apply_chain_def)

theorem quiet_between_commits_witness:
  "\<exists>s v s'. create_on_with (faulty_env sample_codec) (from_image []) default_params None GreedyFullest = Some (Inr s, v) \<and>
     try_get (faulty_env sample_codec) [1] s = Some (Inr None, s') \<and> d_vfs s' = v"
proof -
  obtain s v b t where s: "create_on_with (faulty_env sample_codec) (from_image []) default_params None GreedyFullest = Some (Inr s, v)"
    "d_slots s = [Loaded (Leaf []) False (Some DATA_START) b t]" "budget (d_cache s) = None" "d_root s = 0" "d_vfs s = v"
    by (rule sample_engine) blast
  obtain s' where s': "try_get (faulty_env sample_codec) [1] s = Some (Inr None, s')" using sample_get [OF s(2-4)] by blast
  then have "(disk_op (faulty_env sample_codec))\<^sup>*\<^sup>* s s'" by (blast intro: op_get)
  from quiet_between_commits [OF this] s s' show ?thesis by auto
qed

text \<open>C37. A failed commit is final: once a commit returned an error, no sequence of operations makes the
  engine commit again, every later commit refuses with \<open>Poisoned\<close> and changes nothing.\<close>

theorem poisoned_never_commits:
  assumes "commit E s = Some (Inl e, t)" "(disk_op E)\<^sup>*\<^sup>* t t'"
  shows "commit E t' = Some (Inl Poisoned, t')"
proof -
  have "d_poisoned t" using assms(1) by (auto simp: commit_def split: if_split_asm elim!: poisonE)
  then have "d_poisoned t'" by (rule poisoned.disk_ops_I [OF assms(2)])
  then show ?thesis by (simp add: commit_def)
qed

theorem poisoned_never_commits_witness:
  "\<exists>s v t t'. create_on_with (faulty_env sample_codec) (from_image []) default_params None GreedyFullest = Some (Inr s, v) \<and>
     commit (faulty_env sample_codec) (s\<lparr>d_vfs := fail_next_sync [Drop] v\<rparr>) = Some (Inl (Io (IoOther ''injected sync failure'')), t) \<and>
     try_get (faulty_env sample_codec) [1] t = Some (Inr None, t') \<and> commit (faulty_env sample_codec) t' = Some (Inl Poisoned, t')"
proof -
  obtain s v sb b t where s: "create_on_with (faulty_env sample_codec) (from_image []) default_params None GreedyFullest = Some (Inr s, v)"
    "d_slots s = [Loaded (Leaf []) False (Some DATA_START) b t]" "budget (d_cache s) = None" "d_root s = 0" "d_vfs s = v"
    "is_dirty s 0 = Some False" "resolve_offset s [] 0 = Some DATA_START" "durable sample_codec s sb" "\<not> d_poisoned s"
    by (rule sample_engine) blast
  let ?E = "faulty_env sample_codec" and ?v = "fail_next_sync [Drop] v"
  have "faulty_ok ?v" using durableD(1) [OF s(8)] s(5) by (simp add: fail_next_sync_def fail_nth_sync_def faulty_ok_fail)
  then obtain v' where v': "faulty_sync ?v = Some (Inl (IoOther ''injected sync failure''), v')"
    using sync_failed_ok [of ?v "[Drop]"] by (auto simp: fail_next_sync_def fail_nth_sync_def)
  let ?t = "s\<lparr>d_vfs := v', d_poisoned := True\<rparr>"
  have "commit_plan ?E (s\<lparr>d_vfs := ?v\<rparr>) = Some (Inr ([], [], []))"
    by (rule sample_next(1)) (use s in \<open>simp_all add: is_dirty_def resolve_offset_def\<close>)
  then have c: "commit ?E (s\<lparr>d_vfs := ?v\<rparr>) = Some (Inl (Io (IoOther ''injected sync failure'')), ?t)"
    using s(9) v' by (simp add: commit_def poison_on_error_def commit_inner_plan commit_data_def on_vfs_def FaultyVfs_def)
  obtain t' where t': "try_get ?E [1] ?t = Some (Inr None, t')" using sample_get [of ?t False "Some DATA_START" b t ?E "[1]"] s(2-4) by auto
  then have "(disk_op ?E)\<^sup>*\<^sup>* ?t t'" by (blast intro: op_get)
  from poisoned_never_commits [OF c this] c t' s(1) show ?thesis by blast
qed

section \<open>Crash safety\<close>

text \<open>C29. Creation succeeds on an empty device and is durable at once: it returns generation 0, and the file
  that any crash leaves then opens again at generation 0.\<close>

theorem create_is_durable:
  assumes "create_trusted cd p" "params_legal p"
  shows "\<exists>s v. create_on_with (faulty_env cd) (from_image []) p bud pol = Some (Inr s, v) \<and> generation s = 0 \<and>
    (\<forall>fates bud' (pol' :: 'q policy). \<exists>img s' v'. crash_image_at v (log_len v) fates = Some img \<and>
       open_on_with (faulty_env cd) (from_image img) bud' pol' = Some (Inr s', v') \<and> generation s' = 0 \<and> d_params s' = p)"
proof -
  obtain s v sb where s: "create_on_with (faulty_env cd) (from_image []) p bud pol = Some (Inr s, v)" "durable cd s sb"
    "d_vfs s = v" "sb_generation sb = 0" "sb_params sb = p" by (rule create_durable [OF assms]) (rule that)
  have "\<exists>img s' v'. crash_image_at v (log_len v) fates = Some img \<and>
       open_on_with (faulty_env cd) (from_image img) bud' pol' = Some (Inr s', v') \<and> generation s' = 0 \<and> d_params s' = p"
    for fates bud' and pol' :: "'q policy"
  proof -
    obtain img where img: "crash_image_at v (log_len v) fates = Some img" using crash_image_window durableD(1) [OF s(2)] s(3) by blast
    then have "img \<in> crash_images (d_vfs s)" using s(3) by (auto simp: crash_images_def)
    then have "image_ok cd img sb" using durable_images [OF s(2)] by blast
    from open_image [OF this, of bud' pol'] img s(4,5) show ?thesis by (auto simp: generation_def opened_def)
  qed
  then show ?thesis using s by (auto simp: generation_def durable_def)
qed

theorem create_is_durable_witness:
  "\<exists>(s :: (faulty_state, unit) disk_engine) v img (s' :: (faulty_state, unit) disk_engine) v'.
     create_on_with (faulty_env sample_codec) (from_image []) default_params None GreedyFullest = Some (Inr s, v) \<and>
     crash_image_at v (log_len v) [Zero] = Some img \<and>
     open_on_with (faulty_env sample_codec) (from_image img) (Some 100) GreedyFullest = Some (Inr s', v') \<and> generation s' = 0"
  using create_is_durable [OF sample_create params_legal_default, of None GreedyFullest] by meson

text \<open>A commit that recovers: the engine that opening the file yields, and what it finds in it.\<close>

lemma extends_stored: "extends F wm buf img wm' \<Longrightarrow> stored_node cd F wm off = Some n \<Longrightarrow> stored_node cd (take wm' img) wm' off = Some n"
proof -
  assume e: "extends F wm buf img wm'" and n: "stored_node cd F wm off = Some n"
  then have "stored_node cd img wm' off = Some n" by (rule extends_mono)
  then show ?thesis by (rule stored_node_mono) (use e in \<open>auto simp: data_def extends_def\<close>)
qed

lemma recovers_new_opens:
  assumes "next_superblock (faulty_env cd) s = Some (buf, sb')" "recovers_new cd s buf sb' img" "durable cd s sb"
  shows "\<exists>v. open_on_with (faulty_env cd) (from_image img) bud pol = Some (Inr (opened sb' bud pol v), v) \<and>
    (\<forall>off n. stored_node cd (fs_view (d_vfs s)) (d_watermark s) off = Some n \<longrightarrow>
       stored_node cd (fs_view v) (d_watermark (opened sb' bud pol v)) off = Some n) \<and>
    sb_generation sb' = sb_generation sb + 1 \<and> take (length buf) (drop (d_watermark s) (fs_view v)) = buf"
proof -
  let ?F = "fs_view (d_vfs s)" and ?wm = "d_watermark s"
  have gen: "sb_generation sb' = sb_generation sb + 1"
    using assms(1,3) by (auto simp: next_superblock_def new_superblock_def durable_def split: sum.split_asm elim!: bind_SomeE)
  have e: "extends ?F ?wm buf img (unat (sb_watermark sb'))" using assms(2) by (simp add: recovers_new_def)
  then have "take (length buf) (drop ?wm (take (unat (sb_watermark sb')) img)) = buf" by (auto simp: extends_def drop_take min_def)
  then show ?thesis using assms(2) gen open_image [of cd img sb' bud pol] extends_stored [OF e]
    by (auto simp: recovers_new_def opened_def)
qed

text \<open>After an acknowledged commit, a crash leaves exactly the file that the engine sees.\<close>

lemma acknowledged_image:
  assumes "durable cd s sb" "window (d_vfs s) = []" "crash_image_at (d_vfs s) (log_len (d_vfs s)) fates = Some img"
  shows "img = fs_view (d_vfs s)"
proof -
  have "img = fs_durable (d_vfs s)" using assms(2,3) crash_image_window [OF durableD(1) [OF assms(1)], of fates] by simp
  also have "\<dots> = fs_view (d_vfs s)" using durableD(1,2) [OF assms(1)] assms(2) by (simp add: faulty_ok_def no_failed_sync_def)
  finally show ?thesis .
qed

text \<open>C10. A commit is atomic under crashes: wherever in the commit the machine stops, and whatever happens
  to the writes not yet synced, the file opens either at the old generation, with every record of the old
  file, or at the new generation, with every record of the old file and the bytes of this commit behind
  the old watermark. Where the commit was acknowledged, a crash after it always gives the new one.\<close>

theorem commit_crash_atomic:
  assumes d: "durable cd s sb" "offsets_ok s" "\<not> d_poisoned s" and t: "commit_trusted cd s"
    and run: "commit (faulty_env cd) s = Some (r, s')" and pos: "log_len (d_vfs s) \<le> pos" "pos \<le> log_len (d_vfs s')"
  shows "\<exists>img u v. crash_image_at (d_vfs s') pos fates = Some img \<and>
    open_on_with (faulty_env cd) (from_image img) bud pol = Some (Inr u, v) \<and>
    (\<forall>off n. stored_node cd (fs_view (d_vfs s)) (d_watermark s) off = Some n \<longrightarrow> stored_node cd (fs_view v) (d_watermark u) off = Some n) \<and>
    (u = opened sb bud pol v \<and> (pos < log_len (d_vfs s') \<or> (\<exists>e. r = Inl e)) \<or>
     (\<exists>buf sb'. next_superblock (faulty_env cd) s = Some (buf, sb') \<and> u = opened sb' bud pol v \<and> sb_generation sb' = sb_generation sb + 1 \<and>
        take (length buf) (drop (d_watermark s) (fs_view v)) = buf))"
proof -
  have out: "commit_outcome cd s sb r s'" by (rule commit_call(1) [OF d(1,2) t d(3) run])
  obtain img where img: "crash_image_at (d_vfs s') pos fates = Some img" "commit_image cd s sb img"
    using out pos unfolding commit_outcome_def safe_run_def by blast
  let ?F = "fs_view (d_vfs s)" and ?wm = "d_watermark s"
  have wm: "?wm = unat (sb_watermark sb)" using d(1) by (simp add: durable_def)
  show ?thesis
  proof (cases "\<exists>buf sb'. next_superblock (faulty_env cd) s = Some (buf, sb') \<and> recovers_new cd s buf sb' img")
    case True
    then obtain buf sb' where n: "next_superblock (faulty_env cd) s = Some (buf, sb')" "recovers_new cd s buf sb' img" by blast
    from recovers_new_opens [OF n d(1), of bud pol] n(1) img(1) show ?thesis by blast
  next
    case False
    then have old: "recovers_old cd s sb img" using img(2) by (auto simp: commit_image_def)
    have "pos < log_len (d_vfs s') \<or> (\<exists>e. r = Inl e)"
    proof (rule ccontr)
      assume "\<not> ?thesis"
      then obtain st where "r = Inr st" "pos = log_len (d_vfs s')" using pos(2) by (cases r) auto
      then obtain buf sb' where n: "next_superblock (faulty_env cd) s = Some (buf, sb')" "recovers_new cd s buf sb' (fs_view (d_vfs s'))"
        and d': "durable cd s' sb'" "window (d_vfs s') = []" using out by (auto simp: commit_outcome_def)
      have "img = fs_view (d_vfs s')" using acknowledged_image [OF d'] img(1) \<open>pos = _\<close> by simp
      then show False using False n by blast
    qed
    moreover have "extends ?F ?wm [] img ?wm" using old d(1) by (simp add: recovers_old_def extends_def image_ok_def wm)
    ultimately show ?thesis using old open_image [of cd img sb bud pol] extends_stored wm img(1)
      by (fastforce simp: recovers_old_def opened_def)
  qed
qed

text \<open>A commit returns when its plan stands, no failure is armed, and the records can be adopted.\<close>

lemma planned_commit:
  assumes d: "durable cd s sb" "\<not> d_poisoned s" and t: "commit_trusted cd s" and offs: "offsets_ok s"
    and plan: "commit_plan (faulty_env cd) s = Some (Inr (buf, assigned, lens))" "resolve_offset s assigned (d_root s) = Some root"
    and armed: "fs_fail_sync (d_vfs s) = None" and adopt: "\<And>v. \<exists>st s'. commit_adopt buf assigned lens (s\<lparr>d_vfs := v\<rparr>) = Some (Inr st, s')"
  shows "\<exists>st s'. commit (faulty_env cd) s = Some (Inr st, s')"
proof -
  let ?E = "faulty_env cd" and ?sb = "new_superblock s root (d_watermark s + length buf)"
  note dd = durableD [OF d(1)]
  obtain v where v: "commit_data ?E buf s = Some (Inr (), s\<lparr>d_vfs := v\<rparr>)" "faulty_ok v" "window v = []" "fs_fail_sync v = None"
    "no_failed_sync v" "fs_durable v = fs_view v" "fs_view v = (if buf = [] then fs_view (d_vfs s) else write_at (fs_view (d_vfs s)) (d_watermark s) buf)"
    using data_stage [OF d(1), of buf] armed by (auto simp: safe_run_def)
  have tr: "superblock_codec_ok cd ?sb" "d_watermark s + length buf < 2 ^ 64" "d_next_generation s \<noteq> 0"
    "\<forall>bs. encode_slot cd ?sb = Inr bs \<longrightarrow> torn_detected cd (slot_region (fs_view (d_vfs s)) (publish_slot (d_next_generation s))) bs"
    using t plan by (auto simp: commit_trusted_def next_superblock_def)
  have "DATA_START \<le> d_watermark s" using dd(5) by (simp add: DATA_START_def SUPERBLOCK_SLOT_SIZE_def)
  then have sb: "superblock_ok ?sb" "unat (sb_watermark ?sb) = d_watermark s + length buf"
    using new_superblock_ok(1,2) [of s root "d_watermark s + length buf"] resolve_in_file [OF plan(2) offs plan_range [OF plan(1)]] tr(2) d(1) dd(7)
    by (auto simp: durable_def superblock_ok_def)
  obtain v' where "commit_publish ?E ?sb (s\<lparr>d_vfs := v\<rparr>) = Some (Inr (), s\<lparr>d_vfs := v'\<rparr>)"
    using publish_stage [OF d(1) v(2,3), of "fs_view v" buf ?sb] v sb tr by (auto simp: new_superblock_def)
  then show ?thesis using d(2) plan v(1) adopt [of v'] by (auto simp: commit_def poison_on_error_def commit_inner_plan)
qed

lemma sample_commit:
  assumes s: "durable sample_codec s sb" "\<not> d_poisoned s" "commit_trusted sample_codec s" "offsets_ok s" "fs_fail_sync (d_vfs s) = None"
    "d_slots s = [Loaded (Leaf (sample_leaf seq)) True off b t]" "d_root s = 0" "cache_ok s" "budget (d_cache s) = None"
  shows "\<exists>st s'. commit (faulty_env sample_codec) s = Some (Inr st, s')"
proof -
  obtain payload where plan: "commit_plan (faulty_env sample_codec) s =
      Some (Inr (record_bytes sample_codec payload, [(0, d_watermark s)], [(0, RECORD_HEADER_SIZE + 17)]))" by (rule sample_plan [OF s(6,7)])
  have "cache_bytes (d_cache s) = b" using s(6,8) by (simp add: cache_ok_def total_def)
  then have adopt: "\<exists>st s'. commit_adopt buf [(0, d_watermark s)] [(0, RECORD_HEADER_SIZE + 17)] (s\<lparr>d_vfs := v\<rparr>) = Some (Inr st, s')" for buf v
    using s(6,9) by (cases off) (simp_all add: commit_adopt_def recount_def checked_sub_def enforce_budget_def set_slot_def Let_def)
  have "resolve_offset s [(0, d_watermark s)] (d_root s) = Some (d_watermark s)" using s(6,7) by (simp add: resolve_offset_def)
  then show ?thesis by (rule planned_commit [OF s(1-4) plan _ s(5) adopt])
qed

theorem commit_crash_atomic_witness:
  "\<exists>(s0 :: (faulty_state, unit) disk_engine) v s r s' img (u :: (faulty_state, unit) disk_engine) v'.
     create_on_with (faulty_env sample_codec) (from_image []) default_params None GreedyFullest = Some (Inr s0, v) \<and>
     try_insert (faulty_env sample_codec) [1] [2] s0 = Some (Inr (), s) \<and> is_dirty s (d_root s) = Some True \<and>
     commit (faulty_env sample_codec) s = Some (r, s') \<and> crash_image_at (d_vfs s') (log_len v) [Tear 3] = Some img \<and>
     open_on_with (faulty_env sample_codec) (from_image img) None GreedyFullest = Some (Inr u, v') \<and>
     stored_node sample_codec (fs_view v') (d_watermark u) DATA_START = Some (DiskLeaf [])"
proof -
  obtain s0 v s sb seq b t where s: "create_on_with (faulty_env sample_codec) (from_image []) default_params None GreedyFullest = Some (Inr s0, v)"
    "try_insert (faulty_env sample_codec) [1] [2] s0 = Some (Inr (), s)" "durable sample_codec s sb" "offsets_ok s" "\<not> d_poisoned s"
    "d_vfs s = v" "fs_fail_sync v = None" "d_root s = 0" "cache_ok s" "commit_trusted sample_codec s" "budget (d_cache s) = None"
    "d_slots s = [Loaded (Leaf (sample_leaf seq)) True (Some DATA_START) b t]" "d_watermark s = DATA_START + 10"
    "stored_node sample_codec (fs_view v) (d_watermark s) DATA_START = Some (DiskLeaf [])" by (rule sample_inserted)
  obtain st s' where run: "commit (faulty_env sample_codec) s = Some (Inr st, s')"
    using sample_commit [OF s(3,5,10,4) _ s(12,8,9,11)] s(6,7) by auto
  have "safe_run (commit_image sample_codec s sb) (d_vfs s) (d_vfs s')"
    using commit_call(1) [OF s(3,4,10,5) run] by (simp add: commit_outcome_def)
  then have "log_len (d_vfs s) \<le> log_len (d_vfs s')" by (auto simp: safe_run_def log_len_def)
  moreover have "is_dirty s (d_root s) = Some True" using s(8,12) by (simp add: is_dirty_def)
  ultimately show ?thesis
    using commit_crash_atomic [OF s(3-5,10) run order_refl, of "[Tear 3]" None GreedyFullest] s(1,2,6,14) run by blast
qed

text \<open>C9. Nothing acknowledged is ever lost: take any engine that was created or opened, driven by any
  operations and commits, with any sync made to fail; from the moment its newest generation was
  acknowledged, whenever the machine crashes and whatever happens to the un-synced writes, the file opens
  at that generation or at the one directly after it, and every record of the acknowledged generation is
  still read.\<close>

theorem acknowledged_survives:
  assumes life: "disk_life cd v0 s sb" and pos: "log_len v0 \<le> pos" "pos \<le> log_len (d_vfs s)"
  shows "\<exists>img u v. crash_image_at (d_vfs s) pos fates = Some img \<and>
    open_on_with (faulty_env cd) (from_image img) bud pol = Some (Inr u, v) \<and>
    (u = opened sb bud pol v \<or> generation u = sb_generation sb + 1) \<and>
    (\<forall>off n. stored_node cd (fs_view v0) (unat (sb_watermark sb)) off = Some n \<longrightarrow> stored_node cd (fs_view v) (d_watermark u) off = Some n)"
proof -
  obtain img where img: "crash_image_at (d_vfs s) pos fates = Some img" "life_image cd v0 sb img"
    using life_invariant [OF life] pos unfolding life_ok_def safe_run_def by blast
  obtain sb' where sb': "image_ok cd img sb'" "sb' = sb \<or> sb_generation sb' = sb_generation sb + 1"
    "unat (sb_watermark sb) \<le> unat (sb_watermark sb')" using img(2) by (auto simp: life_image_def)
  have e: "extends (fs_view v0) (unat (sb_watermark sb)) [] img (unat (sb_watermark sb'))"
    using img(2) sb' by (simp add: extends_def life_image_def image_ok_def)
  show ?thesis using open_image [OF sb'(1), of bud pol] img(1) sb'(2) extends_stored [OF e]
    by (fastforce simp: opened_def generation_def)
qed

theorem acknowledged_survives_witness:
  "\<exists>(s :: (faulty_state, unit) disk_engine) v img (u :: (faulty_state, unit) disk_engine) v'.
     create_on_with (faulty_env sample_codec) (from_image []) default_params None GreedyFullest = Some (Inr s, v) \<and>
     crash_image_at v (log_len v) [Drop] = Some img \<and>
     open_on_with (faulty_env sample_codec) (from_image img) None GreedyFullest = Some (Inr u, v') \<and>
     stored_node sample_codec (fs_view v') (d_watermark u) DATA_START = Some (DiskLeaf [])"
proof -
  obtain s v sb where s: "create_on_with (faulty_env sample_codec) (from_image []) default_params None GreedyFullest = Some (Inr s, v)"
    "durable sample_codec s sb" "d_vfs s = v" "sb_generation sb = 0"
    "stored_node sample_codec (fs_view v) (d_watermark s) DATA_START = Some (DiskLeaf [])" by (rule sample_engine) blast
  have "image_ok sample_codec (fs_view v) sb" using durable_images [OF s(2) durable_view(1) [OF s(2)]] s(3) by simp
  then have "slot_at sample_codec (fs_view v) 0 = Valid sb" using s(4) by (simp add: image_ok_def publish_slot_eq)
  then have life: "disk_life sample_codec v s sb" by (rule life_created [OF sample_create s(1)])
  have "d_watermark s = unat (sb_watermark sb)" using s(2) by (simp add: durable_def)
  with acknowledged_survives [OF life, of "log_len v" "[Drop]" None GreedyFullest] s show ?thesis by auto
qed

text \<open>A walk over dirty edges serialises the children of every node before the node, so what is assigned
  an offset stands for what the engine holds.\<close>

lemma plan_assigned:
  assumes plan: "commit_plan (faulty_env cd) s = Some (Inr (buf, assigned, lens))" and cd: "\<forall>n. node_codec_ok cd n"
    and wm: "DATA_START \<le> d_watermark s" and slots: "offsets_ok s" "\<forall>slot\<in>set (d_slots s). arity_ok slot"
    and f: "faithful (stored_node cd F (d_watermark s)) (d_slots s)"
  shows "assigned_ok cd F (d_watermark s) (d_slots s) buf assigned"
proof -
  obtain pre where run: "serialize_nodes (faulty_env cd) s (rev pre) [] [] [] = Some (Inr (buf, assigned, lens))"
    using plan by (auto simp: commit_plan_def elim!: bind_SomeE)
  have "assigned_ok cd F (d_watermark s) (d_slots s) [] []" by (simp add: assigned_ok_def)
  from serialize_ok [OF run _ cd wm slots f this] show ?thesis by simp
qed

text \<open>What was committed is what is read back: when a commit is acknowledged, the file that any later
  crash leaves opens to an engine that holds, for every key, the value that the committing engine held,
  whether the nodes on the key's path were in memory, dirty or only on disk.\<close>

theorem commit_persists_contents:
  assumes d: "durable cd s sb" "offsets_ok s" and t: "commit_trusted cd s"
    and cd: "\<forall>n. node_codec_ok cd n" and arity: "\<forall>slot\<in>set (d_slots s). arity_ok slot"
    and f: "faithful (stored_node cd (fs_view (d_vfs s)) (d_watermark s)) (d_slots s)"
    and run: "commit (faulty_env cd) s = Some (Inr st, s')"
    and h: "holds (stored_node cd (fs_view (d_vfs s)) (d_watermark s)) (d_slots s) (d_root s) k p"
  shows "\<exists>img u v q. crash_image_at (d_vfs s') (log_len (d_vfs s')) fates = Some img \<and>
    open_on_with (faulty_env cd) (from_image img) bud pol = Some (Inr u, v) \<and> generation u = d_next_generation s \<and>
    holds (stored_node cd (fs_view v) (d_watermark u)) (d_slots u) (d_root u) k q \<and> path_value q = path_value p"
proof -
  have np: "\<not> d_poisoned s" using run by (auto simp: commit_def)
  have "commit_outcome cd s sb (Inr st) s'" by (rule commit_call(1) [OF d t np run])
  then obtain buf sb' where n: "next_superblock (faulty_env cd) s = Some (buf, sb')" "recovers_new cd s buf sb' (fs_view (d_vfs s'))"
    and d': "durable cd s' sb'" "window (d_vfs s') = []" by (auto simp: commit_outcome_def)
  obtain assigned lens root where plan: "commit_plan (faulty_env cd) s = Some (Inr (buf, assigned, lens))"
    and root: "resolve_offset s assigned (d_root s) = Some root" and sb': "sb' = new_superblock s root (d_watermark s + length buf)"
    using n(1) by (auto simp: next_superblock_def split: sum.split_asm elim!: bind_SomeE)
  obtain img where img: "crash_image_at (d_vfs s') (log_len (d_vfs s')) fates = Some img"
    using crash_image_window [OF durableD(1) [OF d'(1)]] by blast
  then have new: "recovers_new cd s buf sb' img" using acknowledged_image [OF d'] n(2) by simp
  obtain v where v: "open_on_with (faulty_env cd) (from_image img) bud pol = Some (Inr (opened sb' bud pol v), v)"
    "fs_view v = take (unat (sb_watermark sb')) img"
    using open_image [of cd img sb' bud pol] new by (auto simp: recovers_new_def)
  let ?F = "fs_view (d_vfs s)" and ?wm' = "unat (sb_watermark sb')"
  have e: "extends ?F (d_watermark s) buf (take ?wm' img) ?wm'"
    using new by (auto simp: recovers_new_def extends_def data_def drop_take min_def)
  have wm: "DATA_START \<le> d_watermark s" using durableD(5) [OF d(1)] by (simp add: DATA_START_def SUPERBLOCK_SLOT_SIZE_def)
  have r: "reads_as (stored_node cd (take ?wm' img) ?wm') root k p"
    by (rule resolve_reads_as [OF root h f plan_assigned [OF plan cd wm d(2) arity f] e])
  have wm64: "d_watermark s + length buf < 2 ^ 64" using t n(1) by (auto simp: commit_trusted_def)
  have "root + RECORD_HEADER_SIZE \<le> d_watermark s + length buf" using resolve_in_file [OF root d(2) plan_range [OF plan wm]] by simp
  then have "unat (sb_root_offset sb') = root" using wm64 by (simp add: sb' new_superblock_def unat_of_nat take_bit_nat_eq_self)
  then have slot: "index (d_slots (opened sb' bud pol v)) 0 = Some (OnDisk root)" by (simp add: opened_def)
  obtain q where "stored (stored_node cd (fs_view v) ?wm') root k q" "path_value q = path_value p"
    using r v(2) by (auto simp: reads_as_def)
  then have "holds (stored_node cd (fs_view v) (d_watermark (opened sb' bud pol v))) (d_slots (opened sb' bud pol v)) (d_root (opened sb' bud pol v)) k q"
    using holds_disk [OF slot, of _ k q] by (simp add: opened_def)
  moreover have "generation (opened sb' bud pol v) = d_next_generation s" by (simp add: generation_def opened_def sb' new_superblock_def)
  ultimately show ?thesis using img v(1) \<open>path_value q = _\<close> by blast
qed

end
