(* ===== verification/Disk_Map.thy ===== *)
theory Disk_Map
  imports Disk_Sim_Commit Disk_Properties
begin

text \<open>
  The disk engine as a map. The records of a simulated device give a \<open>node_store\<close>, so the disk engine
  runs in step with the in-memory tree over any file; \<open>disk_holds\<close> says which map an engine holds, and
  every mutation, point read and range scan acts on that map.
\<close>

abbreviation engine_store :: "codec \<Rightarrow> (faulty_state, 'p) disk_engine \<Rightarrow> nat \<Rightarrow> disk_node option" where
  "engine_store cd s \<equiv> stored_node cd (fs_view (d_vfs s)) (d_watermark s)"

interpretation store: node_store "faulty_env cd" "\<lambda>v w. stored_node cd (fs_view v) w" "TYPE((faulty_state, 'p) disk_engine)" for cd
proof
  fix s :: "(faulty_state, 'p) disk_engine" and off dn
  assume "engine_store cd s off = Some dn"
  then show "\<exists>len. read_record (faulty_env cd) off s = ok (dn, len) s"
    using read_record_faulty [of cd off s] by (auto simp: stored_node_def split: option.split_asm if_split_asm)
next
  fix v w off dn
  assume "stored_node cd (fs_view v) w off = Some dn"
  then show "record_ok off dn" by (auto simp: stored_node_def split: option.split_asm if_split_asm)
qed

definition disk_holds :: "codec \<Rightarrow> (faulty_state, 'p) disk_engine \<Rightarrow> (key \<rightharpoonup> val) \<Rightarrow> bool" where
  "disk_holds cd s f \<longleftrightarrow> (\<exists>t. betree_inv t \<and> in_step True (engine_store cd s) s t \<and> betree_abs t = f)"

lemma in_step_trace:
  "in_step g rd s (t\<lparr>t_trace := r\<rparr>) = in_step g rd s t"
  by (simp add: in_step_def at_rest_def related_def sim_def node_sim_def same_fields_def grey_def)

lemma betree_capacity: "betree_inv t \<Longrightarrow> 0 < buffer_capacity (t_params t)"
  by (auto simp: betree_inv_def arena_ok_def params_legal_def)

lemma rds_store: "kept_frame s s' \<Longrightarrow> engine_store cd s' = engine_store cd s"
  by (simp add: kept_frame_def frame_def)

lemma disk_holds_write:
  assumes "disk_holds cd s f"
  shows "\<exists>s'. disk_write (faulty_env cd) op s = ok () s' \<and> disk_holds cd s' (op_effect op f) \<and> kept_frame s s'"
proof -
  obtain t where t: "betree_inv t" "in_step True (engine_store cd s) s t" "betree_abs t = f" using assms by (auto simp: disk_holds_def)
  obtain t' where t': "kv_apply (BeTree (t_policy t)) op t = Some t'" "betree_inv t'" "betree_abs t' = op_effect op f"
    using betree_apply_ok [OF t(1), of "t_policy t" op] t(3) by blast
  show ?thesis using store.disk_write_sim [OF t(2) betree_capacity [OF t(1)] t'(1)] t'(2,3) unfolding disk_holds_def by blast
qed

lemma disk_holds_get:
  assumes "disk_holds cd s f"
  shows "\<exists>s'. try_get (faulty_env cd) k s = ok (f k) s' \<and> disk_holds cd s' f \<and> kept_frame s s'"
proof -
  obtain t where t: "betree_inv t" "in_step True (engine_store cd s) s t" "betree_abs t = f" using assms by (auto simp: disk_holds_def)
  show ?thesis using store.try_get_sim [OF t(2) betree_get_ok [OF t(1)], of k] t by (auto simp: in_step_trace disk_holds_def)
qed

lemma disk_holds_scan:
  assumes "disk_holds cd s f"
  shows "\<exists>r s'. try_scan (faulty_env cd) lo hi s = ok r s' \<and> bt_ok r \<and> (\<forall>k. bt_get r k = (if in_bounds lo hi k then f k else None)) \<and>
    disk_holds cd s' f \<and> kept_frame s s'"
proof -
  obtain t where t: "betree_inv t" "in_step True (engine_store cd s) s t" "betree_abs t = f" using assms by (auto simp: disk_holds_def)
  obtain r where r: "betree_scan lo hi t = Some (Inr r, t\<lparr>t_trace := rec_scan lo hi (t_trace t)\<rparr>)" "bt_ok r"
    "\<forall>k. bt_get r k = (if in_bounds lo hi k then f k else None)"
    using betree_scan_ok [OF t(1), of lo hi] t(3) by blast
  show ?thesis using store.try_scan_sim [OF t(2) r(1)] t r(2,3) unfolding disk_holds_def in_step_trace by blast
qed

section \<open>What a file holds\<close>

definition file_holds :: "codec \<Rightarrow> bytes \<Rightarrow> superblock \<Rightarrow> (key \<rightharpoonup> val) \<Rightarrow> bool" where
  "file_holds cd fl sb f \<longleftrightarrow> (\<exists>(t :: unit betree) off. betree_inv t \<and> t_params t = sb_params sb \<and>
     imaged (stored_node cd fl (unat (sb_watermark sb))) t off \<and> off (t_root t) = unat (sb_root_offset sb) \<and> betree_abs t = f)"

lemma reopened_fields: "t_params (reopened q pol t) = t_params t" "t_root (reopened q pol t) = t_root t"
  by (simp_all add: reopened_def)

lemma file_holds_tree:
  assumes "betree_inv t" "t_params t = sb_params sb" "imaged (stored_node cd fl (unat (sb_watermark sb))) t off"
    "off (t_root t) = unat (sb_root_offset sb)"
  shows "file_holds cd fl sb (betree_abs t)"
  unfolding file_holds_def
  by (rule exI [of _ "reopened 0 GreedyFullest t"], rule exI [of _ off])
    (use assms reopened_inv [OF assms(1), of GreedyFullest 0] in \<open>simp add: reopened_image reopened_fields policy_legal_greedy\<close>)

lemma file_holds_mono:
  assumes "file_holds cd fl sb f" "data (unat (sb_watermark sb)) fl' = data (unat (sb_watermark sb)) fl" "unat (sb_watermark sb) \<le> length fl'"
  shows "file_holds cd fl' sb f"
proof -
  have mono: "stored_node cd fl' (unat (sb_watermark sb)) o' = Some n" if "stored_node cd fl (unat (sb_watermark sb)) o' = Some n" for o' n
    by (rule stored_node_mono [OF that assms(2,3)]) simp
  obtain t :: "unit betree" and off where t: "betree_inv t" "t_params t = sb_params sb" "imaged (stored_node cd fl (unat (sb_watermark sb))) t off"
    "off (t_root t) = unat (sb_root_offset sb)" "betree_abs t = f" using assms(1) by (auto simp: file_holds_def)
  have "imaged (stored_node cd fl' (unat (sb_watermark sb))) t off" by (rule imaged_mono [OF t(3)]) (rule mono)
  then show ?thesis using file_holds_tree [OF t(1,2), of cd fl' off] t(4,5) by simp
qed

lemma file_holds_open:
  assumes "image_ok cd img sb" "file_holds cd img sb f" "policy_legal pol" "blind pol"
  shows "\<exists>v. open_on_with (faulty_env cd) (from_image img) bud pol = Some (Inr (opened sb bud pol v), v) \<and>
    disk_holds cd (opened sb bud pol v) f \<and> file_holds cd (fs_view v) sb f"
proof -
  let ?wm = "unat (sb_watermark sb)"
  obtain v where v: "open_on_with (faulty_env cd) (from_image img) bud pol = Some (Inr (opened sb bud pol v), v)" "fs_view v = take ?wm img"
    using open_image [OF assms(1), of bud pol] by auto
  have fl: "file_holds cd (fs_view v) sb f"
    by (rule file_holds_mono [OF assms(2)]) (use assms(1) v(2) in \<open>auto simp: data_def image_ok_def\<close>)
  then obtain t :: "unit betree" and off where t: "betree_inv t" "t_params t = sb_params sb" "imaged (stored_node cd (fs_view v) ?wm) t off"
    "off (t_root t) = unat (sb_root_offset sb)" "betree_abs t = f" by (auto simp: file_holds_def)
  have "in_step True (engine_store cd (opened sb bud pol v)) (opened sb bud pol v) (reopened (sb_last_seq sb) pol t)"
    using opened_sim [OF t(3,4) assms(4) t(2)] by (simp add: opened_def)
  then have "disk_holds cd (opened sb bud pol v) f"
    using reopened_inv [OF t(1) assms(3)] t(5) unfolding disk_holds_def by blast
  then show ?thesis using v(1) fl by blast
qed

section \<open>Commits\<close>

lemma commit_parts_device:
  "commit_data E buf s = Some (r, s') \<Longrightarrow> \<exists>v. s' = s\<lparr>d_vfs := v\<rparr>"
  "commit_publish E sb s = Some (r, s') \<Longrightarrow> \<exists>v. s' = s\<lparr>d_vfs := v\<rparr>"
  by (auto simp: commit_data_def commit_publish_def on_vfs_def split: if_split_asm sum.split_asm elim!: and_thenE bind_SomeE
      intro: exI [of _ "d_vfs s"])

lemma commit_adopts:
  assumes "commit_inner E s = Some (Inr st, s')"
  obtains buf assigned lens root v where "commit_plan E s = Some (Inr (buf, assigned, lens))" "resolve_offset s assigned (d_root s) = Some root"
    "commit_adopt buf assigned lens (s\<lparr>d_vfs := v\<rparr>) = Some (Inr st, s')"
  using assms that
  by (auto simp: commit_inner_plan split: sum.split_asm elim!: and_thenE bind_SomeE dest!: commit_parts_device)

lemma disk_holds_committing:
  assumes h: "disk_holds cd s f" and d: "durable cd s sb" "offsets_ok s" and cd: "\<forall>n. node_codec_ok cd n"
  obtains t m where "betree_inv t" "betree_abs t = f" "t_params t = sb_params sb" "at_rest True (engine_store cd s) (live t) s t m"
    "\<forall>buf assigned lens. commit_plan (faulty_env cd) s = Some (Inr (buf, assigned, lens)) \<longrightarrow>
       committing cd (fs_view (d_vfs s)) (faulty_env cd) s t m buf assigned lens"
proof -
  obtain t L m where t: "betree_inv t" "betree_abs t = f" "at_rest True (engine_store cd s) L s t m"
    using h by (auto simp: disk_holds_def in_step_def)
  have live: "at_rest True (engine_store cd s) (live t) s t m" by (rule at_rest_live [OF t(3)])
  have "t_params t = sb_params sb" using live d(1) by (simp add: at_rest_def related_def sim_def same_fields_def durable_def)
  moreover have "committing cd (fs_view (d_vfs s)) (faulty_env cd) s t m buf assigned lens"
    if "commit_plan (faulty_env cd) s = Some (Inr (buf, assigned, lens))" for buf assigned lens
    using live plan_sim(2) [OF live that] cd d(2) durableD(5) [OF d(1)] betree_arities [OF t(1)]
    by (simp add: committing_def DATA_START_def SUPERBLOCK_SLOT_SIZE_def)
  ultimately show thesis using that [OF t(1,2) _ live] by blast
qed

lemma recovers_new_holds:
  assumes h: "disk_holds cd s f" and d: "durable cd s sb" "offsets_ok s" and t: "commit_trusted cd s" and cd: "\<forall>n. node_codec_ok cd n"
    and n: "next_superblock (faulty_env cd) s = Some (buf, sb')" and img: "recovers_new cd s buf sb' img"
  shows "file_holds cd img sb' f"
proof -
  obtain t m where t1: "betree_inv t" "betree_abs t = f" "t_params t = sb_params sb" "at_rest True (engine_store cd s) (live t) s t m"
    "\<forall>buf assigned lens. commit_plan (faulty_env cd) s = Some (Inr (buf, assigned, lens)) \<longrightarrow>
       committing cd (fs_view (d_vfs s)) (faulty_env cd) s t m buf assigned lens"
    by (rule disk_holds_committing [OF h d cd])
  obtain assigned lens root where plan: "commit_plan (faulty_env cd) s = Some (Inr (buf, assigned, lens))"
    and root: "resolve_offset s assigned (d_root s) = Some root" and sb': "sb' = new_superblock s root (d_watermark s + length buf)"
    using n by (auto simp: next_superblock_def split: sum.split_asm elim!: bind_SomeE)
  have range: "DATA_START \<le> root \<and> root + RECORD_HEADER_SIZE \<le> d_watermark s + length buf"
    by (rule resolve_in_file [OF root d(2) plan_range [OF plan]]) (use durableD(5) [OF d(1)] in \<open>simp add: DATA_START_def SUPERBLOCK_SLOT_SIZE_def\<close>)
  have "d_watermark s + length buf < 2 ^ 64" using t n by (auto simp: commit_trusted_def)
  then have off: "unat (sb_root_offset sb') = root"
    using range new_superblock_ok(3) [of s root "d_watermark s + length buf"] durableD(7) [OF d(1)] d(1)
    by (simp add: sb' superblock_ok_def durable_def)
  have "imaged (stored_node cd img (unat (sb_watermark sb'))) t (place s assigned \<circ> m)"
    by (rule committing_imaged [OF t1(5) [rule_format, OF plan]]) (use img in \<open>simp add: recovers_new_def\<close>)
  moreover have "(place s assigned \<circ> m) (t_root t) = unat (sb_root_offset sb')" using t1(4) root off by (simp add: at_rest_def)
  moreover have "t_params t = sb_params sb'" using t1(3) d(1) by (simp add: sb' new_superblock_def durable_def)
  ultimately show ?thesis using file_holds_tree [OF t1(1)] t1(2) by metis
qed

end
