(* ===== verification/Disk_Durable.thy ===== *)
theory Disk_Durable
  imports Disk_Map
begin

text \<open>
  The disk engine as a durable map. \<open>durably_holds cd s f g\<close>: the engine holds \<open>f\<close>, and a crash now
  recovers \<open>g\<close>, the map of the last acknowledged commit. Each event of an engine's life, a write, a read, a
  commit, an opening and a crash, is shown to act on the two maps as a user may expect.
\<close>

section \<open>The two maps of an engine\<close>

definition durably_holds :: "codec \<Rightarrow> (faulty_state, 'p) disk_engine \<Rightarrow> (key \<rightharpoonup> val) \<Rightarrow> (key \<rightharpoonup> val) \<Rightarrow> bool" where
  "durably_holds cd s f g \<longleftrightarrow> (\<forall>n. node_codec_ok cd n) \<and> disk_holds cd s f \<and> offsets_ok s \<and> \<not> d_poisoned s \<and>
     (\<exists>sb. durable cd s sb \<and> file_holds cd (fs_view (d_vfs s)) sb g)"

lemma durably_holds_kept:
  assumes "durably_holds cd s f g" "kept_frame s s'" "disk_op (faulty_env cd) s s'" "disk_holds cd s' f'"
  shows "durably_holds cd s' f' g"
proof -
  have "offsets_ok s'" using assms(1) offsets.disk_op_I [OF assms(3)] by (simp add: durably_holds_def)
  moreover have "durable cd s' sb = durable cd s sb" for sb using assms(2) by (simp add: durable_def kept_frame_def frame_def)
  ultimately show ?thesis using assms by (simp add: durably_holds_def kept_frame_def frame_def)
qed

lemma disk_write_op: "disk_write E op s = Some (r, s') \<Longrightarrow> disk_op E s s'"
  by (cases op) (auto intro: disk_op.intros)

lemma durable_write:
  assumes "durably_holds cd s f g"
  shows "\<exists>s'. disk_write (faulty_env cd) op s = ok () s' \<and> durably_holds cd s' (op_effect op f) g"
  using assms disk_holds_write [of cd s f op] durably_holds_kept [OF assms] disk_write_op [of "faulty_env cd" op s]
  by (fastforce simp: durably_holds_def [of cd s])

lemma durable_get:
  assumes "durably_holds cd s f g"
  shows "\<exists>s'. try_get (faulty_env cd) k s = ok (f k) s' \<and> durably_holds cd s' f g"
  using assms disk_holds_get [of cd s f k] durably_holds_kept [OF assms] op_get [of "faulty_env cd" k s]
  by (fastforce simp: durably_holds_def [of cd s])

lemma durable_scan:
  assumes "durably_holds cd s f g"
  shows "\<exists>r s'. try_scan (faulty_env cd) lo hi s = ok r s' \<and> bt_ok r \<and> (\<forall>k. bt_get r k = (if in_bounds lo hi k then f k else None)) \<and>
    durably_holds cd s' f g"
proof -
  have "disk_holds cd s f" using assms by (simp add: durably_holds_def)
  then obtain r s' where r: "try_scan (faulty_env cd) lo hi s = ok r s'" "bt_ok r" "\<forall>k. bt_get r k = (if in_bounds lo hi k then f k else None)"
    "disk_holds cd s' f" "kept_frame s s'" using disk_holds_scan by blast
  then show ?thesis using durably_holds_kept [OF assms r(5) op_scan [OF r(1)] r(4)] by blast
qed

section \<open>Opening a file\<close>

lemma durable_open:
  assumes "image_ok cd img sb" "file_holds cd img sb f" "policy_legal pol" "blind pol" "\<forall>n. node_codec_ok cd n"
  shows "\<exists>u v. open_on_with (faulty_env cd) (from_image img) bud pol = Some (Inr u, v) \<and> durably_holds cd u f f"
proof -
  obtain v where v: "open_on_with (faulty_env cd) (from_image img) bud pol = Some (Inr (opened sb bud pol v), v)"
    "disk_holds cd (opened sb bud pol v) f" "file_holds cd (fs_view v) sb f" using file_holds_open [OF assms(1-4)] by blast
  note o = open_durable [OF assms(1) v(1)]
  have "durably_holds cd (opened sb bud pol v) f f"
    using v assms(5) o unfolding durably_holds_def by auto
  then show ?thesis using v(1) by blast
qed

text \<open>A crash at rest: whatever becomes of the writes that are not synced, the file holds the committed map.\<close>

lemma durable_crash:
  assumes h: "durably_holds cd s f g" and pol: "policy_legal pol" "blind pol"
  shows "\<exists>img u v. crash_image_at (d_vfs s) (log_len (d_vfs s)) fates = Some img \<and>
    open_on_with (faulty_env cd) (from_image img) bud pol = Some (Inr u, v) \<and> durably_holds cd u g g"
proof -
  obtain sb where sb: "durable cd s sb" "file_holds cd (fs_view (d_vfs s)) sb g" using h by (auto simp: durably_holds_def)
  obtain img where img: "crash_image_at (d_vfs s) (log_len (d_vfs s)) fates = Some img"
    using durable_now [OF sb(1)] unfolding safe_run_def by blast
  then have "img \<in> crash_images (d_vfs s)" by (auto simp: crash_images_def)
  note i = durable_images [OF sb(1) this]
  have wm: "d_watermark s = unat (sb_watermark sb)" using sb(1) by (simp add: durable_def)
  have "file_holds cd img sb g"
    by (rule file_holds_mono [OF sb(2)]) (use i wm durable_view(2) [OF sb(1)] in \<open>auto simp: data_def\<close>)
  then show ?thesis using durable_open [of cd img sb g pol bud] i pol h img unfolding durably_holds_def by blast
qed

section \<open>Commits\<close>

lemma durable_commit_image:
  assumes h: "durably_holds cd s f g" and d: "durable cd s sb" "file_holds cd (fs_view (d_vfs s)) sb g" and t: "commit_trusted cd s"
    and img: "commit_image cd s sb img"
  shows "\<exists>sb'. image_ok cd img sb' \<and> (file_holds cd img sb' g \<or> file_holds cd img sb' f)"
proof -
  have wm: "d_watermark s = unat (sb_watermark sb)" using d(1) by (simp add: durable_def)
  consider "recovers_old cd s sb img" | buf sb' where "next_superblock (faulty_env cd) s = Some (buf, sb')" "recovers_new cd s buf sb' img"
    using img by (auto simp: commit_image_def)
  then show ?thesis
  proof cases
    case 1
    then have "image_ok cd img sb" "file_holds cd img sb g" using file_holds_mono [OF d(2), of img] wm
      by (auto simp: recovers_old_def image_ok_def)
    then show ?thesis by blast
  next
    case (2 buf sb')
    then have "file_holds cd img sb' f" using recovers_new_holds [OF _ d(1) _ t _ 2] h by (simp add: durably_holds_def)
    then show ?thesis using 2 by (auto simp: recovers_new_def)
  qed
qed
lemma durable_torn:
  assumes h: "durably_holds cd s f g" and t: "commit_trusted cd s" and run: "commit (faulty_env cd) s = Some (r, s')"
    and pos: "log_len (d_vfs s) \<le> pos" "pos \<le> log_len (d_vfs s')" and pol: "policy_legal pol" "blind pol"
  shows "\<exists>img u v m. crash_image_at (d_vfs s') pos fates = Some img \<and>
    open_on_with (faulty_env cd) (from_image img) bud pol = Some (Inr u, v) \<and> durably_holds cd u m m \<and> m \<in> {f, g}"
proof -
  obtain sb where sb: "durable cd s sb" "file_holds cd (fs_view (d_vfs s)) sb g" and s: "offsets_ok s" "\<not> d_poisoned s" "\<forall>n. node_codec_ok cd n"
    using h by (auto simp: durably_holds_def)
  have "safe_run (commit_image cd s sb) (d_vfs s) (d_vfs s')"
    using commit_call(1) [OF sb(1) s(1) t s(2) run] by (simp add: commit_outcome_def)
  then obtain img where img: "crash_image_at (d_vfs s') pos fates = Some img" "commit_image cd s sb img"
    using pos unfolding safe_run_def by blast
  obtain sb' where "image_ok cd img sb'" "file_holds cd img sb' g \<or> file_holds cd img sb' f"
    using durable_commit_image [OF h sb t img(2)] by blast
  then show ?thesis using durable_open [of cd img sb' _ pol bud] img(1) pol s(3) by blast
qed

lemma durable_commit:
  assumes h: "durably_holds cd s f g" and t: "commit_trusted cd s" and run: "commit (faulty_env cd) s = Some (Inr st, s')"
  shows "durably_holds cd s' f f"
proof -
  obtain sb where sb: "durable cd s sb" and s: "offsets_ok s" "\<not> d_poisoned s" "\<forall>n. node_codec_ok cd n" "disk_holds cd s f"
    using h by (auto simp: durably_holds_def)
  obtain buf sb' where n: "next_superblock (faulty_env cd) s = Some (buf, sb')" "recovers_new cd s buf sb' (fs_view (d_vfs s'))"
    "durable cd s' sb'" "offsets_ok s'" "d_poisoned s' = d_poisoned s"
    using commit_call(1) [OF sb s(1) t s(2) run] by (auto simp: commit_outcome_def)
  have inner: "commit_inner (faulty_env cd) s = Some (Inr st, s')"
    using run s(2) by (auto simp: commit_def poison_on_error_def split: sum.split_asm elim!: bind_SomeE)
  obtain b2 assigned lens root v where ad: "commit_plan (faulty_env cd) s = Some (Inr (b2, assigned, lens))"
    "commit_adopt b2 assigned lens (s\<lparr>d_vfs := v\<rparr>) = Some (Inr st, s')" by (rule commit_adopts [OF inner])
  have b2: "b2 = buf" using n(1) ad(1) by (auto simp: next_superblock_def elim!: bind_SomeE)
  obtain t1 m where t1: "betree_inv t1" "betree_abs t1 = f" and c: "committing cd (fs_view (d_vfs s)) (faulty_env cd) s t1 m buf assigned lens"
    by (rule disk_holds_committing [OF s(4) sb s(1,3)]) (use ad(1) b2 in blast)
  have wm: "d_watermark s' = d_watermark s + length buf" using commit_adopt_frame(5) [OF ad(2)] b2 by simp
  then have "extends (fs_view (d_vfs s)) (d_watermark s) buf (fs_view (d_vfs s')) (d_watermark s + length buf)"
    using n(2,3) by (simp add: recovers_new_def durable_def)
  from commit_adopt_sim [OF c this, of v] ad(2) b2
  have "in_step True (engine_store cd s') s' ((cleaned t1)\<lparr>t_ops_since_commit := 0\<rparr>)" by auto
  then have "disk_holds cd s' f" using cleaned_inv [OF t1(1), of 0] t1(2) unfolding disk_holds_def by blast
  moreover have "file_holds cd (fs_view (d_vfs s')) sb' f" by (rule recovers_new_holds [OF s(4) sb s(1) t s(3) n(1,2)])
  ultimately show ?thesis using n(3-5) s(2,3) unfolding durably_holds_def by blast
qed

section \<open>Creating\<close>

text \<open>A new engine: one clean empty leaf at the start of the data region.\<close>

lemma created_engine:
  assumes "create_trusted cd p" "params_legal p" "\<forall>n. node_codec_ok cd n"
  obtains s v sb slot where "create_on_with (faulty_env cd) (from_image []) p bud pol = Some (Inr s, v)" "durable cd s sb" "offsets_ok s"
    "\<not> d_poisoned s" "d_vfs s = v" "sb_params sb = p" "unat (sb_root_offset sb) = DATA_START" "cache_ok s" "d_root s = 0" "d_next_seq s = 0"
    "d_ops_since_commit s = 0" "d_policy s = pol" "d_offsets s = [(DATA_START, 0)]" "d_slots s = [slot]" "slot_off slot = Some DATA_START"
    "\<forall>n d off b tk. slot = Loaded n d off b tk \<longrightarrow> \<not> d \<and> n = Leaf []" "engine_store cd s DATA_START = Some (DiskLeaf [])"
proof -
  obtain s v sb where s: "create_on_with (faulty_env cd) (from_image []) p bud pol = Some (Inr s, v)" "durable cd s sb" "offsets_ok s"
    "\<not> d_poisoned s" "d_vfs s = v" "sb_params sb = p" "unat (sb_root_offset sb) = DATA_START" "cache_ok s" "d_root s = 0" "d_next_seq s = 0"
    "d_ops_since_commit s = 0" "d_policy s = pol" "d_offsets s = [(DATA_START, 0)]"
    and pay: "\<exists>payload t. enc_node cd (DiskLeaf []) = Some payload \<and>
       settled [] None (s\<lparr>d_slots := [Loaded (Leaf []) False (Some DATA_START) (RECORD_HEADER_SIZE + length payload) t]\<rparr>) s \<and>
       (bud = None \<longrightarrow> d_slots s = [Loaded (Leaf []) False (Some DATA_START) (RECORD_HEADER_SIZE + length payload) t] \<and> budget (d_cache s) = None) \<and>
       length (d_slots s) = 1 \<and> d_watermark s = DATA_START + 8 + length payload \<and> take (8 + length payload) (drop DATA_START (fs_view v)) = record_bytes cd payload"
    by (rule create_durable [OF assms(1,2), of bud pol]) (rule that)
  then obtain payload tk where pay: "enc_node cd (DiskLeaf []) = Some payload" "d_watermark s = DATA_START + 8 + length payload"
    "take (8 + length payload) (drop DATA_START (fs_view v)) = record_bytes cd payload" "length (d_slots s) = 1"
    "settled [] None (s\<lparr>d_slots := [Loaded (Leaf []) False (Some DATA_START) (RECORD_HEADER_SIZE + length payload) tk]\<rparr>) s"
    by blast
  obtain slot where slot: "d_slots s = [slot]" using pay(4) by (auto simp: length_Suc_conv)
  have rev: "reverts False (Loaded (Leaf []) False (Some DATA_START) (RECORD_HEADER_SIZE + length payload) tk) slot"
    using pay(5) slot by (simp add: settled_def)
  have "length payload < 2 ^ 32" using assms(1) pay(1) by (auto simp: create_trusted_def)
  then have "engine_store cd s DATA_START = Some (DiskLeaf [])"
    using stored_record_written [of DATA_START payload "d_watermark s" "fs_view (d_vfs s)" cd "DiskLeaf []"] pay durable_view(3) [OF s(2)]
      decode_encode_node [of cd "DiskLeaf []" payload] assms(3) s(5) by (simp add: encode_node_def stored_node_def)
  then show thesis using that [OF s slot] rev by (cases slot) (auto simp: reverts_def)
qed

lemma durable_created:
  assumes "create_trusted cd p" "params_legal p" "policy_legal pol" "blind pol" "\<forall>n. node_codec_ok cd n"
  shows "\<exists>s v. create_on_with (faulty_env cd) (from_image []) p bud pol = Some (Inr s, v) \<and> durably_holds cd s Map.empty Map.empty"
proof -
  obtain s v sb slot where s: "create_on_with (faulty_env cd) (from_image []) p bud pol = Some (Inr s, v)" "durable cd s sb" "offsets_ok s"
    "\<not> d_poisoned s" "d_vfs s = v" "sb_params sb = p" "unat (sb_root_offset sb) = DATA_START" "cache_ok s" "d_root s = 0" "d_next_seq s = 0"
    "d_ops_since_commit s = 0" "d_policy s = pol" "d_offsets s = [(DATA_START, 0)]" "d_slots s = [slot]" "slot_off slot = Some DATA_START"
    "\<forall>n d off b tk. slot = Loaded n d off b tk \<longrightarrow> \<not> d \<and> n = Leaf []" "engine_store cd s DATA_START = Some (DiskLeaf [])"
    by (rule created_engine [OF assms(1,2,5)])
  obtain t where t: "with_policy p pol = Some t" "betree_inv t" "betree_abs t = Map.empty"
    using with_policy_ok [OF assms(2,3)] by blast
  have tf: "t_nodes t = [Leaf []]" "t_root t = 0" "t_params t = p" using t(1) by (auto simp: with_policy_def split: if_split_asm)
  let ?t = "reopened 0 pol t" and ?rd = "engine_store cd s"
  have live: "live t = {0}" using live_least [of t "{0}"] live_root [of t] by (auto simp: tf)
  have img: "imaged ?rd t (\<lambda>_. DATA_START)" by (simp add: imaged_def live s(17) tf owned_def edges_def)
  have "at_rest True ?rd (live ?t) s ?t (ref_of s \<circ> (\<lambda>_. DATA_START))"
  proof (rule clean_sim)
    show "imaged ?rd ?t (\<lambda>_. DATA_START)" using img by (simp add: reopened_image)
    show "interned s" using s(13-15) by (auto simp: interned_def index_def bt_ok_def)
    show "same_fields s ?t" using s(2,6,10-12) tf by (simp add: same_fields_def reopened_def durable_def)
    show "\<forall>a\<in>live ?t. \<not> t_dirty ?t ! a" unfolding reopened_image by (simp add: live reopened_def tf)
    show "\<not> d \<and> file_view ?rd s DATA_START = Some (mem_view n)" if "index (d_slots s) nid = Some (Loaded n d (Some DATA_START) b tk)" for nid n d b tk
      using that s(14,16,17) by (auto simp: index_def file_view_def split: if_split_asm)
  qed (use s(8,9,13) assms(4) in \<open>simp_all add: reopened_def\<close>)
  then have "in_step True ?rd s ?t" unfolding in_step_def by (intro exI)
  then have "disk_holds cd s Map.empty"
    unfolding disk_holds_def by (intro exI [of _ ?t] conjI) (simp_all add: reopened_inv [OF t(2) assms(3)] t(3))
  moreover have "d_watermark s = unat (sb_watermark sb)" using s(2) by (simp add: durable_def)
  then have "file_holds cd (fs_view (d_vfs s)) sb Map.empty"
    using file_holds_tree [OF t(2), of sb cd "fs_view (d_vfs s)" "\<lambda>_. DATA_START"] img s(6,7) t(3) tf by simp
  ultimately show ?thesis using s(1-4) assms(5) unfolding durably_holds_def by blast
qed

section \<open>A commit returns\<close>

lemma committing_root:
  assumes c: "committing cd F E s t m buf assigned lens"
  shows "\<exists>root. resolve_offset s assigned (d_root s) = Some root"
proof -
  have rest: "at_rest True (stored_node cd F (d_watermark s)) (live t) s t m" using c by (simp add: committing_def)
  have "t_dirty t ! t_root t \<longrightarrow> bt_get assigned (d_root s) \<noteq> None"
    using c rest live_root [of t] by (auto simp: committing_def planned_def written_at_def at_rest_def)
  then show ?thesis using resolve_known [OF at_rest_places(1) [OF rest] live_root] rest by (simp add: at_rest_def)
qed

lemma publish_returns:
  assumes d: "durable cd s sb" and offs: "offsets_ok s" and t: "commit_trusted cd s"
    and plan: "commit_plan (faulty_env cd) s = Some (Inr (buf, assigned, lens))" and root: "resolve_offset s assigned (d_root s) = Some root"
    and va: "faulty_ok va" "window va = []" "no_failed_sync va" "fs_durable va = fs_view va"
      "fs_view va = (if buf = [] then fs_view (d_vfs s) else write_at (fs_view (d_vfs s)) (d_watermark s) buf)"
  shows "\<exists>r v. commit_publish (faulty_env cd) (new_superblock s root (d_watermark s + length buf)) (s\<lparr>d_vfs := va\<rparr>) = Some (r, s\<lparr>d_vfs := v\<rparr>) \<and>
    (fs_fail_sync va = None \<longrightarrow> r = Inr ())"
proof -
  let ?sb = "new_superblock s root (d_watermark s + length buf)"
  have n: "next_superblock (faulty_env cd) s = Some (buf, ?sb)" using plan root by (simp add: next_superblock_def)
  then have tr: "superblock_codec_ok cd ?sb" "d_watermark s + length buf < 2 ^ 64" "d_next_generation s \<noteq> 0"
    "\<forall>bs. encode_slot cd ?sb = Inr bs \<longrightarrow> torn_detected cd (slot_region (fs_view (d_vfs s)) (publish_slot (d_next_generation s))) bs"
    using t by (auto simp: commit_trusted_def)
  have wm: "DATA_START \<le> d_watermark s" using durableD(5) [OF d] by (simp add: DATA_START_def SUPERBLOCK_SLOT_SIZE_def)
  have "params_legal (d_params s)" using d durableD(7) [OF d] by (simp add: durable_def superblock_ok_def)
  then have "superblock_ok ?sb" "unat (sb_watermark ?sb) = d_watermark s + length buf"
    using new_superblock_ok [of s root "d_watermark s + length buf"] tr(2) resolve_in_file [OF root offs plan_range [OF plan wm]] by auto
  then show ?thesis using publish_stage [OF d va(1,2), of "fs_view va" buf ?sb] va tr by (auto simp: new_superblock_def)
qed

lemma durable_commit_returns:
  assumes h: "durably_holds cd s f g" and t: "commit_trusted cd s"
  shows "\<exists>r s'. commit (faulty_env cd) s = Some (r, s') \<and>
    (fs_fail_sync (d_vfs s) = None \<longrightarrow> (\<exists>st. r = Inr st) \<or> (\<exists>e. r = Inl e \<and> commit_plan (faulty_env cd) s = Some (Inl e)))"
proof -
  let ?E = "faulty_env cd"
  obtain sb where sb: "durable cd s sb" and s: "disk_holds cd s f" "offsets_ok s" "\<not> d_poisoned s" "\<forall>n. node_codec_ok cd n"
    using h by (auto simp: durably_holds_def)
  obtain t1 m where t1: "at_rest True (engine_store cd s) (live t1) s t1 m"
    "\<forall>buf assigned lens. commit_plan ?E s = Some (Inr (buf, assigned, lens)) \<longrightarrow> committing cd (fs_view (d_vfs s)) ?E s t1 m buf assigned lens"
    by (rule disk_holds_committing [OF s(1) sb s(2,4)])
  obtain p where p: "commit_plan ?E s = Some p" using plan_sim(1) [OF t1(1)] by blast
  have "\<exists>r s'. commit_inner ?E s = Some (r, s') \<and> (fs_fail_sync (d_vfs s) = None \<longrightarrow> (\<exists>st. r = Inr st) \<or> (\<exists>e. r = Inl e \<and> p = Inl e))"
  proof (cases p)
    case (Inl e)
    then show ?thesis using p by (simp add: commit_inner_plan)
  next
    case (Inr q)
    obtain buf assigned lens where q: "q = (buf, assigned, lens)" by (cases q)
    have c: "committing cd (fs_view (d_vfs s)) ?E s t1 m buf assigned lens" using t1(2) p Inr q by blast
    obtain root where root: "resolve_offset s assigned (d_root s) = Some root" using committing_root [OF c] by blast
    obtain r1 va where va: "commit_data ?E buf s = Some (r1, s\<lparr>d_vfs := va\<rparr>)" "faulty_ok va" "window va = []"
      "fs_fail_sync (d_vfs s) = None \<longrightarrow> r1 = Inr () \<and> fs_fail_sync va = None"
      and ok1: "r1 = Inr () \<longrightarrow> no_failed_sync va \<and> fs_durable va = fs_view va \<and>
        fs_view va = (if buf = [] then fs_view (d_vfs s) else write_at (fs_view (d_vfs s)) (d_watermark s) buf)"
      using data_stage [OF sb, of buf] by (auto simp: safe_run_def)
    show ?thesis
    proof (cases r1)
      case (Inl e)
      then show ?thesis using p va \<open>p = Inr q\<close> q by (simp add: commit_inner_plan)
    next
      case (Inr u)
      then have ok: "no_failed_sync va" "fs_durable va = fs_view va"
        "fs_view va = (if buf = [] then fs_view (d_vfs s) else write_at (fs_view (d_vfs s)) (d_watermark s) buf)" using ok1 by auto
      obtain r2 vb where vb: "commit_publish ?E (new_superblock s root (d_watermark s + length buf)) (s\<lparr>d_vfs := va\<rparr>) = Some (r2, s\<lparr>d_vfs := vb\<rparr>)"
        "fs_fail_sync va = None \<longrightarrow> r2 = Inr ()"
        using publish_returns [OF sb s(2) t _ root va(2,3) ok] p \<open>p = Inr q\<close> q by blast
      obtain st s' where "commit_adopt buf assigned lens (s\<lparr>d_vfs := vb\<rparr>) = ok st s'"
        using commit_adopt_sim [OF c data_stage_file(1) [OF sb refl]] by blast
      then show ?thesis using p va vb root \<open>p = Inr q\<close> q Inr by (cases r2) (auto simp: commit_inner_plan)
    qed
  qed
  then show ?thesis using p s(3) by (auto simp: commit_def poison_on_error_def split: sum.split)
qed

end
