(* ===== verification/Disk_Refine.thy ===== *)
theory Disk_Refine
  imports Disk_Durable
begin

text \<open>
  The disk engine refines a durable map. The abstract machine has two maps, the current one and the
  committed one: a mutation changes the current map, a commit makes it the committed one, a crash makes
  the committed map current, and a crash inside a commit makes either of them both.
\<close>

section \<open>Runs and refinement\<close>

inductive steps :: "('s \<Rightarrow> 'e \<Rightarrow> 's \<Rightarrow> bool) \<Rightarrow> 's \<Rightarrow> 'e list \<Rightarrow> 's \<Rightarrow> bool" for step where
  steps_nil: "steps step s [] s"
| steps_cons: "step s e s' \<Longrightarrow> steps step s' es s'' \<Longrightarrow> steps step s (e # es) s''"

inductive_cases steps_nilE: "steps step s [] s'"
inductive_cases steps_consE: "steps step s (e # es) s'"

text \<open>A concrete step relation that an abstract one simulates, event by event.\<close>
locale step_refinement =
  fixes concrete :: "'c \<Rightarrow> 'e \<Rightarrow> 'c \<Rightarrow> bool" and abstract :: "'a \<Rightarrow> 'e \<Rightarrow> 'a \<Rightarrow> bool" and matches :: "'c \<Rightarrow> 'a \<Rightarrow> bool"
  assumes step_law: "concrete c e c' \<Longrightarrow> matches c a \<Longrightarrow> \<exists>a'. abstract a e a' \<and> matches c' a'"
begin

lemma steps_law: "steps concrete c es c' \<Longrightarrow> matches c a \<Longrightarrow> \<exists>a'. steps abstract a es a' \<and> matches c' a'"
proof (induction arbitrary: a rule: steps.induct)
  case (steps_nil c)
  then show ?case by (blast intro: steps.steps_nil)
next
  case (steps_cons c e c1 es c2)
  from step_law [OF steps_cons(1) steps_cons.prems] obtain a1 where "abstract a e a1" "matches c1 a1" by blast
  with steps_cons.IH [of a1] show ?case by (blast intro: steps.steps_cons)
qed

end

section \<open>The abstract machine\<close>

datatype disk_event =
    Wrote op_kind2
  | Got key "val option"
  | Scanned "key bound" "key bound" "(key \<times> val) list"
  | Committed
  | Crashed
  | Crashed_Committing

type_synonym durable_state = "(key \<rightharpoonup> val) \<times> (key \<rightharpoonup> val)"

inductive durable_map :: "durable_state \<Rightarrow> disk_event \<Rightarrow> durable_state \<Rightarrow> bool" where
  map_write: "durable_map (f, g) (Wrote op) (op_effect op f, g)"
| map_get: "durable_map (f, g) (Got k (f k)) (f, g)"
| map_scan: "bt_ok r \<Longrightarrow> \<forall>k. bt_get r k = (if in_bounds lo hi k then f k else None) \<Longrightarrow> durable_map (f, g) (Scanned lo hi r) (f, g)"
| map_commit: "durable_map (f, g) Committed (f, f)"
| map_crash: "durable_map (f, g) Crashed (g, g)"
| map_torn: "m \<in> {f, g} \<Longrightarrow> durable_map (f, g) Crashed_Committing (m, m)"

inductive_cases map_writeE: "durable_map (f, g) (Wrote op) y"
inductive_cases map_getE: "durable_map (f, g) (Got k v) y"
inductive_cases map_commitE: "durable_map (f, g) Committed y"
inductive_cases map_crashE: "durable_map (f, g) Crashed y"

section \<open>The engine's steps\<close>

text \<open>A crash may come at rest or at any moment of a commit, whether that commit returned, failed or was
  cut short; it is followed by opening what the device kept, under any budget and policy.\<close>
inductive disk_step :: "codec \<Rightarrow> (faulty_state, 'p) disk_engine \<Rightarrow> disk_event \<Rightarrow> (faulty_state, 'p) disk_engine \<Rightarrow> bool" for cd where
  step_write: "disk_write (faulty_env cd) op s = Some (Inr (), s') \<Longrightarrow> disk_step cd s (Wrote op) s'"
| step_get: "try_get (faulty_env cd) k s = Some (Inr v, s') \<Longrightarrow> disk_step cd s (Got k v) s'"
| step_scan: "try_scan (faulty_env cd) lo hi s = Some (Inr r, s') \<Longrightarrow> disk_step cd s (Scanned lo hi r) s'"
| step_commit: "commit_trusted cd s \<Longrightarrow> commit (faulty_env cd) s = Some (Inr st, s') \<Longrightarrow> disk_step cd s Committed s'"
| step_crash: "crash_image_at (d_vfs s) (log_len (d_vfs s)) fates = Some img \<Longrightarrow> policy_legal pol \<Longrightarrow> blind pol \<Longrightarrow>
    open_on_with (faulty_env cd) (from_image img) bud pol = Some (Inr u, v) \<Longrightarrow> disk_step cd s Crashed u"
| step_torn: "commit_trusted cd s \<Longrightarrow> commit (faulty_env cd) s = Some (r, s') \<Longrightarrow> log_len (d_vfs s) \<le> pos \<Longrightarrow> pos \<le> log_len (d_vfs s') \<Longrightarrow>
    crash_image_at (d_vfs s') pos fates = Some img \<Longrightarrow> policy_legal pol \<Longrightarrow> blind pol \<Longrightarrow>
    open_on_with (faulty_env cd) (from_image img) bud pol = Some (Inr u, v) \<Longrightarrow> disk_step cd s Crashed_Committing u"

lemma disk_step_sim:
  assumes "disk_step cd s e s'" "durably_holds cd s f g"
  shows "\<exists>f' g'. durable_map (f, g) e (f', g') \<and> durably_holds cd s' f' g'"
  using assms
proof (induction rule: disk_step.induct)
  case (step_write op s s')
  then show ?case using durable_write [OF step_write.prems, of op] by (auto intro: durable_map.intros)
next
  case (step_get k s v s')
  then show ?case using durable_get [OF step_get.prems, of k] by (auto intro: durable_map.intros)
next
  case (step_scan lo hi s r s')
  then show ?case using durable_scan [OF step_scan.prems, of lo hi] by (auto intro!: durable_map.intros)
next
  case (step_commit s st s')
  then show ?case using durable_commit [OF step_commit.prems] by (auto intro: durable_map.intros)
next
  case (step_crash s fates img pol bud u v)
  then show ?case using durable_crash [OF step_crash.prems step_crash(2,3), of fates bud] by (auto intro: durable_map.intros)
next
  case (step_torn s r s' pos fates img pol bud u v)
  then show ?case using durable_torn [OF step_torn.prems step_torn(1,2,3,4,6,7), of fates bud] by (fastforce intro: map_torn)
qed

interpretation durable: step_refinement "disk_step cd" durable_map "\<lambda>s (f, g). durably_holds cd s f g" for cd
proof
  fix s :: "(faulty_state, 'a) disk_engine" and e s' and x :: durable_state
  assume "disk_step cd s e s'" "case x of (f, g) \<Rightarrow> durably_holds cd s f g"
  then show "\<exists>x'. durable_map x e x' \<and> (case x' of (f, g) \<Rightarrow> durably_holds cd s' f g)"
    using disk_step_sim [of cd s e s' "fst x" "snd x"] by (auto simp: case_prod_beta)
qed

section \<open>The disk engine is a durable map\<close>

lemma blind_greedy [simp]: "blind GreedyFullest"
  by (simp add: blind_def GreedyFullest_def greedy_choose_def)

text \<open>The engine is never stuck: it writes, reads and recovers.\<close>

lemma durable_progress:
  fixes s :: "(faulty_state, 'p) disk_engine" and pol :: "'p policy"
  assumes h: "durably_holds cd s f g"
  shows "\<exists>s'. disk_step cd s (Wrote op) s' \<and> durably_holds cd s' (op_effect op f) g"
    and "\<exists>s'. disk_step cd s (Got k (f k)) s' \<and> durably_holds cd s' f g"
    and "policy_legal pol \<Longrightarrow> blind pol \<Longrightarrow> \<exists>u. disk_step cd s Crashed u \<and> durably_holds cd u g g"
proof -
  show "\<exists>s'. disk_step cd s (Wrote op) s' \<and> durably_holds cd s' (op_effect op f) g"
    and "\<exists>s'. disk_step cd s (Got k (f k)) s' \<and> durably_holds cd s' f g"
    using durable_write [OF h, of op] durable_get [OF h, of k] step_write step_get by blast+
  show "\<exists>u. disk_step cd s Crashed u \<and> durably_holds cd u g g" if pol: "policy_legal pol" "blind pol"
    using durable_crash [OF h pol, of "[]" None] step_crash [OF _ pol] by blast
qed

lemma sample_durable:
  obtains s v where "create_on_with (faulty_env sample_codec) (from_image []) default_params None GreedyFullest = Some (Inr s, v)"
    "durably_holds sample_codec s Map.empty Map.empty"
  using durable_created [OF sample_create params_legal_default policy_legal_greedy blind_greedy sample_node_codec, of None] by blast

text \<open>The sample engine after an insert that is not committed yet.\<close>

lemma sample_uncommitted:
  obtains s0 v s st s' where "create_on_with (faulty_env sample_codec) (from_image []) default_params None GreedyFullest = Some (Inr s0, v)"
    "disk_write (faulty_env sample_codec) (Insert2 [1] [2]) s0 = Some (Inr (), s)" "durably_holds sample_codec s [[1] \<mapsto> [2]] Map.empty"
    "commit_trusted sample_codec s" "commit (faulty_env sample_codec) s = Some (Inr st, s')"
proof -
  obtain s0 v s sb seq b t where s: "create_on_with (faulty_env sample_codec) (from_image []) default_params None GreedyFullest = Some (Inr s0, v)"
    "try_insert (faulty_env sample_codec) [1] [2] s0 = Some (Inr (), s)" "durable sample_codec s sb" "offsets_ok s" "\<not> d_poisoned s"
    "d_vfs s = v" "fs_fail_sync v = None" "d_root s = 0" "cache_ok s" "commit_trusted sample_codec s" "budget (d_cache s) = None"
    "d_slots s = [Loaded (Leaf (sample_leaf seq)) True (Some DATA_START) b t]" by (rule sample_inserted)
  have "durably_holds sample_codec s0 Map.empty Map.empty" by (rule sample_durable) (use s(1) in simp)
  then have "durably_holds sample_codec s [[1] \<mapsto> [2]] Map.empty" using durable_write [of sample_codec s0 _ _ "Insert2 [1] [2]"] s(2) by auto
  moreover obtain st s' where "commit (faulty_env sample_codec) s = Some (Inr st, s')"
    using sample_commit [OF s(3,5,10,4) _ s(12,8,9,11)] s(6,7) by auto
  ultimately show thesis using that [OF s(1) _ _ s(10)] s(2) by simp
qed

text \<open>C1. The disk engine refines a durable map. After any sequence of mutations, reads, scans, commits,
  crashes at rest and crashes in the middle of a commit, each followed by recovery, the events are a run of
  the abstract machine: every value read was the current map's, a crash lost exactly what was not
  committed, and a crash inside a commit kept the old or the new map as a whole. The next read gives the
  current map, and a crash now, whatever it does to unsynced writes, recovers the committed map.\<close>

theorem disk_refines_durable_map:
  assumes cd: "create_trusted cd p" "\<forall>n. node_codec_ok cd n" and pol: "policy_legal pol" "blind pol"
    and new: "create_on_with (faulty_env cd) (from_image []) p bud pol = Some (Inr s0, v0)" and run: "steps (disk_step cd) s0 es s"
  shows "\<exists>f g. steps durable_map (Map.empty, Map.empty) es (f, g) \<and>
    (\<forall>k. \<exists>s'. try_get (faulty_env cd) k s = Some (Inr (f k), s')) \<and>
    (\<forall>fates bud' pol'. policy_legal pol' \<and> blind pol' \<longrightarrow> (\<exists>img u v. crash_image_at (d_vfs s) (log_len (d_vfs s)) fates = Some img \<and>
       open_on_with (faulty_env cd) (from_image img) bud' pol' = Some (Inr u, v) \<and>
       (\<forall>k. \<exists>u'. try_get (faulty_env cd) k u = Some (Inr (g k), u'))))"
proof -
  have "params_legal p" using new by (auto simp: create_on_with_def params_legal_def split: if_split_asm)
  then have "durably_holds cd s0 Map.empty Map.empty" using durable_created [OF cd(1) _ pol cd(2), of bud] new by auto
  then obtain f g where r: "steps durable_map (Map.empty, Map.empty) es (f, g)" "durably_holds cd s f g"
    using durable.steps_law [OF run, of "(Map.empty, Map.empty)"] by auto
  have "\<exists>img u v. crash_image_at (d_vfs s) (log_len (d_vfs s)) fates = Some img \<and>
       open_on_with (faulty_env cd) (from_image img) bud' pol' = Some (Inr u, v) \<and>
       (\<forall>k. \<exists>u'. try_get (faulty_env cd) k u = Some (Inr (g k), u'))" if "policy_legal pol'" "blind pol'" for fates bud' pol'
    using durable_crash [OF r(2) that, of fates bud'] durable_get by blast
  then show ?thesis using r(1) durable_get [OF r(2)] by (intro exI [of _ f] exI [of _ g]) blast
qed

theorem disk_refines_durable_map_witness:
  "\<exists>(s0 :: (faulty_state, unit) disk_engine) v0 s f g.
     create_on_with (faulty_env sample_codec) (from_image []) default_params None GreedyFullest = Some (Inr s0, v0) \<and>
     steps (disk_step sample_codec) s0 [Wrote (Insert2 [1] [2]), Committed, Wrote (Insert2 [3] [4]), Crashed, Got [1] (Some [2])] s \<and>
     steps durable_map (Map.empty, Map.empty) [Wrote (Insert2 [1] [2]), Committed, Wrote (Insert2 [3] [4]), Crashed, Got [1] (Some [2])] (f, g) \<and>
     (\<exists>s'. try_get (faulty_env sample_codec) [3] s = Some (Inr (f [3]), s'))"
proof -
  let ?step = "disk_step sample_codec" and ?f = "[[1] \<mapsto> [2]] :: key \<rightharpoonup> val"
  obtain s0 v0 s1 st s2 where s: "create_on_with (faulty_env sample_codec) (from_image []) default_params None GreedyFullest = Some (Inr s0, v0)"
    "disk_write (faulty_env sample_codec) (Insert2 [1] [2]) s0 = Some (Inr (), s1)" "durably_holds sample_codec s1 ?f Map.empty"
    "commit_trusted sample_codec s1" "commit (faulty_env sample_codec) s1 = Some (Inr st, s2)" by (rule sample_uncommitted)
  have s2: "durably_holds sample_codec s2 ?f ?f" by (rule durable_commit [OF s(3-5)])
  obtain s3 g where s3: "?step s2 (Wrote (Insert2 [3] [4])) s3" "durably_holds sample_codec s3 g ?f"
    using durable_progress(1) [OF s2, of "Insert2 [3] [4]"] by blast
  obtain s4 where s4: "?step s3 Crashed s4" "durably_holds sample_codec s4 ?f ?f"
    using durable_progress(3) [OF s3(2) policy_legal_greedy blind_greedy] by blast
  obtain s5 where s5: "?step s4 (Got [1] (Some [2])) s5" using durable_progress(2) [OF s4(2), of "[1]"] by auto
  have run: "steps ?step s0 [Wrote (Insert2 [1] [2]), Committed, Wrote (Insert2 [3] [4]), Crashed, Got [1] (Some [2])] s5"
    by (rule steps_cons [where step = ?step, OF step_write [OF s(2)]], rule steps_cons [where step = ?step, OF step_commit [OF s(4,5)]])
      (rule steps_cons [where step = ?step, OF s3(1)], rule steps_cons [where step = ?step, OF s4(1)],
        rule steps_cons [where step = ?step, OF s5], rule steps_nil)
  from disk_refines_durable_map [OF sample_create sample_node_codec policy_legal_greedy blind_greedy s(1) run] s(1) run
  show ?thesis by blast
qed

text \<open>C4. Every mutation of the disk engine returns and acts on the map it holds, as the in-memory
  tree's does: it loads what it needs from the file, evicts what the budget allows, flushes, splits and
  collapses, and touches neither the device nor the committed map.\<close>

theorem disk_write_refines_map:
  assumes "durably_holds cd s f g"
  shows "\<exists>s'. disk_write (faulty_env cd) op s = Some (Inr (), s') \<and> durably_holds cd s' (op_effect op f) g \<and> d_vfs s' = d_vfs s"
proof -
  obtain s' where s': "disk_write (faulty_env cd) op s = ok () s'" "durably_holds cd s' (op_effect op f) g" using durable_write [OF assms] by blast
  have "d_vfs s' = d_vfs s" using disk_holds_write [of cd s f op] s'(1) assms by (auto simp: durably_holds_def kept_frame_def)
  then show ?thesis using s' by blast
qed

theorem disk_write_refines_map_witness:
  "\<exists>(s :: (faulty_state, unit) disk_engine) v s'.
     create_on_with (faulty_env sample_codec) (from_image []) default_params None GreedyFullest = Some (Inr s, v) \<and>
     try_insert (faulty_env sample_codec) [1] [2] s = Some (Inr (), s') \<and> durably_holds sample_codec s' [[1] \<mapsto> [2]] Map.empty"
proof -
  obtain s v where s: "create_on_with (faulty_env sample_codec) (from_image []) default_params None GreedyFullest = Some (Inr s, v)"
    "durably_holds sample_codec s Map.empty Map.empty" by (rule sample_durable)
  from disk_write_refines_map [OF s(2), of "Insert2 [1] [2]"] s(1) show ?thesis by auto
qed

text \<open>C5. Point reads and range scans of the disk engine read the map it holds: a get returns the key's
  value, a scan exactly the bindings within its bounds in ascending order, whatever is in memory and
  whatever is only in the file, and neither changes the map.\<close>

theorem disk_reads_map:
  assumes "durably_holds cd s f g"
  shows "(\<exists>s'. try_get (faulty_env cd) k s = Some (Inr (f k), s') \<and> durably_holds cd s' f g) \<and>
    (\<exists>r s'. try_scan (faulty_env cd) lo hi s = Some (Inr r, s') \<and> sorted_wrt (<) (map fst r) \<and>
       (\<forall>k v. (k, v) \<in> set r \<longleftrightarrow> in_bounds lo hi k \<and> f k = Some v) \<and> durably_holds cd s' f g)"
proof -
  obtain r s' where r: "try_scan (faulty_env cd) lo hi s = ok r s'" "bt_ok r" "\<forall>k. bt_get r k = (if in_bounds lo hi k then f k else None)"
    "durably_holds cd s' f g" using durable_scan [OF assms] by blast
  have "(k, v) \<in> set r \<longleftrightarrow> in_bounds lo hi k \<and> f k = Some v" for k v
    using r(2,3) bt_get_in [OF r(2), of k v] bt_get_Some_in [of r k v] by (auto split: if_split_asm)
  then show ?thesis using r durable_get [OF assms, of k] by (auto simp: bt_ok_def)
qed

theorem disk_reads_map_witness:
  "\<exists>(s :: (faulty_state, unit) disk_engine) v s' s''.
     create_on_with (faulty_env sample_codec) (from_image []) default_params None GreedyFullest = Some (Inr s, v) \<and>
     try_insert (faulty_env sample_codec) [1] [2] s = Some (Inr (), s') \<and> try_get (faulty_env sample_codec) [1] s' = Some (Inr (Some [2]), s'')"
proof -
  obtain s v where s: "create_on_with (faulty_env sample_codec) (from_image []) default_params None GreedyFullest = Some (Inr s, v)"
    "durably_holds sample_codec s Map.empty Map.empty" by (rule sample_durable)
  obtain s' where s': "try_insert (faulty_env sample_codec) [1] [2] s = ok () s'" "durably_holds sample_codec s' [[1] \<mapsto> [2]] Map.empty"
    using durable_write [OF s(2), of "Insert2 [1] [2]"] by auto
  from disk_reads_map [OF s'(2), of "[1]" Unbounded Unbounded] s(1) s'(1) show ?thesis by auto
qed

text \<open>C3. A commit always returns. Acknowledged, it has made the current map the committed one; without
  an injected sync failure it fails only when a node cannot be encoded; and a crash at any moment of it,
  with any fate of the unsynced writes, recovers the old map or the new map, complete.\<close>

theorem commit_makes_durable:
  assumes "durably_holds cd s f g" "commit_trusted cd s"
  shows "\<exists>r s'. commit (faulty_env cd) s = Some (r, s') \<and> (\<forall>st. r = Inr st \<longrightarrow> durably_holds cd s' f f) \<and>
    (fs_fail_sync (d_vfs s) = None \<longrightarrow> (\<exists>st. r = Inr st) \<or> (\<exists>e. r = Inl e \<and> commit_plan (faulty_env cd) s = Some (Inl e))) \<and>
    (\<forall>pos fates bud pol. log_len (d_vfs s) \<le> pos \<and> pos \<le> log_len (d_vfs s') \<and> policy_legal pol \<and> blind pol \<longrightarrow>
       (\<exists>img u v m. crash_image_at (d_vfs s') pos fates = Some img \<and> open_on_with (faulty_env cd) (from_image img) bud pol = Some (Inr u, v) \<and>
          durably_holds cd u m m \<and> m \<in> {f, g}))"
proof -
  obtain r s' where r: "commit (faulty_env cd) s = Some (r, s')"
    "fs_fail_sync (d_vfs s) = None \<longrightarrow> (\<exists>st. r = Inr st) \<or> (\<exists>e. r = Inl e \<and> commit_plan (faulty_env cd) s = Some (Inl e))"
    using durable_commit_returns [OF assms] by (elim exE conjE) (rule that)
  have "durably_holds cd s' f f" if "r = Inr st" for st using durable_commit [OF assms] r(1) that by blast
  then show ?thesis using r durable_torn [OF assms r(1)] by (intro exI [of _ r] exI [of _ s'] conjI allI impI) (blast | simp)+
qed

theorem commit_makes_durable_witness:
  "\<exists>(s0 :: (faulty_state, unit) disk_engine) v s st s'.
     create_on_with (faulty_env sample_codec) (from_image []) default_params None GreedyFullest = Some (Inr s0, v) \<and>
     disk_write (faulty_env sample_codec) (Insert2 [1] [2]) s0 = Some (Inr (), s) \<and> durably_holds sample_codec s [[1] \<mapsto> [2]] Map.empty \<and>
     commit (faulty_env sample_codec) s = Some (Inr st, s') \<and> durably_holds sample_codec s' [[1] \<mapsto> [2]] [[1] \<mapsto> [2]]"
proof -
  obtain s0 v s st s' where s: "create_on_with (faulty_env sample_codec) (from_image []) default_params None GreedyFullest = Some (Inr s0, v)"
    "disk_write (faulty_env sample_codec) (Insert2 [1] [2]) s0 = Some (Inr (), s)" "durably_holds sample_codec s [[1] \<mapsto> [2]] Map.empty"
    "commit_trusted sample_codec s" "commit (faulty_env sample_codec) s = Some (Inr st, s')" by (rule sample_uncommitted)
  from commit_makes_durable [OF s(3,4)] s(5) have "durably_holds sample_codec s' [[1] \<mapsto> [2]] [[1] \<mapsto> [2]]" by auto
  with s(1-3,5) show ?thesis by blast
qed

end
