(* ===== verification/Workload.thy ===== *)
theory Workload
  imports Prelude
begin

text \<open>
  \<open>src/workload.rs\<close>: the seeded generator of benchmark operations. The SplitMix64 generator works on
  wrapping 64-bit words; a stream draws a mix roll, a key and, for some operations, an argument. The rank
  of a Zipfian draw is computed in floating point with \<open>powf\<close>, whose precision the language leaves
  open; that computation is the argument \<open>rank\<close> of the definitions (from the keyspace and the drawn bits),
  and nothing is assumed of it: what is drawn is clamped and scrambled in integers.
\<close>

unbundle bit_operations_syntax

section \<open>The generator\<close>

text \<open>\<open>mix64\<close>, one stateless hash step.\<close>
definition mix64 :: "u64 \<Rightarrow> u64" where
  "mix64 z =
     (let z = z + 0x9E3779B97F4A7C15;
          z = (z XOR drop_bit 30 z) * 0xBF58476D1CE4E5B9;
          z = (z XOR drop_bit 27 z) * 0x94D049BB133111EB
      in z XOR drop_bit 31 z)"

text \<open>\<open>SplitMix64\<close>: the state is the word itself.\<close>
type_synonym splitmix64 = u64

definition next_u64 :: "splitmix64 \<Rightarrow> u64 \<times> splitmix64" where
  "next_u64 s =
     (let s = s + 0x9E3779B97F4A7C15;
          z = s;
          z = (z XOR drop_bit 30 z) * 0xBF58476D1CE4E5B9;
          z = (z XOR drop_bit 27 z) * 0x94D049BB133111EB
      in (z XOR drop_bit 31 z, s))"

text \<open>A draw below \<open>n\<close>; the remainder by zero panics.\<close>
definition below :: "u64 \<Rightarrow> splitmix64 \<Rightarrow> (u64 \<times> splitmix64) option" where
  "below n s = (if n = 0 then None else (let (x, s) = next_u64 s in Some (x mod n, s)))"

text \<open>The 53 bits of a unit draw: \<open>unit_f64\<close> divides them by \<open>2 ^ 53\<close>, which is exact.\<close>
definition unit_bits :: "splitmix64 \<Rightarrow> nat \<times> splitmix64" where
  "unit_bits s = (let (x, s) = next_u64 s in (unat (drop_bit 11 x), s))"

section \<open>The Zipfian distribution\<close>

record scrambled_zipfian =
  z_keyspace :: u64
  z_rng :: splitmix64

definition zipfian_new :: "u64 \<Rightarrow> u64 \<Rightarrow> scrambled_zipfian option" where
  "zipfian_new keyspace seed = (if keyspace \<ge> 2 then Some \<lparr>z_keyspace = keyspace, z_rng = seed\<rparr> else None)"

definition zipfian_next_key :: "(u64 \<Rightarrow> nat \<Rightarrow> u64) \<Rightarrow> scrambled_zipfian \<Rightarrow> (u64 \<times> scrambled_zipfian) option" where
  "zipfian_next_key rank z =
     (let (u, rng) = unit_bits (z_rng z);
          r = rank (z_keyspace z) u;
          r = min r (z_keyspace z - 1)
      in if z_keyspace z = 0 then None else Some (mix64 r mod z_keyspace z, z\<lparr>z_rng := rng\<rparr>))"

section \<open>Mixes\<close>

datatype key_dist = Uniform | Sequential | Zipfian

datatype mix = Load | PointRead | YcsbA | YcsbB | YcsbC | UpsertHeavy | ScanMix

fun mix_name :: "mix \<Rightarrow> string" where
  "mix_name Load = ''load''"
| "mix_name PointRead = ''point-read''"
| "mix_name YcsbA = ''ycsb-a''"
| "mix_name YcsbB = ''ycsb-b''"
| "mix_name YcsbC = ''ycsb-c''"
| "mix_name UpsertHeavy = ''upsert-heavy''"
| "mix_name ScanMix = ''scan-mix''"

definition mix_all :: "mix list" where
  "mix_all = [Load, PointRead, YcsbA, YcsbB, YcsbC, UpsertHeavy, ScanMix]"

definition mix_parse :: "string \<Rightarrow> mix option" where
  "mix_parse name = List.find (\<lambda>m. mix_name m = name) mix_all"

datatype work_op =
    WInsert u64
  | WRead u64
  | WUpsertAdd u64 i64
  | WScan u64 u64

section \<open>Streams of operations\<close>

record op_stream =
  o_mix :: mix
  o_dist :: key_dist
  o_keyspace :: u64
  o_remaining :: u64
  o_sequential_next :: u64
  o_rng :: splitmix64
  o_zipf :: "scrambled_zipfian option"

definition op_stream_new :: "mix \<Rightarrow> key_dist \<Rightarrow> u64 \<Rightarrow> u64 \<Rightarrow> u64 \<Rightarrow> op_stream option" where
  "op_stream_new mix dist keyspace n seed = do {
     zipf \<leftarrow> (case dist of
                Zipfian \<Rightarrow> do { z \<leftarrow> zipfian_new keyspace (seed XOR 0x5EED); Some (Some z) }
              | _ \<Rightarrow> Some None);
     Some \<lparr>o_mix = mix, o_dist = dist, o_keyspace = keyspace, o_remaining = n, o_sequential_next = 0,
       o_rng = seed, o_zipf = zipf\<rparr>
   }"

text \<open>The next key: the remainder by an empty keyspace panics, as does a missing generator.\<close>
definition op_stream_key :: "(u64 \<Rightarrow> nat \<Rightarrow> u64) \<Rightarrow> op_stream \<Rightarrow> (u64 \<times> op_stream) option" where
  "op_stream_key rank s =
     (case o_dist s of
        Uniform \<Rightarrow> do { (k, rng) \<leftarrow> below (o_keyspace s) (o_rng s); Some (k, s\<lparr>o_rng := rng\<rparr>) }
      | Sequential \<Rightarrow>
          if o_keyspace s = 0 then None
          else Some (o_sequential_next s, s\<lparr>o_sequential_next := (o_sequential_next s + 1) mod o_keyspace s\<rparr>)
      | Zipfian \<Rightarrow> do {
          z \<leftarrow> o_zipf s;
          (k, z) \<leftarrow> zipfian_next_key rank z;
          Some (k, s\<lparr>o_zipf := Some z\<rparr>)
        })"

definition op_stream_next :: "(u64 \<Rightarrow> nat \<Rightarrow> u64) \<Rightarrow> op_stream \<Rightarrow> (work_op option \<times> op_stream) option" where
  "op_stream_next rank s =
     (if o_remaining s = 0 then Some (None, s)
      else do {
        let s = s\<lparr>o_remaining := o_remaining s - 1\<rparr>;
        (roll, rng) \<leftarrow> below 100 (o_rng s);
        let s = s\<lparr>o_rng := rng\<rparr>;
        (key, s) \<leftarrow> op_stream_key rank s;
        case o_mix s of
          Load \<Rightarrow> Some (Some (WInsert key), s)
        | PointRead \<Rightarrow> Some (Some (WRead key), s)
        | YcsbC \<Rightarrow> Some (Some (WRead key), s)
        | YcsbA \<Rightarrow> Some (Some (if roll < 50 then WRead key else WInsert key), s)
        | YcsbB \<Rightarrow> Some (Some (if roll < 95 then WRead key else WInsert key), s)
        | UpsertHeavy \<Rightarrow>
            if roll < 90 then do {
              (d, rng) \<leftarrow> below 100 (o_rng s);
              Some (Some (WUpsertAdd key (d + 1)), s\<lparr>o_rng := rng\<rparr>)
            }
            else Some (Some (WRead key), s)
        | ScanMix \<Rightarrow>
            if roll < 95 then Some (Some (WRead key), s)
            else do {
              (c, rng) \<leftarrow> below 91 (o_rng s);
              Some (Some (WScan key (10 + c)), s\<lparr>o_rng := rng\<rparr>)
            }
      })"

text \<open>\<open>Iterator::collect\<close>.\<close>
partial_function (option) op_stream_collect :: "(u64 \<Rightarrow> nat \<Rightarrow> u64) \<Rightarrow> op_stream \<Rightarrow> work_op list option" where
  "op_stream_collect rank s = do {
     (op, s) \<leftarrow> op_stream_next rank s;
     case op of
       None \<Rightarrow> Some []
     | Some op \<Rightarrow> do { ops \<leftarrow> op_stream_collect rank s; Some (op # ops) }
   }"

section \<open>What a stream yields\<close>

fun work_key :: "work_op \<Rightarrow> u64" where
  "work_key (WInsert k) = k"
| "work_key (WRead k) = k"
| "work_key (WUpsertAdd k d) = k"
| "work_key (WScan k c) = k"

text \<open>The kinds of operation a mix consists of, with their arguments in range.\<close>
fun in_mix :: "mix \<Rightarrow> work_op \<Rightarrow> bool" where
  "in_mix m (WInsert k) \<longleftrightarrow> m \<in> {Load, YcsbA, YcsbB}"
| "in_mix m (WRead k) \<longleftrightarrow> m \<noteq> Load"
| "in_mix m (WUpsertAdd k d) \<longleftrightarrow> m = UpsertHeavy \<and> 1 \<le> sint d \<and> sint d \<le> 100"
| "in_mix m (WScan k c) \<longleftrightarrow> m = ScanMix \<and> 10 \<le> c \<and> c \<le> 100"

lemma next_u64_mix: "next_u64 s = (mix64 s, s + 0x9E3779B97F4A7C15)"
  by (simp add: next_u64_def mix64_def Let_def)

lemma below_less: "n \<noteq> 0 \<Longrightarrow> \<exists>x s'. below n s = Some (x, s') \<and> x < n"
  by (simp add: below_def next_u64_mix word_mod_less_divisor word_neq_0_conv)

lemma mix_parse_name: "mix_parse (mix_name m) = Some m"
  by (cases m) (simp_all add: mix_parse_def mix_all_def)

definition stream_ok :: "op_stream \<Rightarrow> bool" where
  "stream_ok s \<longleftrightarrow> o_keyspace s \<noteq> 0 \<and> o_sequential_next s < o_keyspace s \<and>
     (o_dist s = Zipfian \<longrightarrow> (\<exists>z. o_zipf s = Some z \<and> z_keyspace z = o_keyspace s))"

definition same_stream :: "op_stream \<Rightarrow> op_stream \<Rightarrow> bool" where
  "same_stream s s' \<longleftrightarrow> o_mix s' = o_mix s \<and> o_dist s' = o_dist s \<and> o_keyspace s' = o_keyspace s"

lemma word_mod_less: "(n :: u64) \<noteq> 0 \<Longrightarrow> x mod n < n"
  by (simp add: word_mod_less_divisor word_neq_0_conv)

lemma op_stream_key_ok:
  assumes "stream_ok s"
  shows "\<exists>k s'. op_stream_key rank s = Some (k, s') \<and> k < o_keyspace s \<and> stream_ok s' \<and> same_stream s s' \<and> o_remaining s' = o_remaining s \<and>
    (o_dist s = Sequential \<longrightarrow> k = o_sequential_next s \<and> o_sequential_next s' = (o_sequential_next s + 1) mod o_keyspace s)"
proof (cases "o_dist s")
  case Uniform
  then show ?thesis using assms below_less [of "o_keyspace s" "o_rng s"] by (auto simp: op_stream_key_def stream_ok_def same_stream_def)
next
  case Sequential
  then show ?thesis using assms word_mod_less [of "o_keyspace s"] by (auto simp: op_stream_key_def stream_ok_def same_stream_def)
next
  case Zipfian
  then show ?thesis using assms word_mod_less [of "o_keyspace s"]
    by (auto simp: op_stream_key_def zipfian_next_key_def stream_ok_def same_stream_def case_prod_beta Let_def)
qed

lemma small_sint: "(d :: i64) < 100 \<Longrightarrow> 1 \<le> sint (d + 1) \<and> sint (d + 1) \<le> 100"
proof -
  assume "d < 100"
  then have d: "uint d < 100" by (simp add: word_less_def)
  then have "uint (d + 1) = uint d + 1" by (simp add: uint_word_ariths)
  then have "sint (d + 1) = uint d + 1" using d by (simp add: sint_uint signed_take_bit_int_eq_self)
  then show ?thesis using d by simp
qed

lemma small_count: "(c :: u64) < 91 \<Longrightarrow> 10 \<le> 10 + c \<and> 10 + c \<le> 100"
proof -
  assume "c < 91"
  then have c: "uint c < 91" by (simp add: word_less_def)
  then have "uint (10 + c) = 10 + uint c" by (simp add: uint_word_ariths)
  then show ?thesis using c by (simp add: word_le_def)
qed

lemma op_stream_next_ok:
  assumes ok: "stream_ok s" and more: "o_remaining s \<noteq> 0"
  shows "\<exists>op s'. op_stream_next rank s = Some (Some op, s') \<and> stream_ok s' \<and> same_stream s s' \<and> o_remaining s' = o_remaining s - 1 \<and>
    work_key op < o_keyspace s \<and> in_mix (o_mix s) op \<and>
    (o_dist s = Sequential \<longrightarrow> work_key op = o_sequential_next s \<and> o_sequential_next s' = (o_sequential_next s + 1) mod o_keyspace s)"
proof -
  obtain roll rng where roll: "below 100 (o_rng s) = Some (roll, rng)" using below_less [of 100] by fastforce
  let ?s1 = "s\<lparr>o_remaining := o_remaining s - 1, o_rng := rng\<rparr>"
  have "stream_ok ?s1" using ok by (simp add: stream_ok_def)
  then obtain k s2 where k: "op_stream_key rank ?s1 = Some (k, s2)" "k < o_keyspace s" "stream_ok s2" "same_stream s s2"
    "o_remaining s2 = o_remaining s - 1"
    "o_dist s = Sequential \<longrightarrow> k = o_sequential_next s \<and> o_sequential_next s2 = (o_sequential_next s + 1) mod o_keyspace s"
    using op_stream_key_ok [of ?s1 rank] by (auto simp: same_stream_def)
  obtain d rng1 where d: "below 100 (o_rng s2) = Some (d, rng1)" "d < 100" using below_less [of 100] by fastforce
  obtain c rng2 where c: "below 91 (o_rng s2) = Some (c, rng2)" "c < 91" using below_less [of 91] by fastforce
  have ok2: "stream_ok (s2\<lparr>o_rng := x\<rparr>)" "same_stream s (s2\<lparr>o_rng := x\<rparr>)" for x using k(3,4) by (simp_all add: stream_ok_def same_stream_def)
  have mix: "o_mix s2 = o_mix s" using k(4) by (simp add: same_stream_def)
  show ?thesis using more roll k d(1) c(1) ok2 mix small_sint [OF d(2)] small_count [OF c(2)]
    by (cases "o_mix s") (auto simp: op_stream_next_def Let_def)
qed

lemma unat_next:
  assumes "(q :: u64) < n"
  shows "unat ((q + 1) mod n) = Suc (unat q) mod unat n"
proof -
  have "unat q < unat n" using assms by (simp add: word_less_nat_alt)
  moreover have "unat n < 2 ^ 64" using unsigned_less [of n] by simp
  ultimately have "unat (q + 1) = Suc (unat q)" by (simp add: unat_word_ariths)
  then show ?thesis by (simp add: unat_mod_distrib)
qed

lemma mod_shift: "map (\<lambda>i. (Suc q mod K + i) mod K) [0..<n] = map (\<lambda>i. (q + i) mod K) [1..<Suc n]"
  by (rule nth_equalityI) (simp_all add: mod_add_left_eq del: upt_Suc)

lemma op_stream_collect_ok:
  assumes "stream_ok s"
  shows "\<exists>ops. op_stream_collect rank s = Some ops \<and> length ops = unat (o_remaining s) \<and>
    (\<forall>op\<in>set ops. work_key op < o_keyspace s \<and> in_mix (o_mix s) op) \<and>
    (o_dist s = Sequential \<longrightarrow> map (unat \<circ> work_key) ops = map (\<lambda>i. (unat (o_sequential_next s) + i) mod unat (o_keyspace s)) [0..<unat (o_remaining s)])"
  using assms
proof (induction "unat (o_remaining s)" arbitrary: s)
  case 0
  then have "o_remaining s = 0" by (simp add: unat_eq_0)
  then show ?case by (subst op_stream_collect.simps) (simp add: op_stream_next_def)
next
  case (Suc n)
  then have more: "o_remaining s \<noteq> 0" by auto
  obtain op s1 where s1: "op_stream_next rank s = Some (Some op, s1)" "stream_ok s1" "same_stream s s1" "o_remaining s1 = o_remaining s - 1"
    "work_key op < o_keyspace s" "in_mix (o_mix s) op"
    "o_dist s = Sequential \<longrightarrow> work_key op = o_sequential_next s \<and> o_sequential_next s1 = (o_sequential_next s + 1) mod o_keyspace s"
    using op_stream_next_ok [OF Suc.prems more] by blast
  have n: "n = unat (o_remaining s1)" using Suc.hyps(2) s1(4) more by (simp add: unat_sub_if' word_le_nat_alt)
  from Suc.hyps(1) [OF n s1(2)] obtain ops where ops: "op_stream_collect rank s1 = Some ops" "length ops = n"
    "\<forall>op\<in>set ops. work_key op < o_keyspace s \<and> in_mix (o_mix s) op"
    "o_dist s = Sequential \<longrightarrow> map (unat \<circ> work_key) ops = map (\<lambda>i. (unat (o_sequential_next s1) + i) mod unat (o_keyspace s)) [0..<n]"
    using s1(3) n unfolding same_stream_def by metis
  have "map (unat \<circ> work_key) (op # ops) = map (\<lambda>i. (unat (o_sequential_next s) + i) mod unat (o_keyspace s)) [0..<Suc n]" if "o_dist s = Sequential"
  proof -
    have q: "o_sequential_next s < o_keyspace s" using Suc.prems by (simp add: stream_ok_def)
    have "map (unat \<circ> work_key) ops = map (\<lambda>i. (unat (o_sequential_next s) + i) mod unat (o_keyspace s)) [1..<Suc n]"
      using ops(4) s1(7) that unat_next [OF q] mod_shift [of "unat (o_sequential_next s)" "unat (o_keyspace s)" n] by simp
    moreover have "unat (o_sequential_next s) mod unat (o_keyspace s) = unat (o_sequential_next s)" using q by (simp add: word_less_nat_alt)
    ultimately show ?thesis using s1(7) that by (simp add: upt_conv_Cons del: upt_Suc)
  qed
  then show ?case using s1(1,5,6) ops(1-3) Suc.hyps(2) by (subst op_stream_collect.simps) (auto simp del: upt_Suc)
qed

text \<open>C40. A workload stream over a non-empty keyspace yields exactly the requested number of operations, all
  of its mix, with keys below the keyspace, upsert deltas from 1 to 100 and scan lengths from 10 to 100,
  whatever the seed and however the floating-point ranks come out; a sequential stream walks the keyspace
  in order and wraps.\<close>

theorem workload_stream_legal:
  assumes "op_stream_new mix dist keyspace n seed = Some s" "keyspace \<noteq> 0"
  shows "\<exists>ops. op_stream_collect rank s = Some ops \<and> length ops = unat n \<and> (\<forall>op\<in>set ops. work_key op < keyspace \<and> in_mix mix op) \<and>
    (dist = Sequential \<longrightarrow> map (unat \<circ> work_key) ops = map (\<lambda>i. i mod unat keyspace) [0..<unat n])"
proof -
  have "stream_ok s \<and> o_mix s = mix \<and> o_dist s = dist \<and> o_keyspace s = keyspace \<and> o_remaining s = n \<and> o_sequential_next s = 0"
    using assms by (cases dist) (auto simp: op_stream_new_def zipfian_new_def stream_ok_def word_neq_0_conv split: if_split_asm)
  then show ?thesis using op_stream_collect_ok [of s rank] by auto
qed

theorem workload_stream_legal_witness:
  "\<exists>s ops. op_stream_new Load Sequential 2 3 42 = Some s \<and> op_stream_collect (\<lambda>_ _. 0) s = Some ops \<and> map (unat \<circ> work_key) ops = [0, 1, 0]"
proof -
  obtain s where s: "op_stream_new Load Sequential 2 3 42 = Some s" by (simp add: op_stream_new_def)
  from workload_stream_legal [OF s, of "\<lambda>_ _. 0"] s show ?thesis by (auto simp: upt_rec)
qed

end
