(* ===== verification/BeTree_Fork.thy ===== *)
theory BeTree_Fork
  imports BeTree_Engine
begin

text \<open>
  Forking and simulated commits of the in-memory tree. A fork keeps the live nodes, renumbered in the
  order of a walk, and holds the same map; a simulated commit charges the dirty nodes that the root
  reaches over dirty edges and changes no contents. Both walks end because the tree has a height.
\<close>

section \<open>Shapes\<close>

fun shaped :: "node list \<Rightarrow> nat \<Rightarrow> node_id \<Rightarrow> bool" where
  "shaped N 0 c \<longleftrightarrow> (\<exists>es. index N c = Some (Leaf es))"
| "shaped N (Suc h) c \<longleftrightarrow> (\<exists>ps cs b. index N c = Some (Internal ps cs b) \<and> (\<forall>c'\<in>set cs. shaped N h c'))"

lemma tree_shaped: "tree P N h lo hi c \<Longrightarrow> shaped N h c"
proof (induction h arbitrary: lo hi c)
  case 0
  then show ?case by (auto split: option.split_asm node.split_asm)
next
  case (Suc h)
  from Suc.prems obtain ps cs b where "index N c = Some (Internal ps cs b)" "forest P N h lo hi ps cs" by (rule tree_SucE)
  then show ?case using Suc.IH forest_child by fastforce
qed

lemma root_shaped: "root_tree P N h r \<Longrightarrow> shaped N h r"
  by (cases h) (auto simp: root_tree_def dest: tree_shaped split: option.split_asm node.split_asm)

text \<open>Where no weight is left, no node of the subtree holds a message.\<close>

lemma weightless_buffers:
  "shaped N h c \<Longrightarrow> weight N h c = 0 \<Longrightarrow> x \<in> set (reach N h c) \<Longrightarrow> index N x = Some (Internal ps cs b) \<Longrightarrow> b = []"
proof (induction h arbitrary: c)
  case (Suc h)
  obtain ps' cs' b' where n: "index N c = Some (Internal ps' cs' b')" "\<forall>c'\<in>set cs'. shaped N h c'"
    using Suc.prems(1) by auto
  show ?case
  proof (cases "x = c")
    case True
    then show ?thesis using Suc.prems(2,4) n(1) by (simp add: weight.simps(2))
  next
    case False
    then obtain c' where c': "c' \<in> set cs'" "x \<in> set (reach N h c')" using Suc.prems(3) n(1) by (auto simp: reach.simps(2))
    have "weight N h c' = 0" using Suc.prems(2) n(1) c'(1) by (simp add: weight.simps(2))
    with Suc.IH [OF _ this c'(2) Suc.prems(4)] n(2) c'(1) show ?thesis by blast
  qed
qed auto

lemma shaped_reach_bound: "shaped N h c \<Longrightarrow> i \<in> set (reach N h c) \<Longrightarrow> i < length N"
proof (induction h arbitrary: c)
  case (Suc h)
  then obtain ps cs b where "index N c = Some (Internal ps cs b)" "\<forall>c'\<in>set cs. shaped N h c'" by auto
  then show ?case using Suc.prems(2) Suc.IH by (auto simp: reach.simps(2) index_eq_Some)
qed (auto simp: index_eq_Some)

section \<open>The walk over live nodes\<close>

lemma walk_all:
  assumes "\<And>c rest os. c \<in> set cs \<Longrightarrow> walk rest = Some os \<Longrightarrow> \<exists>os'. walk (c # rest) = Some (os' @ os) \<and> mset os' = mset (f c)"
    and "walk rest = Some os"
  shows "\<exists>os'. walk (cs @ rest) = Some (os' @ os) \<and> mset os' = mset (concat (map f cs))"
  using assms(1)
proof (induction cs)
  case (Cons c cs)
  from Cons.IH Cons.prems obtain os' where "walk (cs @ rest) = Some (os' @ os)" "mset os' = mset (concat (map f cs))" by auto
  with Cons.prems [of c "cs @ rest" "os' @ os"] obtain os'' where "walk (c # cs @ rest) = Some (os'' @ os' @ os)" "mset os'' = mset (f c)" by auto
  then show ?case using \<open>mset os' = _\<close> by (intro exI [of _ "os'' @ os'"]) simp
qed (use assms(2) in simp)

lemma mset_concat_rev: "mset (concat (map f (rev cs))) = mset (concat (map f cs))"
  by (induction cs) (simp_all add: union_commute)

lemma live_order_shaped:
  "shaped (t_nodes s) h c \<Longrightarrow> live_order s rest = Some os \<Longrightarrow>
     \<exists>os'. live_order s (c # rest) = Some (os' @ os) \<and> mset os' = mset (reach (t_nodes s) h c)"
proof (induction h arbitrary: c rest os)
  case 0
  then obtain es where "node_at s c = Some (Leaf es)" by (auto simp: node_at_def)
  then show ?case using 0 by (intro exI [of _ "[c]"]) (simp add: live_order.simps [of s "c # rest"])
next
  case (Suc h)
  then obtain ps cs b where n: "index (t_nodes s) c = Some (Internal ps cs b)" "\<forall>c'\<in>set cs. shaped (t_nodes s) h c'" by auto
  obtain os' where "live_order s (rev cs @ rest) = Some (os' @ os)" "mset os' = mset (concat (map (reach (t_nodes s) h) (rev cs)))"
    using walk_all [of "rev cs" "live_order s" "reach (t_nodes s) h", OF _ Suc.prems(2)] Suc.IH n(2) by auto
  then show ?case using n(1) by (intro exI [of _ "c # os'"])
    (simp add: live_order.simps [of s "c # rest"] node_at_def reach.simps(2) mset_concat_rev)
qed

lemma live_order_ok:
  assumes "shaped (t_nodes s) h (t_root s)" "distinct (reach (t_nodes s) h (t_root s))"
  shows "\<exists>order. live_order s [t_root s] = Some order \<and> distinct order \<and> set order = set (reach (t_nodes s) h (t_root s))"
proof -
  have "live_order s [] = Some []" by (simp add: live_order.simps)
  from live_order_shaped [OF assms(1) this] obtain order where "live_order s [t_root s] = Some order" "mset order = mset (reach (t_nodes s) h (t_root s))"
    by auto
  then show ?thesis using assms(2) by (metis mset_eq_imp_distinct_iff mset_eq_setD)
qed

section \<open>Renumbering\<close>

lemma renumber_other: "x \<notin> set xs \<Longrightarrow> bt_get (fold (\<lambda>(i, nid). bt_insert nid i) (enumerate n xs) m) x = bt_get m x"
  by (induction xs arbitrary: n m) (auto simp: bt_get_insert)

lemma renumber_nth:
  "distinct xs \<Longrightarrow> i < length xs \<Longrightarrow> bt_get (fold (\<lambda>(i, nid). bt_insert nid i) (enumerate n xs) m) (xs ! i) = Some (n + i)"
proof (induction xs arbitrary: i n m)
  case (Cons x xs)
  then show ?case
  proof (cases i)
    case 0
    then show ?thesis using Cons.prems(1) renumber_other [of x xs "Suc n" "bt_insert x n m"] by (simp add: bt_get_insert)
  next
    case (Suc j)
    then show ?thesis using Cons.IH [of j "Suc n" "bt_insert x n m"] Cons.prems by simp
  qed
qed simp

fun rename_node :: "(node_id \<Rightarrow> node_id) \<Rightarrow> node \<Rightarrow> node" where
  "rename_node f (Leaf es) = Leaf es"
| "rename_node f (Internal ps cs b) = Internal ps (map f cs) b"

lemma segs_map: "segs lo hi ps (map f cs) = map (\<lambda>(l, c, u). (l, f c, u)) (segs lo hi ps cs)"
  by (induction lo hi ps cs rule: segs.induct) auto

text \<open>A renumbered subtree is the same subtree.\<close>

lemma renamed_tree:
  assumes "\<forall>x\<in>set (reach N h c). index N' (f x) = map_option (rename_node f) (index N x)"
  shows "shaped N h c \<Longrightarrow> reach N' h (f c) = map f (reach N h c) \<and> (\<forall>k. occ N' h (f c) k = occ N h c k)"
    and "tree P N h lo hi c \<Longrightarrow> tree P N' h lo hi (f c)"
proof -
  have "(shaped N h c \<longrightarrow> reach N' h (f c) = map f (reach N h c) \<and> (\<forall>k. occ N' h (f c) k = occ N h c k)) \<and>
    (tree P N h lo hi c \<longrightarrow> tree P N' h lo hi (f c))"
    using assms
  proof (induction h arbitrary: lo hi c)
    case 0
    then have "index N' (f c) = map_option (rename_node f) (index N c)" by simp
    then show ?case by (auto split: option.split_asm node.split_asm)
  next
    case (Suc h)
    show ?case
    proof (cases "\<exists>ps cs b. index N c = Some (Internal ps cs b)")
      case True
      then obtain ps cs b where n: "index N c = Some (Internal ps cs b)" by blast
      have n': "index N' (f c) = Some (Internal ps (map f cs) b)" using Suc.prems n reach_self [of c N "Suc h"] by simp
      have sub: "\<forall>x\<in>set (reach N h c'). index N' (f x) = map_option (rename_node f) (index N x)" if "c' \<in> set cs" for c'
        using Suc.prems that by (auto simp: reach.simps(2) n)
      note IH = Suc.IH [OF sub]
      have "reach N' (Suc h) (f c) = map f (reach N (Suc h) c)" if "shaped N (Suc h) c"
        using that IH n n' by (auto simp: reach.simps(2) map_concat comp_def intro!: arg_cong [of _ _ concat])
      moreover have "occ N' (Suc h) (f c) k = occ N (Suc h) c k" if "shaped N (Suc h) c" for k
        using that IH n n' by (auto simp: occ.simps(2) index_def)
      moreover have "tree P N' (Suc h) lo hi (f c)" if "tree P N (Suc h) lo hi c"
      proof -
        have t: "length cs = Suc (length ps)" "\<forall>(l, c', u)\<in>set (segs lo hi ps cs). tree P N h l u c'" and rest: "tree P N (Suc h) lo hi c"
          using that n by (auto simp: tree.simps(2))
        have "\<forall>(l, c', u)\<in>set (segs lo hi ps (map f cs)). tree P N' h l u c'"
          using t(2) IH segs_in [OF t(1)] by (fastforce simp: segs_map)
        then show ?thesis using rest n n' by (simp add: tree.simps(2))
      qed
      ultimately show ?thesis by blast
    next
      case False
      then show ?thesis by (auto simp: tree.simps(2) split: option.split_asm node.split_asm)
    qed
  qed
  then show "shaped N h c \<Longrightarrow> reach N' h (f c) = map f (reach N h c) \<and> (\<forall>k. occ N' h (f c) k = occ N h c k)"
    "tree P N h lo hi c \<Longrightarrow> tree P N' h lo hi (f c)" by blast+
qed

section \<open>Forks\<close>

lemma rename_children_ok: "\<forall>c\<in>set (case n of Internal ps cs b \<Rightarrow> cs | Leaf _ \<Rightarrow> []). bt_get mp c = Some (f c) \<Longrightarrow>
    rename_children mp n = Some (rename_node f n)"
  by (cases n) (auto simp: those_map_Some)

lemma reach_kids:
  "x \<in> set (reach N h c) \<Longrightarrow> shaped N h c \<Longrightarrow> index N x = Some (Internal ps cs b) \<Longrightarrow> set cs \<subseteq> set (reach N h c)"
proof (induction h arbitrary: c)
  case (Suc h)
  then obtain ps' cs' b' where n: "index N c = Some (Internal ps' cs' b')" "\<forall>c'\<in>set cs'. shaped N h c'" by auto
  show ?case
  proof (cases "x = c")
    case True
    then show ?thesis using Suc.prems(3) n reach_self by (force simp: reach.simps(2))
  next
    case False
    then obtain c' where "c' \<in> set cs'" "x \<in> set (reach N h c')" using Suc.prems(1) n(1) by (auto simp: reach.simps(2))
    then show ?thesis using Suc.IH [of c'] Suc.prems(3) n by (auto simp: reach.simps(2))
  qed
qed simp

lemma fork_ok:
  assumes inv: "betree_inv s" and pol: "policy_legal pol"
  shows "\<exists>t. fork_for_sim pol s = Some t \<and> betree_inv t \<and> betree_abs t = betree_abs s \<and> t_policy t = pol \<and>
    t_params t = t_params s \<and> t_next_seq t = t_next_seq s \<and> v2 (t_trace t) = []"
proof -
  let ?N = "t_nodes s" and ?P = "t_params s" and ?r = "t_root s"
  obtain h where h: "root_tree ?P ?N h ?r" using inv by (auto simp: betree_inv_def)
  have sh: "shaped ?N h ?r" and dist: "distinct (reach ?N h ?r)" using root_shaped [OF h] h by (simp_all add: root_tree_def)
  obtain order where o: "live_order s [?r] = Some order" "distinct order" "set order = set (reach ?N h ?r)"
    using live_order_ok [OF sh dist] by blast
  have bound: "x < length ?N" "x < length (t_dirty s)" if "x \<in> set order" for x
    using shaped_reach_bound [OF sh] o(3) that inv by (auto simp: betree_inv_def arena_ok_def)
  define f where "f x = the (bt_get (renumber order) x)" for x
  have num: "bt_get (renumber order) (order ! i) = Some i" if "i < length order" for i
    using renumber_nth [OF o(2) that, of 0 "[]"] by (simp add: renumber_def)
  have f: "bt_get (renumber order) x = Some (f x)" "f x < length order" "order ! f x = x" if "x \<in> set order" for x
    using that num by (auto simp: f_def in_set_conv_nth)
  have kid: "rename_children (renumber order) (?N ! x) = Some (rename_node f (?N ! x))" if "x \<in> set order" for x
  proof (rule rename_children_ok, cases "?N ! x")
    case (Internal ps cs b)
    then have "set cs \<subseteq> set order" using reach_kids [OF _ sh, of x ps cs b] that o(3) bound(1) [OF that] by (simp add: index_def)
    then show "\<forall>c\<in>set (case ?N ! x of Internal ps cs b \<Rightarrow> cs | Leaf _ \<Rightarrow> []). bt_get (renumber order) c = Some (f c)"
      using f(1) Internal by auto
  qed simp
  define N' where "N' = map (\<lambda>x. rename_node f (?N ! x)) order"
  define t where "t = \<lparr>t_params = ?P, t_nodes = N', t_dirty = map ((!) (t_dirty s)) order, t_root = f ?r, t_next_seq = t_next_seq s,
     t_ops_since_commit = t_ops_since_commit s, t_policy = pol, t_trace = recorder_default\<rparr>"
  have root: "?r \<in> set order" using reach_self o(3) by auto
  have nodes: "those (map (\<lambda>nid. do { n \<leftarrow> node_at s nid; rename_children (renumber order) n }) order) = Some N'"
    unfolding N'_def by (rule those_map_Some) (use bound(1) kid in \<open>simp add: node_at_def index_def\<close>)
  have dirty: "those (map (index (t_dirty s)) order) = Some (map ((!) (t_dirty s)) order)"
    by (rule those_map_Some) (use bound(2) in \<open>simp add: index_def\<close>)
  have fork: "fork_for_sim pol s = Some t" using o(1) nodes dirty f(1) [OF root] by (simp add: fork_for_sim_def t_def)
  have same: "\<forall>x\<in>set (reach ?N h ?r). index N' (f x) = map_option (rename_node f) (index ?N x)"
    using o(3) f(2,3) bound(1) by (auto simp: N'_def index_def)
  note ren = renamed_tree [OF same]
  have "inj_on f (set order)" using f(3) by (metis inj_onI)
  then have rt: "root_tree ?P N' h (f ?r)"
    using h ren(1) [OF sh] ren(2) same root o(3) by (auto simp: root_tree_def distinct_map split: if_split_asm option.split_asm node.split_asm)
  then have "betree_inv t" using inv pol by (auto simp: betree_inv_def arena_ok_def t_def N'_def v1_view_intros)
  moreover have "betree_path t k = betree_path s k" for k
    using betree_path_eq [of t h k] betree_path_eq [OF h, of k] rt ren(1) [OF sh] by (simp add: t_def)
  then have "betree_abs t = betree_abs s" by (simp add: betree_abs_def fun_eq_iff)
  ultimately show ?thesis using fork by (auto simp: t_def recorder_default_def)
qed

section \<open>Simulated commits\<close>

lemma walk_some:
  assumes "\<And>c rest os. c \<in> set cs \<Longrightarrow> walk rest = Some os \<Longrightarrow> \<exists>os'. walk (c # rest) = Some (os' @ os) \<and> set os' \<subseteq> A"
    and "walk rest = Some os"
  shows "\<exists>os'. walk (cs @ rest) = Some (os' @ os) \<and> set os' \<subseteq> A"
  using assms(1)
proof (induction cs)
  case (Cons c cs)
  from Cons.IH Cons.prems obtain os' where "walk (cs @ rest) = Some (os' @ os)" "set os' \<subseteq> A" by auto
  with Cons.prems [of c "cs @ rest" "os' @ os"] obtain os'' where "walk (c # cs @ rest) = Some (os'' @ os' @ os)" "set os'' \<subseteq> A" by auto
  then show ?case using \<open>set os' \<subseteq> A\<close> by (intro exI [of _ "os'' @ os'"]) simp
qed (use assms(2) in simp)

lemma dirty_walk_shaped:
  assumes len: "length (t_dirty s) = length (t_nodes s)"
  shows "shaped (t_nodes s) h c \<Longrightarrow> dirty_walk s rest = Some os \<Longrightarrow>
     \<exists>os'. dirty_walk s (c # rest) = Some (os' @ os) \<and> set os' \<subseteq> {..<length (t_nodes s)}"
proof (induction h arbitrary: c rest os)
  case 0
  then obtain es where "node_at s c = Some (Leaf es)" "c < length (t_nodes s)" by (auto simp: node_at_def index_eq_Some)
  then show ?case using 0 by (intro exI [of _ "[c]"]) (simp add: dirty_walk.simps [of s "c # rest"])
next
  case (Suc h)
  then obtain ps cs b where n: "index (t_nodes s) c = Some (Internal ps cs b)" "\<forall>c'\<in>set cs. shaped (t_nodes s) h c'" by auto
  let ?more = "map fst (filter snd (zip cs (map ((!) (t_dirty s)) cs)))"
  have "\<forall>c'\<in>set cs. c' < length (t_nodes s)" using n(2) shaped_reach_bound reach_self by blast
  then have flags: "those (map (index (t_dirty s)) cs) = Some (map ((!) (t_dirty s)) cs)"
    using len by (intro those_map_Some) (simp add: index_def)
  have "set ?more \<subseteq> set cs" by (auto dest: set_zip_leftD)
  then have kids: "shaped (t_nodes s) h c'" if "c' \<in> set (rev ?more)" for c' using that n(2) by auto
  obtain os' where "dirty_walk s (rev ?more @ rest) = Some (os' @ os)" "set os' \<subseteq> {..<length (t_nodes s)}"
    using walk_some [OF Suc.IH [OF kids] Suc.prems(2)] by blast
  then show ?case using n(1) flags by (intro exI [of _ "c # os'"])
    (simp add: dirty_walk.simps [of s "c # rest"] node_at_def index_eq_Some)
qed

lemma charge_ok:
  assumes "\<forall>n. encode n \<noteq> None" "set pre \<subseteq> {..<length (t_nodes s)}" "length (t_dirty s) = length (t_nodes s)"
  shows "\<exists>bytes d. charge encode pre s = Some (bytes, s\<lparr>t_dirty := d\<rparr>) \<and> length d = length (t_nodes s)"
  using assms(2,3)
proof (induction pre arbitrary: s)
  case Nil
  then show ?case by (intro exI [of _ 0] exI [of _ "t_dirty s"]) simp
next
  case (Cons a pre)
  obtain p where p: "encode (node_as_record (t_nodes s ! a)) = Some p" using assms(1) by auto
  let ?s = "s\<lparr>t_dirty := (t_dirty s)[a := False]\<rparr>"
  obtain bytes d where "charge encode pre ?s = Some (bytes, ?s\<lparr>t_dirty := d\<rparr>)" "length d = length (t_nodes s)"
    using Cons.IH [of ?s] Cons.prems by auto
  then show ?case using p Cons.prems
    by (intro exI [of _ "RECORD_HEADER_SIZE + length p + bytes"] exI [of _ d]) (simp add: record_payload_len_def node_at_def index_def)
qed

lemma simulate_commit_ok:
  assumes inv: "betree_inv s" and enc: "\<forall>n. encode n \<noteq> None"
  shows "\<exists>c s'. simulate_commit encode s = Some (c, s') \<and> betree_inv s' \<and> betree_abs s' = betree_abs s \<and> SUPERBLOCK_SLOT_SIZE \<le> c"
proof -
  obtain h where h: "root_tree (t_params s) (t_nodes s) h (t_root s)" using inv by (auto simp: betree_inv_def)
  have len: "length (t_dirty s) = length (t_nodes s)" using inv by (simp add: betree_inv_def arena_ok_def)
  have "dirty_walk s [] = Some []" by (simp add: dirty_walk.simps)
  then obtain pre where pre: "dirty_walk s [t_root s] = Some pre" "set pre \<subseteq> {..<length (t_nodes s)}"
    using dirty_walk_shaped [OF len root_shaped [OF h]] by fastforce
  have root: "t_root s < length (t_nodes s)" using shaped_reach_bound [OF root_shaped [OF h] reach_self] .
  obtain pre' where pre': "(if t_dirty s ! t_root s then dirty_walk s [t_root s] else Some []) = Some pre'" "set pre' \<subseteq> {..<length (t_nodes s)}"
    using pre by (cases "t_dirty s ! t_root s") auto
  obtain bytes d where c: "charge encode pre' s = Some (bytes, s\<lparr>t_dirty := d\<rparr>)" "length d = length (t_nodes s)"
    using charge_ok [OF enc pre'(2) len] by blast
  let ?s = "s\<lparr>t_dirty := d, t_ops_since_commit := 0\<rparr>"
  have run: "simulate_commit encode s = Some (bytes + SUPERBLOCK_SLOT_SIZE, ?s)"
    using pre'(1) c(1) root len by (simp add: simulate_commit_def index_def)
  have "betree_inv ?s" using inv c(2) by (auto simp: betree_inv_def arena_ok_def)
  moreover have "betree_path ?s k = betree_path s k" for k using betree_path_eq [of ?s h k] betree_path_eq [OF h, of k] h by simp
  then have "betree_abs ?s = betree_abs s" by (simp add: betree_abs_def fun_eq_iff)
  ultimately show ?thesis using run by auto
qed

end
