(* ===== verification/Oracle.thy ===== *)
theory Oracle
  imports Workload BeTree_Fork
begin

text \<open>
  \<open>src/bin/oracle.rs\<close>: the hindsight oracle that measures how far the greedy flush policy is from the
  best choice of child. It forks trees, forces flush decisions on the forks through a scripted policy,
  charges simulated commits, and keeps the cheapest alternative at every sampled decision. The command
  line, the CSV and the decision log's file are not modelled; the encoder that the cost model charges by is
  an argument, as in \<open>simulate_commit\<close>.

  The driver and the policy share the script through an \<open>Rc<RefCell>\<close>; here the script is the state of the
  tree's policy, which the driver reads and writes between operations.
\<close>

unbundle bit_operations_syntax

section \<open>Workloads and sampling\<close>

definition parse_workload :: "string \<Rightarrow> (mix \<times> key_dist) option" where
  "parse_workload name =
     (if name = ''uniform-load'' then Some (Load, Uniform)
      else if name = ''zipfian-load'' then Some (Load, Zipfian)
      else if name = ''ycsb-a'' then Some (YcsbA, Uniform)
      else if name = ''ycsb-a-zipfian'' then Some (YcsbA, Zipfian)
      else if name = ''upsert-heavy'' then Some (UpsertHeavy, Uniform)
      else if name = ''ascending'' then Some (Load, Sequential)
      else None)"

definition sampled :: "u64 \<Rightarrow> u64 \<Rightarrow> u64 \<Rightarrow> bool" where
  "sampled seed g s =
     (if s \<le> 1 then True
      else (let z = seed XOR (g * 0x9E3779B97F4A7C15);
                z = (z XOR drop_bit 30 z) * 0xBF58476D1CE4E5B9;
                z = (z XOR drop_bit 27 z) * 0x94D049BB133111EB;
                z = z XOR drop_bit 31 z
            in z mod s = 0))"

section \<open>The scripted policy\<close>

record script_state =
  forced :: "nat list"
  cursor :: nat
  recorded :: "(flush_ctx \<times> nat) list"
  recording :: bool

definition script_default :: script_state where
  "script_default = \<lparr>forced = [], cursor = 0, recorded = [], recording = False\<rparr>"

definition scripted_choose :: "script_state \<Rightarrow> flush_ctx \<Rightarrow> nat \<times> script_state" where
  "scripted_choose st ctx =
     (let choice = (if cursor st < length (forced st) then forced st ! cursor st else pick (child_pending ctx));
          st = st\<lparr>cursor := cursor st + 1\<rparr>;
          st = (if recording st then st\<lparr>recorded := recorded st @ [(ctx, choice)]\<rparr> else st)
      in (choice, st))"

definition Scripted :: "script_state \<Rightarrow> script_state policy" where
  "Scripted st = \<lparr>policy_state = st, policy_choose = scripted_choose\<rparr>"

type_synonym sim_tree = "script_state betree"

definition fork_from :: "'p betree \<Rightarrow> sim_tree option" where
  "fork_from source = fork_for_sim (Scripted script_default) source"

definition script_of :: "sim_tree \<Rightarrow> script_state" where
  "script_of t = policy_state (t_policy t)"

definition set_script :: "script_state \<Rightarrow> sim_tree \<Rightarrow> sim_tree" where
  "set_script st t = t\<lparr>t_policy := (t_policy t)\<lparr>policy_state := st\<rparr>\<rparr>"

section \<open>Running operations\<close>

text \<open>\<open>u64::to_be_bytes\<close>.\<close>
definition to_be :: "u64 \<Rightarrow> u8 list" where
  "to_be w = rev (to_le 8 w)"

definition oracle_apply :: "work_op \<Rightarrow> u64 \<Rightarrow> 'p betree \<Rightarrow> 'p betree option" where
  "oracle_apply op op_index t =
     (case op of
        WInsert k \<Rightarrow> betree_insert (to_be k) (to_le 8 op_index) t
      | WRead k \<Rightarrow> do { (v, t) \<leftarrow> betree_get (to_be k) t; Some t }
      | WUpsertAdd k d \<Rightarrow> betree_upsert (to_be k) (Add d) t
      | WScan start n \<Rightarrow> do {
          (r, t) \<leftarrow> betree_scan (Included (to_be start)) (Excluded (to_be (start + n))) t;
          Some t
        })"

definition run_op :: "work_op \<Rightarrow> u64 \<Rightarrow> nat list \<Rightarrow> sim_tree \<Rightarrow> ((flush_ctx \<times> nat) list \<times> sim_tree) option" where
  "run_op op counter fcd t = do {
     let t = set_script ((script_of t)\<lparr>forced := fcd, cursor := 0, recorded := [], recording := True\<rparr>) t;
     t \<leftarrow> oracle_apply op counter t;
     let ds = recorded (script_of t);
     Some (ds, set_script ((script_of t)\<lparr>recording := False, recorded := []\<rparr>) t)
   }"

section \<open>Costs\<close>

text \<open>A commit is charged at every boundary of the interval; the remainder by zero panics.\<close>
definition boundary_commit :: "(disk_node \<Rightarrow> u8 list option) \<Rightarrow> u64 \<Rightarrow> u64 \<Rightarrow> 'p betree \<Rightarrow> (nat \<times> 'p betree) option" where
  "boundary_commit encode interval i t =
     (if interval = 0 then None else if (i + 1) mod interval = 0 then simulate_commit encode t else Some (0, t))"

text \<open>Operations \<open>i\<close>, \<open>i + 1\<close>, \<dots> with the commits between them.\<close>
fun span_cost :: "(disk_node \<Rightarrow> u8 list option) \<Rightarrow> u64 \<Rightarrow> nat \<Rightarrow> work_op list \<Rightarrow> 'p betree \<Rightarrow> (nat \<times> 'p betree) option" where
  "span_cost encode interval i [] t = Some (0, t)"
| "span_cost encode interval i (op # ops) t = do {
     t \<leftarrow> oracle_apply op (of_nat i) t;
     (c, t) \<leftarrow> boundary_commit encode interval (of_nat i) t;
     (cost, t) \<leftarrow> span_cost encode interval (Suc i) ops t;
     Some (c + cost, t)
   }"

definition run_cost :: "(disk_node \<Rightarrow> u8 list option) \<Rightarrow> work_op list \<Rightarrow> u64 \<Rightarrow> 'p betree \<Rightarrow> (nat \<times> 'p betree) option" where
  "run_cost encode ops interval t = do {
     (cost, t) \<leftarrow> span_cost encode interval 0 ops t;
     if interval = 0 then None
     else if (of_nat (length ops) :: u64) mod interval \<noteq> 0 then do {
       (c, t) \<leftarrow> simulate_commit encode t;
       Some (cost + c, t)
     }
     else Some (cost, t)
   }"

definition greedy_cost :: "(disk_node \<Rightarrow> u8 list option) \<Rightarrow> 'p betree \<Rightarrow> work_op list \<Rightarrow> u64 \<Rightarrow> (nat \<times> nat) option" where
  "greedy_cost encode start ops interval = do {
     t \<leftarrow> fork_for_sim GreedyFullest start;
     (cost, t) \<leftarrow> run_cost encode ops interval t;
     Some (cost, length (filter (\<lambda>e. case e of FlushDecision2 _ _ _ \<Rightarrow> True | _ \<Rightarrow> False) (v2 (t_trace t))))
   }"

definition scripted_cost :: "(disk_node \<Rightarrow> u8 list option) \<Rightarrow> 'p betree \<Rightarrow> work_op list \<Rightarrow> u64 \<Rightarrow> nat list \<Rightarrow> nat option" where
  "scripted_cost encode start ops interval script = do {
     t \<leftarrow> fork_from start;
     let t = set_script ((script_of t)\<lparr>forced := script\<rparr>) t;
     (cost, t) \<leftarrow> run_cost encode ops interval t;
     if cursor (script_of t) = length script then Some cost else None
   }"

section \<open>The oracle\<close>

record oracle_cfg =
  commit_interval :: u64
  sample_rate :: u64
  cfg_window :: u64
  cfg_seed :: u64

record alt_cost =
  alt_child :: nat
  window_cost :: nat

record log_record =
  r_op_index :: u64
  r_decision_index :: u64
  r_ctx :: flush_ctx
  r_alternatives :: "alt_cost list"
  r_chosen :: nat
  r_greedy_choice :: nat

record oracle_outcome =
  out_script :: "nat list"
  out_records :: "log_record list"

definition rollout_cost :: "(disk_node \<Rightarrow> u8 list option) \<Rightarrow> oracle_cfg \<Rightarrow> 'p betree \<Rightarrow> work_op list \<Rightarrow> nat \<Rightarrow> nat list \<Rightarrow> nat option" where
  "rollout_cost encode cfg pre ops i fcd = do {
     t \<leftarrow> fork_from pre;
     let t = set_script ((script_of t)\<lparr>forced := fcd\<rparr>) t;
     let end = min (i + 1 + unat (cfg_window cfg)) (length ops);
     (cost, t) \<leftarrow> span_cost encode (commit_interval cfg) i (drop i (take end ops)) t;
     (c, t) \<leftarrow> simulate_commit encode t;
     Some (cost + c)
   }"

text \<open>The first alternative of least cost; the greedy choice when it is one of them.\<close>
definition pick_argmin :: "alt_cost list \<Rightarrow> nat \<Rightarrow> nat option" where
  "pick_argmin alternatives greedy_choice =
     (if alternatives = [] then None
      else (let least = Min (set (map window_cost alternatives)) in
        if \<exists>a\<in>set alternatives. alt_child a = greedy_choice \<and> window_cost a = least then Some greedy_choice
        else map_option alt_child (List.find (\<lambda>a. window_cost a = least) alternatives)))"

text \<open>The unsampled decisions of a run, locked in up to the next sampled one.\<close>
fun lock_greedy :: "oracle_cfg \<Rightarrow> u64 \<Rightarrow> nat \<Rightarrow> (flush_ctx \<times> nat) list \<Rightarrow> nat list \<Rightarrow> nat list \<times> nat option" where
  "lock_greedy cfg counter j [] fixed = (fixed, None)"
| "lock_greedy cfg counter j ((ctx, choice) # ds) fixed =
     (if sampled (cfg_seed cfg) (counter + of_nat j) (sample_rate cfg) then (fixed, Some j)
      else lock_greedy cfg counter (Suc j) ds (fixed @ [choice]))"

text \<open>Every child with pending messages, forced next and rolled out.\<close>
definition alternatives_at :: "(disk_node \<Rightarrow> u8 list option) \<Rightarrow> oracle_cfg \<Rightarrow> 'p betree \<Rightarrow> work_op list \<Rightarrow> nat \<Rightarrow> nat list \<Rightarrow> flush_ctx \<Rightarrow>
    alt_cost list option" where
  "alternatives_at encode cfg pre ops i fixed ctx =
     those (map (\<lambda>(child, pending). do {
         cost \<leftarrow> rollout_cost encode cfg pre ops i (fixed @ [child]);
         Some \<lparr>alt_child = child, window_cost = cost\<rparr>
       }) (filter (\<lambda>(child, pending). pending > 0) (enumerate 0 (child_pending ctx))))"

text \<open>One operation, resolved decision by decision from the state before it.\<close>
partial_function (option) resolve_op :: "(disk_node \<Rightarrow> u8 list option) \<Rightarrow> oracle_cfg \<Rightarrow> 'p betree \<Rightarrow> work_op list \<Rightarrow> nat \<Rightarrow> u64 \<Rightarrow> nat list \<Rightarrow>
    log_record list \<Rightarrow> (sim_tree \<times> (flush_ctx \<times> nat) list \<times> log_record list) option" where
  "resolve_op encode cfg pre ops i counter fixed records = do {
     attempt \<leftarrow> fork_from pre;
     op \<leftarrow> index ops i;
     (ds, attempt) \<leftarrow> run_op op (of_nat i) fixed attempt;
     case lock_greedy cfg counter (length fixed) (drop (length fixed) ds) fixed of
       (fixed, None) \<Rightarrow> Some (attempt, ds, records)
     | (fixed, Some j) \<Rightarrow> do {
         (ctx, _) \<leftarrow> index ds j;
         let greedy = pick (child_pending ctx);
         alternatives \<leftarrow> alternatives_at encode cfg pre ops i fixed ctx;
         chosen \<leftarrow> pick_argmin alternatives greedy;
         resolve_op encode cfg pre ops i counter (fixed @ [chosen])
           (records @ [\<lparr>r_op_index = of_nat i, r_decision_index = counter + of_nat j, r_ctx = ctx, r_alternatives = alternatives,
              r_chosen = chosen, r_greedy_choice = greedy\<rparr>])
       }
   }"

record oracle_state =
  st_tree :: sim_tree
  st_checkpoint :: "unit betree"
  st_checkpoint_at :: nat
  st_counter :: u64
  st_script :: "nat list"
  st_records :: "log_record list"

definition improved_op :: "(disk_node \<Rightarrow> u8 list option) \<Rightarrow> oracle_cfg \<Rightarrow> work_op list \<Rightarrow> nat \<Rightarrow> oracle_state \<Rightarrow> oracle_state option" where
  "improved_op encode cfg ops i st = do {
     op \<leftarrow> index ops i;
     (ds, t) \<leftarrow> run_op op (of_nat i) [] (st_tree st);
     case List.find (\<lambda>j. sampled (cfg_seed cfg) (st_counter st + of_nat j) (sample_rate cfg)) [0..<length ds] of
       Some j0 \<Rightarrow> do {
         pre \<leftarrow> fork_for_sim GreedyFullest (st_checkpoint st);
         (_, pre) \<leftarrow> span_cost encode (commit_interval cfg) (st_checkpoint_at st) (drop (st_checkpoint_at st) (take i ops)) pre;
         (t, ds, records) \<leftarrow> resolve_op encode cfg pre ops i (st_counter st) (map snd (take j0 ds)) (st_records st);
         (_, t) \<leftarrow> boundary_commit encode (commit_interval cfg) (of_nat i) t;
         checkpoint \<leftarrow> fork_for_sim GreedyFullest t;
         Some \<lparr>st_tree = t, st_checkpoint = checkpoint, st_checkpoint_at = i + 1, st_counter = st_counter st + of_nat (length ds),
           st_script = st_script st @ map snd ds, st_records = records\<rparr>
       }
     | None \<Rightarrow> do {
         (_, t) \<leftarrow> boundary_commit encode (commit_interval cfg) (of_nat i) t;
         Some (st\<lparr>st_tree := t, st_counter := st_counter st + of_nat (length ds), st_script := st_script st @ map snd ds\<rparr>)
       }
   }"

fun improved_loop :: "(disk_node \<Rightarrow> u8 list option) \<Rightarrow> oracle_cfg \<Rightarrow> work_op list \<Rightarrow> nat list \<Rightarrow> oracle_state \<Rightarrow> oracle_state option" where
  "improved_loop encode cfg ops [] st = Some st"
| "improved_loop encode cfg ops (i # is) st = do {
     st \<leftarrow> improved_op encode cfg ops i st;
     improved_loop encode cfg ops is st
   }"

definition improved_run :: "(disk_node \<Rightarrow> u8 list option) \<Rightarrow> 'p betree \<Rightarrow> work_op list \<Rightarrow> oracle_cfg \<Rightarrow> oracle_outcome option" where
  "improved_run encode start ops cfg = do {
     t \<leftarrow> fork_from start;
     checkpoint \<leftarrow> fork_for_sim GreedyFullest start;
     st \<leftarrow> improved_loop encode cfg ops [0..<length ops]
             \<lparr>st_tree = t, st_checkpoint = checkpoint, st_checkpoint_at = 0, st_counter = 0, st_script = [], st_records = []\<rparr>;
     Some \<lparr>out_script = st_script st, out_records = st_records st\<rparr>
   }"

section \<open>What the oracle's runs do\<close>

fun work_effect :: "nat \<Rightarrow> work_op \<Rightarrow> (key \<rightharpoonup> val) \<Rightarrow> (key \<rightharpoonup> val)" where
  "work_effect i (WInsert k) f = op_effect (Insert2 (to_be k) (to_le 8 (of_nat i :: u64))) f"
| "work_effect i (WRead k) f = f"
| "work_effect i (WUpsertAdd k d) f = op_effect (Upsert2 (to_be k) (Add d)) f"
| "work_effect i (WScan k n) f = f"

fun works_effect :: "nat \<Rightarrow> work_op list \<Rightarrow> (key \<rightharpoonup> val) \<Rightarrow> (key \<rightharpoonup> val)" where
  "works_effect i [] f = f"
| "works_effect i (op # ops) f = works_effect (Suc i) ops (work_effect i op f)"

lemma oracle_apply_ok:
  assumes inv: "betree_inv t"
  shows "\<exists>t'. oracle_apply op (of_nat i) t = Some t' \<and> betree_inv t' \<and> betree_abs t' = work_effect i op (betree_abs t)"
proof -
  have trace: "betree_inv (t\<lparr>t_trace := r\<rparr>) \<and> betree_abs (t\<lparr>t_trace := r\<rparr>) = betree_abs t" if "v1_view r" for r
    using betree_inv_trace [OF inv that] betree_abs_trace [OF inv] by simp
  have v1: "v1_view (t_trace t)" using inv by (simp add: betree_inv_def arena_ok_def)
  show ?thesis
  proof (cases op)
    case (WInsert k)
    then show ?thesis using betree_apply_ok [OF inv, of "t_policy t" "Insert2 (to_be k) (to_le 8 (of_nat i :: u64))"]
      by (auto simp: oracle_apply_def BeTree_def)
  next
    case (WRead k)
    then show ?thesis using betree_get_ok [OF inv, of "to_be k"] trace v1 by (simp add: oracle_apply_def v1_view_intros)
  next
    case (WUpsertAdd k d)
    then show ?thesis using betree_apply_ok [OF inv, of "t_policy t" "Upsert2 (to_be k) (Add d)"]
      by (auto simp: oracle_apply_def BeTree_def)
  next
    case (WScan k n)
    then show ?thesis using betree_scan_ok [OF inv, of "Included (to_be k)" "Excluded (to_be (k + n))"] trace v1
      by (auto simp: oracle_apply_def v1_view_intros)
  qed
qed

lemma boundary_commit_ok:
  assumes "betree_inv t" "\<forall>n. encode n \<noteq> None" "interval \<noteq> 0"
  shows "\<exists>c t'. boundary_commit encode interval i t = Some (c, t') \<and> betree_inv t' \<and> betree_abs t' = betree_abs t"
  using assms simulate_commit_ok [OF assms(1,2)] by (auto simp: boundary_commit_def)

lemma span_cost_ok:
  assumes "betree_inv t" "\<forall>n. encode n \<noteq> None" "interval \<noteq> 0"
  shows "\<exists>c t'. span_cost encode interval i ops t = Some (c, t') \<and> betree_inv t' \<and> betree_abs t' = works_effect i ops (betree_abs t)"
  using assms(1)
proof (induction ops arbitrary: i t)
  case (Cons op ops)
  obtain t1 where t1: "oracle_apply op (of_nat i) t = Some t1" "betree_inv t1" "betree_abs t1 = work_effect i op (betree_abs t)"
    using oracle_apply_ok [OF Cons.prems] by blast
  obtain c t2 where t2: "boundary_commit encode interval (of_nat i) t1 = Some (c, t2)" "betree_inv t2" "betree_abs t2 = betree_abs t1"
    using boundary_commit_ok [OF t1(2) assms(2,3)] by blast
  from Cons.IH [OF t2(2), of "Suc i"] t1 t2 show ?case by auto
qed simp

lemma run_cost_ok:
  assumes "betree_inv t" "\<forall>n. encode n \<noteq> None" "interval \<noteq> 0"
  shows "\<exists>c t'. run_cost encode ops interval t = Some (c, t') \<and> betree_inv t' \<and> betree_abs t' = works_effect 0 ops (betree_abs t)"
proof -
  obtain c t' where t': "span_cost encode interval 0 ops t = Some (c, t')" "betree_inv t'" "betree_abs t' = works_effect 0 ops (betree_abs t)"
    using span_cost_ok [OF assms, of 0 ops] by blast
  show ?thesis using t' simulate_commit_ok [OF t'(2) assms(2)] assms(3) by (auto simp: run_cost_def)
qed

text \<open>C38. The oracle measures the tree it was given: a fork under any legal policy returns and holds the
  same map, running a workload on it with simulated commits at every boundary returns a cost and leaves the
  map that the operations spell out, and so does the greedy baseline; commits that are only simulated
  change no contents.\<close>

theorem oracle_run_faithful:
  assumes "betree_inv start" "policy_legal pol" "\<forall>n. encode n \<noteq> None" "interval \<noteq> 0"
  shows "\<exists>t cost t'. fork_for_sim pol start = Some t \<and> betree_abs t = betree_abs start \<and> run_cost encode ops interval t = Some (cost, t') \<and>
    betree_inv t' \<and> betree_abs t' = works_effect 0 ops (betree_abs start) \<and> (\<exists>base decisions. greedy_cost encode start ops interval = Some (base, decisions))"
proof -
  obtain t where t: "fork_for_sim pol start = Some t" "betree_inv t" "betree_abs t = betree_abs start" using fork_ok [OF assms(1,2)] by blast
  obtain u where u: "fork_for_sim GreedyFullest start = Some u" "betree_inv u" using fork_ok [OF assms(1) policy_legal_greedy] by blast
  show ?thesis using t u run_cost_ok [OF t(2) assms(3,4), of ops] run_cost_ok [OF u(2) assms(3,4), of ops] by (auto simp: greedy_cost_def)
qed

theorem oracle_run_faithful_witness:
  "\<exists>start t cost t'. betree_new default_params = Some start \<and> fork_for_sim GreedyFullest start = Some t \<and>
     run_cost (\<lambda>_. Some [0]) [WInsert 1, WRead 1] 1 t = Some (cost, t') \<and>
     betree_abs t' (to_be 1) = Some (to_le 8 (0 :: u64))"
proof -
  obtain start where s: "with_policy default_params GreedyFullest = Some start" "betree_inv start" "betree_abs start = Map.empty"
    using with_policy_ok [OF params_legal_default policy_legal_greedy] by blast
  from oracle_run_faithful [OF s(2) policy_legal_greedy, of "\<lambda>_. Some [0]" 1 "[WInsert 1, WRead 1]"] s(1,3)
  show ?thesis by (auto simp: betree_new_def)
qed

text \<open>C39. At a sampled decision the oracle takes an alternative of least window cost, and the greedy choice
  whenever that is one of least cost, so it never claims a disagreement without a saving.\<close>

theorem pick_argmin_least:
  assumes "alternatives \<noteq> []"
  shows "\<exists>a\<in>set alternatives. pick_argmin alternatives greedy = Some (alt_child a) \<and>
    (\<forall>b\<in>set alternatives. window_cost a \<le> window_cost b \<and>
       (alt_child b = greedy \<and> window_cost b = window_cost a \<longrightarrow> alt_child a = greedy))"
proof -
  let ?C = "set (map window_cost alternatives)"
  have min: "Min ?C \<in> ?C" "\<forall>b\<in>set alternatives. Min ?C \<le> window_cost b" using assms by (auto intro: Min_in)
  show ?thesis
  proof (cases "\<exists>a\<in>set alternatives. alt_child a = greedy \<and> window_cost a = Min ?C")
    case True
    then have "pick_argmin alternatives greedy = Some greedy" using assms by (simp add: pick_argmin_def Let_def)
    then show ?thesis using True min(2) by (metis)
  next
    case False
    obtain a where a: "List.find (\<lambda>a. window_cost a = Min ?C) alternatives = Some a"
      using min(1) by (cases "List.find (\<lambda>a. window_cost a = Min ?C) alternatives") (auto simp: find_None_iff)
    then have "a \<in> set alternatives" "window_cost a = Min ?C" by (auto simp: find_Some_iff)
    then show ?thesis using a False min(2) assms by (intro bexI [of _ a]) (auto simp: pick_argmin_def)
  qed
qed

theorem pick_argmin_least_witness:
  "\<exists>a\<in>set [\<lparr>alt_child = 0, window_cost = 9\<rparr>, \<lparr>alt_child = 2, window_cost = 5\<rparr>, \<lparr>alt_child = 3, window_cost = 5\<rparr>].
     pick_argmin [\<lparr>alt_child = 0, window_cost = 9\<rparr>, \<lparr>alt_child = 2, window_cost = 5\<rparr>, \<lparr>alt_child = 3, window_cost = 5\<rparr>] 3 =
       Some (alt_child a) \<and> window_cost a \<le> 5"
  using pick_argmin_least [of "[\<lparr>alt_child = 0, window_cost = 9\<rparr>, \<lparr>alt_child = 2, window_cost = 5\<rparr>, \<lparr>alt_child = 3, window_cost = 5\<rparr>]" 3]
  by auto

end
