(* ===== verification/Spec2Isabelle.thy ===== *)
theory Spec2Isabelle
  imports Naive Check_Correct Disk_Refine Oracle
begin

text \<open>
  A verification development for \<open>beetree\<close>, a write-optimised key-value store in Rust: a
  B-epsilon-tree whose internal nodes buffer messages, in memory (\<open>src/betree.rs\<close>) and on disk
  (\<open>src/disk.rs\<close>), with a reference engine, an invariant checker, traces, and a crash-injection
  device to test the commit protocol against.

  \<^bold>\<open>Parts and theories.\<close>
  \<^item> \<open>Prelude\<close>, \<open>Ordered_Map\<close>: machine types, slices, little-endian integers; \<open>BTreeMap\<close> as a sorted
    association list, with the locale \<open>ordered_map\<close>.
  \<^item> \<open>Types\<close> (\<open>src/types.rs\<close>): upserts, messages and their coalescing, parameters, violations.
    \<open>Node\<close> (\<open>src/node.rs\<close>): nodes, routing, delivering messages, bound clipping, split sizes.
  \<^item> \<open>Trace\<close> (\<open>src/trace.rs\<close>): both trace vocabularies, JSON-lines framing, replay. \<open>Engine\<close>
    (\<open>src/engine.rs\<close>): the trait as a record of methods, its promises as the locale \<open>kv_engine\<close>.
    \<open>Policy\<close> (\<open>src/policy.rs\<close>): flush policies, the locale \<open>flush_policy\<close> and the greedy instance.
  \<^item> \<open>Naive\<close> (\<open>src/naive.rs\<close>): the reference engine. \<open>Check\<close>, \<open>Check_Correct\<close> (\<open>src/check.rs\<close>): the
    invariant checker as a walk over explicit frames, and that it accepts every legal tree.
  \<^item> \<open>BeTree\<close> (\<open>src/betree.rs\<close>): the in-memory engine over an arena of nodes. \<open>Arena\<close> states what a legal
    subtree is (\<open>tree\<close>: invariants I1, I2 and I4 to I7, no sharing), what a key's path through it holds
    (\<open>occ\<close>) and its value (\<open>path_value\<close>); \<open>Arena_Step\<close>, \<open>Arena_Split\<close>, \<open>Arena_Flush\<close>, \<open>Arena_Run\<close> and
    \<open>Arena_Root\<close> show that delivering, splitting, flushing and settling the root return and keep both;
    \<open>BeTree_Correct\<close>, \<open>BeTree_Scan\<close> and \<open>BeTree_Engine\<close> draw the conclusions for the operations.
  \<^item> \<open>Format\<close> (\<open>src/format.rs\<close>): superblock slots and node records. \<open>Vfs\<close>, \<open>Vfs_Crash\<close> (\<open>src/vfs.rs\<close>):
    the storage trait with its contract as the locale \<open>vfs\<close>, the crash-injection device \<open>FaultyVfs\<close>
    and the counting wrapper.
  \<^item> \<open>Disk_State\<close>, \<open>Disk\<close> (\<open>src/disk.rs\<close>): the disk engine, its arena of slots, bounded cache, tree
    machinery, operations, commit, creation and recovery. \<open>Disk_Invariant\<close> is the locale
    \<open>slot_invariant\<close>: what a handful of primitives keep, every operation keeps; \<open>Disk_Cache\<close>, \<open>Disk_Run\<close>
    and \<open>Disk_File\<close> instantiate it with the cache accounting, the poison mark, the untouched device and
    the offsets of records. \<open>Disk_File\<close> says what a file holds (\<open>stored\<close>) and what an engine over it
    holds (\<open>holds\<close>); \<open>Disk_Commit\<close> is the commit protocol under crashes; \<open>Disk_Crash\<close> the life of an engine
    over many commits; \<open>Codec_Example\<close> a concrete codec; \<open>Disk_Properties\<close> the properties.
  \<^item> \<open>Disk_Sim\<close> relates the disk engine to the in-memory one: a live node of the arena is a slot or a record
    of the file, and the two show the same node (\<open>sim\<close>). \<open>Disk_Sim_Tree\<close> (splits, one parent per node),
    \<open>Disk_Sim_Flush\<close>, \<open>Disk_Sim_Run\<close> (the flush and settle loops) and \<open>Disk_Sim_Ops\<close> (the operations, \<open>in_step\<close>)
    show in the locale \<open>node_store\<close> that where the in-memory operation returns, the disk operation returns the
    same without a storage error, whatever is evicted and loaded again on the way. \<open>Disk_Sim_Walk\<close> and
    \<open>Disk_Sim_Commit\<close> do so for commits: children are written before their parents, every record names its
    children's final offsets, and the committed file is an image of the tree.
  \<^item> \<open>Disk_Map\<close> interprets \<open>node_store\<close> on the file and says which map an engine and a file hold;
    \<open>Disk_Durable\<close> pairs the current map with the one a crash would recover; \<open>Disk_Refine\<close> states the
    abstract machine \<open>durable_map\<close> and, through the locale \<open>step_refinement\<close>, that every run of the disk
    engine, crashes included, is a run of it.
  \<^item> \<open>Workload\<close> (\<open>src/workload.rs\<close>): the random generator and the operation streams. \<open>BeTree_Fork\<close>: forks and
    simulated commits of the in-memory tree. \<open>Oracle\<close> (\<open>src/bin/oracle.rs\<close>): the hindsight oracle that
    forces flush decisions on forks and keeps the cheapest.

  \<^bold>\<open>Conventions.\<close> A panic, a failed \<open>assert!\<close> and a call that does not return
  are \<^const>\<open>None\<close> of the option monad; every loop whose end is not evident is a
  \<^theory_text>\<open>partial_function (option)\<close>, and that an operation returns is part of its
  theorem, not of its definition. A Rust error is \<^const>\<open>Inl\<close> with the state as the error left
  it. \<open>debug_assert!\<close> is not modelled (release semantics). Sequence numbers, generations and
  superblock fields are \<open>64 word\<close> and wrap; file offsets, byte counts, counters and arena indices
  are natural numbers, since no file and no arena reaches \<open>2 ^ 64\<close>; where a theorem needs that,
  it says so. The same holds of the skip count of an armed sync failure and of the oracle's window and costs.
  A line of a trace is blank when it is ASCII white space, which is all that JSON lines can hold outside
  strings. The trait record of the in-memory tree carries the policy that \<open>with_policy\<close> is given;
  \<open>KvEngine::new\<close> is the case of the greedy one. Explicit stacks are lists with the top first.
  There is no fuel anywhere.

  \<^bold>\<open>Code that is not part of the crate.\<close> The serialiser \<open>bincode\<close> and the checksum \<open>crc32fast\<close> are the
  fields of a \<open>codec\<close> that the definitions take as an argument, \<open>serde_json\<close> the argument of the trace
  framing. What is relied on is stated per object: \<open>superblock_codec_ok\<close> and \<open>node_codec_ok\<close> (what was
  encoded is decoded again), \<open>torn_detected\<close> (a slot of which a crash kept a prefix, or zeros, does not
  decode to a third superblock). The rank of a Zipfian draw is computed with \<open>powf\<close>, whose precision the
  language leaves open: it is an argument, of which nothing is assumed.

  \<^bold>\<open>Policies.\<close> The in-memory theorems hold for every policy that picks a child with pending messages. The
  ones that compare two engines also ask that the choice does not depend on the number of the node
  (\<open>blind\<close>), since a slot and an arena index for the same node differ; the greedy policy is such a policy.
  Draining leaves a dirty node below a clean parent, so the theorems on commits are about lives without
  it (\<open>grey\<close>); the drained map itself is the same.

  \<^bold>\<open>What is shown.\<close> For the in-memory tree: every operation returns, keeps the invariants
  under any legal flush policy and refines a map; reads and scans give the map's contents; draining ends and
  empties every buffer at every depth; replaying the trace of any calls, reads included, rebuilds the
  contents; the reference engine agrees; the checker raises no false alarm. For the device: a sync makes the
  pending changes durable, and so the view where no sync has failed; history is fixed, pending writes may land
  in any order. For the disk engine: opening and reading never panic on any file; the cache accounts exactly
  and evicts only clean, unpinned nodes; nothing is written between commits; a failed commit is final; a
  commit is atomic under crashes; nothing acknowledged is lost over any life of an engine; every write, read
  and scan acts on the engine's map, and a commit makes that map the one that is recovered. For the oracle: a
  fork under any legal policy holds the same map, a run of a workload on it returns a cost and leaves the map
  that the operations spell out, and the alternative that is kept is of least cost, the greedy one where that
  is least. For workloads: every key and operation of a stream is legal for its keyspace and mix.

  \<^bold>\<open>Not modelled.\<close> \<open>FileVfs\<close>, \<open>proc_self_io\<close> and the constructors on paths (they only call the operating
  system), \<open>Debug\<close> and \<open>Display\<close> texts, the floating-point part of the Zipfian distribution (\<open>zeta\<close>, the rank,
  \<open>hottest_probability\<close>), the command line and output files of the oracle, the benchmark binary (timing and
  printing around the engines), examples and tests.
\<close>

section \<open>A concrete tree\<close>

text \<open>A small tree with a message above the leaves, on which the properties are instantiated.\<close>
definition sample_tree :: "unit betree" where
  "sample_tree = \<lparr>t_params = \<lparr>fanout = 2, buffer_capacity = 2, leaf_capacity = 2\<rparr>,
     t_nodes = [Leaf [([1], \<lparr>entry_seq = 1, entry_value = [7]\<rparr>)], Leaf [([5], \<lparr>entry_seq = 2, entry_value = [8]\<rparr>)],
       Internal [[5]] [0, 1] [([1], Delete 4), ([3], Put 3 [9])]],
     t_dirty = [True, True, True], t_root = 2, t_next_seq = 4, t_ops_since_commit = 4,
     t_policy = GreedyFullest, t_trace = recorder_default\<rparr>"

lemma sample_root: "root_tree (t_params sample_tree) (t_nodes sample_tree) 1 (t_root sample_tree)"
  by (simp add: sample_tree_def root_tree_def leaf_ok_def buffer_ok_def bt_ok_def in_range_def strictly_in_def
      tree.simps(2) reach.simps(2))

lemma sample_inv: "betree_inv sample_tree"
  unfolding betree_inv_def using sample_root
  by (auto simp: sample_tree_def arena_ok_def params_legal_def v1_view_default intro!: exI [of _ 1])

lemma sample_path: "betree_path sample_tree k = occ (t_nodes sample_tree) 1 (t_root sample_tree) k"
  by (rule betree_path_eq [OF sample_root])

lemma sample_fresh: "betree_fresh sample_tree"
  unfolding betree_fresh_def sample_path
  by (auto simp: sample_tree_def occ.simps(2) route_Cons fresh_seqs_def)

lemma sample_abs: "betree_abs sample_tree [3] = Some [9]" "betree_abs sample_tree [1] = None"
  unfolding betree_abs_def sample_path by (simp_all add: sample_tree_def occ.simps(2) route_Cons)

section \<open>The in-memory engine\<close>

text \<open>C2. Every mutating operation of the tree returns (no panic, no endless flush or settle loop),
  keeps the structural invariant I1, I2, I4--I7, and acts on the abstract map as the operation says,
  whatever legal policy chooses the children to flush and even when the sequence counter wraps.\<close>

theorem betree_op_refines_map:
  assumes "betree_inv s"
  shows "\<exists>s'. kv_apply (BeTree pol) op s = Some s' \<and> betree_inv s' \<and> betree_abs s' = op_effect op (betree_abs s)"
  using betree_apply_ok [OF assms, of pol op] by blast

theorem betree_op_refines_map_witness:
  "betree_inv sample_tree \<and>
     (\<exists>s'. kv_apply (BeTree GreedyFullest) (Upsert2 [1] (Add 5)) sample_tree = Some s' \<and> betree_inv s' \<and>
       betree_abs s' = op_effect (Upsert2 [1] (Add 5)) (betree_abs sample_tree))"
  using betree_op_refines_map [OF sample_inv] sample_inv by blast

text \<open>C6. A point read returns the value of the abstract map: the chain of upserts met on the way down is
  folded onto the first put, delete or leaf entry. It changes nothing but the trace, which gets the read
  at its end: no sequence number is consumed, no operation counted, no node touched.\<close>

theorem betree_get_reads_map:
  assumes "betree_inv s"
  shows "betree_get k s = Some (betree_abs s k, s\<lparr>t_trace := rec_get k (t_trace s)\<rparr>) \<and>
    betree_inv (s\<lparr>t_trace := rec_get k (t_trace s)\<rparr>) \<and> betree_abs (s\<lparr>t_trace := rec_get k (t_trace s)\<rparr>) = betree_abs s"
  using betree_get_ok [OF assms, of k] betree_abs_trace [OF assms] betree_inv_trace [OF assms] assms
  by (auto simp: betree_inv_def arena_ok_def v1_view_intros)

theorem betree_get_reads_map_witness:
  "betree_inv sample_tree \<and> (\<exists>s'. betree_get [3] sample_tree = Some (Some [9], s') \<and> t_next_seq s' = t_next_seq sample_tree)"
  using betree_get_reads_map [OF sample_inv, of "[3]"] sample_inv by (auto simp: sample_abs)

text \<open>C7. A range scan returns, in strictly ascending key order and without duplicates, exactly the
  bindings of the abstract map whose keys lie within the bounds, for every pair of bounds, empty
  and inverted ranges included.\<close>

theorem betree_scan_exact:
  assumes "betree_inv s"
  shows "\<exists>r s'. betree_scan lo hi s = Some (Inr r, s') \<and> sorted_wrt (<) (map fst r) \<and>
    (\<forall>k v. (k, v) \<in> set r \<longleftrightarrow> in_bounds lo hi k \<and> betree_abs s k = Some v)"
proof -
  obtain r where r: "betree_scan lo hi s = Some (Inr r, s\<lparr>t_trace := rec_scan lo hi (t_trace s)\<rparr>)" "bt_ok r"
    "\<forall>k. map_of r k = (if in_bounds lo hi k then betree_abs s k else None)"
    using betree_scan_ok [OF assms, of lo hi] by blast
  have "(k, v) \<in> set r \<longleftrightarrow> in_bounds lo hi k \<and> betree_abs s k = Some v" for k v
    using r(2,3) bt_get_in [OF r(2), of k v] bt_get_Some_in [of r k v] by (auto split: if_splits)
  then show ?thesis using r(1,2) by (auto simp: bt_ok_def)
qed

theorem betree_scan_exact_witness:
  "betree_inv sample_tree \<and>
     (\<exists>r s'. betree_scan Unbounded (Excluded [5]) sample_tree = Some (Inr r, s') \<and> ([3], [9]) \<in> set r \<and>
       [1] \<notin> fst ` set r)"
proof -
  have "in_bounds Unbounded (Excluded [5]) [3 :: u8]" by (simp add: in_bounds_def)
  with betree_scan_exact [OF sample_inv, of Unbounded "Excluded [5]"] sample_abs sample_inv show ?thesis by fastforce
qed

text \<open>C8. Freshness (I3): as long as the 64-bit sequence counter does not wrap, every operation keeps
  the sequence numbers strictly decreasing along every root-to-leaf path and below the counter.\<close>

theorem betree_op_keeps_freshness:
  assumes "betree_inv s" "betree_fresh s" "t_next_seq s < t_next_seq s + 1"
  shows "\<exists>s'. kv_apply (BeTree pol) op s = Some s' \<and> betree_fresh s' \<and> t_next_seq s' = t_next_seq s + 1"
  using betree_apply_ok [OF assms(1), of pol op] assms(2,3) by blast

theorem betree_op_keeps_freshness_witness:
  "betree_fresh sample_tree \<and>
     (\<exists>s'. kv_apply (BeTree GreedyFullest) (Insert2 [9] []) sample_tree = Some s' \<and> betree_fresh s' \<and> t_next_seq s' = 5)"
proof -
  have "t_next_seq sample_tree = 4" by (simp add: sample_tree_def)
  with betree_op_keeps_freshness [OF sample_inv sample_fresh, of GreedyFullest "Insert2 [9] []"] sample_fresh
  show ?thesis by auto
qed

lemma live_reach:
  assumes "root_tree (t_params s) (t_nodes s) h (t_root s)"
  shows "live s \<subseteq> set (reach (t_nodes s) h (t_root s)) \<and> (\<forall>a\<in>set (reach (t_nodes s) h (t_root s)). a < length (t_nodes s))"
proof -
  let ?R = "set (reach (t_nodes s) h (t_root s))"
  have sh: "shaped (t_nodes s) h (t_root s)" using root_shaped [OF assms] .
  have bound: "\<forall>a\<in>?R. a < length (t_nodes s)" using shaped_reach_bound [OF sh] by blast
  have "live s \<subseteq> ?R"
  proof (rule live_least)
    show "set (kids (t_nodes s ! a)) \<subseteq> ?R" if "a \<in> ?R" for a
      using reach_kids [OF that sh] bound that by (cases "t_nodes s ! a") (auto simp: index_eq_Some)
  qed (rule reach_self)
  with bound show ?thesis by blast
qed

text \<open>C11. Draining returns and leaves no message in any buffer: every node that can be reached from the
  root over children, however deep, is a leaf or has an empty buffer. The code's own probe agrees, and
  neither the abstract map nor the sequence counter changes.\<close>

theorem betree_drain_empties_buffers:
  assumes "betree_inv s"
  shows "\<exists>s'. drain s = Some s' \<and> betree_inv s' \<and> betree_abs s' = betree_abs s \<and>
    (\<forall>a\<in>live s'. a < length (t_nodes s') \<and> (case t_nodes s' ! a of Leaf es \<Rightarrow> True | Internal ps cs b \<Rightarrow> b = [])) \<and>
    subtree_has_messages s' (t_root s') = Some False \<and> t_next_seq s' = t_next_seq s"
proof -
  obtain s' h where s': "drain s = Some s'" "betree_inv s'" "betree_abs s' = betree_abs s"
    "subtree_has_messages s' (t_root s') = Some False" "t_next_seq s' = t_next_seq s"
    and rt: "root_tree (t_params s') (t_nodes s') h (t_root s')" and w: "weight (t_nodes s') h (t_root s') = 0"
    using drain_ok [OF assms] by blast
  note live = live_reach [OF rt]
  have "case t_nodes s' ! a of Leaf es \<Rightarrow> True | Internal ps cs b \<Rightarrow> b = []" if "a \<in> live s'" for a
    using weightless_buffers [OF root_shaped [OF rt] w, of a] live that by (auto simp: index_eq_Some split: node.split)
  with s' live show ?thesis by blast
qed

theorem betree_drain_empties_buffers_witness:
  "t_nodes sample_tree ! t_root sample_tree = Internal [[5]] [0, 1] [([1], Delete 4), ([3], Put 3 [9])] \<and>
     (\<exists>s'. drain sample_tree = Some s' \<and> (\<forall>a\<in>live s'. \<forall>ps cs b. t_nodes s' ! a = Internal ps cs b \<longrightarrow> b = []) \<and>
       betree_abs s' [3] = Some [9])"
proof -
  have "t_nodes sample_tree ! t_root sample_tree = Internal [[5]] [0, 1] [([1], Delete 4), ([3], Put 3 [9])]"
    by (simp add: sample_tree_def)
  moreover obtain s' where "drain sample_tree = Some s'" "betree_abs s' = betree_abs sample_tree"
    "\<forall>a\<in>live s'. case t_nodes s' ! a of Leaf es \<Rightarrow> True | Internal ps cs b \<Rightarrow> b = []"
    using betree_drain_empties_buffers [OF sample_inv] by blast
  ultimately show ?thesis using sample_abs by (intro conjI exI [of _ s']) auto
qed

text \<open>C12. Replaying the complete trace of a tree rebuilds its contents: whatever a client called on the
  tree, mutations, point reads, range scans and drains in any order, under any legal policy, the calls
  return, and replaying the recorded events, reads and flush decisions among them, gives a legal tree with
  the same map.\<close>

theorem betree_replay_rebuilds:
  assumes "with_policy p pol = Some e0" "policy_legal pol"
  shows "\<exists>e e'. run_events betree_step calls e0 = Some e \<and>
    replay2 (BeTree GreedyFullest) p (kv_trace2 (BeTree pol) e) = Some e' \<and> betree_inv e' \<and> betree_abs e' = betree_abs e"
proof -
  have p: "params_legal p" using assms(1) by (auto simp: with_policy_def params_legal_def split: if_split_asm)
  have e0: "betree_inv e0" "betree_abs e0 = Map.empty" "v2 (t_trace e0) = []" using with_policy_ok [OF p assms(2)] assms(1) by auto
  then obtain e where e: "run_events betree_step calls e0 = Some e"
    "betree_abs e = ops_effect (trace_ops (v2 (t_trace e))) Map.empty"
    using betree_steps_ok [OF e0(1), of calls] by auto
  with betree.replay2_ok [OF p, of "v2 (t_trace e)"] show ?thesis by (auto simp: BeTree_def)
qed

theorem betree_replay_rebuilds_witness:
  "\<exists>e0 e e'. betree_new default_params = Some e0 \<and>
     run_events betree_step [Call (Mutate (Insert2 [1] [2])), Call (Range Unbounded Unbounded), Drain, Call (Read [1])] e0 = Some e \<and>
     Get2 [1] \<in> set (kv_trace2 (BeTree GreedyFullest) e) \<and>
     replay2 (BeTree GreedyFullest) default_params (kv_trace2 (BeTree GreedyFullest) e) = Some e' \<and> betree_abs e' = betree_abs e"
proof -
  let ?calls = "[Call (Mutate (Insert2 [1] [2])), Call (Range Unbounded Unbounded), Drain]"
  obtain e0 where e0: "with_policy default_params GreedyFullest = Some e0" "betree_inv e0" "betree_abs e0 = Map.empty" "v2 (t_trace e0) = []"
    using with_policy_ok [OF params_legal_default policy_legal_greedy] by blast
  obtain d where d: "run_events betree_step ?calls e0 = Some d" "betree_inv d"
    using betree_steps_ok [OF e0(2), of ?calls] e0(3,4) by auto
  have get: "betree_step (Call (Read [1])) d = Some (d\<lparr>t_trace := rec_get [1] (t_trace d)\<rparr>)"
    using betree_get_ok [OF d(2), of "[1]"] by (simp add: BeTree_def)
  have run: "run_events betree_step (?calls @ [Call (Read [1])]) e0 = Some (d\<lparr>t_trace := rec_get [1] (t_trace d)\<rparr>)"
    using d(1) get by (auto simp del: betree_step.simps elim!: bind_SomeE)
  from betree_replay_rebuilds [OF e0(1) policy_legal_greedy, of "?calls @ [Call (Read [1])]"] e0(1) run show ?thesis
    by (auto simp: betree_new_def BeTree_def rec_get_def simp del: betree_step.simps)
qed

text \<open>C13. Driven by the same operations, the tree and the reference engine answer every point read
  and every range scan alike.\<close>

theorem betree_agrees_with_naive:
  assumes "params_legal p"
  shows "\<exists>t0 t n0 n. kv_new (BeTree GreedyFullest) p = Some t0 \<and> kv_new NaiveEngine p = Some n0 \<and>
    run_events (kv_apply (BeTree GreedyFullest)) ops t0 = Some t \<and> run_events (kv_apply NaiveEngine) ops n0 = Some n \<and>
    (\<forall>k. map_option fst (betree_get k t) = map_option fst (naive_get k n)) \<and>
    (\<forall>lo hi. map_option fst (betree_scan lo hi t) = map_option fst (naive_scan lo hi n))"
proof -
  obtain t0 where t0: "kv_new (BeTree GreedyFullest) p = Some t0" "betree_inv t0" "betree_abs t0 = Map.empty"
    using betree.new_ok [OF assms] by blast
  obtain n0 where n0: "kv_new NaiveEngine p = Some n0" "naive_inv n0" "naive_abs n0 = Map.empty"
    using naive.new_ok [OF assms] by blast
  obtain t where t: "run_events (kv_apply (BeTree GreedyFullest)) ops t0 = Some t" "betree_inv t"
    "betree_abs t = ops_effect ops Map.empty" using betree.run_ops_ok [OF t0(2), of ops] t0(3) by metis
  obtain n where n: "run_events (kv_apply NaiveEngine) ops n0 = Some n" "naive_inv n"
    "naive_abs n = ops_effect ops Map.empty" using naive.run_ops_ok [OF n0(2), of ops] n0(3) by metis
  have get: "map_option fst (betree_get k t) = map_option fst (naive_get k n)" for k
    using betree_get_ok [OF t(2), of k] t(3) n(3) by (simp add: naive_get_def naive_abs_def fun_eq_iff)
  have scan: "map_option fst (betree_scan lo hi t) = map_option fst (naive_scan lo hi n)" for lo hi
  proof -
    obtain r where r: "betree_scan lo hi t = Some (Inr r, t\<lparr>t_trace := rec_scan lo hi (t_trace t)\<rparr>)" "bt_ok r"
      "\<forall>k. map_of r k = (if in_bounds lo hi k then betree_abs t k else None)"
      using betree_scan_ok [OF t(2)] by blast
    obtain r' n' where r': "naive_scan lo hi n = Some (Inr r', n')" "bt_ok r'"
      "\<forall>k. map_of r' k = (if in_bounds lo hi k then naive_abs n k else None)"
      using naive.scan_ok [OF n(2), of lo hi] by (auto simp: NaiveEngine_def)
    have "r = r'" by (rule bt_ok_unique [OF r(2) r'(2)]) (use r(3) r'(3) t(3) n(3) in auto)
    with r(1) r'(1) show ?thesis by simp
  qed
  show ?thesis using t0(1) n0(1) t(1) n(1) get scan by blast
qed

theorem betree_agrees_with_naive_witness:
  "\<exists>t0 t n0 n. kv_new (BeTree GreedyFullest) default_params = Some t0 \<and> kv_new NaiveEngine default_params = Some n0 \<and>
    run_events (kv_apply (BeTree GreedyFullest)) [Insert2 [1] [2]] t0 = Some t \<and>
    run_events (kv_apply NaiveEngine) [Insert2 [1] [2]] n0 = Some n \<and>
    map_option fst (betree_get [1] t) = map_option fst (naive_get [1] n)"
  using betree_agrees_with_naive [OF params_legal_default, of "[Insert2 [1] [2]]"] by blast

text \<open>C14. A legal tree is as tall as its leftmost spine, and all of its leaves lie at that depth (I6).\<close>

theorem betree_height_uniform:
  assumes "betree_inv s"
  shows "\<exists>h. height s = Some (Suc h) \<and> root_tree (t_params s) (t_nodes s) h (t_root s)"
  using assms height_root by (auto simp: betree_inv_def)

theorem betree_height_uniform_witness: "height sample_tree = Some 2 \<and> betree_inv sample_tree"
proof -
  from betree_height_uniform [OF sample_inv] obtain h where "height sample_tree = Some (Suc h)" by blast
  with height_root [OF sample_root] sample_inv show ?thesis by simp
qed

text \<open>C15. The shared invariant checker returns without a report on every tree that satisfies the
  invariants, so a violation it reports is one: no false alarm, no panic and no endless walk.\<close>

theorem checker_accepts_legal:
  assumes "betree_inv s" "betree_fresh s" "the (height s) \<le> usize_max"
  shows "betree_check_invariants s = Some (Inr ())"
  using betree_check_accepts [OF assms] .

theorem checker_accepts_legal_witness: "betree_check_invariants sample_tree = Some (Inr ())"
  by (rule checker_accepts_legal [OF sample_inv sample_fresh])
    (simp add: height_root [OF sample_root] usize_max_def)

section \<open>Messages, nodes and policies\<close>

text \<open>C16. Coalescing a newer message onto an older one for the same key has the effect of running the
  older, then the newer, on whatever value lies below; the result carries the newer sequence number.\<close>

theorem coalesce_runs_both:
  "msg_effect (coalesce newer older) v = msg_effect newer (msg_effect older v) \<and>
     msg_seq (coalesce newer older) = msg_seq newer"
  by (simp add: msg_effect_coalesce)

text \<open>C17. Coalescing is associative, so the order in which neighbouring messages of a key meet on
  their way down does not matter.\<close>

theorem coalesce_order_irrelevant: "coalesce (coalesce a b) c = coalesce a (coalesce b c)"
  by (rule coalesce_assoc)

text \<open>C18. An upsert writes 8 little-endian bytes that read back as the old 8-byte value (0 for an
  absent value or one of another length) plus the delta, modulo \<open>2 ^ 64\<close>.\<close>

theorem upsert_adds_modulo:
  "length (upsert_apply (Add d) v) = 8 \<and>
     uint (from_le (upsert_apply (Add d) v) :: 64 word) =
       (uint (case v of Some bytes \<Rightarrow> if length bytes = 8 then from_le bytes else 0 | None \<Rightarrow> (0 :: 64 word)) + uint d) mod 2 ^ 64"
  by (simp add: from_le_upsert_apply uint_word_ariths)

text \<open>C19. Splitting ends for every legal capacity: the sizes sum to the occupancy, none is zero or
  above the capacity, and there are at least two when the node was overfull.\<close>

theorem split_sizes_legal:
  assumes "1 \<le> cap" "1 \<le> n"
  shows "\<exists>sz. partition_sizes n cap = Some sz \<and> sum_list sz = n \<and> (\<forall>x\<in>set sz. 1 \<le> x \<and> x \<le> cap) \<and>
    (cap < n \<longrightarrow> 2 \<le> length sz)"
  using partition_sizes_total [OF assms(1), of n] assms(2) by blast

theorem split_sizes_legal_witness:
  "\<exists>sz. partition_sizes 5 2 = Some sz \<and> sum_list sz = 5 \<and> 2 \<le> length sz"
  using split_sizes_legal [of 2 5] by auto

text \<open>C20. The baseline policy picks a child with the most pending messages, the lowest such index, and
  so a legal target whenever anything is pending.\<close>

theorem greedy_picks_fullest:
  assumes "has_pending (child_pending ctx)"
  shows "legal_target (child_pending ctx) (fst (greedy_choose st ctx)) \<and>
    (\<forall>j<length (child_pending ctx). child_pending ctx ! j \<le> child_pending ctx ! fst (greedy_choose st ctx)) \<and>
    (\<forall>j<fst (greedy_choose st ctx). child_pending ctx ! j < child_pending ctx ! fst (greedy_choose st ctx))"
proof -
  have "child_pending ctx \<noteq> []" using assms by (auto simp: has_pending_def)
  from pick_fullest [OF this] pick_legal [OF assms] show ?thesis by (simp add: greedy_choose_def)
qed

theorem greedy_picks_fullest_witness:
  "legal_target [1, 3, 3] (fst (greedy_choose () \<lparr>ctx_node = 0, ctx_depth = 0, child_pending = [1, 3, 3],
     child_pending_bytes = [], child_dirty = [], buffer_total = 7, ctx_ops_since_commit = 0\<rparr>))"
  using greedy_picks_fullest [of "\<lparr>ctx_node = 0, ctx_depth = 0, child_pending = [1, 3, 3], child_pending_bytes = [],
     child_dirty = [], buffer_total = 7, ctx_ops_since_commit = 0\<rparr>" "()"]
  by (simp add: has_pending_def)

text \<open>C21. The check before every \<open>BTreeMap::range\<close> call excludes its panics, and a range it calls empty
  holds no key.\<close>

theorem range_check_sound:
  "(if range_is_empty lo hi then \<forall>k. \<not> in_bounds lo hi k
    else bt_range lo hi m = Some (filter (\<lambda>e. in_bounds lo hi (fst e)) m))"
  using range_is_empty_sound by (auto simp: bt_range_nonempty)

text \<open>C22. Clipping a scan's bounds to a child's pivots keeps exactly the keys that route to the child.\<close>

theorem child_bounds_route:
  assumes "sorted_wrt (<) ps" "i \<le> length ps"
  shows "\<exists>l u. child_lo lo ps i = Some l \<and> child_hi hi ps i = Some u \<and>
    (\<forall>k. in_bounds l u k \<longleftrightarrow> in_bounds lo hi k \<and> route ps k = i)"
  using child_bounds [OF assms] by metis

theorem child_bounds_route_witness:
  "\<exists>l u. child_lo Unbounded [[5]] 1 = Some l \<and> child_hi Unbounded [[5]] 1 = Some u \<and>
     in_bounds l u [7] \<and> \<not> in_bounds l u [3]"
proof -
  obtain l u where lu: "child_lo Unbounded [[5]] 1 = Some l" "child_hi Unbounded [[5]] 1 = Some u"
    "\<forall>k. in_bounds l u k \<longleftrightarrow> in_bounds Unbounded Unbounded k \<and> route [[5]] k = 1"
    using child_bounds_route [of "[[5]]" 1 Unbounded Unbounded] by auto
  have "route [[5]] [7 :: u8] = 1" "route [[5]] [3 :: u8] = 0" by (simp_all add: route_Cons)
  then have "in_bounds l u [7]" "\<not> in_bounds l u [3]"
    using lu(3) [rule_format, of "[7]"] lu(3) [rule_format, of "[3]"] by (simp_all add: in_bounds_def)
  with lu(1,2) show ?thesis by blast
qed

section \<open>Traces\<close>

text \<open>C23. A trace written as JSON lines and read back is the same trace, for any encoder and decoder of
  single events that put an event on one non-blank line and take it back.\<close>

theorem jsonl_round_trip:
  assumes "\<forall>e\<in>set es. json_faithful enc dec e"
  shows "\<exists>text. to_jsonl enc es = Some text \<and> from_jsonl dec text = Some es"
  using jsonl_round_trip_aux [OF assms] .

theorem jsonl_round_trip_witness:
  "\<exists>text. to_jsonl (\<lambda>e. Some (if e = Get [1] then ''a'' else ''b'')) [Get [1], Get [2], Get [1]] = Some text \<and>
     from_jsonl (\<lambda>l. Some (if l = ''a'' then Get [1] else Get [2])) text = Some [Get [1], Get [2], Get [1]]"
  using jsonl_round_trip [of "[Get [1], Get [2], Get [1]]" "\<lambda>e. Some (if e = Get [1] then ''a'' else ''b'')"
    "\<lambda>l. Some (if l = ''a'' then Get [1] else Get [2])"]
  by (simp add: json_faithful_def newline_def is_space_def)

text \<open>C24. The closed first trace of a tree stays the projection of its complete trace: inserts, point
  reads and flush decisions in the same order, nothing else.\<close>

theorem betree_traces_agree:
  assumes "betree_inv s" "kv_apply (BeTree pol) op s = Some s'"
  shows "kv_trace (BeTree pol) s' = List.map_filter project_v1 (kv_trace2 (BeTree pol) s') \<and>
    trace_ops (kv_trace2 (BeTree pol) s') = trace_ops (kv_trace2 (BeTree pol) s) @ [op]"
  using betree_apply_ok [OF assms(1), of pol op] assms(2)
  by (auto simp: BeTree_def betree_inv_def arena_ok_def v1_view_def)

theorem betree_traces_agree_witness:
  "\<exists>s'. kv_apply (BeTree GreedyFullest) (Insert2 [9] [1]) sample_tree = Some s' \<and>
     trace_ops (kv_trace2 (BeTree GreedyFullest) s') = [Insert2 [9] [1]]"
proof -
  obtain s' where s': "kv_apply (BeTree GreedyFullest) (Insert2 [9] [1]) sample_tree = Some s'"
    using betree_apply_ok [OF sample_inv] by blast
  have "trace_ops (kv_trace2 (BeTree GreedyFullest) sample_tree) = []"
    by (simp add: BeTree_def sample_tree_def recorder_default_def)
  with betree_traces_agree [OF sample_inv s'] s' show ?thesis by simp
qed

end
